(* ===== verification/Prelude.thy ===== *)
theory Prelude
  imports Main "HOL-Library.Word"
begin

unbundle bit_operations_syntax

text \<open>
  Shared vocabulary of the development: the C integer types of the firmware as words,
  the error numbers its functions return, bytes copied into a buffer (\<open>memcpy\<close>),
  and the list and word lemmas the component theories rely on.
\<close>

section \<open>Machine integers\<close>

type_synonym u8 = "8 word"
type_synonym u16 = "16 word"
type_synonym u32 = "32 word"
type_synonym u64 = "64 word"
type_synonym bytes = "u8 list"

named_theorems word_norm \<open>rewrites that move word facts to natural numbers\<close>

lemmas [word_norm] = word_less_nat_alt word_le_nat_alt unat_word_ariths

lemma unat_u8_less [simp]: "unat (x :: u8) < 256"
  using unsigned_less [of x, where 'a = nat] by simp

lemma unat_u16_less [simp]: "unat (x :: u16) < 65536"
  using unsigned_less [of x, where 'a = nat] by simp

lemma unat_u32_less [simp]: "unat (x :: u32) < 4294967296"
  using unsigned_less [of x, where 'a = nat] by simp

lemma unat_u64_less [simp]: "unat (x :: u64) < 18446744073709551616"
  using unsigned_less [of x, where 'a = nat] by simp

lemma uint_u32_less [simp]: "uint (x :: u32) < 4294967296"
  using unsigned_less [of x, where 'a = int] by simp

lemma unat_sub_u32: "unat (a - b :: u32) = (if unat b \<le> unat a then unat a - unat b else 2 ^ 32 + unat a - unat b)"
  by (simp add: unat_sub_if' word_le_nat_alt) arith

lemma sint_u32: "sint (v :: u32) = (if unat v < 2 ^ 31 then int (unat v) else int (unat v) - 2 ^ 32)"
proof -
  obtain n where n: "n = int (unat v)" "n < 2 ^ 32" "0 \<le> n" by simp
  have s: "sint v = (n + 2 ^ 31) mod 2 ^ 32 - 2 ^ 31"
    using int_word_sint [of "uint v", where 'a = 32] by (simp add: n(1))
  have "(n + 2 ^ 31) mod 2 ^ 32 = (if n < 2 ^ 31 then n + 2 ^ 31 else n - 2 ^ 31)"
  proof (cases "n < 2 ^ 31")
    case False
    have "n + 2 ^ 31 = (n - 2 ^ 31) + 2 ^ 32" by simp
    then have "(n + 2 ^ 31) mod 2 ^ 32 = (n - 2 ^ 31) mod 2 ^ 32" by (simp only: mod_add_self2)
    then show ?thesis using False n(2) by simp
  qed (use n(3) in simp)
  moreover have "unat v < 2 ^ 31 \<longleftrightarrow> n < 2 ^ 31" unfolding n(1) by (simp only: of_nat_less_iff [symmetric, where ?'a = int] of_nat_power of_nat_numeral)
  ultimately show ?thesis unfolding s by (simp add: n(1))
qed

lemma sint_u32_neg: "sint (v :: u32) < 0 \<longleftrightarrow> 2 ^ 31 \<le> unat v"
  unfolding sint_u32 by auto

text \<open>The two bytes of a 16-bit value, low byte first, and the value they make.\<close>

definition lo8 :: "u16 \<Rightarrow> u8" where
  "lo8 x = ucast (x AND 0xFF)"

definition hi8 :: "u16 \<Rightarrow> u8" where
  "hi8 x = ucast (drop_bit 8 x AND 0xFF)"

lemma byte_mask: "(0xFF :: 'a::len word) = mask 8"
  by (simp add: mask_eq_exp_minus_1)

lemma ucast_lo8: "ucast (lo8 x) = x AND 0xFF"
  unfolding lo8_def byte_mask by (rule bit_word_eqI) (auto simp: bit_simps)

lemma ucast_hi8: "ucast (hi8 x) = drop_bit 8 x"
  unfolding hi8_def byte_mask
  by (rule bit_word_eqI) (auto simp: bit_simps dest: bit_imp_le_length)

lemma lo8_hi8_combine: "(ucast (lo8 x) :: u16) OR push_bit 8 (ucast (hi8 x)) = x"
  unfolding lo8_def hi8_def byte_mask
  by (rule bit_word_eqI) (auto simp: bit_simps not_less)

text \<open>Two bytes, or two 16-bit values, are equal if their bits are.\<close>

lemma u8_bits: "a = (b :: u8) \<longleftrightarrow> bit a 0 = bit b 0 \<and> bit a 1 = bit b 1 \<and> bit a 2 = bit b 2 \<and> bit a 3 = bit b 3 \<and> bit a 4 = bit b 4 \<and> bit a 5 = bit b 5 \<and> bit a 6 = bit b 6 \<and> bit a 7 = bit b 7"
proof -
  have "a = b \<longleftrightarrow> (\<forall>n < 8. bit a n = bit b n)" by (auto intro: bit_word_eqI)
  then show ?thesis by (simp add: eval_nat_numeral All_less_Suc conj_ac)
qed

lemma u16_bits: "a = (b :: u16) \<longleftrightarrow> bit a 0 = bit b 0 \<and> bit a 1 = bit b 1 \<and> bit a 2 = bit b 2 \<and> bit a 3 = bit b 3 \<and> bit a 4 = bit b 4 \<and> bit a 5 = bit b 5 \<and> bit a 6 = bit b 6 \<and> bit a 7 = bit b 7 \<and> 
    bit a 8 = bit b 8 \<and> bit a 9 = bit b 9 \<and> bit a 10 = bit b 10 \<and> bit a 11 = bit b 11 \<and> bit a 12 = bit b 12 \<and> bit a 13 = bit b 13 \<and> bit a 14 = bit b 14 \<and> bit a 15 = bit b 15"
proof -
  have "a = b \<longleftrightarrow> (\<forall>n < 16. bit a n = bit b n)" by (auto intro: bit_word_eqI)
  then show ?thesis by (simp add: eval_nat_numeral All_less_Suc conj_ac)
qed

section \<open>Error numbers\<close>

text \<open>The values of the firmware's \<^verbatim>\<open>errno.h\<close>; functions return them negated.\<close>

abbreviation (input) ENOENT :: int where "ENOENT \<equiv> 2"
abbreviation (input) ESRCH :: int where "ESRCH \<equiv> 3"
abbreviation (input) EIO :: int where "EIO \<equiv> 5"
abbreviation (input) ENOMEM :: int where "ENOMEM \<equiv> 12"
abbreviation (input) EACCES :: int where "EACCES \<equiv> 13"
abbreviation (input) ENODEV :: int where "ENODEV \<equiv> 19"
abbreviation (input) EINVAL :: int where "EINVAL \<equiv> 22"

section \<open>Copying bytes into a buffer\<close>

text \<open>
  \<open>memcpy(buf + off, src, n)\<close> on a buffer held as a list: \<open>off + n\<close> stays within
  the buffer in every call the models make, which the components prove where it matters.
\<close>

definition blit :: "'a list \<Rightarrow> nat \<Rightarrow> 'a list \<Rightarrow> 'a list" where
  "blit buf off src = take off buf @ src @ drop (off + length src) buf"

lemma length_blit [simp]:
  "off + length src \<le> length buf \<Longrightarrow> length (blit buf off src) = length buf"
  by (simp add: blit_def)

lemma nth_blit:
  "off + length src \<le> length buf \<Longrightarrow> i < length buf \<Longrightarrow>
   blit buf off src ! i = (if off \<le> i \<and> i < off + length src then src ! (i - off) else buf ! i)"
  by (auto simp: blit_def nth_append min_def)

lemma take_blit_0: "length src \<le> length buf \<Longrightarrow> take (length src) (blit buf 0 src) = src"
  by (simp add: blit_def)

lemma blit_Nil [simp]: "blit buf off [] = buf"
  by (simp add: blit_def)

section \<open>Indices of a circular buffer\<close>

lemma mod_succ: "a < (n::nat) \<Longrightarrow> Suc a mod n = (if Suc a = n then 0 else Suc a)"
  by auto

lemma mod_ring_diff:
  assumes "h < (n::nat)" "t < n"
  shows "(h + n - t) mod n = (if t \<le> h then h - t else h + n - t)"
proof (cases "t \<le> h")
  case True
  then have "h + n - t = (h - t) + n" by simp
  then have "(h + n - t) mod n = (h - t) mod n" by (simp only: mod_add_self2)
  then show ?thesis using True assms by simp
qed (use assms in simp)

lemma mod_ring_add:
  assumes "t < (n::nat)" "i < n"
  shows "(t + i) mod n = (if t + i < n then t + i else t + i - n)"
proof (cases "t + i < n")
  case False
  then have "(t + i) mod n = (t + i - n) mod n" by (simp only: le_mod_geq not_less)
  then show ?thesis using False assms by simp
qed simp

lemma mod_ring_pos:
  assumes "h < (n::nat)" "t < n" "i \<le> (h + n - t) mod n"
  shows "(t + i) mod n = h \<longleftrightarrow> i = (h + n - t) mod n"
proof -
  have "i < n" using assms mod_less_divisor [of n "h + n - t"] by linarith
  then show ?thesis
    using assms(3) unfolding mod_ring_diff [OF assms(1,2)] mod_ring_add [OF assms(2) \<open>i < n\<close>]
    using assms(1,2) by (auto split: if_splits)
qed

lemma mod_ring_full:
  assumes "h < (n::nat)" "t < n"
  shows "Suc h mod n = t \<longleftrightarrow> (h + n - t) mod n = n - 1"
  unfolding mod_ring_diff [OF assms] mod_succ [OF assms(1)] using assms by (auto split: if_splits)

lemma mod_ring_grow:
  assumes "h < (n::nat)" "t < n" "(h + n - t) mod n \<noteq> n - 1"
  shows "(Suc h mod n + n - t) mod n = (h + n - t) mod n + 1"
proof -
  define h' where "h' = Suc h mod n"
  have h': "h' < n" "h' = (if Suc h = n then 0 else Suc h)"
    unfolding h'_def using assms(1) mod_succ [OF assms(1)] by simp_all
  show ?thesis
    using assms(3) unfolding h'_def [symmetric] mod_ring_diff [OF h'(1) assms(2)] mod_ring_diff [OF assms(1,2)]
    using h'(2) assms(1,2) by (simp split: if_splits; arith)
qed

lemma mod_ring_shrink:
  assumes "h < (n::nat)" "t < n" "(h + n - t) mod n \<noteq> 0"
  shows "(h + n - Suc t mod n) mod n = (h + n - t) mod n - 1"
proof -
  define t' where "t' = Suc t mod n"
  have t': "t' < n" "t' = (if Suc t = n then 0 else Suc t)"
    unfolding t'_def using assms(2) mod_succ [OF assms(2)] by simp_all
  show ?thesis
    using assms(3) unfolding t'_def [symmetric] mod_ring_diff [OF assms(1) t'(1)] mod_ring_diff [OF assms(1,2)]
    using t'(2) assms(1,2) by (simp split: if_splits; arith)
qed

text \<open>Distance from one position to another, going up and wrapping around.\<close>

lemma mod_ring_distance:
  assumes "0 < (n::nat)" "k < n"
  shows "((a + k) mod n + n - a mod n) mod n = k"
proof -
  have a: "a mod n < n" using assms by simp
  have "(a + k) mod n = (a mod n + k) mod n" by (simp add: mod_add_left_eq)
  then have "(a + k) mod n = (if a mod n + k < n then a mod n + k else a mod n + k - n)"
    using mod_ring_add [OF a assms(2)] by simp
  then show ?thesis
    using a assms(2) mod_ring_diff [of "(a + k) mod n" n "a mod n"] assms(1) by (auto split: if_splits)
qed

text \<open>The \<open>n\<close> elements from a position on, and a block written from a position on.\<close>

definition ring_slice :: "'a list \<Rightarrow> nat \<Rightarrow> nat \<Rightarrow> 'a list" where
  "ring_slice m off n = map (\<lambda>i. m ! ((off + i) mod length m)) [0..<n]"

definition ring_write :: "'a list \<Rightarrow> nat \<Rightarrow> 'a list \<Rightarrow> 'a list" where
  "ring_write m off d =
     (if length d \<le> length m - off then blit m off d
      else blit (blit m off (take (length m - off) d)) 0 (drop (length m - off) d))"

lemma length_ring_slice [simp]: "length (ring_slice m off n) = n"
  by (simp add: ring_slice_def)

lemma nth_ring_slice [simp]: "i < n \<Longrightarrow> ring_slice m off n ! i = m ! ((off + i) mod length m)"
  by (simp add: ring_slice_def)

lemma ring_slice_mod: "ring_slice m (off mod length m) n = ring_slice m off n"
  by (simp add: ring_slice_def mod_add_left_eq)

lemma take_ring_slice: "k \<le> n \<Longrightarrow> take k (ring_slice m off n) = ring_slice m off k"
  by (simp add: ring_slice_def take_map)

lemma drop_ring_slice: "k \<le> n \<Longrightarrow> drop k (ring_slice m off n) = ring_slice m (off + k) (n - k)"
  by (rule nth_equalityI) (auto simp: ring_slice_def add.assoc)

lemma ring_slice_contiguous:
  "off + n \<le> length m \<Longrightarrow> off < length m \<Longrightarrow> ring_slice m off n = take n (drop off m)"
  by (rule nth_equalityI) auto

lemma ring_slice_wrapped:
  assumes "off < length m" "n \<le> length m" "length m < off + n"
  shows "ring_slice m off n = drop off m @ take (n - (length m - off)) m"
proof (rule nth_equalityI)
  fix i assume "i < length (ring_slice m off n)"
  then show "ring_slice m off n ! i = (drop off m @ take (n - (length m - off)) m) ! i"
    using assms mod_ring_add [of off "length m" i] by (auto simp: nth_append add.commute)
qed (use assms in simp)

lemma length_ring_write [simp]:
  "off < length m \<Longrightarrow> length d \<le> length m \<Longrightarrow> length (ring_write m off d) = length m"
  by (simp add: ring_write_def)

lemma nth_ring_write:
  assumes "off < length m" "length d \<le> length m" "j < length m"
  shows "ring_write m off d ! j = (let i = (j + length m - off) mod length m in if i < length d then d ! i else m ! j)"
proof -
  have i: "(j + length m - off) mod length m = (if off \<le> j then j - off else j + length m - off)"
    using assms by (intro mod_ring_diff)
  show ?thesis
    unfolding i using assms by (auto simp: ring_write_def nth_blit Let_def add.commute)
qed

text \<open>Writing behind the stored elements appends to them.\<close>

lemma ring_slice_write:
  assumes "0 < length m" "l + length d \<le> length m"
  shows "ring_slice (ring_write m ((h + l) mod length m) d) h (l + length d) = ring_slice m h l @ d"
proof (rule nth_equalityI)
  fix i assume "i < length (ring_slice (ring_write m ((h + l) mod length m) d) h (l + length d))"
  then have i: "i < l + length d" by simp
  let ?N = "length m" and ?o = "(h + l) mod length m"
  have o: "?o < ?N" using assms(1) by simp
  have j: "(h + i) mod ?N < ?N" using assms(1) by simp
  have nth: "ring_slice (ring_write m ?o d) h (l + length d) ! i =
      (let k = ((h + i) mod ?N + ?N - ?o) mod ?N in if k < length d then d ! k else m ! ((h + i) mod ?N))"
    using i o assms nth_ring_write [OF o _ j, of d] by simp
  show "ring_slice (ring_write m ?o d) h (l + length d) ! i = (ring_slice m h l @ d) ! i"
  proof (cases "i < l")
    case False
    then obtain k where k: "i = l + k" "k < length d" using i by (metis add_less_cancel_left le_add_diff_inverse not_less)
    then have "((h + i) mod ?N + ?N - ?o) mod ?N = k"
      using mod_ring_distance [of ?N k "h + l"] assms by (simp add: add.assoc)
    then show ?thesis using nth k by (simp add: nth_append)
  next
    case True
    have d: "(?o + ?N - (h + i) mod ?N) mod ?N = (l - i) mod ?N" if "l - i < ?N"
      using mod_ring_distance [of ?N "l - i" "h + i"] assms(1) True that by simp
    have "length d \<le> ((h + i) mod ?N + ?N - ?o) mod ?N \<or> length d = 0"
    proof (cases "l - i < ?N")
      case lt: True
      have "(?o + ?N - (h + i) mod ?N) mod ?N = l - i" using d [OF lt] lt by simp
      then show ?thesis
        using mod_ring_diff [OF o j] mod_ring_diff [OF j o] True assms(2) o j by (auto split: if_splits)
    next
      case False
      then show ?thesis using assms(2) True by linarith
    qed
    then show ?thesis using nth True by (auto simp: nth_append)
  qed
qed (use assms in simp)

text \<open>Pieces of a circular range.\<close>

lemma ring_write_append:
  assumes "off < length m" "off + length xs \<le> length m" "length xs + length ys \<le> length m"
  shows "ring_write m off (xs @ ys) =
     ring_write (blit m off xs) (if off + length xs \<ge> length m then 0 else off + length xs) ys"
proof (rule nth_equalityI)
  let ?o = "if off + length xs \<ge> length m then 0 else off + length xs"
  have b: "length (blit m off xs) = length m" using assms(2) by simp
  have o: "?o < length m" using assms(1) by (cases m) auto
  show "length (ring_write m off (xs @ ys)) = length (ring_write (blit m off xs) ?o ys)"
    using assms b o by simp
  fix j assume "j < length (ring_write m off (xs @ ys))"
  then have j: "j < length m" using assms by simp
  have d: "(j + length m - off) mod length m = (if off \<le> j then j - off else j + length m - off)"
    "(j + length m - ?o) mod length m = (if ?o \<le> j then j - ?o else j + length m - ?o)"
    using mod_ring_diff [OF j assms(1)] mod_ring_diff [OF j o] by blast+
  have l: "ring_write m off (xs @ ys) ! j =
      (let i = (j + length m - off) mod length m in if i < length (xs @ ys) then (xs @ ys) ! i else m ! j)"
    using assms j by (intro nth_ring_write) simp_all
  have r: "ring_write (blit m off xs) ?o ys ! j =
      (let i = (j + length m - ?o) mod length m in if i < length ys then ys ! i else blit m off xs ! j)"
    using nth_ring_write [of ?o "blit m off xs" ys j] b o assms(3) j by simp
  show "ring_write m off (xs @ ys) ! j = ring_write (blit m off xs) ?o ys ! j"
    unfolding l r d Let_def nth_blit [OF assms(2) j]
    using assms j by (auto simp: nth_append split: if_splits)
qed

lemma ring_slice_append: "ring_slice m off (k + n) = ring_slice m off k @ ring_slice m (off + k) n"
  using take_ring_slice [of k "k + n" m off] drop_ring_slice [of k "k + n" m off]
  by (metis add_diff_cancel_left' append_take_drop_id le_add1)

section \<open>Sequences of operations\<close>

text \<open>Operations one after the other, and the condition that each of them is admissible in the abstract state
  the earlier ones lead to.\<close>

fun run_steps :: "('c \<Rightarrow> 's \<Rightarrow> 's option) \<Rightarrow> 'c list \<Rightarrow> 's \<Rightarrow> 's option" where
  "run_steps step [] s = Some s"
| "run_steps step (cmd # cmds) s = Option.bind (step cmd s) (run_steps step cmds)"

fun all_fit :: "('c \<Rightarrow> 'm \<Rightarrow> 'm) \<Rightarrow> ('m \<Rightarrow> 'c \<Rightarrow> bool) \<Rightarrow> 'm \<Rightarrow> 'c list \<Rightarrow> bool" where
  "all_fit spec fits M [] \<longleftrightarrow> True"
| "all_fit spec fits M (cmd # cmds) \<longleftrightarrow> fits M cmd \<and> all_fit spec fits (spec cmd M) cmds"

text \<open>The interface of a component whose operations implement those on an abstract state.\<close>

locale step_refinement =
  fixes step :: "'c \<Rightarrow> 's \<Rightarrow> 's option" and spec :: "'c \<Rightarrow> 'm \<Rightarrow> 'm" and fits :: "'m \<Rightarrow> 'c \<Rightarrow> bool" and holds :: "'s \<Rightarrow> 'm \<Rightarrow> bool"
  assumes step_law: "holds s M \<Longrightarrow> fits M cmd \<Longrightarrow> \<exists>s'. step cmd s = Some s' \<and> holds s' (spec cmd M)"
begin

lemma run_refines:
  "holds s M \<Longrightarrow> all_fit spec fits M cmds \<Longrightarrow> \<exists>s'. run_steps step cmds s = Some s' \<and> holds s' (fold spec cmds M)"
proof (induction cmds arbitrary: s M)
  case (Cons cmd cmds)
  obtain s1 where "step cmd s = Some s1" "holds s1 (spec cmd M)"
    using step_law [OF Cons.prems(1)] Cons.prems(2) by auto
  then show ?case using Cons.IH [of s1 "spec cmd M"] Cons.prems(2) by simp
qed simp

end

end
