(* ===== verification/Crc.thy ===== *)
theory Crc
  imports Prelude
begin

text \<open>
  The checksums of the firmware: the CRC-16 of the PY32 link
  (\<^verbatim>\<open>system_app_py32_uart.c\<close>), the CRC-8 and the name hash of the NVRAM store
  (\<^verbatim>\<open>nvram_config.c\<close>) and the CRC-32 of \<^verbatim>\<open>utils/crc/crc.c\<close>.
  The three CRCs are reflected shift registers; the locale \<open>reflected_crc\<close> states what
  one step of such a register is and proves linearity, injectivity and shifting once. Each
  CRC interprets it.
\<close>

section \<open>Cancellation of exclusive or\<close>

lemma xor_right_cancel: "(a XOR c = b XOR c) = (a = (b :: 'a::len word))"
proof
  assume "a XOR c = b XOR c"
  then have "(a XOR c) XOR c = (b XOR c) XOR c" by simp
  then show "a = b" by (simp add: xor.assoc)
qed simp

lemma xor_left_cancel: "(c XOR a = c XOR b) = (a = (b :: 'a::len word))"
  by (simp add: xor.commute [of c] xor_right_cancel)

lemma xor_eq_0_iff: "(a XOR b = 0) = (a = (b :: 'a::len word))"
  using xor_right_cancel [of a b b] by simp

lemma and_1_neq_0: "(x AND 1 \<noteq> 0) = bit (x :: 'a::len word) 0"
  by (simp add: bit_0 and_one_eq odd_iff_mod_2_eq_one)

lemma bit_drop_1_top: "\<not> bit (drop_bit 1 (x :: 'a::len word)) (LENGTH('a) - 1)"
  by (auto simp: bit_drop_bit_eq dest: bit_imp_le_length)

section \<open>Nibbles\<close>

lemma funpow_4: "(f ^^ 4) x = f (f (f (f x)))" by (simp add: eval_nat_numeral)
lemma funpow_8: "(f ^^ 8) x = f (f (f (f (f (f (f (f x)))))))" by (simp add: eval_nat_numeral)

lemma split_bits: "x = take_bit k x XOR push_bit k (drop_bit k x)" for x :: "'a::len word"
  by (rule bit_word_eqI) (auto simp: bit_simps)

lemma nibble_cases:
  assumes "take_bit 4 x = (x :: 'a::len word)"
  shows "x \<in> {0, 1, 2, 3, 4, 5, 6, 7, 8, 9, 10, 11, 12, 13, 14, 15}"
proof -
  have "unat x = take_bit 4 (unat x)"
    using arg_cong [OF assms, of unat] by (simp add: unsigned_take_bit_eq)
  then have "unat x < 16"
    using take_bit_nat_less_exp [of 4 "unat x"] by simp
  then have "unat x \<in> set [0..<16]" by simp
  also have "set [0..<16] = {0, 1, 2, 3, 4, 5, 6, 7, 8, 9, 10, 11, 12, 13, 14, 15::nat}"
    by code_simp
  finally have "unat x \<in> {0, 1, 2, 3, 4, 5, 6, 7, 8, 9, 10, 11, 12, 13, 14, 15}" .
  then have "word_of_nat (unat x) \<in> (word_of_nat ` {0, 1, 2, 3, 4, 5, 6, 7, 8, 9, 10, 11, 12, 13, 14, 15} :: 'a word set)"
    by (rule imageI)
  then show ?thesis by simp
qed

lemma nibble_mask: "(0xF :: 'a::len word) = mask 4"
  by (simp add: mask_eq_exp_minus_1)

section \<open>Reflected shift registers\<close>

locale reflected_crc =
  fixes step :: "'a::len word \<Rightarrow> 'a word" and poly :: "'a word"
  assumes step_eq: "step x = drop_bit 1 x XOR (if bit x 0 then poly else 0)"
    and poly_top: "bit poly (LENGTH('a) - 1)"
begin

lemma step_xor: "step (a XOR b) = step a XOR step b"
  by (simp add: step_eq bit_xor_iff drop_bit_xor ac_simps xor.left_commute)

lemma steps_xor: "(step ^^ n) (a XOR b) = (step ^^ n) a XOR (step ^^ n) b"
  by (induction n) (simp_all add: step_xor)

lemma step_0: "step 0 = 0"
  by (simp add: step_eq)

lemma steps_0: "(step ^^ n) 0 = 0"
  by (induction n) (simp_all add: step_0)

lemma step_eq_0: "step x = 0 \<Longrightarrow> x = 0"
proof (rule bit_word_eqI)
  fix n assume x: "step x = 0"
  have b0: "\<not> bit x 0"
  proof
    assume "bit x 0"
    then have "bit (step x) (LENGTH('a) - 1)"
      using bit_drop_1_top [of x] poly_top by (simp only: step_eq bit_xor_iff) simp
    then show False using x by simp
  qed
  then have d: "drop_bit 1 x = 0"
    using x by (simp add: step_eq)
  have "bit x (Suc m) = False" for m
    using arg_cong [OF d, of "\<lambda>w. bit w m"] by (simp add: bit_drop_bit_eq)
  then show "bit x n = bit 0 n"
    using b0 by (cases n) auto
qed

lemma steps_eq_0: "(step ^^ n) x = 0 \<Longrightarrow> x = 0"
  by (induction n) (auto dest: step_eq_0)

lemma steps_inject: "((step ^^ n) a = (step ^^ n) b) = (a = b)"
proof
  assume "(step ^^ n) a = (step ^^ n) b"
  then have "(step ^^ n) (a XOR b) = 0" by (simp add: steps_xor)
  then show "a = b" using steps_eq_0 xor_eq_0_iff by blast
qed simp

text \<open>While the low bits are zero a step is a plain shift.\<close>

lemma steps_shift: "(\<forall>i<n. \<not> bit x i) \<Longrightarrow> (step ^^ n) x = drop_bit n x"
proof (induction n arbitrary: x)
  case (Suc n)
  have "step x = drop_bit 1 x"
    using Suc.prems by (simp add: step_eq)
  moreover have "\<forall>i<n. \<not> bit (drop_bit 1 x) i"
    using Suc.prems by (simp add: bit_drop_bit_eq)
  ultimately show ?case
    using Suc.IH [of "drop_bit 1 x"] by (simp add: funpow_swap1 drop_bit_drop_bit)
qed simp

text \<open>A table indexed by the low \<open>k\<close> bits advances the register by \<open>k\<close> steps.\<close>

lemma steps_split: "(step ^^ k) x = drop_bit k x XOR (step ^^ k) (take_bit k x)"
proof -
  let ?h = "push_bit k (drop_bit k x)"
  have x: "x = ?h XOR take_bit k x"
    by (rule bit_word_eqI) (auto simp: bit_simps)
  have "(step ^^ k) ?h = drop_bit k ?h"
    by (rule steps_shift) (simp add: bit_push_bit_iff)
  also have "\<dots> = drop_bit k x"
    by (rule bit_word_eqI) (auto simp: bit_simps dest: bit_imp_le_length)
  finally have "(step ^^ k) ?h = drop_bit k x" .
  then show ?thesis
    using arg_cong [OF x, of "step ^^ k"] by (simp add: steps_xor)
qed

end

section \<open>The CRC-16 of the PY32 link\<close>

definition crc16_bit :: "u16 \<Rightarrow> u16" where
  "crc16_bit crc = (if crc AND 0x0001 \<noteq> 0 then drop_bit 1 crc XOR 0xA001 else drop_bit 1 crc)"

definition crc16_byte :: "u16 \<Rightarrow> u8 \<Rightarrow> u16" where
  "crc16_byte crc d = (crc16_bit ^^ 8) (crc XOR ucast d)"

definition py32_crc16 :: "bytes \<Rightarrow> u16 \<Rightarrow> u16" where
  "py32_crc16 data len = foldl crc16_byte 0xFFFF (take (unat len) data)"

interpretation crc16: reflected_crc crc16_bit "0xA001"
  by unfold_locales (simp_all add: crc16_bit_def and_1_neq_0 bit_numeral_rec)

subsection \<open>Residue: a message followed by its own checksum\<close>

lemma crc16_byte_lo: "crc16_byte c (lo8 c) = drop_bit 8 c"
proof -
  have "(crc16_bit ^^ 8) (c XOR ucast (lo8 c)) = drop_bit 8 (c XOR ucast (lo8 c))"
    by (rule crc16.steps_shift) (auto simp: ucast_lo8 byte_mask bit_simps)
  also have "\<dots> = drop_bit 8 c"
    by (rule bit_word_eqI) (auto simp: ucast_lo8 byte_mask bit_simps)
  finally show ?thesis by (simp add: crc16_byte_def)
qed

lemma crc16_residue: "foldl crc16_byte c [lo8 c, hi8 c] = 0"
  by (simp add: crc16_byte_lo) (simp add: crc16_byte_def ucast_hi8 crc16.steps_0)

subsection \<open>Burst errors\<close>

lemma crc16_fold_inject: "(foldl crc16_byte a ds = foldl crc16_byte b ds) = (a = b)"
proof (induction ds arbitrary: a b)
  case (Cons d ds)
  have "(crc16_byte a d = crc16_byte b d) = (a = b)"
    by (simp add: crc16_byte_def crc16.steps_inject xor_right_cancel)
  then show ?case using Cons.IH by simp
qed simp

lemma crc16_bits_high_byte: "(crc16_bit ^^ 8) (push_bit 8 (ucast (d :: u8))) = ucast d"
proof -
  have "(crc16_bit ^^ 8) (push_bit 8 (ucast d)) = drop_bit 8 (push_bit 8 (ucast d) :: u16)"
    by (rule crc16.steps_shift) (simp add: bit_push_bit_iff)
  also have "\<dots> = ucast d"
    by (rule bit_word_eqI) (auto simp: bit_simps dest: bit_imp_le_length)
  finally show ?thesis .
qed

lemma crc16_two_bytes:
  "crc16_byte (crc16_byte c x) y
     = (crc16_bit ^^ 16) (c XOR (ucast x OR push_bit 8 (ucast y)))"
proof -
  have or_xor: "(ucast x :: u16) OR push_bit 8 (ucast y) = ucast x XOR push_bit 8 (ucast y)"
    by (rule bit_word_eqI) (auto simp: bit_simps dest: bit_imp_le_length)
  have "crc16_byte (crc16_byte c x) y
     = (crc16_bit ^^ 8) ((crc16_bit ^^ 8) (c XOR ucast x) XOR (crc16_bit ^^ 8) (push_bit 8 (ucast y)))"
    by (simp add: crc16_byte_def crc16_bits_high_byte)
  also have "\<dots> = (crc16_bit ^^ 8) ((crc16_bit ^^ 8) (c XOR ucast x XOR push_bit 8 (ucast y)))"
    by (simp add: crc16.steps_xor xor.assoc)
  also have "\<dots> = (crc16_bit ^^ 16) (c XOR ucast x XOR push_bit 8 (ucast y))"
    by (simp add: funpow_add [of 8 8 crc16_bit, simplified])
  finally show ?thesis by (simp add: or_xor xor.assoc)
qed

lemma two_bytes_inject:
  "((ucast x :: u16) OR push_bit 8 (ucast y) = ucast x' OR push_bit 8 (ucast y')) =
     (x = x' \<and> y = (y' :: u8))" for x :: u8
proof
  assume eq: "(ucast x :: u16) OR push_bit 8 (ucast y) = ucast x' OR push_bit 8 (ucast y')"
  have "bit x n = bit x' n" if "n < 8" for n
    using arg_cong [OF eq, of "\<lambda>w. bit w n"] that by (simp add: bit_simps)
  moreover have "bit y n = bit y' n" if "n < 8" for n
    using arg_cong [OF eq, of "\<lambda>w. bit w (n + 8)"] that
    by (auto simp: bit_simps dest: bit_imp_le_length)
  ultimately show "x = x' \<and> y = y'" by (auto intro: bit_word_eqI)
qed simp

lemma crc16_burst:
  assumes "[x, y] \<noteq> [x', y']"
  shows "foldl crc16_byte c (pre @ [x, y] @ post) \<noteq> foldl crc16_byte c (pre @ [x', y'] @ post)"
proof -
  let ?c = "foldl crc16_byte c pre"
  have "crc16_byte (crc16_byte ?c x) y \<noteq> crc16_byte (crc16_byte ?c x') y'"
    using assms
    by (simp add: crc16_two_bytes crc16.steps_inject two_bytes_inject xor_left_cancel)
  then show ?thesis by (simp add: crc16_fold_inject)
qed

section \<open>The CRC-8 and the name hash of the NVRAM store\<close>

definition crc8_table :: "u8 list" where
  "crc8_table = [
    0x00, 0x5E, 0xBC, 0xE2, 0x61, 0x3F, 0xDD, 0x83,
    0xC2, 0x9C, 0x7E, 0x20, 0xA3, 0xFD, 0x1F, 0x41,
    0x00, 0x9D, 0x23, 0xBE, 0x46, 0xDB, 0x65, 0xF8,
    0x8C, 0x11, 0xAF, 0x32, 0xCA, 0x57, 0xE9, 0x74]"

definition crc8_byte :: "u8 \<Rightarrow> u8 \<Rightarrow> u8" where
  "crc8_byte crc d =
     (let crc = d XOR crc
      in crc8_table ! unat (crc AND 0x0f) XOR crc8_table ! (16 + unat (drop_bit 4 crc AND 0x0f)))"

definition calc_crc8 :: "bytes \<Rightarrow> u8 \<Rightarrow> u8" where
  "calc_crc8 data initial_crc = foldl crc8_byte initial_crc data"

definition calc_hash :: "bytes \<Rightarrow> u8" where
  "calc_hash key = foldl (+) 0 key XOR 0xa5"

text \<open>The reference: the bit-serial CRC-8/MAXIM, polynomial 0x31 reflected to 0x8C.\<close>

definition crc8_bit :: "u8 \<Rightarrow> u8" where
  "crc8_bit crc = drop_bit 1 crc XOR (if bit crc 0 then 0x8C else 0)"

interpretation crc8: reflected_crc crc8_bit "0x8C"
  by unfold_locales (simp_all add: crc8_bit_def bit_numeral_rec)

lemma crc8_low: "take_bit 4 x = x \<Longrightarrow> (crc8_bit ^^ 8) x = crc8_table ! unat x"
  by (drule nibble_cases, elim insertE emptyE)
     (simp_all add: crc8_bit_def funpow_8 bit_0 crc8_table_def)
lemma crc8_high: "take_bit 4 x = x \<Longrightarrow> (crc8_bit ^^ 8) (push_bit 4 x) = crc8_table ! (16 + unat x)"
  by (drule nibble_cases, elim insertE emptyE)
     (simp_all add: crc8_bit_def funpow_8 bit_0 crc8_table_def)

lemma crc8_steps:
  "(crc8_bit ^^ 8) x = crc8_table ! unat (x AND 0x0f) XOR crc8_table ! (16 + unat (drop_bit 4 x AND 0x0f))"
proof -
  let ?h = "drop_bit 4 x"
  have h: "take_bit 4 ?h = ?h"
    by (rule bit_word_eqI) (auto simp: bit_simps dest: bit_imp_le_length)
  have "(crc8_bit ^^ 8) x = (crc8_bit ^^ 8) (take_bit 4 x) XOR (crc8_bit ^^ 8) (push_bit 4 ?h)"
    by (subst split_bits [of x 4]) (rule crc8.steps_xor)
  then show ?thesis
    using h by (simp add: crc8_low [of "take_bit 4 x"] crc8_high [of ?h] nibble_mask take_bit_eq_mask [symmetric])
qed

lemma crc8_byte_serial: "crc8_byte crc d = (crc8_bit ^^ 8) (crc XOR d)"
  unfolding crc8_byte_def Let_def crc8_steps xor.commute [of d] ..

text \<open>The table-driven CRC-8 that guards every NVRAM segment header and item is the bit-serial
  CRC-8/MAXIM the source's comment names, for every initial value and every byte string.\<close>

theorem calc_crc8_bit_serial:
  "calc_crc8 data initial_crc = foldl (\<lambda>crc d. (crc8_bit ^^ 8) (crc XOR d)) initial_crc data"
  by (simp add: calc_crc8_def crc8_byte_serial [abs_def])

section \<open>The CRC-32 of the utilities\<close>

definition s_crc32 :: "u32 list" where
  "s_crc32 = [0, 0x1db71064, 0x3b6e20c8, 0x26d930ac, 0x76dc4190, 0x6b6b51f4, 0x4db26158,
     0x5005713c, 0xedb88320, 0xf00f9344, 0xd6d6a3e8, 0xcb61b38c, 0x9b64c2b0, 0x86d3d2d4,
     0xa00ae278, 0xbdbdf21c]"

definition crc32_byte :: "u32 \<Rightarrow> u8 \<Rightarrow> u32" where
  "crc32_byte crcu32 b =
     (let crcu32 = drop_bit 4 crcu32 XOR s_crc32 ! unat ((crcu32 AND 0xF) XOR ucast (b AND 0xF));
          crcu32 = drop_bit 4 crcu32 XOR s_crc32 ! unat ((crcu32 AND 0xF) XOR ucast (drop_bit 4 b))
      in crcu32)"

definition utils_crc32 :: "u32 \<Rightarrow> bytes \<Rightarrow> u32" where
  "utils_crc32 crc data = NOT (foldl crc32_byte (NOT crc) data)"

definition crc32_bit :: "u32 \<Rightarrow> u32" where
  "crc32_bit crc = drop_bit 1 crc XOR (if bit crc 0 then 0xEDB88320 else 0)"

interpretation crc32: reflected_crc crc32_bit "0xEDB88320"
  by unfold_locales (simp_all add: crc32_bit_def bit_numeral_rec)

lemma crc32_nibble: "take_bit 4 x = x \<Longrightarrow> (crc32_bit ^^ 4) x = s_crc32 ! unat x"
  by (drule nibble_cases, elim insertE emptyE)
     (simp_all add: crc32_bit_def funpow_4 bit_0 s_crc32_def)

lemma crc32_nib: "drop_bit 4 c XOR s_crc32 ! unat ((c AND 0xF) XOR n) = (crc32_bit ^^ 4) (c XOR n)"
  if "take_bit 4 n = n"
proof -
  have t: "take_bit 4 (c XOR n) = (c AND 0xF) XOR n"
    using that by (simp add: nibble_mask take_bit_eq_mask [symmetric])
  have d: "drop_bit 4 n = 0"
    using that by (metis drop_bit_take_bit diff_self_eq_0 take_bit_0)
  show ?thesis
    using crc32.steps_split [of 4 "c XOR n"] crc32_nibble [of "take_bit 4 (c XOR n)"]
    by (simp add: t [symmetric] d drop_bit_xor del: take_bit_xor)
qed

lemma crc32_byte_serial: "crc32_byte c d = (crc32_bit ^^ 8) (c XOR ucast d)"
proof -
  let ?l = "ucast (d AND 0xF) :: u32" and ?h = "ucast (drop_bit 4 d) :: u32"
  have tl: "take_bit 4 ?l = ?l" and th: "take_bit 4 ?h = ?h"
    by (rule bit_word_eqI; auto simp: bit_simps nibble_mask dest: bit_imp_le_length)+
  have d: "(ucast d :: u32) = ?l XOR push_bit 4 ?h"
    by (rule bit_word_eqI) (auto simp: bit_simps nibble_mask not_less dest: bit_imp_le_length)
  have sh: "(crc32_bit ^^ 4) (push_bit 4 ?h) = ?h"
  proof -
    have "(crc32_bit ^^ 4) (push_bit 4 ?h) = drop_bit 4 (push_bit 4 ?h)"
      by (rule crc32.steps_shift) (simp add: bit_push_bit_iff)
    also have "\<dots> = ?h"
      by (rule bit_word_eqI) (auto simp: bit_simps dest: bit_imp_le_length)
    finally show ?thesis .
  qed
  have "crc32_byte c d = (crc32_bit ^^ 4) ((crc32_bit ^^ 4) (c XOR ?l) XOR ?h)"
    by (simp add: crc32_byte_def Let_def crc32_nib [OF tl] crc32_nib [OF th])
  also have "\<dots> = (crc32_bit ^^ 4) ((crc32_bit ^^ 4) (c XOR ucast d))"
    by (subst d, subst sh [symmetric]) (simp only: crc32.steps_xor xor.assoc)
  also have "\<dots> = (crc32_bit ^^ 8) (c XOR ucast d)"
    by (simp add: funpow_add [of 4 4 crc32_bit, simplified])
  finally show ?thesis .
qed

text \<open>(C27) The CRC-32 the OTA, partition and dump code use is the bit-serial reflected CRC-32
  (polynomial 0xEDB88320), and computing it block by block, passing the previous result as the
  seed as those callers do, gives the CRC of the whole byte string.\<close>

theorem utils_crc32_bit_serial_streaming:
  "utils_crc32 crc xs = NOT (foldl (\<lambda>c d. (crc32_bit ^^ 8) (c XOR ucast d)) (NOT crc) xs) \<and>
   utils_crc32 (utils_crc32 crc xs) ys = utils_crc32 crc (xs @ ys)"
  by (simp_all add: utils_crc32_def crc32_byte_serial [abs_def])

end
