(* ===== verification/Byte_Fifo.thy ===== *)
theory Byte_Fifo
  imports Prelude
begin

text \<open>
  The contract of a bounded byte queue, the interface both ring buffers of the firmware
  provide: the receive ring of the host protocol (filled by the DMA interrupt, emptied by the
  protocol thread) and the general \<^verbatim>\<open>acts_ringbuf\<close>. A producer may be refused part of what
  it offers; a consumer may be refused part of what it asks for; how much is the policy of the
  buffer. Its operations are compared with an abstract queue of that policy, and the client facts
  are proved once here, over arbitrary interleavings of both.
\<close>

section \<open>Sequences of queue operations\<close>

datatype 'a fifo_op = Put "'a list" | Get nat

text \<open>A run of operations: the elements accepted, the elements delivered, the final queue.\<close>

fun fifo_run ::
    "('a list \<Rightarrow> 'q \<Rightarrow> nat \<times> 'q) \<Rightarrow> (nat \<Rightarrow> 'q \<Rightarrow> 'a list \<times> 'q) \<Rightarrow> 'a fifo_op list \<Rightarrow> 'q \<Rightarrow>
     'a list \<times> 'a list \<times> 'q" where
  "fifo_run put get [] q = ([], [], q)"
| "fifo_run put get (Put xs # ops) q =
     (let (n, q) = put xs q; (ins, outs, q) = fifo_run put get ops q in (take n xs @ ins, outs, q))"
| "fifo_run put get (Get n # ops) q =
     (let (ys, q) = get n q; (ins, outs, q) = fifo_run put get ops q in (ins, ys @ outs, q))"

text \<open>What an unbounded, lossless queue would deliver to the same consumer.\<close>

fun put_only :: "'a fifo_op list \<Rightarrow> 'a list" where
  "put_only [] = []"
| "put_only (Put xs # ops) = xs @ put_only ops"
| "put_only (Get n # ops) = put_only ops"

text \<open>The abstract queue. \<open>accept\<close> says how many elements of an offer it takes, \<open>deliver\<close> how many it
  hands out, both given the number of elements queued. It returns the same three lists.\<close>

fun queue_run ::
    "(nat \<Rightarrow> nat \<Rightarrow> nat) \<Rightarrow> (nat \<Rightarrow> nat \<Rightarrow> nat) \<Rightarrow> 'a fifo_op list \<Rightarrow> 'a list \<Rightarrow> 'a list \<times> 'a list \<times> 'a list" where
  "queue_run accept deliver [] q = ([], [], q)"
| "queue_run accept deliver (Put xs # ops) q =
     (let new = take (accept (length q) (length xs)) xs; (ins, outs, q') = queue_run accept deliver ops (q @ new)
      in (new @ ins, outs, q'))"
| "queue_run accept deliver (Get m # ops) q =
     (let n = deliver (length q) m; (ins, outs, q') = queue_run accept deliver ops (drop n q)
      in (ins, take n q @ outs, q'))"

text \<open>The two policies: as many as possible, and all or none.\<close>

definition as_many :: "nat \<Rightarrow> nat \<Rightarrow> nat" where
  "as_many available n = min n available"

definition all_or_none :: "nat \<Rightarrow> nat \<Rightarrow> nat" where
  "all_or_none available n = (if n \<le> available then n else 0)"

section \<open>The contract\<close>

locale byte_fifo =
  fixes abs :: "'q \<Rightarrow> 'a list" and inv :: "'q \<Rightarrow> bool" and cap :: "'q \<Rightarrow> nat"
    and put :: "'a list \<Rightarrow> 'q \<Rightarrow> nat \<times> 'q" and get :: "nat \<Rightarrow> 'q \<Rightarrow> 'a list \<times> 'q"
    and accept :: "nat \<Rightarrow> nat \<Rightarrow> nat \<Rightarrow> nat" and deliver :: "nat \<Rightarrow> nat \<Rightarrow> nat"
  assumes inv_put: "inv q \<Longrightarrow> put xs q = (n, q') \<Longrightarrow> inv q' \<and> cap q' = cap q"
    and inv_get: "inv q \<Longrightarrow> get m q = (ys, q') \<Longrightarrow> inv q' \<and> cap q' = cap q"
    and put_law: "inv q \<Longrightarrow> put xs q = (n, q') \<Longrightarrow>
      n = accept (cap q) (length (abs q)) (length xs) \<and> abs q' = abs q @ take n xs"
    and get_law: "inv q \<Longrightarrow> get m q = (ys, q') \<Longrightarrow>
      ys = take (deliver (length (abs q)) m) (abs q) \<and> abs q' = drop (deliver (length (abs q)) m) (abs q)"
    and accept_fits: "inv q \<Longrightarrow> length (abs q) + n \<le> cap q \<Longrightarrow> accept (cap q) (length (abs q)) n = n"
    and abs_cap: "inv q \<Longrightarrow> length (abs q) \<le> cap q"
begin

lemma run_inv:
  "inv q \<Longrightarrow> fifo_run put get ops q = (ins, outs, q') \<Longrightarrow> inv q' \<and> cap q' = cap q"
proof (induction ops arbitrary: q ins outs)
  case (Cons op ops)
  then show ?case
    by (cases op) (fastforce split: prod.splits dest: inv_put inv_get)+
qed simp

text \<open>Every run accepts, delivers and leaves what the abstract queue does.\<close>

lemma run_queue:
  "inv q \<Longrightarrow> fifo_run put get ops q = (ins, outs, q') \<Longrightarrow>
   queue_run (accept (cap q)) deliver ops (abs q) = (ins, outs, abs q')"
proof (induction ops arbitrary: q ins outs)
  case (Cons op ops)
  show ?case
  proof (cases op)
    case (Put xs)
    obtain n q1 ins1 where r: "put xs q = (n, q1)" "fifo_run put get ops q1 = (ins1, outs, q')"
      "ins = take n xs @ ins1"
      using Cons.prems(2) Put by (auto split: prod.splits)
    show ?thesis
      using Cons.IH [OF _ r(2)] put_law [OF Cons.prems(1) r(1)] inv_put [OF Cons.prems(1) r(1)] r(3) Put by simp
  next
    case (Get m)
    obtain ys q1 outs1 where r: "get m q = (ys, q1)" "fifo_run put get ops q1 = (ins, outs1, q')"
      "outs = ys @ outs1"
      using Cons.prems(2) Get by (auto split: prod.splits)
    show ?thesis
      using Cons.IH [OF _ r(2)] get_law [OF Cons.prems(1) r(1)] inv_get [OF Cons.prems(1) r(1)] r(3) Get by simp
  qed
qed simp

text \<open>Whatever the interleaving, the bytes delivered followed by those still queued are the
  bytes that were queued followed by those accepted: nothing is lost, repeated or reordered.\<close>

lemma run_fifo:
  "inv q \<Longrightarrow> fifo_run put get ops q = (ins, outs, q') \<Longrightarrow> abs q @ ins = outs @ abs q'"
proof (induction ops arbitrary: q ins outs)
  case (Cons op ops)
  show ?case
  proof (cases op)
    case (Put xs)
    obtain n q1 ins1 where "put xs q = (n, q1)" "fifo_run put get ops q1 = (ins1, outs, q')"
      "ins = take n xs @ ins1"
      using Cons.prems(2) Put by (auto split: prod.splits)
    with Cons.IH [of q1 ins1 outs] Cons.prems(1) show ?thesis
      using put_law [of q xs n q1] inv_put [of q xs n q1] by simp
  next
    case (Get m)
    obtain ys q1 outs1 where g: "get m q = (ys, q1)" "fifo_run put get ops q1 = (ins, outs1, q')"
      "outs = ys @ outs1"
      using Cons.prems(2) Get by (auto split: prod.splits)
    have "abs q = ys @ abs q1" using get_law [OF Cons.prems(1) g(1)] by simp
    with g Cons.IH [of q1 ins outs1] Cons.prems(1) show ?thesis
      using inv_get [of q m ys q1] by simp
  qed
qed simp

text \<open>Once the offered bytes fit the capacity all together, none is refused.\<close>

lemma run_lossless:
  "inv q \<Longrightarrow> fifo_run put get ops q = (ins, outs, q') \<Longrightarrow>
   length (abs q) + length (put_only ops) \<le> cap q \<Longrightarrow> ins = put_only ops"
proof (induction ops arbitrary: q ins outs)
  case (Cons op ops)
  show ?case
  proof (cases op)
    case (Put xs)
    obtain n q1 ins1 where p: "put xs q = (n, q1)" and r: "fifo_run put get ops q1 = (ins1, outs, q')"
      and i: "ins = take n xs @ ins1"
      using Cons.prems(2) Put by (auto split: prod.splits)
    have "n = length xs"
      using put_law [OF Cons.prems(1) p] accept_fits [OF Cons.prems(1), of "length xs"] Cons.prems(3) Put by simp
    then show ?thesis
      using Cons.IH [of q1 ins1 outs] r i Cons.prems Put
        put_law [OF Cons.prems(1) p] inv_put [OF Cons.prems(1) p] by simp
  next
    case (Get m)
    obtain ys q1 outs1 where g: "get m q = (ys, q1)" and r: "fifo_run put get ops q1 = (ins, outs1, q')"
      using Cons.prems(2) Get by (auto split: prod.splits)
    show ?thesis
      using Cons.IH [OF _ r] Cons.prems Get
        get_law [OF Cons.prems(1) g] inv_get [OF Cons.prems(1) g] by simp
  qed
qed simp

end

end
