(* ===== verification/Acts_Ringbuf.thy ===== *)
theory Acts_Ringbuf
  imports Byte_Fifo
begin

text \<open>
  The ring buffer library of \<^verbatim>\<open>ext/actions/base/utils/acts_ringbuf\<close>: free-running 64-bit
  head and tail counters, 32-bit size, a mask when the size is a power of two, and the bytes of
  the buffer as a list. Counters, lengths and offsets keep their C widths. Sizes are counted in
  elements of one byte. Pointers handed out by the claim functions are offsets into the buffer.
  \<open>memcpy\<close> between overlapping ranges is undefined in C; the one operation that can do it
  returns \<open>None\<close> there.
\<close>

record acts_ringbuf =
  rb_head :: u64
  rb_tail :: u64
  rb_size :: u32
  rb_mask :: u32
  rb_mem :: bytes

definition is_power_of_two :: "u32 \<Rightarrow> bool" where
  "is_power_of_two x \<longleftrightarrow> x \<noteq> 0 \<and> x AND (x - 1) = 0"

definition acts_ringbuf_init :: "bytes \<Rightarrow> u32 \<Rightarrow> acts_ringbuf" where
  "acts_ringbuf_init data sz =
     \<lparr>rb_head = 0, rb_tail = 0, rb_size = sz,
      rb_mask = (if is_power_of_two sz then sz - 1 else 0), rb_mem = data\<rparr>"

text \<open>Two allocations, each of which may fail.\<close>

definition acts_ringbuf_alloc :: "bool \<Rightarrow> bytes option \<Rightarrow> u32 \<Rightarrow> acts_ringbuf option" where
  "acts_ringbuf_alloc header_ok data sz =
     (if \<not> header_ok then None
      else case data of None \<Rightarrow> None | Some d \<Rightarrow> Some (acts_ringbuf_init d sz))"

definition acts_ringbuf_length :: "acts_ringbuf \<Rightarrow> u32" where
  "acts_ringbuf_length b = ucast (rb_tail b - rb_head b)"

definition acts_ringbuf_space :: "acts_ringbuf \<Rightarrow> u32" where
  "acts_ringbuf_space b = ucast (ucast (rb_size b) - (rb_tail b - rb_head b))"

definition acts_ringbuf_is_empty :: "acts_ringbuf \<Rightarrow> bool" where
  "acts_ringbuf_is_empty b \<longleftrightarrow> rb_head b = rb_tail b"

definition acts_ringbuf_is_full :: "acts_ringbuf \<Rightarrow> bool" where
  "acts_ringbuf_is_full b \<longleftrightarrow> ucast (rb_size b) = rb_tail b - rb_head b"

definition acts_ringbuf_reset :: "acts_ringbuf \<Rightarrow> acts_ringbuf" where
  "acts_ringbuf_reset b = b\<lparr>rb_head := 0, rb_tail := 0\<rparr>"

definition rb_offset :: "acts_ringbuf \<Rightarrow> u64 \<Rightarrow> u32" where
  "rb_offset b x = ucast (if rb_mask b \<noteq> 0 then x AND ucast (rb_mask b) else x mod ucast (rb_size b))"

definition acts_ringbuf_peek :: "u32 \<Rightarrow> acts_ringbuf \<Rightarrow> u32 \<times> bytes" where
  "acts_ringbuf_peek sz b =
     (if sz > acts_ringbuf_length b then (0, [])
      else
        let offset = rb_offset b (rb_head b);
            len = rb_size b - offset
        in (sz,
            if len \<ge> sz then take (unat sz) (drop (unat offset) (rb_mem b))
            else take (unat len) (drop (unat offset) (rb_mem b)) @ take (unat (sz - len)) (rb_mem b)))"

definition acts_ringbuf_get :: "u32 \<Rightarrow> acts_ringbuf \<Rightarrow> u32 \<times> bytes \<times> acts_ringbuf" where
  "acts_ringbuf_get sz b =
     (let (sz, data) = acts_ringbuf_peek sz b in (sz, data, b\<lparr>rb_head := rb_head b + ucast sz\<rparr>))"

definition rb_claim :: "u32 \<Rightarrow> u32 \<Rightarrow> acts_ringbuf \<Rightarrow> u32" where
  "rb_claim offset avail b = min (rb_size b - offset) avail"

text \<open>The claim functions return the offset of the claimed range and its length.\<close>

definition acts_ringbuf_get_claim :: "u32 \<Rightarrow> acts_ringbuf \<Rightarrow> u32 \<times> u32" where
  "acts_ringbuf_get_claim sz b =
     (let offset = rb_offset b (rb_head b);
          max_size = rb_claim offset (acts_ringbuf_length b) b
      in (offset, if sz \<le> max_size then sz else max_size))"

definition acts_ringbuf_get_finish :: "u32 \<Rightarrow> acts_ringbuf \<Rightarrow> int \<times> acts_ringbuf" where
  "acts_ringbuf_get_finish sz b =
     (let max_size = rb_claim (rb_offset b (rb_head b)) (acts_ringbuf_length b) b
      in if sz > max_size then (- EINVAL, b) else (0, b\<lparr>rb_head := rb_head b + ucast sz\<rparr>))"

text \<open>\<open>data\<close> is \<open>None\<close> for a null pointer, which only moves the tail.\<close>

definition acts_ringbuf_put :: "bytes option \<Rightarrow> u32 \<Rightarrow> acts_ringbuf \<Rightarrow> u32 \<times> acts_ringbuf" where
  "acts_ringbuf_put data sz b =
     (if sz > acts_ringbuf_space b then (0, b)
      else
        let offset = rb_offset b (rb_tail b);
            len = rb_size b - offset;
            b = (case data of None \<Rightarrow> b
                 | Some d \<Rightarrow>
                     if len \<ge> sz
                     then b\<lparr>rb_mem := blit (rb_mem b) (unat offset) (take (unat sz) d)\<rparr>
                     else b\<lparr>rb_mem := blit (blit (rb_mem b) (unat offset) (take (unat len) d)) 0
                            (take (unat (sz - len)) (drop (unat len) d))\<rparr>)
        in (sz, b\<lparr>rb_tail := rb_tail b + ucast sz\<rparr>))"

definition acts_ringbuf_put_claim :: "u32 \<Rightarrow> acts_ringbuf \<Rightarrow> u32 \<times> u32" where
  "acts_ringbuf_put_claim sz b =
     (let offset = rb_offset b (rb_tail b);
          max_size = rb_claim offset (acts_ringbuf_space b) b
      in (offset, if sz \<le> max_size then sz else max_size))"

definition acts_ringbuf_put_finish :: "u32 \<Rightarrow> acts_ringbuf \<Rightarrow> int \<times> acts_ringbuf" where
  "acts_ringbuf_put_finish sz b =
     (let max_size = rb_claim (rb_offset b (rb_tail b)) (acts_ringbuf_space b) b
      in if sz > max_size then (- EINVAL, b) else (0, b\<lparr>rb_tail := rb_tail b + ucast sz\<rparr>))"

text \<open>The copy loop between two distinct buffers: the destination's memory. It moves the largest
  contiguous piece each turn.\<close>

partial_function (option) rb_copy_loop ::
    "acts_ringbuf \<Rightarrow> u32 \<Rightarrow> u32 \<Rightarrow> u32 \<Rightarrow> u32 \<Rightarrow> bytes \<Rightarrow> bytes option" where
  "rb_copy_loop src dst_size src_offset dst_offset sz mem =
     (let len = min (rb_size src - src_offset) (dst_size - dst_offset);
          len = (if len > sz then sz else len);
          mem = blit mem (unat dst_offset) (take (unat len) (drop (unat src_offset) (rb_mem src)));
          sz = sz - len
      in if sz = 0 then Some mem
         else
           let src_offset = src_offset + len;
               src_offset = (if src_offset \<ge> rb_size src then 0 else src_offset);
               dst_offset = dst_offset + len;
               dst_offset = (if dst_offset \<ge> dst_size then 0 else dst_offset)
           in rb_copy_loop src dst_size src_offset dst_offset sz mem)"

definition acts_ringbuf_copy ::
    "acts_ringbuf \<Rightarrow> acts_ringbuf \<Rightarrow> u32 \<Rightarrow> (u32 \<times> acts_ringbuf \<times> acts_ringbuf) option" where
  "acts_ringbuf_copy dst src sz =
     (let src_length = acts_ringbuf_length src;
          dst_space = acts_ringbuf_space dst;
          sz = (if sz > src_length then src_length else sz);
          sz = (if sz > dst_space then dst_space else sz)
      in if sz = 0 then Some (0, dst, src)
         else case rb_copy_loop src (rb_size dst) (rb_offset src (rb_head src)) (rb_offset dst (rb_tail dst))
                     sz (rb_mem dst) of
                None \<Rightarrow> None
              | Some mem \<Rightarrow> Some (sz, dst\<lparr>rb_mem := mem, rb_tail := rb_tail dst + ucast sz\<rparr>,
                                  src\<lparr>rb_head := rb_head src + ucast sz\<rparr>))"

text \<open>Reading into a stream and writing from one: the stream operation is a parameter that gets the
  bytes (or the room), and returns how many it took, negative for an error.\<close>

definition rb_read_pieces ::
    "('s \<Rightarrow> bytes \<Rightarrow> int \<times> 's) \<Rightarrow> 's \<Rightarrow> u32 \<Rightarrow> acts_ringbuf \<Rightarrow> int \<times> 's" where
  "rb_read_pieces stream_write stream sz b =
     (let offset = rb_offset b (rb_head b);
          len = rb_size b - offset
      in if len \<ge> sz then stream_write stream (take (unat sz) (drop (unat offset) (rb_mem b)))
         else
           let (stream_len, stream) = stream_write stream (take (unat len) (drop (unat offset) (rb_mem b)))
           in if word_of_int stream_len = len
              then let (tmp, stream) = stream_write stream (take (unat (sz - len)) (rb_mem b))
                   in (if tmp > 0 then stream_len + tmp else stream_len, stream)
              else (stream_len, stream))"

definition acts_ringbuf_read ::
    "('s \<Rightarrow> bytes \<Rightarrow> int \<times> 's) \<Rightarrow> 's \<Rightarrow> u32 \<Rightarrow> acts_ringbuf \<Rightarrow> u32 \<times> 's \<times> acts_ringbuf" where
  "acts_ringbuf_read stream_write stream sz b =
     (if sz > acts_ringbuf_length b then (0, stream, b)
      else
        let (stream_len, stream) = rb_read_pieces stream_write stream sz b
        in if stream_len > 0
           then (word_of_int stream_len, stream, b\<lparr>rb_head := rb_head b + word_of_int stream_len\<rparr>)
           else (0, stream, b))"

text \<open>The stream fills the room it is given from the start with the bytes it returns.\<close>

definition rb_write_pieces ::
    "('s \<Rightarrow> nat \<Rightarrow> int \<times> bytes \<times> 's) \<Rightarrow> 's \<Rightarrow> u32 \<Rightarrow> acts_ringbuf \<Rightarrow> int \<times> 's \<times> bytes" where
  "rb_write_pieces stream_read stream sz b =
     (let offset = rb_offset b (rb_tail b);
          len = rb_size b - offset
      in if len \<ge> sz then
           let (n, d, stream) = stream_read stream (unat sz)
           in (n, stream, blit (rb_mem b) (unat offset) d)
         else
           let (n, d, stream) = stream_read stream (unat len);
               mem = blit (rb_mem b) (unat offset) d
           in if word_of_int n = len
              then let (tmp, d, stream) = stream_read stream (unat (sz - len))
                   in (if tmp > 0 then n + tmp else n, stream, blit mem 0 d)
              else (n, stream, mem))"

definition acts_ringbuf_write ::
    "('s \<Rightarrow> nat \<Rightarrow> int \<times> bytes \<times> 's) \<Rightarrow> 's \<Rightarrow> u32 \<Rightarrow> acts_ringbuf \<Rightarrow> u32 \<times> 's \<times> acts_ringbuf" where
  "acts_ringbuf_write stream_read stream sz b =
     (if sz > acts_ringbuf_space b then (0, stream, b)
      else
        let (stream_len, stream, mem) = rb_write_pieces stream_read stream sz b;
            b = b\<lparr>rb_mem := mem\<rparr>
        in if stream_len > 0
           then (word_of_int stream_len, stream, b\<lparr>rb_tail := rb_tail b + word_of_int stream_len\<rparr>)
           else (0, stream, b))"

definition acts_ringbuf_drop :: "u32 \<Rightarrow> acts_ringbuf \<Rightarrow> u32 \<times> acts_ringbuf" where
  "acts_ringbuf_drop sz b =
     (if sz > acts_ringbuf_length b then (0, b) else (sz, b\<lparr>rb_head := rb_head b + ucast sz\<rparr>))"

definition acts_ringbuf_drop_all :: "acts_ringbuf \<Rightarrow> u32 \<times> acts_ringbuf" where
  "acts_ringbuf_drop_all b =
     (let length = acts_ringbuf_length b in (length, b\<lparr>rb_head := rb_head b + ucast length\<rparr>))"

definition acts_ringbuf_fill :: "u8 \<Rightarrow> u32 \<Rightarrow> acts_ringbuf \<Rightarrow> u32 \<times> acts_ringbuf" where
  "acts_ringbuf_fill c sz b =
     (if sz > acts_ringbuf_space b then (0, b)
      else
        let offset = rb_offset b (rb_tail b);
            len = rb_size b - offset;
            b = (if len \<ge> sz
                 then b\<lparr>rb_mem := blit (rb_mem b) (unat offset) (replicate (unat sz) c)\<rparr>
                 else b\<lparr>rb_mem := blit (blit (rb_mem b) (unat offset) (replicate (unat len) c)) 0
                        (replicate (unat (sz - len)) c)\<rparr>)
        in (sz, b\<lparr>rb_tail := rb_tail b + ucast sz\<rparr>))"

definition acts_ringbuf_fill_none :: "u32 \<Rightarrow> acts_ringbuf \<Rightarrow> u32 \<times> acts_ringbuf" where
  "acts_ringbuf_fill_none sz b =
     (if sz > acts_ringbuf_space b then (0, b) else (sz, b\<lparr>rb_tail := rb_tail b + ucast sz\<rparr>))"

definition acts_ringbuf_head_ptr :: "acts_ringbuf \<Rightarrow> u32 \<times> u32" where
  "acts_ringbuf_head_ptr b = acts_ringbuf_get_claim (acts_ringbuf_length b) b"

definition acts_ringbuf_tail_ptr :: "acts_ringbuf \<Rightarrow> u32 \<times> u32" where
  "acts_ringbuf_tail_ptr b = acts_ringbuf_put_claim (acts_ringbuf_space b) b"

definition memcpy_overlaps :: "nat \<Rightarrow> nat \<Rightarrow> nat \<Rightarrow> bool" where
  "memcpy_overlaps dst src n \<longleftrightarrow> dst < src + n \<and> src < dst + n"

definition acts_ringbuf_defrag :: "acts_ringbuf \<Rightarrow> acts_ringbuf option" where
  "acts_ringbuf_defrag b =
     (let roff = rb_offset b (rb_head b);
          woff = rb_offset b (rb_tail b);
          rewind = (\<lambda>b. b\<lparr>rb_tail := rb_tail b - rb_head b, rb_head := 0\<rparr>)
      in if roff = 0 \<or> acts_ringbuf_is_empty b then Some (rewind b)
         else if roff \<ge> woff
         then Some (b\<lparr>rb_head := ucast roff, rb_tail := ucast (woff + rb_size b)\<rparr>)
         else if memcpy_overlaps 0 (unat roff) (unat (woff - roff)) then None
         else Some (rewind (b\<lparr>rb_mem := blit (rb_mem b) 0 (take (unat (woff - roff)) (drop (unat roff) (rb_mem b)))\<rparr>)))"

section \<open>Contents and invariant\<close>

definition rb_len :: "acts_ringbuf \<Rightarrow> nat" where
  "rb_len b = unat (rb_tail b - rb_head b)"

definition rb_abs :: "acts_ringbuf \<Rightarrow> bytes" where
  "rb_abs b = ring_slice (rb_mem b) (unat (rb_head b)) (rb_len b)"

text \<open>The counters run freely: when the size divides their range they may wrap around, otherwise
  they must not, which 64 bits are meant to ensure.\<close>

definition rb_room :: "nat \<Rightarrow> acts_ringbuf \<Rightarrow> bool" where
  "rb_room n b \<longleftrightarrow> unat (rb_size b) dvd 2 ^ 64 \<or> unat (rb_head b) + rb_len b + n < 2 ^ 64"

definition rb_ok :: "acts_ringbuf \<Rightarrow> bool" where
  "rb_ok b \<longleftrightarrow> 0 < unat (rb_size b) \<and> length (rb_mem b) = unat (rb_size b) \<and>
     (rb_mask b = 0 \<or> (\<exists>k. unat (rb_size b) = 2 ^ k \<and> unat (rb_mask b) = 2 ^ k - 1)) \<and>
     rb_len b \<le> unat (rb_size b) \<and> rb_room 0 b"

lemma length_rb_abs [simp]: "length (rb_abs b) = rb_len b"
  by (simp add: rb_abs_def)

subsection \<open>Powers of two\<close>

lemma nat_and_pred_even: "m > 0 \<Longrightarrow> (2 * m) AND (2 * m - 1) = 2 * (m AND (m - 1))" for m :: nat
proof -
  assume "m > 0"
  then have "2 * m - 1 = 2 * (m - 1) + 1" by simp
  then show ?thesis by (subst and_rec) simp
qed

lemma nat_power_of_two: "n > 0 \<Longrightarrow> n AND (n - 1) = 0 \<Longrightarrow> \<exists>k. n = 2 ^ k" for n :: nat
proof (induction n rule: less_induct)
  case (less n)
  show ?case
  proof (cases "even n")
    case True
    then obtain m where m: "n = 2 * m" by blast
    then have "m > 0" "m < n" "m AND (m - 1) = 0" using less.prems nat_and_pred_even [of m] by auto
    then obtain k where "m = 2 ^ k" using less.IH by blast
    then have "n = 2 ^ Suc k" using m by simp
    then show ?thesis by blast
  next
    case False
    then obtain m where m: "n = 2 * m + 1" using oddE by blast
    have "(2 * m + 1) AND (2 * m) = 2 * m"
      by (subst and_rec) simp
    then have "m = 0" using less.prems(2) m by simp
    then have "n = 2 ^ 0" using m by simp
    then show ?thesis by blast
  qed
qed

lemma is_power_of_twoD:
  assumes "is_power_of_two x"
  obtains k where "unat x = 2 ^ k" "unat (x - 1) = 2 ^ k - 1"
proof -
  have x: "x \<noteq> 0" "x AND (x - 1) = 0" using assms by (simp_all add: is_power_of_two_def)
  have p: "unat (x - 1) = unat x - 1" using x(1) by (simp add: unat_minus_one)
  have "unat x AND (unat x - 1) = unat (x AND (x - 1))" by (simp add: unsigned_and_eq p)
  also have "\<dots> = 0" using x(2) by simp
  finally have "\<exists>k. unat x = 2 ^ k" using x(1) by (intro nat_power_of_two) (simp_all add: unat_gt_0)
  then show ?thesis using that p by auto
qed

lemma unat_ucast_u32_u64 [simp]: "unat (ucast (x :: u32) :: u64) = unat x"
  by (simp add: unsigned_ucast_eq take_bit_nat_eq_self less_trans [OF unat_u32_less])

lemma unat_ucast_u64_u32: "unat (x :: u64) < 2 ^ 32 \<Longrightarrow> unat (ucast x :: u32) = unat x"
  by (simp add: unsigned_ucast_eq take_bit_nat_eq_self)

lemma unat_rb_offset:
  assumes "rb_ok b"
  shows "unat (rb_offset b x) = unat x mod unat (rb_size b)"
proof -
  let ?y = "if rb_mask b \<noteq> 0 then x AND ucast (rb_mask b) else x mod ucast (rb_size b)"
  have "unat ?y = unat x mod unat (rb_size b)"
  proof (cases "rb_mask b = 0")
    case False
    then obtain k where k: "unat (rb_size b) = 2 ^ k" "unat (rb_mask b) = 2 ^ k - 1"
      using assms by (auto simp: rb_ok_def)
    have "unat x AND (2 ^ k - 1) = unat x mod 2 ^ k"
      by (simp add: take_bit_eq_mod [symmetric] take_bit_eq_mask mask_eq_exp_minus_1)
    then show ?thesis using False k by (simp add: unsigned_and_eq)
  qed (simp add: unat_mod)
  moreover have "unat x mod unat (rb_size b) < 2 ^ 32"
    using assms less_trans [OF mod_less_divisor unat_u32_less] by (simp add: rb_ok_def)
  ultimately show ?thesis by (simp add: rb_offset_def unat_ucast_u64_u32)
qed

lemma unat_ucast_small: "unat (x :: u64) \<le> unat (y :: u32) \<Longrightarrow> unat (ucast x :: u32) = unat x"
  using le_less_trans [OF _ unat_u32_less [of y]] by (simp add: unat_ucast_u64_u32)

lemma unat_acts_ringbuf_length: "rb_ok b \<Longrightarrow> unat (acts_ringbuf_length b) = rb_len b"
  unfolding acts_ringbuf_length_def rb_ok_def rb_len_def by (intro unat_ucast_small) blast

lemma unat_acts_ringbuf_space: "rb_ok b \<Longrightarrow> unat (acts_ringbuf_space b) = unat (rb_size b) - rb_len b"
proof -
  assume ok: "rb_ok b"
  have le: "rb_tail b - rb_head b \<le> ucast (rb_size b)"
    using ok by (simp add: word_le_nat_alt rb_ok_def rb_len_def)
  have s: "unat (ucast (rb_size b) - (rb_tail b - rb_head b)) = unat (rb_size b) - rb_len b"
    using unat_sub [OF le] by (simp add: rb_len_def)
  then have "unat (acts_ringbuf_space b) = unat (ucast (rb_size b) - (rb_tail b - rb_head b))"
    unfolding acts_ringbuf_space_def by (intro unat_ucast_small [where y = "rb_size b"]) simp
  then show ?thesis using s by simp
qed

text \<open>The tail counter points just behind the contents.\<close>

lemma tail_position:
  assumes "rb_ok b"
  shows "unat (rb_tail b) mod unat (rb_size b) = (unat (rb_head b) + rb_len b) mod unat (rb_size b)"
proof -
  have "rb_tail b = rb_head b + (rb_tail b - rb_head b)" by simp
  then have t: "unat (rb_tail b) = (unat (rb_head b) + rb_len b) mod 2 ^ 64"
    using unat_word_ariths(1) [of "rb_head b" "rb_tail b - rb_head b"] by (simp add: rb_len_def)
  show ?thesis
  proof (cases "unat (rb_size b) dvd 2 ^ 64")
    case True
    then show ?thesis unfolding t by (rule mod_mod_cancel)
  next
    case False
    then show ?thesis using assms t by (simp add: rb_ok_def rb_room_def)
  qed
qed


section \<open>The operations on the contents\<close>

lemma rb_ok_size: "rb_ok b \<Longrightarrow> unat x mod unat (rb_size b) < unat (rb_size b)"
  by (simp add: rb_ok_def)

lemma unat_rest:
  assumes "rb_ok b"
  shows "unat (rb_size b - rb_offset b x) = unat (rb_size b) - unat x mod unat (rb_size b)"
proof -
  have "rb_offset b x \<le> rb_size b"
    using rb_ok_size [OF assms, of x] by (simp add: word_le_nat_alt unat_rb_offset [OF assms])
  then show ?thesis by (simp add: unat_sub unat_rb_offset [OF assms])
qed

text \<open>The two-part copies of the source are the reading and writing of a circular range.\<close>

lemma two_part_read:
  assumes "rb_ok b" "unat sz \<le> unat (rb_size b)"
  shows "(if rb_size b - rb_offset b x \<ge> sz then take (unat sz) (drop (unat (rb_offset b x)) (rb_mem b))
     else take (unat (rb_size b - rb_offset b x)) (drop (unat (rb_offset b x)) (rb_mem b)) @
          take (unat (sz - (rb_size b - rb_offset b x))) (rb_mem b)) =
     ring_slice (rb_mem b) (unat x) (unat sz)"
proof -
  let ?o = "unat x mod unat (rb_size b)"
  have m: "length (rb_mem b) = unat (rb_size b)" using assms(1) by (simp add: rb_ok_def)
  have o: "?o < unat (rb_size b)" by (rule rb_ok_size [OF assms(1)])
  have ge: "rb_size b - rb_offset b x \<ge> sz \<longleftrightarrow> ?o + unat sz \<le> unat (rb_size b)"
    using o by (auto simp: word_le_nat_alt unat_rest [OF assms(1)])
  have s: "ring_slice (rb_mem b) (unat x) (unat sz) = ring_slice (rb_mem b) ?o (unat sz)"
    using ring_slice_mod [of "rb_mem b" "unat x"] m by simp
  show ?thesis
  proof (cases "?o + unat sz \<le> unat (rb_size b)")
    case True
    then show ?thesis
      unfolding s using ge o m by (simp add: unat_rb_offset [OF assms(1)] ring_slice_contiguous)
  next
    case False
    then have "unat (sz - (rb_size b - rb_offset b x)) = unat sz - (unat (rb_size b) - ?o)"
      using ge by (subst unat_sub) (simp_all add: unat_rest [OF assms(1)] not_le)
    then show ?thesis
      unfolding s using False ge o m assms(2)
      by (simp add: unat_rb_offset [OF assms(1)] unat_rest [OF assms(1)] ring_slice_wrapped)
  qed
qed

lemma two_part_write:
  assumes "rb_ok b" "unat sz \<le> unat (rb_size b)" "unat sz \<le> length d"
  shows "(if rb_size b - rb_offset b x \<ge> sz then blit (rb_mem b) (unat (rb_offset b x)) (take (unat sz) d)
     else blit (blit (rb_mem b) (unat (rb_offset b x)) (take (unat (rb_size b - rb_offset b x)) d)) 0
            (take (unat (sz - (rb_size b - rb_offset b x))) (drop (unat (rb_size b - rb_offset b x)) d))) =
     ring_write (rb_mem b) (unat x mod unat (rb_size b)) (take (unat sz) d)"
proof -
  let ?o = "unat x mod unat (rb_size b)"
  have m: "length (rb_mem b) = unat (rb_size b)" using assms(1) by (simp add: rb_ok_def)
  have o: "?o < unat (rb_size b)" by (rule rb_ok_size [OF assms(1)])
  have ge: "rb_size b - rb_offset b x \<ge> sz \<longleftrightarrow> unat sz \<le> unat (rb_size b) - ?o"
    by (simp add: word_le_nat_alt unat_rest [OF assms(1)])
  show ?thesis
  proof (cases "unat sz \<le> unat (rb_size b) - ?o")
    case True
    then show ?thesis using ge m assms(3) by (simp add: ring_write_def unat_rb_offset [OF assms(1)] min_def)
  next
    case False
    then have "unat (sz - (rb_size b - rb_offset b x)) = unat sz - (unat (rb_size b) - ?o)"
      using ge by (subst unat_sub) (simp_all add: unat_rest [OF assms(1)] not_le)
    then show ?thesis
      using False ge m assms(3)
      by (simp add: ring_write_def unat_rb_offset [OF assms(1)] unat_rest [OF assms(1)] min_def drop_take)
  qed
qed

text \<open>Moving a counter.\<close>

lemma head_moved:
  assumes "rb_ok b" "n \<le> rb_len b" "n < 2 ^ 64"
  defines "b' \<equiv> b\<lparr>rb_head := rb_head b + word_of_nat n\<rparr>"
  shows "rb_ok b' \<and> rb_len b' = rb_len b - n \<and> rb_abs b' = drop n (rb_abs b) \<and>
    (\<forall>k. rb_room k b \<longrightarrow> rb_room k b')"
proof -
  have n: "unat (word_of_nat n :: u64) = n" using assms(3) by (simp add: unsigned_of_nat take_bit_nat_eq_self)
  have e: "rb_tail b - (rb_head b + word_of_nat n) = (rb_tail b - rb_head b) - word_of_nat n" by simp
  have len: "rb_len b' = rb_len b - n"
    unfolding rb_len_def b'_def using assms(2) by (simp add: e unat_sub word_le_nat_alt n rb_len_def)
  have hd: "unat (rb_head b') mod unat (rb_size b) = (unat (rb_head b) + n) mod unat (rb_size b)"
     "unat (rb_size b) dvd 2 ^ 64 \<or> unat (rb_head b') = unat (rb_head b) + n"
  proof -
    have u: "unat (rb_head b') = (unat (rb_head b) + n) mod 2 ^ 64"
      using unat_word_ariths(1) [of "rb_head b" "word_of_nat n"] n by (simp add: b'_def)
    show "unat (rb_size b) dvd 2 ^ 64 \<or> unat (rb_head b') = unat (rb_head b) + n"
      using assms(1,2) u by (auto simp: rb_ok_def rb_room_def)
    then show "unat (rb_head b') mod unat (rb_size b) = (unat (rb_head b) + n) mod unat (rb_size b)"
      using u mod_mod_cancel by metis
  qed
  have m: "length (rb_mem b) = unat (rb_size b)" using assms(1) by (simp add: rb_ok_def)
  have "rb_abs b' = ring_slice (rb_mem b) (unat (rb_head b')) (rb_len b - n)"
    by (simp add: rb_abs_def len) (simp add: b'_def)
  also have "\<dots> = ring_slice (rb_mem b) (unat (rb_head b) + n) (rb_len b - n)"
    using hd(1) ring_slice_mod [of "rb_mem b"] m by metis
  also have "\<dots> = drop n (rb_abs b)"
    using assms(2) by (simp add: rb_abs_def drop_ring_slice)
  finally have abs: "rb_abs b' = drop n (rb_abs b)" .
  have room: "rb_room k b'" if "rb_room k b" for k
    using that hd(2) len assms(2) by (auto simp: rb_room_def) (simp_all add: b'_def)
  have "rb_ok b'"
    using assms(1,2) len room [of 0] unfolding rb_ok_def by (auto simp: b'_def)
  then show ?thesis using len abs room by blast
qed

lemma tail_moved:
  assumes "rb_ok b" "rb_len b + n \<le> unat (rb_size b)" "rb_room n b" "length m = unat (rb_size b)"
  defines "b' \<equiv> b\<lparr>rb_mem := m, rb_tail := rb_tail b + word_of_nat n\<rparr>"
  shows "rb_ok b' \<and> rb_len b' = rb_len b + n \<and> rb_abs b' = ring_slice m (unat (rb_head b)) (rb_len b + n)"
proof -
  have s: "rb_len b + n < 2 ^ 64" using le_less_trans [OF assms(2) unat_u32_less] by simp
  have e: "rb_tail b + word_of_nat n - rb_head b = (rb_tail b - rb_head b) + word_of_nat n" by simp
  have "rb_len b' = (unat (rb_tail b - rb_head b) + n) mod 2 ^ 64"
    using s unat_word_ariths(1) [of "rb_tail b - rb_head b" "word_of_nat n"]
    by (simp add: rb_len_def b'_def e unsigned_of_nat take_bit_nat_eq_self)
  then have len: "rb_len b' = rb_len b + n" using s by (simp add: rb_len_def)
  have "rb_room 0 b'" using assms(3) len by (simp add: rb_room_def) (simp add: b'_def add.assoc)
  then have "rb_ok b'" using assms(1,2,4) len unfolding rb_ok_def by (simp add: b'_def)
  moreover have "rb_abs b' = ring_slice m (unat (rb_head b)) (rb_len b + n)"
    by (simp add: rb_abs_def len) (simp add: b'_def)
  ultimately show ?thesis using len by blast
qed

text \<open>The tail advanced over \<open>n\<close> bytes that were written behind the contents.\<close>

lemma appended:
  assumes "rb_ok b" "rb_len b + length d \<le> unat (rb_size b)" "rb_room (length d) b"
  defines "b' \<equiv> b\<lparr>rb_mem := ring_write (rb_mem b) (unat (rb_tail b) mod unat (rb_size b)) d,
     rb_tail := rb_tail b + word_of_nat (length d)\<rparr>"
  shows "rb_ok b' \<and> rb_abs b' = rb_abs b @ d"
proof -
  have m: "length (rb_mem b) = unat (rb_size b)" "0 < unat (rb_size b)" using assms(1) by (simp_all add: rb_ok_def)
  let ?m = "ring_write (rb_mem b) ((unat (rb_head b) + rb_len b) mod length (rb_mem b)) d"
  have b': "b' = b\<lparr>rb_mem := ?m, rb_tail := rb_tail b + word_of_nat (length d)\<rparr>"
    unfolding b'_def tail_position [OF assms(1)] m(1) ..
  have "length ?m = unat (rb_size b)" using m assms(2) by simp
  note t = tail_moved [OF assms(1-3) this]
  have "ring_slice ?m (unat (rb_head b)) (rb_len b + length d) = rb_abs b @ d"
    using ring_slice_write [of "rb_mem b" "rb_len b" d "unat (rb_head b)"] m assms(2)
    by (simp add: rb_abs_def)
  then show ?thesis using t unfolding b' by simp
qed

lemma ucast_eq_word_of_nat: "(ucast (x :: u32) :: u64) = word_of_nat (unat x)"
  by simp

lemma acts_ringbuf_put_spec:
  assumes "rb_ok b" "unat sz \<le> length d" "rb_room (unat sz) b"
  shows "(if unat sz \<le> unat (rb_size b) - rb_len b
     then fst (acts_ringbuf_put (Some d) sz b) = sz \<and> rb_ok (snd (acts_ringbuf_put (Some d) sz b)) \<and>
       rb_abs (snd (acts_ringbuf_put (Some d) sz b)) = rb_abs b @ take (unat sz) d
     else acts_ringbuf_put (Some d) sz b = (0, b)) \<and> rb_size (snd (acts_ringbuf_put (Some d) sz b)) = rb_size b"
proof (cases "unat sz \<le> unat (rb_size b) - rb_len b")
  case True
  then have le: "\<not> sz > acts_ringbuf_space b"
    by (simp add: word_less_nat_alt unat_acts_ringbuf_space [OF assms(1)])
  have len: "rb_len b + unat sz \<le> unat (rb_size b)" using True assms(1) by (auto simp: rb_ok_def)
  have "acts_ringbuf_put (Some d) sz b = (sz, b\<lparr>rb_mem := (if rb_size b - rb_offset b (rb_tail b) \<ge> sz then blit (rb_mem b) (unat (rb_offset b (rb_tail b))) (take (unat sz) d)
     else blit (blit (rb_mem b) (unat (rb_offset b (rb_tail b))) (take (unat (rb_size b - rb_offset b (rb_tail b))) d)) 0
            (take (unat (sz - (rb_size b - rb_offset b (rb_tail b)))) (drop (unat (rb_size b - rb_offset b (rb_tail b))) d))),
     rb_tail := rb_tail b + ucast sz\<rparr>)"
    using le by (simp add: acts_ringbuf_put_def Let_def)
  also have "\<dots> = (sz, b\<lparr>rb_mem := ring_write (rb_mem b) (unat (rb_tail b) mod unat (rb_size b)) (take (unat sz) d),
     rb_tail := rb_tail b + word_of_nat (length (take (unat sz) d))\<rparr>)"
    using two_part_write [OF assms(1) _ assms(2)] len assms(2) by (simp add: min_def)
  finally show ?thesis
    using appended [OF assms(1), of "take (unat sz) d"] len assms(2,3) True by (simp add: min_def)
next
  case False
  then have "sz > acts_ringbuf_space b"
    by (simp add: word_less_nat_alt unat_acts_ringbuf_space [OF assms(1)])
  then show ?thesis using False by (simp add: acts_ringbuf_put_def)
qed

lemma acts_ringbuf_peek_spec:
  assumes "rb_ok b"
  shows "acts_ringbuf_peek sz b = (if unat sz \<le> rb_len b then (sz, take (unat sz) (rb_abs b)) else (0, []))"
proof -
  have e: "unat sz \<le> rb_len b \<longleftrightarrow> \<not> sz > acts_ringbuf_length b"
    by (simp add: word_less_nat_alt unat_acts_ringbuf_length [OF assms] not_less)
  show ?thesis
  proof (cases "unat sz \<le> rb_len b")
    case True
    then have "unat sz \<le> unat (rb_size b)" using assms by (simp add: rb_ok_def)
    note r = two_part_read [OF assms this, of "rb_head b"]
    show ?thesis
      using True e unfolding acts_ringbuf_peek_def Let_def r by (simp add: rb_abs_def take_ring_slice)
  next
    case False
    then show ?thesis using e by (simp add: acts_ringbuf_peek_def)
  qed
qed

lemma acts_ringbuf_get_spec:
  assumes "rb_ok b"
  shows "\<exists>b'. acts_ringbuf_get sz b = (if unat sz \<le> rb_len b then (sz, take (unat sz) (rb_abs b), b') else (0, [], b)) \<and>
     (unat sz \<le> rb_len b \<longrightarrow> rb_ok b' \<and> rb_abs b' = drop (unat sz) (rb_abs b) \<and> rb_size b' = rb_size b \<and>
       (\<forall>k. rb_room k b \<longrightarrow> rb_room k b'))"
  using head_moved [OF assms, of "unat sz"] less_trans [OF unat_u32_less [of sz]]
  by (simp add: acts_ringbuf_get_def acts_ringbuf_peek_spec [OF assms])


section \<open>The library is a queue\<close>

text \<open>The queue interface of a buffer whose size is a power of two, the case the library is tuned
  for: its counters may wrap around.\<close>

definition rb_inv :: "acts_ringbuf \<Rightarrow> bool" where
  "rb_inv b \<longleftrightarrow> rb_ok b \<and> unat (rb_size b) dvd 2 ^ 64"

definition rb_put :: "bytes \<Rightarrow> acts_ringbuf \<Rightarrow> nat \<times> acts_ringbuf" where
  "rb_put xs b = (let (n, b) = acts_ringbuf_put (Some xs) (word_of_nat (length xs)) b in (unat n, b))"

definition rb_get :: "nat \<Rightarrow> acts_ringbuf \<Rightarrow> bytes \<times> acts_ringbuf" where
  "rb_get n b = (let (k, data, b) = acts_ringbuf_get (word_of_nat n) b in (data, b))"

lemma unat_word_of_nat_u32: "unat (word_of_nat n :: u32) = n mod 2 ^ 32"
  by (simp add: unsigned_of_nat take_bit_eq_mod)

lemma rb_put_spec:
  assumes "rb_inv b" "rb_put xs b = (n, b')"
  shows "rb_inv b' \<and> rb_size b' = rb_size b \<and> rb_abs b' = rb_abs b @ take n xs \<and>
    n = all_or_none (unat (rb_size b) - rb_len b) (length xs mod 2 ^ 32)"
proof -
  let ?sz = "word_of_nat (length xs) :: u32"
  have sz: "unat ?sz = length xs mod 2 ^ 32" by (rule unat_word_of_nat_u32)
  have le: "unat ?sz \<le> length xs" by (simp add: sz)
  have ok: "rb_ok b" "rb_room (unat ?sz) b" using assms(1) by (simp_all add: rb_inv_def rb_room_def)
  note s = acts_ringbuf_put_spec [OF ok(1) le ok(2)]
  have p: "acts_ringbuf_put (Some xs) ?sz b = (fst (acts_ringbuf_put (Some xs) ?sz b), b')"
    "n = unat (fst (acts_ringbuf_put (Some xs) ?sz b))"
    using assms(2) by (auto simp: rb_put_def split: prod.splits)
  show ?thesis
  proof (cases "unat ?sz \<le> unat (rb_size b) - rb_len b")
    case True
    then show ?thesis using s p assms(1) unfolding sz [symmetric] by (auto simp: rb_inv_def all_or_none_def)
  next
    case False
    then show ?thesis using s p assms(1) unfolding sz [symmetric] by (auto simp: rb_inv_def all_or_none_def)
  qed
qed

lemma rb_get_spec:
  assumes "rb_inv b" "rb_get n b = (ys, b')"
  shows "rb_inv b' \<and> rb_size b' = rb_size b \<and> ys = take (all_or_none (rb_len b) (n mod 2 ^ 32)) (rb_abs b) \<and>
    rb_abs b' = drop (all_or_none (rb_len b) (n mod 2 ^ 32)) (rb_abs b)"
proof -
  let ?sz = "word_of_nat n :: u32"
  have sz: "unat ?sz = n mod 2 ^ 32" by (rule unat_word_of_nat_u32)
  have ok: "rb_ok b" using assms(1) by (simp add: rb_inv_def)
  obtain c where c: "acts_ringbuf_get ?sz b = (if unat ?sz \<le> rb_len b then (?sz, take (unat ?sz) (rb_abs b), c) else (0, [], b))"
    "unat ?sz \<le> rb_len b \<Longrightarrow> rb_ok c \<and> rb_abs c = drop (unat ?sz) (rb_abs b) \<and> rb_size c = rb_size b"
    using acts_ringbuf_get_spec [OF ok, of ?sz] by blast
  show ?thesis
  proof (cases "unat ?sz \<le> rb_len b")
    case True
    then have "ys = take (unat ?sz) (rb_abs b)" "b' = c" using assms(2) c(1) by (auto simp: rb_get_def)
    then show ?thesis using c(2) [OF True] True assms(1) unfolding sz [symmetric] by (auto simp: rb_inv_def all_or_none_def)
  next
    case False
    then have "ys = []" "b' = b" using assms(2) c(1) by (auto simp: rb_get_def)
    then show ?thesis using False assms(1) unfolding sz [symmetric] by (auto simp: rb_inv_def all_or_none_def)
  qed
qed

interpretation rbq: byte_fifo rb_abs rb_inv "\<lambda>b. unat (rb_size b)" rb_put rb_get
  "\<lambda>cap used n. all_or_none (cap - used) (n mod 2 ^ 32)" "\<lambda>used n. all_or_none used (n mod 2 ^ 32)"
proof unfold_locales
  fix b xs n b' m ys
  assume inv: "rb_inv b"
  show "length (rb_abs b) \<le> unat (rb_size b)" using inv by (simp add: rb_inv_def rb_ok_def)
  show "all_or_none (unat (rb_size b) - length (rb_abs b)) (n mod 2 ^ 32) = n"
    if fit: "length (rb_abs b) + n \<le> unat (rb_size b)" for n
    using le_less_trans [OF add_leD2 [OF fit] unat_u32_less] fit by (simp add: all_or_none_def)
  { assume p: "rb_put xs b = (n, b')"
    note s = rb_put_spec [OF inv p]
    show "rb_inv b' \<and> unat (rb_size b') = unat (rb_size b)" using s by simp
    show "n = all_or_none (unat (rb_size b) - length (rb_abs b)) (length xs mod 2 ^ 32) \<and>
        rb_abs b' = rb_abs b @ take n xs" using s by simp }
  { assume g: "rb_get m b = (ys, b')"
    note s = rb_get_spec [OF inv g]
    show "rb_inv b' \<and> unat (rb_size b') = unat (rb_size b)" using s by simp
    show "ys = take (all_or_none (length (rb_abs b)) (m mod 2 ^ 32)) (rb_abs b) \<and>
        rb_abs b' = drop (all_or_none (length (rb_abs b)) (m mod 2 ^ 32)) (rb_abs b)" using s by simp }
qed

lemma acts_ringbuf_init_ok:
  assumes "0 < unat sz" "length d = unat sz"
  shows "rb_ok (acts_ringbuf_init d sz) \<and> rb_abs (acts_ringbuf_init d sz) = [] \<and>
    (is_power_of_two sz \<longrightarrow> rb_inv (acts_ringbuf_init d sz))"
proof -
  have e: "\<exists>k. unat sz = 2 ^ k \<and> unat (sz - 1) = 2 ^ k - 1" if "is_power_of_two sz"
    using is_power_of_twoD [OF that] by metis
  have "unat sz dvd 2 ^ 64" if p: "is_power_of_two sz"
  proof -
    obtain k where k: "unat sz = 2 ^ k" using e [OF p] by blast
    have "2 ^ k < (2::nat) ^ 32" using unsigned_less [of sz, where 'a = nat] k by simp
    then have "k < 32" by (rule power_less_imp_less_exp [rotated]) simp
    then show ?thesis unfolding k by (intro le_imp_power_dvd) simp
  qed
  then show ?thesis
    using assms e by (auto simp: rb_inv_def rb_ok_def rb_abs_def rb_len_def rb_room_def acts_ringbuf_init_def ring_slice_def)
qed

text \<open>(C32) A ring buffer freshly initialised with a power-of-two size is a lossless FIFO of exactly
  that capacity, over any interleaving of writes and reads, however often its 64-bit counters
  wrap around. The bytes accepted, read and left are those of a queue with so many places that
  refuses a write whole when it does not fit and a read whole when it asks for too much, and
  otherwise takes and hands out exactly the number given (sizes are 32-bit numbers). So the
  bytes read, followed by those still stored, are the bytes written in order.\<close>

theorem acts_ringbuf_fifo:
  assumes "is_power_of_two sz" "length d = unat sz"
    and "fifo_run rb_put rb_get ops (acts_ringbuf_init d sz) = (ins, outs, b')"
  shows "queue_run (\<lambda>used n. all_or_none (unat sz - used) (n mod 2 ^ 32)) (\<lambda>used n. all_or_none used (n mod 2 ^ 32)) ops [] =
      (ins, outs, rb_abs b') \<and>
    ins = outs @ rb_abs b' \<and> length (rb_abs b') \<le> unat sz \<and>
    (length (put_only ops) \<le> unat sz \<longrightarrow> ins = put_only ops)"
proof -
  have "0 < unat sz" using assms(1) by (simp add: is_power_of_two_def unat_gt_0)
  note i = acts_ringbuf_init_ok [OF this assms(2)]
  then have inv: "rb_inv (acts_ringbuf_init d sz)" using assms(1) by simp
  have c: "unat (rb_size b') = unat sz" "rb_inv b'"
    using rbq.run_inv [OF inv assms(3)] by (simp_all add: acts_ringbuf_init_def)
  have l: "rb_len (acts_ringbuf_init d sz) = 0" "rb_size (acts_ringbuf_init d sz) = sz"
    by (simp_all add: acts_ringbuf_init_def rb_len_def)
  show ?thesis
    using rbq.run_queue [OF inv assms(3)] rbq.run_fifo [OF inv assms(3)] rbq.run_lossless [OF inv assms(3)]
      rbq.abs_cap [OF c(2)] i c(1) l by simp
qed

theorem acts_ringbuf_fifo_witness:
  "\<exists>b'. fifo_run rb_put rb_get [Put [7, 8], Get 3, Get 1, Put [9, 10, 11, 12], Put [9]] (acts_ringbuf_init [0, 0, 0, 0] 4)
      = ([7, 8, 9], [7], b') \<and> rb_abs b' = [8, 9]"
proof -
  let ?ops = "[Put [7, 8], Get 3, Get 1, Put [9, 10, 11, 12], Put [9]]"
  obtain ins outs b' where run: "fifo_run rb_put rb_get ?ops (acts_ringbuf_init [0, 0, 0, 0] 4) = (ins, outs, b')"
    by (metis prod_cases3)
  have "is_power_of_two 4" by (simp add: is_power_of_two_def)
  from acts_ringbuf_fifo [OF this _ run] have "ins = [7, 8, 9]" "outs = [7]" "rb_abs b' = [8, 9]"
    by (simp_all add: all_or_none_def Let_def)
  with run show ?thesis by blast
qed

section \<open>Claims\<close>

lemma rb_claim_spec:
  assumes "rb_ok b" "unat avail \<le> unat (rb_size b)"
  shows "unat (rb_claim (rb_offset b x) avail b) = min (unat (rb_size b) - unat x mod unat (rb_size b)) (unat avail)"
  by (auto simp: rb_claim_def min_def word_le_nat_alt unat_rest [OF assms(1)])

lemma put_claim_finish:
  assumes "rb_ok b" "rb_room (unat sz) b" "acts_ringbuf_put_claim sz b = (off, n)" "length d = unat n"
  shows "unat off + unat n \<le> unat (rb_size b) \<and>
    (case acts_ringbuf_put_finish n (b\<lparr>rb_mem := blit (rb_mem b) (unat off) d\<rparr>) of
       (r, b') \<Rightarrow> r = 0 \<and> rb_ok b' \<and> rb_abs b' = rb_abs b @ d)"
proof -
  let ?N = "unat (rb_size b)" and ?o = "unat (rb_tail b) mod unat (rb_size b)"
  have m: "length (rb_mem b) = ?N" and o: "?o < ?N" using assms(1) rb_ok_size by (simp_all add: rb_ok_def)
  have sp: "unat (acts_ringbuf_space b) = ?N - rb_len b" by (rule unat_acts_ringbuf_space [OF assms(1)])
  let ?max = "rb_claim (rb_offset b (rb_tail b)) (acts_ringbuf_space b) b"
  have mx: "unat ?max = min (?N - ?o) (?N - rb_len b)"
    using rb_claim_spec [OF assms(1), of "acts_ringbuf_space b" "rb_tail b"] sp by simp
  have off: "off = rb_offset b (rb_tail b)" and nn: "n = (if sz \<le> ?max then sz else ?max)"
    using assms(3) by (auto simp: acts_ringbuf_put_claim_def Let_def)
  have n: "n \<le> ?max" "unat n \<le> unat sz" using nn by (auto simp: word_le_nat_alt)
  then have le: "unat n \<le> ?N - ?o" "unat n \<le> ?N - rb_len b" using mx by (auto simp: word_le_nat_alt)
  let ?b = "b\<lparr>rb_mem := blit (rb_mem b) (unat off) d\<rparr>"
  have w: "blit (rb_mem b) ?o d = ring_write (rb_mem b) ?o d"
    using le assms(4) m by (simp add: ring_write_def)
  have same: "rb_offset ?b x = rb_offset b x" "acts_ringbuf_space ?b = acts_ringbuf_space b"
    "rb_claim y z ?b = rb_claim y z b" for x y z
    by (simp_all add: rb_offset_def acts_ringbuf_space_def rb_claim_def)
  have "acts_ringbuf_put_finish n ?b = (0, ?b\<lparr>rb_tail := rb_tail b + ucast n\<rparr>)"
    using n by (simp add: acts_ringbuf_put_finish_def same Let_def not_less)
  moreover have "rb_room (length d) b"
    using assms(2,4) n(2) by (auto simp: rb_room_def)
  moreover have "rb_len b + length d \<le> ?N" using le assms(1,4) by (auto simp: rb_ok_def)
  ultimately show ?thesis
    using appended [OF assms(1), of d] le o assms(4) by (auto simp: w off unat_rb_offset [OF assms(1)])
qed

lemma get_claim_finish:
  assumes "rb_ok b" "acts_ringbuf_get_claim sz b = (off, n)"
  shows "take (unat n) (drop (unat off) (rb_mem b)) = take (unat n) (rb_abs b) \<and>
    (case acts_ringbuf_get_finish n b of
       (r, b') \<Rightarrow> r = 0 \<and> rb_ok b' \<and> rb_abs b' = drop (unat n) (rb_abs b))"
proof -
  let ?N = "unat (rb_size b)" and ?o = "unat (rb_head b) mod unat (rb_size b)"
  have m: "length (rb_mem b) = ?N" and o: "?o < ?N" and l: "rb_len b \<le> ?N"
    using assms(1) rb_ok_size by (simp_all add: rb_ok_def)
  let ?max = "rb_claim (rb_offset b (rb_head b)) (acts_ringbuf_length b) b"
  have mx: "unat ?max = min (?N - ?o) (rb_len b)"
    using rb_claim_spec [OF assms(1), of "acts_ringbuf_length b" "rb_head b"] l
      unat_acts_ringbuf_length [OF assms(1)] by simp
  have off: "off = rb_offset b (rb_head b)" and nn: "n = (if sz \<le> ?max then sz else ?max)"
    using assms(2) by (auto simp: acts_ringbuf_get_claim_def Let_def)
  have n: "n \<le> ?max" using nn by auto
  then have le: "unat n \<le> ?N - ?o" "unat n \<le> rb_len b" using mx by (auto simp: word_le_nat_alt)
  have "take (unat n) (rb_abs b) = ring_slice (rb_mem b) (unat (rb_head b)) (unat n)"
    using le by (simp add: rb_abs_def take_ring_slice)
  also have "\<dots> = ring_slice (rb_mem b) ?o (unat n)" using ring_slice_mod [of "rb_mem b"] m by metis
  also have "\<dots> = take (unat n) (drop ?o (rb_mem b))" using le o m by (intro ring_slice_contiguous) simp_all
  finally have "take (unat n) (drop (unat off) (rb_mem b)) = take (unat n) (rb_abs b)"
    by (simp add: off unat_rb_offset [OF assms(1)])
  moreover have "acts_ringbuf_get_finish n b = (0, b\<lparr>rb_head := rb_head b + ucast n\<rparr>)"
    using n by (simp add: acts_ringbuf_get_finish_def Let_def not_less)
  moreover have "unat n < 2 ^ 64" using less_trans [OF unat_u32_less [of n]] by simp
  ultimately show ?thesis using head_moved [OF assms(1) le(2)] by simp
qed

text \<open>(C34) The zero-copy interface agrees with the copying one. A claimed range lies in the buffer;
  filling it and finishing the claim appends exactly the bytes filled in; a claim for reading
  exposes a prefix of the contents, and finishing it removes that prefix.\<close>

theorem acts_ringbuf_claims:
  assumes "rb_ok b" "rb_room (unat sz) b" "acts_ringbuf_put_claim sz b = (off, n)" "length d = unat n"
    and "acts_ringbuf_get_claim sz b = (off', n')"
  shows "unat off + unat n \<le> unat (rb_size b) \<and>
    (case acts_ringbuf_put_finish n (b\<lparr>rb_mem := blit (rb_mem b) (unat off) d\<rparr>) of
       (r, b') \<Rightarrow> r = 0 \<and> rb_ok b' \<and> rb_abs b' = rb_abs b @ d) \<and>
    take (unat n') (drop (unat off') (rb_mem b)) = take (unat n') (rb_abs b) \<and>
    (case acts_ringbuf_get_finish n' b of
       (r, b') \<Rightarrow> r = 0 \<and> rb_ok b' \<and> rb_abs b' = drop (unat n') (rb_abs b))"
  using put_claim_finish [OF assms(1-4)] get_claim_finish [OF assms(1,5)] by (simp only: simp_thms)

theorem acts_ringbuf_claims_witness:
  "take 2 (drop 0 (rb_mem (acts_ringbuf_init [1, 2, 3, 4] 4))) = [1, 2] \<and>
   (case acts_ringbuf_put_finish 2 ((acts_ringbuf_init [1, 2, 3, 4] 4)\<lparr>rb_mem := blit [1, 2, 3, 4] 0 [8, 9]\<rparr>) of
      (r, b') \<Rightarrow> r = 0 \<and> rb_abs b' = [8, 9])"
proof -
  let ?b = "acts_ringbuf_init [1, 2, 3, 4] 4"
  have p: "is_power_of_two 4" by (simp add: is_power_of_two_def)
  have ok: "rb_ok ?b" "rb_room 2 ?b" "rb_abs ?b = []" "rb_mem ?b = [1, 2, 3, 4]"
    using acts_ringbuf_init_ok [of 4 "[1, 2, 3, 4]"] p by (auto simp: rb_inv_def rb_room_def acts_ringbuf_init_def)
  have c: "acts_ringbuf_put_claim 2 ?b = (0, 2)"
    by (simp add: acts_ringbuf_put_claim_def acts_ringbuf_init_def rb_offset_def rb_claim_def
        acts_ringbuf_space_def Let_def)
  obtain o' n' where g: "acts_ringbuf_get_claim 2 ?b = (o', n')" by fastforce
  show ?thesis
    using acts_ringbuf_claims [of ?b 2, OF _ _ c _ g, of "[8, 9]"] ok by (auto split: prod.splits)
qed


section \<open>Copying between buffers\<close>

lemma unat_word_min: "unat (min a b :: u32) = min (unat a) (unat b)"
  by (simp add: min_def word_le_nat_alt)

lemma rb_copy_loop_spec:
  assumes "unat so < unat (rb_size src)" "length (rb_mem src) = unat (rb_size src)"
    and "unat od < unat dsz" "length m = unat dsz"
    and "0 < unat n" "unat n \<le> unat (rb_size src)" "unat n \<le> unat dsz"
  shows "rb_copy_loop src dsz so od n m = Some (ring_write m (unat od) (ring_slice (rb_mem src) (unat so) (unat n)))"
  using assms
proof (induction "unat n" arbitrary: so od n m rule: less_induct)
  case less
  define len where "len = (if min (rb_size src - so) (dsz - od) > n then n else min (rb_size src - so) (dsz - od))"
  have s: "unat (rb_size src - so) = unat (rb_size src) - unat so" "unat (dsz - od) = unat dsz - unat od"
    using less.prems(1,3) by (simp_all add: unat_sub word_le_nat_alt)
  have len: "unat len = min (unat n) (min (unat (rb_size src) - unat so) (unat dsz - unat od))"
    unfolding len_def using s by (auto simp: word_less_nat_alt unat_word_min)
  have pos: "0 < unat len" "unat len \<le> unat n" "unat so + unat len \<le> unat (rb_size src)" "unat od + unat len \<le> unat dsz"
    using len less.prems by auto
  let ?xs = "take (unat len) (drop (unat so) (rb_mem src))"
  have xs: "?xs = ring_slice (rb_mem src) (unat so) (unat len)" "length ?xs = unat len"
    using pos less.prems(1,2) by (simp_all add: ring_slice_contiguous)
  have n': "unat (n - len) = unat n - unat len" using pos by (simp add: unat_sub word_le_nat_alt)
  show ?case
  proof (cases "n - len = 0")
    case True
    then have "unat len = unat n" using n' pos by simp
    moreover have "rb_copy_loop src dsz so od n m = Some (blit m (unat od) ?xs)"
      using True by (subst rb_copy_loop.simps, unfold Let_def len_def [symmetric]) simp
    ultimately show ?thesis
      using xs pos less.prems(4) by (auto simp: ring_write_def)
  next
    case False
    let ?so = "if so + len \<ge> rb_size src then 0 else so + len"
    let ?od = "if od + len \<ge> dsz then 0 else od + len"
    have add: "unat (so + len) = unat so + unat len" "unat (od + len) = unat od + unat len"
      using le_less_trans [OF pos(3) unat_u32_less] le_less_trans [OF pos(4) unat_u32_less]
      by (simp_all add: unat_word_ariths)
    have o: "unat ?so = (unat so + unat len) mod unat (rb_size src)"
      "unat ?od = (if unat od + unat len \<ge> unat dsz then 0 else unat od + unat len)"
      using pos add by (auto simp: word_le_nat_alt)
    have "rb_copy_loop src dsz so od n m = rb_copy_loop src dsz ?so ?od (n - len) (blit m (unat od) ?xs)"
      using False by (subst rb_copy_loop.simps, unfold Let_def len_def [symmetric]) simp
    also have "\<dots> = Some (ring_write (blit m (unat od) ?xs) (unat ?od) (ring_slice (rb_mem src) (unat ?so) (unat (n - len))))"
    proof (rule less.hyps)
      show "unat (n - len) < unat n" using n' pos(1,2) by linarith
      show "unat ?so < unat (rb_size src)" unfolding o(1) using less.prems(1) by (intro mod_less_divisor) linarith
      show "unat ?od < unat dsz" unfolding o(2) using less.prems(3) by (cases "unat od + unat len \<ge> unat dsz") simp_all
      show "length (rb_mem src) = unat (rb_size src)" by (rule less.prems(2))
      show "length (blit m (unat od) ?xs) = unat dsz" using xs(2) pos(4) less.prems(4) by simp
      show "0 < unat (n - len)" using False by (simp add: unat_gt_0)
      show "unat (n - len) \<le> unat (rb_size src)" "unat (n - len) \<le> unat dsz" using n' less.prems(6,7) by linarith+
    qed
    also have "ring_slice (rb_mem src) (unat ?so) (unat (n - len)) = ring_slice (rb_mem src) (unat so + unat len) (unat (n - len))"
      unfolding o(1) using ring_slice_mod [of "rb_mem src"] less.prems(2) by metis
    also have "ring_write (blit m (unat od) ?xs) (unat ?od) \<dots> = ring_write m (unat od) (?xs @ \<dots>)"
      using less.prems pos n' xs(2) unfolding o(2)
      by (subst ring_write_append) simp_all
    also have "?xs @ ring_slice (rb_mem src) (unat so + unat len) (unat (n - len)) = ring_slice (rb_mem src) (unat so) (unat n)"
      unfolding xs(1) using ring_slice_append [of "rb_mem src" "unat so" "unat len" "unat n - unat len"] n' pos by simp
    finally show ?thesis .
  qed
qed

text \<open>The effect of a copy that is possible.\<close>

lemma copied_pieces:
  assumes "rb_ok dst" "rb_ok src" "rb_room (rb_len src) dst" "0 < unat k" "unat k \<le> rb_len src" "rb_len dst + unat k \<le> unat (rb_size dst)"
  shows "\<exists>m. rb_copy_loop src (rb_size dst) (rb_offset src (rb_head src)) (rb_offset dst (rb_tail dst)) k (rb_mem dst) = Some m \<and>
    (let dst' = dst\<lparr>rb_mem := m, rb_tail := rb_tail dst + ucast k\<rparr>; src' = src\<lparr>rb_head := rb_head src + ucast k\<rparr>
     in rb_ok dst' \<and> rb_ok src' \<and> rb_abs dst' = rb_abs dst @ take (unat k) (rb_abs src) \<and> rb_abs src' = drop (unat k) (rb_abs src))"
proof -
  let ?d = "take (unat k) (rb_abs src)"
  have d: "?d = ring_slice (rb_mem src) (unat (rb_head src)) (unat k)" "length ?d = unat k"
    using assms(5) by (simp_all add: rb_abs_def take_ring_slice)
  have ms: "length (rb_mem src) = unat (rb_size src)" "length (rb_mem dst) = unat (rb_size dst)" "unat k \<le> unat (rb_size src)"
    using assms(1,2,5) by (simp_all add: rb_ok_def)
  have sm: "ring_slice (rb_mem src) (unat (rb_head src) mod unat (rb_size src)) (unat k) = ?d"
    unfolding d(1) using ring_slice_mod [of "rb_mem src"] ms(1) by metis
  have c: "rb_copy_loop src (rb_size dst) (rb_offset src (rb_head src)) (rb_offset dst (rb_tail dst)) k (rb_mem dst) =
      Some (ring_write (rb_mem dst) (unat (rb_tail dst) mod unat (rb_size dst)) ?d)"
    using rb_copy_loop_spec [of "rb_offset src (rb_head src)" src "rb_offset dst (rb_tail dst)" "rb_size dst" "rb_mem dst" k]
      assms(4) ms rb_ok_size [OF assms(1)] rb_ok_size [OF assms(2)] add_leD2 [OF assms(6)]
    unfolding unat_rb_offset [OF assms(1)] unat_rb_offset [OF assms(2)] sm by blast
  have r: "rb_room (length ?d) dst" using assms(3,5) d(2) by (auto simp: rb_room_def)
  have l: "rb_len dst + length ?d \<le> unat (rb_size dst)" using assms(6) d(2) by simp
  have "unat k < 2 ^ 64" using less_trans [OF unat_u32_less [of k]] by simp
  note h = head_moved [OF assms(2,5) this, folded ucast_eq_word_of_nat]
    and a = appended [OF assms(1) l r, unfolded d(2), folded ucast_eq_word_of_nat]
  show ?thesis unfolding Let_def using c h a by blast
qed

text \<open>(C33) Copying between two buffers always comes to an end and moves as many bytes as were asked
  for, are stored, and fit: they leave the source from the front and arrive at the end of the
  destination, in order, for any sizes of the two buffers.\<close>

theorem acts_ringbuf_copy_moves:
  assumes "rb_ok dst" "rb_ok src" "rb_room (rb_len src) dst"
  shows "\<exists>k dst' src'. acts_ringbuf_copy dst src sz = Some (k, dst', src') \<and>
     unat k = min (unat sz) (min (rb_len src) (unat (rb_size dst) - rb_len dst)) \<and>
     rb_ok dst' \<and> rb_ok src' \<and>
     rb_abs dst' = rb_abs dst @ take (unat k) (rb_abs src) \<and> rb_abs src' = drop (unat k) (rb_abs src)"
proof -
  define k where "k = (let s = (if sz > acts_ringbuf_length src then acts_ringbuf_length src else sz)
     in if s > acts_ringbuf_space dst then acts_ringbuf_space dst else s)"
  have k: "unat k = min (unat sz) (min (rb_len src) (unat (rb_size dst) - rb_len dst))"
    unfolding k_def Let_def word_less_nat_alt
    by (simp add: unat_acts_ringbuf_length [OF assms(2)] unat_acts_ringbuf_space [OF assms(1)] min_def)
  have unfold: "acts_ringbuf_copy dst src sz = (if k = 0 then Some (0, dst, src)
      else case rb_copy_loop src (rb_size dst) (rb_offset src (rb_head src)) (rb_offset dst (rb_tail dst)) k (rb_mem dst) of
        None \<Rightarrow> None
      | Some mem \<Rightarrow> Some (k, dst\<lparr>rb_mem := mem, rb_tail := rb_tail dst + ucast k\<rparr>,
          src\<lparr>rb_head := rb_head src + ucast k\<rparr>))"
    by (simp only: acts_ringbuf_copy_def Let_def k_def)
  show ?thesis
  proof (cases "k = 0")
    case True
    have "acts_ringbuf_copy dst src sz = Some (k, dst, src)" using unfold True by simp
    moreover have "unat k = 0" using True by simp
    ultimately show ?thesis using k assms(1,2) by (intro exI [of _ k] exI [of _ dst] exI [of _ src]) simp
  next
    case False
    have "rb_len dst \<le> unat (rb_size dst)" using assms(1) by (simp add: rb_ok_def)
    then have b: "unat k \<le> rb_len src" "rb_len dst + unat k \<le> unat (rb_size dst)" using k by linarith+
    have "0 < unat k" using False by (simp add: unat_gt_0)
    from copied_pieces [OF assms this b] obtain m where
        "rb_copy_loop src (rb_size dst) (rb_offset src (rb_head src)) (rb_offset dst (rb_tail dst)) k (rb_mem dst) = Some m"
        "let dst' = dst\<lparr>rb_mem := m, rb_tail := rb_tail dst + ucast k\<rparr>; src' = src\<lparr>rb_head := rb_head src + ucast k\<rparr>
         in rb_ok dst' \<and> rb_ok src' \<and> rb_abs dst' = rb_abs dst @ take (unat k) (rb_abs src) \<and> rb_abs src' = drop (unat k) (rb_abs src)"
      by blast
    then show ?thesis using unfold False k unfolding Let_def by simp
  qed
qed


section \<open>Streams\<close>

text \<open>The \<open>int\<close> result of a stream operation is compared as an unsigned number.\<close>

lemma stream_len_eq:
  assumes "- (2 ^ 31) \<le> r" "r \<le> int (unat len)" "unat len < 2 ^ 31"
  shows "word_of_int r = (len :: u32) \<longleftrightarrow> r = uint len"
proof -
  have u: "uint len = int (unat len)" by simp
  have b: "uint len < 2 ^ 31"
    using assms(3) unfolding u by (simp only: of_nat_less_numeral_power_cancel_iff)
  show ?thesis
  proof (cases "r < 0")
    case True
    have "r mod 2 ^ 32 = (r + 2 ^ 32) mod 2 ^ 32" by simp
    also have "\<dots> = r + 2 ^ 32" using True assms(1) by (intro mod_pos_pos_trivial) simp_all
    finally have "uint (word_of_int r :: u32) = r + 2 ^ 32" by (simp add: uint_word_of_int)
    with b have "uint (word_of_int r :: u32) \<noteq> uint len" using assms(1) by simp
    then have "word_of_int r \<noteq> len" by blast
    moreover have "r \<noteq> uint len" using True uint_ge_0 [of len] by linarith
    ultimately show ?thesis by blast
  next
    case False
    then have "uint (word_of_int r :: u32) = r"
      using assms(2) b unfolding uint_word_of_int u by (intro mod_pos_pos_trivial) simp_all
    then show ?thesis by (metis word_of_int_uint)
  qed
qed

lemma sink_pieces:
  assumes sink: "\<And>s d r t. stream_write s d = (r, t) \<Longrightarrow> r \<le> int (length d) \<and> taken t = taken s @ take (nat r) d"
    and "stream_write s d1 = (r1, t1)"
    and "res = (if r1 = int (length d1) then let (r2, t2) = stream_write t1 d2 in (if r2 > 0 then r1 + r2 else r1, t2)
      else (r1, t1))"
  shows "fst res \<le> int (length (d1 @ d2)) \<and> taken (snd res) = taken s @ take (nat (fst res)) (d1 @ d2)"
proof (cases "r1 = int (length d1)")
  case True
  obtain r2 t2 where r2: "stream_write t1 d2 = (r2, t2)" by fastforce
  show ?thesis
    using sink [OF assms(2)] sink [OF r2] assms(3) True r2 by (auto simp: nat_add_distrib)
next
  case False
  then show ?thesis using sink [OF assms(2)] assms(3) by (auto simp: nat_le_iff)
qed

lemma read_pieces_spec:
  assumes "rb_ok b" "unat sz \<le> rb_len b" "rb_read_pieces stream_write s sz b = (r, t)"
    and sink: "\<And>s d r t. stream_write s d = (r, t) \<Longrightarrow> - (2 ^ 31) \<le> r \<and> r \<le> int (length d) \<and> taken t = taken s @ take (nat r) d"
    and "unat (rb_size b) < 2 ^ 31"
  shows "r \<le> int (unat sz) \<and> taken t = taken s @ take (nat r) (take (unat sz) (rb_abs b))"
proof -
  let ?N = "unat (rb_size b)" and ?off = "rb_offset b (rb_head b)"
  let ?len = "rb_size b - ?off"
  note sz = assms(2) and r = assms(3)
  have le: "rb_len b \<le> ?N" using assms(1) by (simp add: rb_ok_def)
  note whole = two_part_read [OF assms(1) order_trans [OF sz le], of "rb_head b"]
  have abs: "ring_slice (rb_mem b) (unat (rb_head b)) (unat sz) = take (unat sz) (rb_abs b)"
    using sz by (simp add: rb_abs_def take_ring_slice)
  have sink': "r \<le> int (length d) \<and> taken t = taken s @ take (nat r) d" if "stream_write s d = (r, t)" for s d r t
    by (rule conjunct2 [OF sink [OF that]])
  show ?thesis
  proof (cases "?len \<ge> sz")
    case True
    then show ?thesis
      using r sink' [of s "take (unat sz) (rb_abs b)" r t] sz whole abs by (simp add: rb_read_pieces_def Let_def)
  next
    case False
    let ?d1 = "take (unat ?len) (drop (unat ?off) (rb_mem b))" and ?d2 = "take (unat (sz - ?len)) (rb_mem b)"
    have d: "?d1 @ ?d2 = take (unat sz) (rb_abs b)" using whole abs False by simp
    have l1: "length ?d1 = unat ?len"
      using assms(1) unat_rest [OF assms(1), of "rb_head b"] by (simp add: unat_rb_offset [OF assms(1)] rb_ok_def)
    obtain r1 t1 where r1: "stream_write s ?d1 = (r1, t1)" by fastforce
    have sm: "unat ?len < 2 ^ 31" using assms(5) unat_rest [OF assms(1), of "rb_head b"] by simp
    have u: "word_of_int r1 = ?len \<longleftrightarrow> r1 = int (length ?d1)"
      using stream_len_eq [OF _ _ sm, of r1] sink [OF r1] l1 by simp
    have "rb_read_pieces stream_write s sz b =
        (if r1 = int (length ?d1) then let (r2, t2) = stream_write t1 ?d2 in (if r2 > 0 then r1 + r2 else r1, t2) else (r1, t1))"
      by (simp only: rb_read_pieces_def Let_def False if_False r1 prod.case u)
    note p = sink_pieces [where stream_write = stream_write and taken = taken, OF sink' r1 this]
    show ?thesis using p unfolding r fst_conv snd_conv d using sz by simp
  qed
qed

text \<open>(C35) Reading into a stream takes from the buffer exactly the bytes the stream accepted, whether
  the range wraps around or not and even if the stream takes less than it was offered or fails
  half-way. The hypothesis is the stream's own contract: it returns how many of the offered
  bytes it has appended, or a negative error having appended none. Its result is compared as an
  unsigned number, so the buffer must be smaller than 2 GiB.\<close>

theorem acts_ringbuf_read_exact:
  assumes "rb_ok b" "acts_ringbuf_read stream_write s sz b = (n, s', b')"
    and sink: "\<And>s d r t. stream_write s d = (r, t) \<Longrightarrow> - (2 ^ 31) \<le> r \<and> r \<le> int (length d) \<and> taken t = taken s @ take (nat r) d"
    and "unat (rb_size b) < 2 ^ 31"
  shows "rb_ok b' \<and> taken s' = taken s @ take (unat n) (rb_abs b) \<and> rb_abs b' = drop (unat n) (rb_abs b)"
proof (cases "sz > acts_ringbuf_length b")
  case True
  then show ?thesis using assms(1,2) by (auto simp: acts_ringbuf_read_def)
next
  case False
  have sz: "unat sz \<le> rb_len b"
    using False by (simp add: word_less_nat_alt unat_acts_ringbuf_length [OF assms(1)] not_less)
  obtain r t where r: "rb_read_pieces stream_write s sz b = (r, t)" by fastforce
  note key = read_pieces_spec [where taken = taken, OF assms(1) sz r sink assms(4)]
  have unf: "acts_ringbuf_read stream_write s sz b =
      (if r > 0 then (word_of_int r, t, b\<lparr>rb_head := rb_head b + word_of_int r\<rparr>) else (0, t, b))"
    using False r by (simp add: acts_ringbuf_read_def)
  show ?thesis
  proof (cases "r > 0")
    case True
    have b: "n = word_of_int r" "s' = t" "b' = b\<lparr>rb_head := rb_head b + word_of_int r\<rparr>"
      using assms(2) unf True by auto
    have nr: "nat r \<le> unat sz" using conjunct1 [OF key] by (simp only: nat_le_iff)
    have un: "unat n = nat r"
      using le_less_trans [OF nr unat_u32_less] True by (simp add: b(1) unsigned_of_int take_bit_int_eq_self unat_eq_nat_uint)
    have w: "(word_of_int r :: u64) = word_of_nat (nat r)" using True by simp
    have "nat r < 2 ^ 64" using le_less_trans [OF nr unat_u32_less] by simp
    then have "rb_ok b' \<and> rb_abs b' = drop (nat r) (rb_abs b)"
      using head_moved [OF assms(1) order_trans [OF nr sz]] unfolding b(3) w by blast
    then show ?thesis using key nr b(2) un by (simp add: min_def)
  next
    case False
    then show ?thesis using assms(1,2) unf key by simp
  qed
qed


text \<open>A buffer whose contents wrap around the end of its memory.\<close>

definition demo_ringbuf :: acts_ringbuf where
  "demo_ringbuf = \<lparr>rb_head = 2, rb_tail = 5, rb_size = 4, rb_mask = 3, rb_mem = [1, 2, 3, 4]\<rparr>"

lemma demo_ringbuf_ok: "rb_ok demo_ringbuf" "rb_abs demo_ringbuf = [3, 4, 1]"
proof -
  have "\<exists>k. (4::nat) = 2 ^ k \<and> (3::nat) = 2 ^ k - 1" by (rule exI [of _ 2]) simp
  then show "rb_ok demo_ringbuf" by (simp add: rb_ok_def demo_ringbuf_def rb_len_def rb_room_def)
  show "rb_abs demo_ringbuf = [3, 4, 1]"
    by (simp add: rb_abs_def demo_ringbuf_def rb_len_def ring_slice_def upt_rec)
qed

theorem acts_ringbuf_copy_moves_witness:
  "\<exists>k dst' src'. acts_ringbuf_copy (acts_ringbuf_init [0, 0] 2) demo_ringbuf 5 = Some (k, dst', src') \<and>
     rb_abs dst' = [3, 4] \<and> rb_abs src' = [1]"
proof -
  let ?d = "acts_ringbuf_init [0, 0] 2"
  have d: "rb_ok ?d" "rb_abs ?d = []" "rb_len ?d = 0" "rb_size ?d = 2"
    using acts_ringbuf_init_ok [of 2 "[0, 0]"] by (simp_all add: rb_len_def acts_ringbuf_init_def)
  have l: "rb_len demo_ringbuf = 3" using arg_cong [OF demo_ringbuf_ok(2), of length] by simp
  have "rb_room (rb_len demo_ringbuf) ?d"
    by (simp add: rb_room_def d l)
  from acts_ringbuf_copy_moves [OF d(1) demo_ringbuf_ok(1) this, of 5] show ?thesis
    by (auto simp: d l demo_ringbuf_ok(2))
qed

theorem acts_ringbuf_read_exact_witness:
  "\<exists>n s' b'. acts_ringbuf_read (\<lambda>s d. (int (length d), s @ d)) [] 3 demo_ringbuf = (n, s', b') \<and>
     s' = take (unat n) [3, 4, 1]"
proof -
  let ?f = "\<lambda>(s :: bytes) d. (int (length d), s @ d)"
  obtain n s' b' where r: "acts_ringbuf_read ?f [] 3 demo_ringbuf = (n, s', b')"
    using prod_cases3 by blast
  have "rb_ok b' \<and> s' = [] @ take (unat n) (rb_abs demo_ringbuf) \<and> rb_abs b' = drop (unat n) (rb_abs demo_ringbuf)"
    by (rule acts_ringbuf_read_exact [where taken = "\<lambda>s. s", OF demo_ringbuf_ok(1) r]) (auto simp: demo_ringbuf_def)
  then have "s' = take (unat n) [3, 4, 1]" by (simp add: demo_ringbuf_ok(2))
  with r show ?thesis by blast
qed

lemma write_pieces_spec:
  assumes "rb_ok b" "unat sz \<le> unat (rb_size b)" "rb_write_pieces stream_read s sz b = (r, t, m)"
    and source: "\<And>s k r d t. stream_read s k = (r, d, t) \<Longrightarrow> - (2 ^ 31) \<le> r \<and> length d = nat r \<and> length d \<le> k \<and> given t = given s @ d"
    and "unat (rb_size b) < 2 ^ 31"
  shows "\<exists>d. length d = nat r \<and> length d \<le> unat sz \<and> given t = given s @ d \<and>
    m = ring_write (rb_mem b) (unat (rb_tail b) mod unat (rb_size b)) d"
proof -
  let ?off = "rb_offset b (rb_tail b)" and ?o = "unat (rb_tail b) mod unat (rb_size b)"
  let ?len = "rb_size b - ?off"
  have off: "unat ?off = ?o" "unat ?len = unat (rb_size b) - ?o" "length (rb_mem b) = unat (rb_size b)"
    using unat_rb_offset [OF assms(1)] unat_rest [OF assms(1)] assms(1) by (simp_all add: rb_ok_def)
  show ?thesis
  proof (cases "?len \<ge> sz")
    case True
    obtain r1 d1 t1 where r1: "stream_read s (unat sz) = (r1, d1, t1)" by (metis prod_cases3)
    have "r = r1" "t = t1" "m = blit (rb_mem b) ?o d1"
      using assms(3) True r1 off by (simp_all add: rb_write_pieces_def Let_def)
    moreover have "length d1 \<le> unat (rb_size b) - ?o"
      using source [OF r1] True off(2) by (simp add: word_le_nat_alt)
    ultimately show ?thesis
      using source [OF r1] off by (intro exI [of _ d1]) (simp add: ring_write_def)
  next
    case False
    obtain r1 d1 t1 where r1: "stream_read s (unat ?len) = (r1, d1, t1)" by (metis prod_cases3)
    note s1 = source [OF r1]
    have "unat ?len < 2 ^ 31" using assms(5) off(2) by simp
    moreover have "r1 \<le> int (unat ?len)" using s1 by linarith
    ultimately have u: "word_of_int r1 = ?len \<longleftrightarrow> r1 = uint ?len"
      using s1 by (intro stream_len_eq) simp_all
    have fit: "length d1 \<le> unat (rb_size b) - ?o" using s1 off(2) by simp
    have lt: "unat ?len \<le> unat sz" using False by (simp add: word_le_nat_alt)
    show ?thesis
    proof (cases "r1 = uint ?len")
      case True
      obtain r2 d2 t2 where r2: "stream_read t1 (unat (sz - ?len)) = (r2, d2, t2)" by (metis prod_cases3)
      note s2 = source [OF r2]
      have l1: "length d1 = unat (rb_size b) - ?o" using s1 True off(2) by simp
      have e: "r = (if r2 > 0 then r1 + r2 else r1)" "t = t2" "m = blit (blit (rb_mem b) ?o d1) 0 d2"
        using assms(3) False True r1 r2 off u by (auto simp: rb_write_pieces_def Let_def)
      have l2: "length (d1 @ d2) = nat r" using s1 s2 True e(1) by (simp add: nat_add_distrib)
      have "unat (sz - ?len) = unat sz - unat ?len" using lt by (simp add: unat_sub word_le_nat_alt)
      then have "length (d1 @ d2) \<le> unat sz" using conjunct1 [OF conjunct2 [OF conjunct2 [OF s2]]] l1 off(2) lt by simp
      moreover have "m = ring_write (rb_mem b) ?o (d1 @ d2)"
        using e(3) l1 off(3) by (cases "d2 = []") (simp_all add: ring_write_def)
      ultimately show ?thesis using s1 s2 e(2) l2 by (intro exI [of _ "d1 @ d2"]) simp
    next
      case ne: False
      have "r = r1" "t = t1" "m = blit (rb_mem b) ?o d1"
        using assms(3) False ne r1 off u by (simp_all add: rb_write_pieces_def Let_def)
      then show ?thesis
        using s1 fit lt off by (intro exI [of _ d1]) (simp add: ring_write_def)
    qed
  qed
qed

text \<open>Writing from a stream appends to the buffer exactly the bytes the stream delivered, in
  order, across the end of the memory and for short deliveries. The hypothesis is the stream's
  contract: it fills at most the room it is offered and returns how many bytes it filled in, or
  a negative error.\<close>

theorem acts_ringbuf_write_exact:
  assumes "rb_ok b" "rb_room (unat sz) b" "acts_ringbuf_write stream_read s sz b = (n, s', b')"
    and source: "\<And>s k r d t. stream_read s k = (r, d, t) \<Longrightarrow> - (2 ^ 31) \<le> r \<and> length d = nat r \<and> length d \<le> k \<and> given t = given s @ d"
    and "unat (rb_size b) < 2 ^ 31"
  shows "\<exists>d. length d = unat n \<and> given s' = given s @ d \<and> rb_ok b' \<and> rb_abs b' = rb_abs b @ d"
proof (cases "sz > acts_ringbuf_space b")
  case True
  then show ?thesis using assms(1,3) by (auto simp: acts_ringbuf_write_def)
next
  case False
  have sz: "rb_len b + unat sz \<le> unat (rb_size b)"
    using False assms(1) by (auto simp: word_less_nat_alt unat_acts_ringbuf_space [OF assms(1)] not_less rb_ok_def)
  obtain r t m where p: "rb_write_pieces stream_read s sz b = (r, t, m)" by (metis prod_cases3)
  obtain d where d: "length d = nat r" "length d \<le> unat sz" "given t = given s @ d"
      "m = ring_write (rb_mem b) (unat (rb_tail b) mod unat (rb_size b)) d"
    using write_pieces_spec [where given = given, OF assms(1) add_leD2 [OF sz] p source assms(5)] by blast
  have room: "rb_room (length d) b" using assms(2) d(2) by (auto simp: rb_room_def)
  note a = appended [OF assms(1) _ room]
  show ?thesis
  proof (cases "r > 0")
    case True
    have b: "n = word_of_int r" "s' = t" "b' = b\<lparr>rb_mem := m, rb_tail := rb_tail b + word_of_nat (length d)\<rparr>"
      using assms(3) False p True d(1) by (auto simp: acts_ringbuf_write_def Let_def)
    have "unat n = nat r"
      using le_less_trans [OF d(2) unat_u32_less] True d(1)
      by (simp add: b(1) unsigned_of_int take_bit_int_eq_self unat_eq_nat_uint)
    then show ?thesis using a sz d b by (intro exI [of _ d]) simp
  next
    case r0: False
    then have "d = []" "n = 0" "s' = t" "b' = b\<lparr>rb_mem := m\<rparr>"
      using assms(3) False p d(1) by (auto simp: acts_ringbuf_write_def Let_def)
    moreover have "b\<lparr>rb_mem := m, rb_tail := rb_tail b + word_of_nat (length d)\<rparr> = b\<lparr>rb_mem := m\<rparr>"
      using \<open>d = []\<close> by simp
    ultimately show ?thesis using a sz d by (intro exI [of _ "[]"]) simp
  qed
qed

theorem acts_ringbuf_write_exact_witness:
  "\<exists>n s' b' d. acts_ringbuf_write (\<lambda>s k. (int (length (take k [7, 8 :: u8])), take k [7, 8], s @ take k [7, 8])) [] 3
      (acts_ringbuf_init [1, 2, 3, 4] 4) = (n, s', b') \<and> s' = d \<and> rb_abs b' = d"
proof -
  let ?b = "acts_ringbuf_init [1, 2, 3, 4] 4" and ?f = "\<lambda>(s :: bytes) k. (int (length (take k [7, 8 :: u8])), take k [7, 8 :: u8], s @ take k [7, 8])"
  obtain n s' b' where r: "acts_ringbuf_write ?f [] 3 ?b = (n, s', b')" using prod_cases3 by blast
  have ok: "rb_ok ?b" "rb_abs ?b = []" "rb_room (unat (3 :: u32)) ?b"
    using acts_ringbuf_init_ok [of 4 "[1, 2, 3, 4]"] by (simp_all add: rb_room_def acts_ringbuf_init_def)
  have "\<exists>d. length d = unat n \<and> s' = [] @ d \<and> rb_ok b' \<and> rb_abs b' = rb_abs ?b @ d"
    by (rule acts_ringbuf_write_exact [where given = "\<lambda>s. s", OF ok(1,3) r]) (auto simp: acts_ringbuf_init_def)
  then have "rb_abs b' = s'" by (auto simp: ok(2))
  with r show ?thesis by blast
qed


section \<open>Filling, dropping, defragmenting\<close>

text \<open>Filling writes the same bytes \<open>acts_ringbuf_put\<close> would.\<close>

lemma fill_is_put: "acts_ringbuf_fill c sz b = acts_ringbuf_put (Some (replicate (unat sz) c)) sz b"
proof -
  have "min (unat l) (unat sz) = unat l \<and> unat sz - unat l = unat (sz - l)" if "\<not> sz \<le> l" for l :: u32
    using that by (simp add: word_le_nat_alt unat_sub less_imp_le)
  then show ?thesis
    by (auto simp: acts_ringbuf_fill_def acts_ringbuf_put_def Let_def)
qed

lemma acts_ringbuf_drop_spec:
  assumes "rb_ok b"
  shows "rb_ok (snd (acts_ringbuf_drop sz b)) \<and>
    rb_abs (snd (acts_ringbuf_drop sz b)) = (if unat sz \<le> rb_len b then drop (unat sz) (rb_abs b) else rb_abs b)"
proof -
  have "unat sz < 2 ^ 64" using less_trans [OF unat_u32_less [of sz]] by simp
  then show ?thesis
    using head_moved [OF assms, of "unat sz"] assms
    by (auto simp: acts_ringbuf_drop_def word_less_nat_alt unat_acts_ringbuf_length)
qed

lemma rewound:
  assumes "rb_ok b" "length m = length (rb_mem b)" "ring_slice m 0 (rb_len b) = rb_abs b"
  shows "rb_ok (b\<lparr>rb_mem := m, rb_tail := rb_tail b - rb_head b, rb_head := 0\<rparr>) \<and>
    rb_abs (b\<lparr>rb_mem := m, rb_tail := rb_tail b - rb_head b, rb_head := 0\<rparr>) = rb_abs b"
proof -
  let ?b = "b\<lparr>rb_mem := m, rb_tail := rb_tail b - rb_head b, rb_head := 0\<rparr>"
  have l: "rb_len ?b = rb_len b" by (simp add: rb_len_def)
  have "rb_len b < 2 ^ 64" by (simp add: rb_len_def)
  then have "rb_room 0 ?b" using l by (simp add: rb_room_def)
  then have "rb_ok ?b" using assms(1,2) l by (simp add: rb_ok_def)
  moreover have "rb_abs ?b = rb_abs b" using assms(3) l by (simp add: rb_abs_def)
  ultimately show ?thesis by blast
qed

text \<open>Where the contents lie between the two offsets.\<close>

lemma offsets_cases:
  assumes "rb_ok b" "0 < rb_len b"
  defines "r \<equiv> unat (rb_offset b (rb_head b))" and "w \<equiv> unat (rb_offset b (rb_tail b))"
  shows "r < w \<and> w = r + rb_len b \<and> r + rb_len b < unat (rb_size b) \<or>
     w \<le> r \<and> r + rb_len b = w + unat (rb_size b)"
proof -
  let ?N = "unat (rb_size b)"
  have r: "r = unat (rb_head b) mod ?N" "r < ?N" unfolding r_def unat_rb_offset [OF assms(1)]
    using rb_ok_size [OF assms(1)] by simp_all
  have l: "rb_len b \<le> ?N" using assms(1) by (simp add: rb_ok_def)
  have w: "w = (r + rb_len b) mod ?N"
    unfolding w_def unat_rb_offset [OF assms(1)] tail_position [OF assms(1)] r(1) by (simp add: mod_add_left_eq)
  show ?thesis
  proof (cases "rb_len b = ?N")
    case True
    then show ?thesis using w r(2) by simp
  next
    case False
    then show ?thesis using w r(2) l assms(2) mod_ring_add [OF r(2), of "rb_len b"] by auto
  qed
qed

text \<open>The contents seen from the offset of the head.\<close>

lemma offset_slice:
  assumes "rb_ok b"
  shows "unat (rb_offset b (rb_head b)) < unat (rb_size b)" "ring_slice (rb_mem b) (unat (rb_offset b (rb_head b))) (rb_len b) = rb_abs b"
proof -
  have m: "length (rb_mem b) = unat (rb_size b)" using assms by (simp add: rb_ok_def)
  show "unat (rb_offset b (rb_head b)) < unat (rb_size b)" using unat_rb_offset [OF assms] rb_ok_size [OF assms] by simp
  show "ring_slice (rb_mem b) (unat (rb_offset b (rb_head b))) (rb_len b) = rb_abs b"
    unfolding unat_rb_offset [OF assms] rb_abs_def using ring_slice_mod [of "rb_mem b"] m by metis
qed

text \<open>Contents that wrap around stay where they are; only the counters are made small.\<close>

lemma defrag_wrapped:
  assumes "rb_ok b" "unat (rb_size b) \<le> 2 ^ 31" "0 < rb_len b" "rb_offset b (rb_tail b) \<le> rb_offset b (rb_head b)"
  defines "b' \<equiv> b\<lparr>rb_head := ucast (rb_offset b (rb_head b)), rb_tail := ucast (rb_offset b (rb_tail b) + rb_size b)\<rparr>"
  shows "rb_ok b' \<and> rb_abs b' = rb_abs b \<and> unat (rb_head b') < unat (rb_size b)"
proof -
  let ?N = "unat (rb_size b)" and ?r = "rb_offset b (rb_head b)" and ?w = "rb_offset b (rb_tail b)"
  note r = offset_slice [OF assms(1)]
  have e: "unat ?r + rb_len b = unat ?w + ?N" using offsets_cases [OF assms(1,3)] assms(4) by (auto simp: word_le_nat_alt)
  have ws: "unat (?w + rb_size b) = unat ?w + ?N"
    using assms(2,4) r(1) by (simp add: unat_word_ariths word_le_nat_alt)
  have "unat (rb_tail b' - rb_head b') = unat ?w + ?N - unat ?r"
    unfolding b'_def using ws e by (subst unat_sub) (simp_all add: word_le_nat_alt)
  then have l: "rb_len b' = rb_len b" using e by (simp add: rb_len_def)
  have "unat (ucast ?r :: u64) + rb_len b < 2 ^ 64" using r(1) assms(1,2) by (simp add: rb_ok_def)
  then have "rb_room 0 b'" using l by (simp add: rb_room_def b'_def)
  then have "rb_ok b'" using assms(1) l by (simp add: rb_ok_def b'_def)
  moreover have "rb_abs b' = rb_abs b" using r(2) l by (simp add: rb_abs_def b'_def)
  ultimately show ?thesis using r(1) by (simp add: b'_def)
qed

text \<open>Contents in one piece are copied to the front.\<close>

lemma defrag_contiguous:
  assumes "rb_ok b" "0 < rb_len b" "rb_offset b (rb_head b) < rb_offset b (rb_tail b)"
  defines "b' \<equiv> b\<lparr>rb_mem := blit (rb_mem b) 0 (rb_abs b), rb_tail := rb_tail b - rb_head b, rb_head := 0\<rparr>"
  shows "unat (rb_offset b (rb_tail b) - rb_offset b (rb_head b)) = rb_len b \<and>
    take (rb_len b) (drop (unat (rb_offset b (rb_head b))) (rb_mem b)) = rb_abs b \<and> rb_ok b' \<and> rb_abs b' = rb_abs b"
proof -
  let ?N = "unat (rb_size b)" and ?r = "rb_offset b (rb_head b)" and ?w = "rb_offset b (rb_tail b)"
  have m: "length (rb_mem b) = ?N" using assms(1) by (simp add: rb_ok_def)
  have e: "unat ?w = unat ?r + rb_len b" "unat ?r + rb_len b < ?N"
    using offsets_cases [OF assms(1,2)] assms(3) by (auto simp: word_less_nat_alt)
  have wr: "unat (?w - ?r) = rb_len b" using assms(3) e by (simp add: unat_sub word_le_nat_alt)
  have a: "take (rb_len b) (drop (unat ?r) (rb_mem b)) = rb_abs b"
    using offset_slice(2) [OF assms(1)] ring_slice_contiguous [of "unat ?r" "rb_len b" "rb_mem b"] e m by simp
  let ?m = "blit (rb_mem b) 0 (rb_abs b)"
  have lm: "length ?m = length (rb_mem b)" using e m by simp
  have "ring_slice ?m 0 (rb_len b) = rb_abs b"
    using ring_slice_contiguous [of 0 "rb_len b" ?m] lm e m take_blit_0 [of "rb_abs b" "rb_mem b"] by simp
  from rewound [OF assms(1) lm this] show ?thesis using wr a unfolding b'_def by blast
qed

text \<open>(C36) Defragmenting keeps the contents and brings the head counter back below the size, whenever
  it is defined; it is undefined, because it copies between overlapping ranges, exactly when
  the contents lie in one piece that is longer than the gap in front of it.\<close>

theorem acts_ringbuf_defrag_keeps:
  assumes "rb_ok b" "unat (rb_size b) \<le> 2 ^ 31"
  shows "(acts_ringbuf_defrag b = None \<longleftrightarrow>
      0 < unat (rb_offset b (rb_head b)) \<and> unat (rb_offset b (rb_head b)) < unat (rb_offset b (rb_tail b)) \<and>
      unat (rb_offset b (rb_head b)) < rb_len b) \<and>
    (\<forall>b'. acts_ringbuf_defrag b = Some b' \<longrightarrow> rb_ok b' \<and> rb_abs b' = rb_abs b \<and> unat (rb_head b') < unat (rb_size b))"
proof -
  let ?N = "unat (rb_size b)" and ?r = "rb_offset b (rb_head b)" and ?w = "rb_offset b (rb_tail b)"
  have N: "0 < ?N" using assms(1) by (simp add: rb_ok_def)
  have emp: "acts_ringbuf_is_empty b \<longleftrightarrow> rb_len b = 0"
    by (auto simp: acts_ringbuf_is_empty_def rb_len_def unat_eq_0)
  consider (front) "?r = 0 \<or> rb_len b = 0" | (wrapped) "?r \<noteq> 0" "0 < rb_len b" "?w \<le> ?r" | (piece) "?r \<noteq> 0" "0 < rb_len b" "?r < ?w"
    by fastforce
  then show ?thesis
  proof cases
    case front
    then have "ring_slice (rb_mem b) 0 (rb_len b) = rb_abs b"
      using offset_slice(2) [OF assms(1)] by (auto simp: rb_abs_def ring_slice_def)
    note w = rewound [OF assms(1) refl this]
    have "acts_ringbuf_defrag b = Some (b\<lparr>rb_mem := rb_mem b, rb_tail := rb_tail b - rb_head b, rb_head := 0\<rparr>)"
      using front emp by (auto simp: acts_ringbuf_defrag_def)
    then show ?thesis using w front N by auto
  next
    case wrapped
    then have "acts_ringbuf_defrag b = Some (b\<lparr>rb_head := ucast ?r, rb_tail := ucast (?w + rb_size b)\<rparr>)"
      using emp by (simp add: acts_ringbuf_defrag_def)
    then show ?thesis using defrag_wrapped [OF assms wrapped(2,3)] wrapped(3) by (auto simp: word_le_nat_alt)
  next
    case piece
    note d = defrag_contiguous [OF assms(1) piece(2,3)]
    have nle: "\<not> ?w \<le> ?r" using piece(3) by simp
    have pos: "0 < unat ?r" using piece(1) by (simp add: unat_gt_0)
    have "memcpy_overlaps 0 (unat ?r) (rb_len b) \<longleftrightarrow> unat ?r < rb_len b" using pos by (auto simp: memcpy_overlaps_def)
    then have "acts_ringbuf_defrag b = (if unat ?r < rb_len b then None
        else Some (b\<lparr>rb_mem := blit (rb_mem b) 0 (rb_abs b), rb_tail := rb_tail b - rb_head b, rb_head := 0\<rparr>))"
      using piece(1,2) nle emp d by (simp add: acts_ringbuf_defrag_def)
    then show ?thesis using d pos piece(3) N by (auto simp: word_less_nat_alt)
  qed
qed

theorem acts_ringbuf_defrag_keeps_witness:
  "\<exists>b'. acts_ringbuf_defrag demo_ringbuf = Some b' \<and> rb_abs b' = [3, 4, 1]"
proof -
  have "unat (rb_size demo_ringbuf) \<le> 2 ^ 31" by (simp add: demo_ringbuf_def)
  note d = acts_ringbuf_defrag_keeps [OF demo_ringbuf_ok(1) this]
  have "\<not> unat (rb_offset demo_ringbuf (rb_head demo_ringbuf)) < unat (rb_offset demo_ringbuf (rb_tail demo_ringbuf))"
    by (simp add: demo_ringbuf_def rb_offset_def)
  then have "acts_ringbuf_defrag demo_ringbuf \<noteq> None" using d by blast
  then show ?thesis using d by (auto simp: demo_ringbuf_ok(2))
qed

end
