(* ===== verification/Nvram_Storage.thy ===== *)
theory Nvram_Storage
  imports Prelude
begin

text \<open>
  The storage below the parameter store, \<^verbatim>\<open>drivers/nvram/nvram_storage.c\<close>. The flash driver
  is reached through the table of \<^verbatim>\<open>include/flash.h\<close> and ends in the boot ROM, so it is a
  parameter: a record of operations on a device state \<open>'d\<close>. What the store relies on is the
  behaviour of NOR flash: reading returns the cells, programming clears bits, erasing sets a
  sector of 4 KiB to ones. The store itself only uses the weaker contract \<open>nvram_storage\<close>,
  which both the flash and the simulated memory of the source provide.

  Addresses and sizes are natural numbers: the flash has 4 MiB, so 32 bits never wrap around.
\<close>

section \<open>Memory contents\<close>

definition overlay :: "(nat \<Rightarrow> u8) \<Rightarrow> nat \<Rightarrow> bytes \<Rightarrow> nat \<Rightarrow> u8" where
  "overlay f a bs = (\<lambda>i. if a \<le> i \<and> i < a + length bs then bs ! (i - a) else f i)"

definition mem_slice :: "(nat \<Rightarrow> u8) \<Rightarrow> nat \<Rightarrow> nat \<Rightarrow> bytes" where
  "mem_slice f a n = map f [a..<a + n]"

text \<open>A write that asks only for bits to be cleared.\<close>

definition clears :: "(nat \<Rightarrow> u8) \<Rightarrow> nat \<Rightarrow> bytes \<Rightarrow> bool" where
  "clears f a bs \<longleftrightarrow> (\<forall>i < length bs. f (a + i) AND bs ! i = bs ! i)"

lemma ones_and: "0xff AND x = (x :: u8)"
  unfolding byte_mask by (rule bit_word_eqI) (auto simp: bit_simps dest: bit_imp_le_length)

lemma clears_blank: "(\<And>i. a \<le> i \<Longrightarrow> i < a + length bs \<Longrightarrow> f i = 0xff) \<Longrightarrow> clears f a bs"
  by (simp add: clears_def ones_and)

lemma length_mem_slice [simp]: "length (mem_slice f a n) = n"
  by (simp add: mem_slice_def)

lemma nth_mem_slice [simp]: "i < n \<Longrightarrow> mem_slice f a n ! i = f (a + i)"
  by (simp add: mem_slice_def)

lemma mem_slice_0 [simp]: "mem_slice f a 0 = []"
  by (simp add: mem_slice_def)

lemma mem_slice_append: "mem_slice f a (m + n) = mem_slice f a m @ mem_slice f (a + m) n"
  by (rule nth_equalityI) (auto simp: nth_append)

lemma mem_slice_cong: "(\<And>i. i < n \<Longrightarrow> f (a + i) = g (a + i)) \<Longrightarrow> mem_slice f a n = mem_slice g a n"
  by (rule nth_equalityI) auto

lemma take_mem_slice: "take m (mem_slice f a n) = mem_slice f a (min m n)"
  by (rule nth_equalityI) auto

lemma drop_mem_slice: "drop m (mem_slice f a n) = mem_slice f (a + m) (n - m)"
  by (rule nth_equalityI) (auto simp: add.assoc)

lemma overlay_apply: "a \<le> i \<Longrightarrow> i < a + length bs \<Longrightarrow> overlay f a bs i = bs ! (i - a)"
  by (simp add: overlay_def)

lemma overlay_other: "i < a \<or> a + length bs \<le> i \<Longrightarrow> overlay f a bs i = f i"
  by (auto simp: overlay_def)

lemma overlay_Nil [simp]: "overlay f a [] = f"
  by (rule ext) (auto simp: overlay_def)

lemma overlay_append: "overlay f a (xs @ ys) = overlay (overlay f a xs) (a + length xs) ys"
  by (rule ext) (auto simp: overlay_def nth_append)

lemma mem_slice_overlay_same: "mem_slice (overlay f a bs) a (length bs) = bs"
  by (rule nth_equalityI) (auto simp: overlay_def)

lemma mem_slice_overlay_other:
  "a + n \<le> b \<or> b + length bs \<le> a \<Longrightarrow> mem_slice (overlay f b bs) a n = mem_slice f a n"
  by (rule mem_slice_cong) (auto simp: overlay_def)

lemma clears_append:
  "clears f a (xs @ ys) \<longleftrightarrow> clears f a xs \<and> clears (overlay f a xs) (a + length xs) ys"
proof -
  have "clears f a (xs @ ys) \<longleftrightarrow> clears f a xs \<and> clears f (a + length xs) ys"
  proof
    assume *: "clears f a (xs @ ys)"
    have "f (a + length xs + i) AND ys ! i = ys ! i" if "i < length ys" for i
      using * that unfolding clears_def by (elim allE [of _ "length xs + i"]) (simp add: nth_append add.assoc)
    moreover have "f (a + i) AND xs ! i = xs ! i" if "i < length xs" for i
      using * that unfolding clears_def by (elim allE [of _ i]) (simp add: nth_append)
    ultimately show "clears f a xs \<and> clears f (a + length xs) ys" by (simp add: clears_def)
  next
    assume *: "clears f a xs \<and> clears f (a + length xs) ys"
    show "clears f a (xs @ ys)"
      unfolding clears_def
    proof (intro allI impI)
      fix i
      assume "i < length (xs @ ys)"
      then show "f (a + i) AND (xs @ ys) ! i = (xs @ ys) ! i"
        using * by (cases "i < length xs") (auto simp: clears_def nth_append dest!: spec [of _ "i - length xs"])
    qed
  qed
  also have "clears f (a + length xs) ys \<longleftrightarrow> clears (overlay f a xs) (a + length xs) ys"
    by (auto simp: clears_def overlay_def)
  finally show ?thesis .
qed

section \<open>The flash interface\<close>

record 'd flash_driver_api =
  api_read :: "nat \<Rightarrow> nat \<Rightarrow> 'd \<Rightarrow> int \<times> bytes"
  api_write :: "nat \<Rightarrow> bytes \<Rightarrow> 'd \<Rightarrow> int \<times> 'd"
  api_erase :: "nat \<Rightarrow> nat \<Rightarrow> 'd \<Rightarrow> int \<times> 'd"

text \<open>A read stores at most the number of bytes asked for in the caller's buffer; the model returns them.\<close>

definition flash_read :: "'d flash_driver_api \<Rightarrow> nat \<Rightarrow> nat \<Rightarrow> 'd \<Rightarrow> int \<times> bytes" where
  "flash_read api offset len dev = (let (err, data) = api_read api offset len dev in (err, take len data))"

definition flash_write :: "'d flash_driver_api \<Rightarrow> nat \<Rightarrow> bytes \<Rightarrow> 'd \<Rightarrow> int \<times> 'd" where
  "flash_write api offset data dev = api_write api offset data dev"

definition flash_erase :: "'d flash_driver_api \<Rightarrow> nat \<Rightarrow> nat \<Rightarrow> 'd \<Rightarrow> int \<times> 'd" where
  "flash_erase api offset sz dev = api_erase api offset sz dev"

section \<open>Reading, writing and erasing the storage\<close>

function nvram_storage_write :: "'d flash_driver_api \<Rightarrow> nat \<Rightarrow> bytes \<Rightarrow> 'd \<Rightarrow> int \<times> 'd" where
  "nvram_storage_write api addr buf dev =
     (if length buf > 0
      then let wlen = (if length buf < 32 then length buf else 32);
               (err, dev) = flash_write api addr (take wlen buf) dev
           in if err < 0 then (- EIO, dev)
              else nvram_storage_write api (addr + wlen) (drop wlen buf) dev
      else (0, dev))"
  by pat_completeness auto
termination by (relation "measure (\<lambda>(api, addr, buf, dev). length buf)") auto

function nvram_storage_read :: "'d flash_driver_api \<Rightarrow> nat \<Rightarrow> nat \<Rightarrow> 'd \<Rightarrow> int \<times> bytes" where
  "nvram_storage_read api addr sz dev =
     (if sz > 0
      then let rlen = (if sz < 256 then sz else 256);
               (err, data) = flash_read api addr rlen dev
           in if err < 0 then (- EIO, data)
              else let (err, rest) = nvram_storage_read api (addr + rlen) (sz - rlen) dev
                   in (err, data @ rest)
      else (0, []))"
  by pat_completeness auto
termination by (relation "measure (\<lambda>(api, addr, sz, dev). sz)") auto

declare nvram_storage_write.simps [simp del] nvram_storage_read.simps [simp del]

definition nvram_storage_erase :: "'d flash_driver_api \<Rightarrow> nat \<Rightarrow> nat \<Rightarrow> 'd \<Rightarrow> int \<times> 'd" where
  "nvram_storage_erase api addr sz dev = flash_erase api addr sz dev"

text \<open>The storage the store is built on: the flash, or the simulated memory below.\<close>

record 'd storage_ops =
  st_read :: "nat \<Rightarrow> nat \<Rightarrow> 'd \<Rightarrow> int \<times> bytes"
  st_write :: "nat \<Rightarrow> bytes \<Rightarrow> 'd \<Rightarrow> int \<times> 'd"
  st_erase :: "nat \<Rightarrow> nat \<Rightarrow> 'd \<Rightarrow> int \<times> 'd"

definition flash_storage :: "'d flash_driver_api \<Rightarrow> 'd storage_ops" where
  "flash_storage api = \<lparr>st_read = nvram_storage_read api, st_write = nvram_storage_write api,
     st_erase = nvram_storage_erase api\<rparr>"

text \<open>The simulated storage (\<open>CONFIG_NVRAM_STORAGE_RAMSIM\<close>): a byte array for the addresses from the
  factory region on, as long as the factory and the user region together.\<close>

definition NVRAM_MEM_OFFS :: nat where
  "NVRAM_MEM_OFFS = 0x3f0000"

definition NVRAM_MEM_SIZE :: nat where
  "NVRAM_MEM_SIZE = 0x2000 + 0xc000"

definition ramsim_storage :: "bytes storage_ops" where
  "ramsim_storage = \<lparr>
     st_read = (\<lambda>addr sz mem. (0, take sz (drop (addr - NVRAM_MEM_OFFS) mem))),
     st_write = (\<lambda>addr buf mem. (0, blit mem (addr - NVRAM_MEM_OFFS) buf)),
     st_erase = (\<lambda>addr sz mem. (0, blit mem (addr - NVRAM_MEM_OFFS) (replicate sz 0xff)))\<rparr>"

definition ramsim_init :: bytes where
  "ramsim_init = replicate NVRAM_MEM_SIZE 0xff"

section \<open>Contracts\<close>

text \<open>What the store needs of its storage, between two addresses.\<close>

locale nvram_storage =
  fixes stg :: "'d storage_ops" and cells :: "'d \<Rightarrow> nat \<Rightarrow> u8" and ok :: "'d \<Rightarrow> bool" and lo hi :: nat
  assumes read_law: "ok d \<Longrightarrow> lo \<le> a \<Longrightarrow> a + n \<le> hi \<Longrightarrow> st_read stg a n d = (0, mem_slice (cells d) a n)"
    and write_law: "ok d \<Longrightarrow> lo \<le> a \<Longrightarrow> a + length bs \<le> hi \<Longrightarrow> clears (cells d) a bs \<Longrightarrow>
      \<exists>d'. st_write stg a bs d = (0, d') \<and> ok d' \<and> cells d' = overlay (cells d) a bs"
    and erase_law: "ok d \<Longrightarrow> lo \<le> a \<Longrightarrow> a + 4096 \<le> hi \<Longrightarrow> a mod 4096 = 0 \<Longrightarrow>
      \<exists>err d'. st_erase stg a 4096 d = (err, d') \<and> ok d' \<and> cells d' = overlay (cells d) a (replicate 4096 0xff)"

text \<open>The driver of a NOR flash: programming can only clear bits.\<close>

locale nor_flash =
  fixes api :: "'d flash_driver_api" and cells :: "'d \<Rightarrow> nat \<Rightarrow> u8" and flash_size :: nat
  assumes api_read_law: "a + n \<le> flash_size \<Longrightarrow> \<exists>e \<ge> 0. api_read api a n d = (e, mem_slice (cells d) a n)"
    and api_write_law: "a + length bs \<le> flash_size \<Longrightarrow>
      \<exists>e d'. e \<ge> 0 \<and> api_write api a bs d = (e, d') \<and>
        cells d' = overlay (cells d) a (map2 (AND) (mem_slice (cells d) a (length bs)) bs)"
    and api_erase_law: "a + n \<le> flash_size \<Longrightarrow> a mod 4096 = 0 \<Longrightarrow> n mod 4096 = 0 \<Longrightarrow>
      \<exists>e d'. api_erase api a n d = (e, d') \<and> cells d' = overlay (cells d) a (replicate n 0xff)"
begin

lemma storage_read: "a + n \<le> flash_size \<Longrightarrow> nvram_storage_read api a n d = (0, mem_slice (cells d) a n)"
proof (induction n arbitrary: a rule: less_induct)
  case (less n)
  show ?case
  proof (cases "n = 0")
    case False
    define r where "r = (if n < 256 then n else 256)"
    have r: "0 < r" "r \<le> n" using False by (auto simp: r_def)
    obtain e where e: "e \<ge> 0" "api_read api a r d = (e, mem_slice (cells d) a r)"
      using api_read_law [of a r d] less.prems r by auto
    have "nvram_storage_read api (a + r) (n - r) d = (0, mem_slice (cells d) (a + r) (n - r))"
      using less r by auto
    then show ?thesis
      using r e mem_slice_append [of "cells d" a r "n - r"]
      by (subst nvram_storage_read.simps) (simp add: flash_read_def Let_def r_def [symmetric])
  qed (simp add: nvram_storage_read.simps)
qed

lemma map2_clears: "clears f a bs \<Longrightarrow> map2 (AND) (mem_slice f a (length bs)) bs = bs"
  by (rule nth_equalityI) (auto simp: clears_def)

lemma storage_write:
  "a + length bs \<le> flash_size \<Longrightarrow> clears (cells d) a bs \<Longrightarrow>
   \<exists>d'. nvram_storage_write api a bs d = (0, d') \<and> cells d' = overlay (cells d) a bs"
proof (induction bs arbitrary: a d rule: length_induct)
  case (1 bs)
  show ?case
  proof (cases "bs = []")
    case False
    define w where "w = (if length bs < 32 then length bs else 32)"
    let ?x = "take w bs" and ?y = "drop w bs"
    have w: "0 < w" "w \<le> length bs" "length ?x = w" using False by (auto simp: w_def)
    have c: "clears (cells d) a ?x" "clears (overlay (cells d) a ?x) (a + w) ?y"
      using "1.prems"(2) clears_append [of "cells d" a ?x ?y] w(3) by simp_all
    have "a + length ?x \<le> flash_size" using "1.prems"(1) w by simp
    then obtain e d1 where d1: "e \<ge> 0" "api_write api a ?x d = (e, d1)" "cells d1 = overlay (cells d) a ?x"
      using api_write_law [of a ?x d] map2_clears [OF c(1)] by metis
    have "length ?y < length bs" "a + w + length ?y \<le> flash_size" using w "1.prems"(1) by auto
    then obtain d2 where d2: "nvram_storage_write api (a + w) ?y d1 = (0, d2)"
        "cells d2 = overlay (cells d1) (a + w) ?y"
      using "1.IH" c(2) d1(3) by metis
    have "nvram_storage_write api a bs d = (0, d2)"
      using False d1 d2(1) by (subst nvram_storage_write.simps) (simp add: flash_write_def Let_def w_def [symmetric])
    moreover have "cells d2 = overlay (cells d) a bs"
      using d2(2) d1(3) overlay_append [of "cells d" a ?x ?y] w(3) by simp
    ultimately show ?thesis by blast
  qed (simp add: nvram_storage_write.simps)
qed

end

text \<open>Over a NOR flash, the chunked operations of the storage layer keep the store's contract.\<close>

sublocale nor_flash \<subseteq> flash: nvram_storage "flash_storage api" cells "\<lambda>d. True" 0 flash_size
proof unfold_locales
  fix d a n
  assume "a + n \<le> flash_size"
  then show "st_read (flash_storage api) a n d = (0, mem_slice (cells d) a n)"
    by (simp add: flash_storage_def storage_read)
next
  fix d a bs
  assume "a + length bs \<le> flash_size" "clears (cells d) a bs"
  then show "\<exists>d'. st_write (flash_storage api) a bs d = (0, d') \<and> True \<and> cells d' = overlay (cells d) a bs"
    using storage_write [of a bs d] by (auto simp: flash_storage_def)
next
  fix d a
  assume "a + 4096 \<le> flash_size" "a mod 4096 = 0"
  then show "\<exists>err d'. st_erase (flash_storage api) a 4096 d = (err, d') \<and> True \<and> cells d' = overlay (cells d) a (replicate 4096 0xff)"
    using api_erase_law [of a 4096 d] by (auto simp: flash_storage_def nvram_storage_erase_def flash_erase_def)
qed

context nor_flash
begin

lemma flash_is_storage: "nvram_storage (flash_storage api) cells (\<lambda>d. True) 0 flash_size"
  by unfold_locales

end

section \<open>Providers\<close>

text \<open>The simulated memory, for the addresses it has room for.\<close>

definition ramsim_cells :: "bytes \<Rightarrow> nat \<Rightarrow> u8" where
  "ramsim_cells mem i =
     (if NVRAM_MEM_OFFS \<le> i \<and> i < NVRAM_MEM_OFFS + NVRAM_MEM_SIZE then mem ! (i - NVRAM_MEM_OFFS) else 0xff)"

lemma ramsim_cells_blit:
  assumes "length mem = NVRAM_MEM_SIZE" "NVRAM_MEM_OFFS \<le> a" "a + length bs \<le> NVRAM_MEM_OFFS + NVRAM_MEM_SIZE"
  shows "ramsim_cells (blit mem (a - NVRAM_MEM_OFFS) bs) = overlay (ramsim_cells mem) a bs"
proof
  fix i
  show "ramsim_cells (blit mem (a - NVRAM_MEM_OFFS) bs) i = overlay (ramsim_cells mem) a bs i"
    using assms by (auto simp: ramsim_cells_def overlay_def nth_blit diff_diff_eq)
qed

interpretation ramsim: nvram_storage ramsim_storage ramsim_cells "\<lambda>mem. length mem = NVRAM_MEM_SIZE"
    NVRAM_MEM_OFFS "NVRAM_MEM_OFFS + NVRAM_MEM_SIZE"
proof unfold_locales
  fix d :: bytes and a n
  assume *: "length d = NVRAM_MEM_SIZE" "NVRAM_MEM_OFFS \<le> a" "a + n \<le> NVRAM_MEM_OFFS + NVRAM_MEM_SIZE"
  have "take n (drop (a - NVRAM_MEM_OFFS) d) = mem_slice (ramsim_cells d) a n"
    using * by (intro nth_equalityI) (auto simp: ramsim_cells_def)
  then show "st_read ramsim_storage a n d = (0, mem_slice (ramsim_cells d) a n)"
    by (simp add: ramsim_storage_def)
next
  fix d :: bytes and a and bs :: bytes
  assume *: "length d = NVRAM_MEM_SIZE" "NVRAM_MEM_OFFS \<le> a" "a + length bs \<le> NVRAM_MEM_OFFS + NVRAM_MEM_SIZE"
  then show "\<exists>d'. st_write ramsim_storage a bs d = (0, d') \<and> length d' = NVRAM_MEM_SIZE \<and>
      ramsim_cells d' = overlay (ramsim_cells d) a bs"
    by (simp add: ramsim_storage_def ramsim_cells_blit)
next
  fix d :: bytes and a
  assume *: "length d = NVRAM_MEM_SIZE" "NVRAM_MEM_OFFS \<le> a" "a + 4096 \<le> NVRAM_MEM_OFFS + NVRAM_MEM_SIZE"
  then show "\<exists>err d'. st_erase ramsim_storage a 4096 d = (err, d') \<and> length d' = NVRAM_MEM_SIZE \<and>
      ramsim_cells d' = overlay (ramsim_cells d) a (replicate 4096 0xff)"
    using ramsim_cells_blit [of d a "replicate 4096 0xff"] by (simp add: ramsim_storage_def)
qed

text \<open>A NOR flash as a function from addresses to cells.\<close>

definition nor_sim :: "(nat \<Rightarrow> u8) flash_driver_api" where
  "nor_sim = \<lparr>
     api_read = (\<lambda>a n d. (0, mem_slice d a n)),
     api_write = (\<lambda>a bs d. (0, overlay d a (map2 (AND) (mem_slice d a (length bs)) bs))),
     api_erase = (\<lambda>a n d. (0, overlay d a (replicate n 0xff)))\<rparr>"

interpretation nor: nor_flash nor_sim "\<lambda>d. d" "0x400000"
  by unfold_locales (simp_all add: nor_sim_def)

text \<open>Over any NOR flash, what the storage layer writes in pieces of 32 bytes to an erased area is
  read back in pieces of 256 bytes, whole and in order, and no other cell changes.\<close>

theorem nvram_storage_round_trip:
  assumes "nor_flash api cells n" "a + length bs \<le> n" "\<And>i. a \<le> i \<Longrightarrow> i < a + length bs \<Longrightarrow> cells d i = 0xff"
  shows "\<exists>d'. nvram_storage_write api a bs d = (0, d') \<and> nvram_storage_read api a (length bs) d' = (0, bs) \<and>
    (\<forall>i. i < a \<or> a + length bs \<le> i \<longrightarrow> cells d' i = cells d i)"
proof -
  have "clears (cells d) a bs" using assms(3) by (rule clears_blank)
  then obtain d' where "nvram_storage_write api a bs d = (0, d')" "cells d' = overlay (cells d) a bs"
    using nor_flash.storage_write [OF assms(1,2)] by blast
  then show ?thesis
    using nor_flash.storage_read [OF assms(1,2), of d'] by (intro exI [of _ d']) (auto simp: mem_slice_overlay_same overlay_other)
qed

theorem nvram_storage_round_trip_witness:
  "\<exists>d'. nvram_storage_write nor_sim 5 [1, 2, 3] (\<lambda>_. 0xff) = (0, d') \<and> nvram_storage_read nor_sim 5 3 d' = (0, [1, 2, 3])"
  using nvram_storage_round_trip [OF nor.nor_flash_axioms, of 5 "[1, 2, 3]" "\<lambda>_. 0xff"]
  by (auto simp: numeral_3_eq_3)

end
