(* ===== verification/Nvram_Bits.thy ===== *)
theory Nvram_Bits
  imports Prelude "HOL-Library.Monad_Syntax"
begin

text \<open>
  The bit searches and the item bitmap of \<^verbatim>\<open>drivers/nvram/nvram_config.c\<close>: one bit per
  16 bytes of a segment, set where a valid item starts. Bit numbers and sizes are natural numbers
  (they are at most the number of bits of the map); the words of the map keep their 32 bits. A
  read past the end of the map is \<open>None\<close>.
\<close>

section \<open>Searching for set bits\<close>

definition find_lsb_set :: "u32 \<Rightarrow> nat" where
  "find_lsb_set op = (case find (bit op) [0..<32] of None \<Rightarrow> 0 | Some i \<Rightarrow> Suc i)"

definition last_bits :: "u32 \<Rightarrow> nat \<Rightarrow> nat \<Rightarrow> nat" where
  "last_bits tmp result sz =
     (let tmp = tmp AND drop_bit (32 - sz) (NOT 0)
      in if tmp = 0 then result + sz else result + (find_lsb_set tmp - 1))"

text \<open>The loop over whole words and the last partial word; both searches end with it.\<close>

fun find_in_words :: "u32 list \<Rightarrow> nat \<Rightarrow> nat \<Rightarrow> nat option" where
  "find_in_words p result sz =
     (if 32 \<le> sz
      then case p of [] \<Rightarrow> None
           | tmp # p \<Rightarrow> if tmp \<noteq> 0 then Some (result + (find_lsb_set tmp - 1))
                      else find_in_words p (result + 32) (sz - 32)
      else if sz = 0 then Some result
      else case p of [] \<Rightarrow> None | tmp # p \<Rightarrow> Some (last_bits tmp result sz))"

declare find_in_words.simps [simp del]

definition find_first_bit :: "u32 list \<Rightarrow> nat \<Rightarrow> nat option" where
  "find_first_bit addr sz = find_in_words addr 0 sz"

definition find_next_bit :: "u32 list \<Rightarrow> nat \<Rightarrow> nat \<Rightarrow> nat option" where
  "find_next_bit addr sz offset =
     (let p = drop (offset div 32) addr;
          result = offset - offset mod 32
      in if sz \<le> offset then Some sz
         else
           let sz = sz - result;
               offset = offset mod 32
           in if offset \<noteq> 0
              then case p of [] \<Rightarrow> None
                   | tmp # p \<Rightarrow>
                       let tmp = tmp AND push_bit offset (NOT 0)
                       in if sz < 32 then Some (last_bits tmp result sz)
                          else if tmp \<noteq> 0 then Some (result + (find_lsb_set tmp - 1))
                          else find_in_words p (result + 32) (sz - 32)
              else find_in_words p result sz)"

section \<open>The item bitmap\<close>

text \<open>Items start at multiples of 16, after the segment header.\<close>

definition NVRAM_ITEM_ALIGN_SIZE :: nat where
  "NVRAM_ITEM_ALIGN_SIZE = 0x10"

definition NVRAM_SEG_ITEM_START_OFFSET :: nat where
  "NVRAM_SEG_ITEM_START_OFFSET = 16"

definition item_bitmap_first_offset :: "u32 list option \<Rightarrow> nat \<Rightarrow> nat option" where
  "item_bitmap_first_offset seg_item_map seg_size =
     (case seg_item_map of None \<Rightarrow> Some NVRAM_SEG_ITEM_START_OFFSET
      | Some m \<Rightarrow> do {
          bit \<leftarrow> find_first_bit m (seg_size div NVRAM_ITEM_ALIGN_SIZE);
          Some (bit * NVRAM_ITEM_ALIGN_SIZE) })"

definition item_bitmap_next_offset :: "u32 list option \<Rightarrow> nat \<Rightarrow> nat \<Rightarrow> nat option" where
  "item_bitmap_next_offset seg_item_map seg_size offset =
     (case seg_item_map of None \<Rightarrow> Some offset
      | Some m \<Rightarrow> do {
          bit \<leftarrow> find_next_bit m (seg_size div NVRAM_ITEM_ALIGN_SIZE) (offset div NVRAM_ITEM_ALIGN_SIZE);
          Some (bit * NVRAM_ITEM_ALIGN_SIZE) })"

definition item_bitmap_update :: "u32 list option \<Rightarrow> nat \<Rightarrow> bool \<Rightarrow> u32 list option option" where
  "item_bitmap_update seg_item_map offset is_set =
     (case seg_item_map of None \<Rightarrow> Some None
      | Some m \<Rightarrow>
          let bit = offset div NVRAM_ITEM_ALIGN_SIZE;
              w = bit div 32;
              b = bit mod 32
          in if w < length m
             then Some (Some (m[w := (if is_set then m ! w OR push_bit b 1 else m ! w AND NOT (push_bit b 1))]))
             else None)"

definition item_bitmap_clear_all :: "u32 list option \<Rightarrow> nat \<Rightarrow> u32 list option" where
  "item_bitmap_clear_all seg_item_map item_map_size =
     map_option (\<lambda>m. replicate (min (item_map_size div 4) (length m)) 0 @ drop (item_map_size div 4) m) seg_item_map"

section \<open>What the searches return\<close>

definition map_bit :: "u32 list \<Rightarrow> nat \<Rightarrow> bool" where
  "map_bit m i \<longleftrightarrow> i div 32 < length m \<and> bit (m ! (i div 32)) (i mod 32)"

definition next_set :: "(nat \<Rightarrow> bool) \<Rightarrow> nat \<Rightarrow> nat \<Rightarrow> nat" where
  "next_set P lo hi = (case find P [lo..<hi] of None \<Rightarrow> max lo hi | Some i \<Rightarrow> i)"

lemma find_upt_eq_Some:
  "find P [lo..<hi] = Some i \<longleftrightarrow> lo \<le> i \<and> i < hi \<and> P i \<and> (\<forall>j. lo \<le> j \<longrightarrow> j < i \<longrightarrow> \<not> P j)"
proof (induction "hi - lo" arbitrary: lo)
  case (Suc d)
  then have "[lo..<hi] = lo # [Suc lo..<hi]" by (simp add: upt_conv_Cons)
  moreover have "find P [Suc lo..<hi] = Some i \<longleftrightarrow>
      Suc lo \<le> i \<and> i < hi \<and> P i \<and> (\<forall>j. Suc lo \<le> j \<longrightarrow> j < i \<longrightarrow> \<not> P j)"
    using Suc by (intro Suc.hyps(1)) simp
  moreover have "(\<forall>j. lo \<le> j \<longrightarrow> j < i \<longrightarrow> \<not> P j) \<longleftrightarrow> (lo < i \<longrightarrow> \<not> P lo) \<and> (\<forall>j. Suc lo \<le> j \<longrightarrow> j < i \<longrightarrow> \<not> P j)"
    by (metis Suc_leD Suc_leI le_neq_implies_less order_refl)
  moreover have "lo < hi" using Suc.hyps(2) by simp
  ultimately show ?case by (cases "P lo") (auto simp: Suc_le_eq le_less)
qed auto

lemma find_upt_eq_None: "find P [lo..<hi] = None \<longleftrightarrow> (\<forall>j. lo \<le> j \<longrightarrow> j < hi \<longrightarrow> \<not> P j)"
  by (auto simp: find_None_iff)

lemma next_setI:
  assumes "lo \<le> i" "i < hi" "P i" "\<And>j. lo \<le> j \<Longrightarrow> j < i \<Longrightarrow> \<not> P j"
  shows "next_set P lo hi = i"
  using assms find_upt_eq_Some [of P lo hi i] by (simp add: next_set_def)

lemma next_set_none: "(\<And>j. lo \<le> j \<Longrightarrow> j < hi \<Longrightarrow> \<not> P j) \<Longrightarrow> lo \<le> hi \<Longrightarrow> next_set P lo hi = hi"
  using find_upt_eq_None [of P lo hi] by (simp add: next_set_def)

lemma next_set_skip:
  "lo \<le> mid \<Longrightarrow> mid \<le> hi \<Longrightarrow> (\<And>j. lo \<le> j \<Longrightarrow> j < mid \<Longrightarrow> \<not> P j) \<Longrightarrow> next_set P lo hi = next_set P mid hi"
proof (cases "find P [mid..<hi]")
  case None
  assume "lo \<le> mid" "mid \<le> hi" "\<And>j. lo \<le> j \<Longrightarrow> j < mid \<Longrightarrow> \<not> P j"
  moreover have m: "\<And>j. mid \<le> j \<Longrightarrow> j < hi \<Longrightarrow> \<not> P j" using None find_upt_eq_None by blast
  moreover have "\<not> P j" if "lo \<le> j" "j < hi" for j using calculation(3) [of j] m [of j] that by linarith
  ultimately show ?thesis by (simp add: next_set_none)
next
  case (Some i)
  assume *: "lo \<le> mid" "mid \<le> hi" "\<And>j. lo \<le> j \<Longrightarrow> j < mid \<Longrightarrow> \<not> P j"
  have i: "mid \<le> i" "i < hi" "P i" "\<And>j. mid \<le> j \<Longrightarrow> j < i \<Longrightarrow> \<not> P j"
    using Some unfolding find_upt_eq_Some by blast+
  have "\<not> P j" if "lo \<le> j" "j < i" for j using *(3) [of j] i(4) [of j] that by linarith
  then have "next_set P lo hi = i" using * i by (intro next_setI) auto
  then show ?thesis using i by (simp add: next_setI)
qed

lemma next_set_ge: "lo \<le> next_set P lo hi"
  using find_upt_eq_Some [of P lo hi] by (auto simp: next_set_def split: option.splits)

lemma next_set_le: "lo \<le> hi \<Longrightarrow> next_set P lo hi \<le> hi"
  using find_upt_eq_Some [of P lo hi] by (auto simp: next_set_def split: option.splits)

lemma next_set_hit: "next_set P lo hi < hi \<Longrightarrow> P (next_set P lo hi)"
  using find_upt_eq_Some [of P lo hi] by (auto simp: next_set_def split: option.splits)

lemma next_set_cong:
  "(\<And>i. lo \<le> i \<Longrightarrow> i < hi \<Longrightarrow> P i = Q i) \<Longrightarrow> next_set P lo hi = next_set Q lo hi"
proof -
  assume "\<And>i. lo \<le> i \<Longrightarrow> i < hi \<Longrightarrow> P i = Q i"
  then have "find P [lo..<hi] = find Q [lo..<hi]" by (intro find_cong) auto
  then show ?thesis by (simp add: next_set_def)
qed

lemma find_lsb_set_pos:
  assumes "w \<noteq> 0"
  shows "find_lsb_set w - 1 < 32 \<and> bit w (find_lsb_set w - 1) \<and> (\<forall>j < find_lsb_set w - 1. \<not> bit w j)"
proof -
  obtain i where "bit w i" using assms bit_word_eqI [of w 0] by auto
  then have "i < 32" using bit_imp_le_length [of w] by simp
  then have "find (bit w) [0..<32] \<noteq> None" using \<open>bit w i\<close> find_upt_eq_None [of "bit w" 0 32] by auto
  then obtain k where k: "find (bit w) [0..<32] = Some k" by blast
  then have "find_lsb_set w - 1 = k" by (simp add: find_lsb_set_def)
  then show ?thesis using k find_upt_eq_Some [of "bit w" 0 32 k] by auto
qed

text \<open>Masking with shifted ones keeps the bits below a position.\<close>

lemma bit_low_mask: "0 < sz \<Longrightarrow> sz \<le> 32 \<Longrightarrow> bit (w AND drop_bit (32 - sz) (NOT 0) :: u32) j \<longleftrightarrow> bit w j \<and> j < sz"
  using bit_imp_le_length [of w j] by (auto simp: bit_simps)

lemma lsb_next_set:
  assumes "w \<noteq> (0 :: u32)" "\<And>j. j < 32 \<Longrightarrow> bit w j \<longleftrightarrow> P j" "\<And>j. bit w j \<Longrightarrow> j < hi"
  shows "find_lsb_set w - 1 = next_set P 0 hi"
proof -
  have f: "find_lsb_set w - 1 < 32" "bit w (find_lsb_set w - 1)" "\<And>j. j < find_lsb_set w - 1 \<Longrightarrow> \<not> bit w j"
    using find_lsb_set_pos [OF assms(1)] by blast+
  have "next_set P 0 hi = find_lsb_set w - 1"
    using assms(2) assms(3) [OF f(2)] f by (intro next_setI) (auto dest: less_trans)
  then show ?thesis by simp
qed

lemma last_bits_next_set:
  assumes "0 < sz" "sz \<le> 32"
  shows "last_bits w result sz = result + next_set (bit w) 0 sz"
proof -
  let ?t = "w AND drop_bit (32 - sz) (NOT 0)"
  have b: "bit ?t j \<longleftrightarrow> bit w j \<and> j < sz" for j by (rule bit_low_mask [OF assms])
  show ?thesis
  proof (cases "?t = 0")
    case True
    then have "\<not> bit w j" if "j < sz" for j using b [of j] that by simp
    then show ?thesis using True by (simp add: last_bits_def next_set_none)
  next
    case False
    then have "find_lsb_set ?t - 1 = next_set (\<lambda>j. bit w j \<and> j < sz) 0 sz"
      using b by (intro lsb_next_set) auto
    also have "\<dots> = next_set (bit w) 0 sz" by (rule next_set_cong) simp
    finally show ?thesis using False by (simp add: last_bits_def Let_def)
  qed
qed

lemma next_set_shift: "next_set (\<lambda>i. P (i + c)) lo hi + c = next_set P (lo + c) (hi + c)"
proof (cases "find P [lo + c..<hi + c]")
  case None
  then have "\<forall>j. lo \<le> j \<longrightarrow> j < hi \<longrightarrow> \<not> P (j + c)" unfolding find_upt_eq_None by simp
  then have "find (\<lambda>i. P (i + c)) [lo..<hi] = None" unfolding find_upt_eq_None .
  then show ?thesis using None by (simp add: next_set_def max_def)
next
  case (Some i)
  then have i: "lo + c \<le> i" "i < hi + c" "P i" "\<And>j. lo + c \<le> j \<Longrightarrow> j < i \<Longrightarrow> \<not> P j"
    unfolding find_upt_eq_Some by blast+
  then have "next_set (\<lambda>i. P (i + c)) lo hi = i - c" by (intro next_setI) auto
  then show ?thesis using i Some by (simp add: next_set_def)
qed

lemma map_bit_drop: "map_bit (drop k m) i \<longleftrightarrow> map_bit m (i + 32 * k)"
  by (auto simp: map_bit_def)

lemma map_bit_Cons: "map_bit (w # m) i \<longleftrightarrow> (if i < 32 then bit w i else map_bit m (i - 32))"
proof (cases "i < 32")
  case False
  then have "i div 32 = Suc ((i - 32) div 32)" "i mod 32 = (i - 32) mod 32"
    by (simp_all add: le_div_geq le_mod_geq)
  then show ?thesis using False by (simp add: map_bit_def)
qed (simp add: map_bit_def)

lemma find_in_words_next_set:
  "sz \<le> 32 * length p \<Longrightarrow> find_in_words p result sz = Some (result + next_set (map_bit p) 0 sz)"
proof (induction p arbitrary: result sz)
  case Nil
  then show ?case by (simp add: find_in_words.simps next_set_def)
next
  case (Cons w p)
  have c: "next_set (bit w) 0 sz = next_set (map_bit (w # p)) 0 sz" if "sz \<le> 32"
    using that by (intro next_set_cong) (simp add: map_bit_Cons)
  show ?case
  proof (cases "32 \<le> sz")
    case True
    show ?thesis
    proof (cases "w = 0")
      case w: True
      have "next_set (map_bit (w # p)) 0 sz = next_set (map_bit (w # p)) 32 sz"
        using True w by (intro next_set_skip) (simp_all add: map_bit_Cons)
      also have "\<dots> = next_set (map_bit (w # p)) (0 + 32) (sz - 32 + 32)" using True by simp
      also have "\<dots> = next_set (\<lambda>i. map_bit (w # p) (i + 32)) 0 (sz - 32) + 32" by (rule next_set_shift [symmetric])
      also have "(\<lambda>i. map_bit (w # p) (i + 32)) = map_bit p" by (simp add: map_bit_Cons)
      finally show ?thesis using Cons True w by (subst find_in_words.simps) simp
    next
      case False
      have "find_lsb_set w - 1 = next_set (map_bit (w # p)) 0 sz"
        using False True bit_imp_le_length [of w] by (intro lsb_next_set) (auto simp: map_bit_Cons intro: less_le_trans)
      then show ?thesis using True False by (subst find_in_words.simps) simp
    qed
  next
    case False
    then show ?thesis using c last_bits_next_set [of sz w result]
      by (subst find_in_words.simps) (auto simp: next_set_def)
  qed
qed

lemma find_first_bit_next_set:
  "sz \<le> 32 * length m \<Longrightarrow> find_first_bit m sz = Some (next_set (map_bit m) 0 sz)"
  by (simp add: find_first_bit_def find_in_words_next_set)

lemma find_next_bit_next_set:
  assumes "sz \<le> 32 * length m"
  shows "find_next_bit m sz offset = Some (if sz \<le> offset then sz else next_set (map_bit m) offset sz)"
proof (cases "sz \<le> offset")
  case True
  then show ?thesis by (simp add: find_next_bit_def)
next
  case False
  define k where "k = offset div 32"
  define q where "q = offset mod 32"
  have off: "offset = q + 32 * k" "q < 32" by (simp_all add: k_def q_def)
  have "k < length m" using assms False off by simp
  then obtain w p where p: "drop k m = w # p" by (cases "drop k m") auto
  have len: "sz - 32 * k \<le> 32 * length (w # p)" using assms arg_cong [OF p, of length] by simp
  have "find_next_bit m sz offset = find_in_words ((w AND push_bit q (NOT 0)) # p) (32 * k) (sz - 32 * k)"
    using False p off by (auto simp: find_next_bit_def Let_def find_in_words.simps [of "_ # _"]
        k_def [symmetric] q_def [symmetric])
  also have "\<dots> = Some (32 * k + next_set (map_bit ((w AND push_bit q (NOT 0)) # p)) 0 (sz - 32 * k))"
    using len by (intro find_in_words_next_set) simp
  also have "next_set (map_bit ((w AND push_bit q (NOT 0)) # p)) 0 (sz - 32 * k) =
      next_set (map_bit ((w AND push_bit q (NOT 0)) # p)) q (sz - 32 * k)"
    using False off by (intro next_set_skip) (auto simp: map_bit_Cons bit_simps dest: bit_imp_le_length)
  also have "\<dots> = next_set (map_bit (drop k m)) q (sz - 32 * k)"
    unfolding p by (intro next_set_cong) (auto simp: map_bit_Cons bit_simps dest: bit_imp_le_length)
  also have "map_bit (drop k m) = (\<lambda>i. map_bit m (i + 32 * k))" by (simp add: map_bit_drop fun_eq_iff)
  also have "32 * k + next_set (\<lambda>i. map_bit m (i + 32 * k)) q (sz - 32 * k) =
      next_set (map_bit m) (q + 32 * k) (sz - 32 * k + 32 * k)"
    using next_set_shift [of "map_bit m" "32 * k" q "sz - 32 * k"] by simp
  finally show ?thesis using False off by simp
qed

text \<open>The two word-wise searches of the store find the least set bit at or after a position: they
  agree with a search bit by bit, for every map that has all the bits asked for, and return the
  number of bits when no further bit is set.\<close>

theorem bit_search_correct:
  assumes "sz \<le> 32 * length m"
  shows "find_first_bit m sz = Some (next_set (map_bit m) 0 sz) \<and>
    find_next_bit m sz offset = Some (if sz \<le> offset then sz else next_set (map_bit m) offset sz)"
  using find_first_bit_next_set [OF assms] find_next_bit_next_set [OF assms] by simp

theorem bit_search_correct_witness:
  "find_next_bit [0x80000001, 0x10] 64 1 = Some 31 \<and> find_next_bit [0x80000001, 0x10] 64 32 = Some 36"
  using bit_search_correct [of 64 "[0x80000001, 0x10]" 1] bit_search_correct [of 64 "[0x80000001, 0x10]" 32]
  by (simp add: next_set_def upt_rec map_bit_def bit_iff_odd drop_bit_eq_div)

section \<open>Updating the bitmap\<close>

lemma map_bit_update:
  assumes "item_bitmap_update (Some m) (16 * i) b = Some (Some m')"
  shows "length m' = length m" "map_bit m' j \<longleftrightarrow> (if j = i then b else map_bit m j)"
proof -
  let ?w = "i div 32" and ?b = "i mod 32"
  have *: "?w < length m"
      "m' = m[?w := (if b then m ! ?w OR push_bit ?b 1 else m ! ?w AND NOT (push_bit ?b 1))]"
    using assms by (auto simp: item_bitmap_update_def NVRAM_ITEM_ALIGN_SIZE_def Let_def split: if_splits)
  then show "length m' = length m" by simp
  have "j div 32 = ?w \<and> j mod 32 = ?b \<longleftrightarrow> j = i" by (metis div_mod_decomp)
  moreover have "?b < 32" "j mod 32 < 32" by simp_all
  ultimately show "map_bit m' j \<longleftrightarrow> (if j = i then b else map_bit m j)"
    using * by (auto simp: map_bit_def nth_list_update bit_simps)
qed

lemma item_bitmap_update_ok:
  "i < 32 * length m \<Longrightarrow> \<exists>m'. item_bitmap_update (Some m) (16 * i) b = Some (Some m')"
  by (auto simp: item_bitmap_update_def NVRAM_ITEM_ALIGN_SIZE_def Let_def)

lemma map_bit_clear_all:
  "item_bitmap_clear_all (Some m) (4 * length m) = Some (replicate (length m) 0)"
  "\<not> map_bit (replicate n 0) i"
  by (simp_all add: item_bitmap_clear_all_def map_bit_def)

end
