(* ===== verification/Nvram_Region.thy ===== *)
theory Nvram_Region
  imports Nvram_Storage Nvram_Bits Crc
begin

text \<open>
  The parameter store, \<^verbatim>\<open>drivers/nvram/nvram_config.c\<close>: regions made of segments, segments
  made of items, one current segment per region. Every function is translated with the storage
  operations as a parameter. The state is the device, the shared 128-byte buffer \<open>nvram_buf\<close>
  and the contents of an uninitialised local item header, which a failing read leaves in use.

  Offsets and sizes are natural numbers: they stay below the size of a region plus one item, far
  from the 32-bit limits. Results that C returns as \<open>int\<close> are integers. \<open>None\<close> stands for a
  call that does not return: an access outside a buffer or the bitmap, or an endless loop.
  Strings are byte lists without their terminator. Console output is left out.
\<close>

section \<open>Data\<close>

record nvram_item =
  it_magic :: u8
  it_state :: u8
  it_crc :: u8
  it_hash :: u8
  it_reserved :: u8
  it_name_size :: u8
  it_data_size :: u16

record region_seg_header =
  sh_magic :: u32
  sh_state :: u8
  sh_crc :: u8
  sh_version :: u8
  sh_reserved :: u8
  sh_seq_id :: u8
  sh_head_size :: u8
  sh_seg_size :: u16
  sh_reserved2 :: bytes

record region_info =
  ri_storage :: bool
  ri_base_addr :: nat
  ri_total_size :: nat
  ri_seg_size :: nat
  ri_seg_offset :: nat
  ri_seg_write_offset :: nat
  ri_seg_seq_id :: u8
  ri_seg_item_map :: "u32 list option"
  ri_seg_item_map_size :: nat

record 'd nvram =
  nv_dev :: 'd
  nv_buf :: bytes
  nv_stack :: nvram_item

datatype item_status = ITEM_STATUS_EMPTY | ITEM_STATUS_VALID | ITEM_STATUS_OBSOLETE | ITEM_STATUS_INVALID

text \<open>The packed layouts of the two headers, little-endian.\<close>

definition u16_bytes :: "u16 \<Rightarrow> bytes" where
  "u16_bytes x = [lo8 x, hi8 x]"

definition u16_of :: "u8 \<Rightarrow> u8 \<Rightarrow> u16" where
  "u16_of l h = ucast l OR push_bit 8 (ucast h)"

definition u32_bytes :: "u32 \<Rightarrow> bytes" where
  "u32_bytes x = map (\<lambda>i. ucast (drop_bit (8 * i) x)) [0..<4]"

definition u32_of :: "bytes \<Rightarrow> u32" where
  "u32_of bs = ucast (bs ! 0) OR push_bit 8 (ucast (bs ! 1)) OR push_bit 16 (ucast (bs ! 2)) OR push_bit 24 (ucast (bs ! 3))"

definition item_bytes :: "nvram_item \<Rightarrow> bytes" where
  "item_bytes it = [it_magic it, it_state it, it_crc it, it_hash it, it_reserved it, it_name_size it] @ u16_bytes (it_data_size it)"

definition item_of_bytes :: "bytes \<Rightarrow> nvram_item" where
  "item_of_bytes bs = \<lparr>it_magic = bs ! 0, it_state = bs ! 1, it_crc = bs ! 2, it_hash = bs ! 3,
     it_reserved = bs ! 4, it_name_size = bs ! 5, it_data_size = u16_of (bs ! 6) (bs ! 7)\<rparr>"

text \<open>Reading into an item header overwrites as many of its bytes as were read.\<close>

definition item_load :: "bytes \<Rightarrow> nvram_item \<Rightarrow> nvram_item" where
  "item_load bs it = item_of_bytes (blit (item_bytes it) 0 bs)"

definition seg_header_bytes :: "region_seg_header \<Rightarrow> bytes" where
  "seg_header_bytes h = u32_bytes (sh_magic h) @
     [sh_state h, sh_crc h, sh_version h, sh_reserved h, sh_seq_id h, sh_head_size h] @
     u16_bytes (sh_seg_size h) @ sh_reserved2 h"

definition seg_header_of_bytes :: "bytes \<Rightarrow> region_seg_header" where
  "seg_header_of_bytes bs = \<lparr>sh_magic = u32_of bs, sh_state = bs ! 4, sh_crc = bs ! 5, sh_version = bs ! 6,
     sh_reserved = bs ! 7, sh_seq_id = bs ! 8, sh_head_size = bs ! 9,
     sh_seg_size = u16_of (bs ! 10) (bs ! 11), sh_reserved2 = take 4 (drop 12 bs)\<rparr>"

section \<open>Constants and regions\<close>

definition NVRAM_MAX_NAME_SIZE :: nat where "NVRAM_MAX_NAME_SIZE = 112"
definition NVRAM_MAX_DATA_SIZE :: nat where "NVRAM_MAX_DATA_SIZE = 512"
definition NVRAM_BUFFER_SIZE :: nat where "NVRAM_BUFFER_SIZE = 128"
definition NVRAM_ERASE_ALIGN_SIZE :: nat where "NVRAM_ERASE_ALIGN_SIZE = 0x1000"
definition NVRAM_REGION_SEG_MAGIC :: u32 where "NVRAM_REGION_SEG_MAGIC = 0x5253564E"
definition NVRAM_REGION_ITEM_MAGIC :: u8 where "NVRAM_REGION_ITEM_MAGIC = 0x49"
definition NVRAM_STATE_VALID :: u8 where "NVRAM_STATE_VALID = 0xff"
definition NVRAM_STATE_OBSOLETE :: u8 where "NVRAM_STATE_OBSOLETE = 0x5a"
definition SIZEOF_ITEM :: nat where "SIZEOF_ITEM = 8"
definition SIZEOF_SEG_HEADER :: nat where "SIZEOF_SEG_HEADER = 16"

lemmas nvram_consts = NVRAM_MAX_NAME_SIZE_def NVRAM_MAX_DATA_SIZE_def NVRAM_BUFFER_SIZE_def
  NVRAM_ERASE_ALIGN_SIZE_def NVRAM_REGION_SEG_MAGIC_def NVRAM_REGION_ITEM_MAGIC_def
  NVRAM_STATE_VALID_def NVRAM_STATE_OBSOLETE_def SIZEOF_ITEM_def SIZEOF_SEG_HEADER_def
  NVRAM_ITEM_ALIGN_SIZE_def NVRAM_SEG_ITEM_START_OFFSET_def

definition round_up :: "nat \<Rightarrow> nat \<Rightarrow> nat" where
  "round_up x align = (x + (align - 1)) div align * align"

definition user_nvram_region :: region_info where
  "user_nvram_region = \<lparr>ri_storage = False, ri_base_addr = 0x3f4000, ri_total_size = 0xc000,
     ri_seg_size = 0x2000, ri_seg_offset = 0, ri_seg_write_offset = 0, ri_seg_seq_id = 0,
     ri_seg_item_map = Some (replicate (0x2000 div NVRAM_ITEM_ALIGN_SIZE div 32) 0),
     ri_seg_item_map_size = 4 * (0x2000 div NVRAM_ITEM_ALIGN_SIZE div 32)\<rparr>"

definition factory_nvram_region :: region_info where
  "factory_nvram_region = \<lparr>ri_storage = False, ri_base_addr = 0x3f0000, ri_total_size = 0x2000,
     ri_seg_size = 0x1000, ri_seg_offset = 0, ri_seg_write_offset = 0, ri_seg_seq_id = 0,
     ri_seg_item_map = None, ri_seg_item_map_size = 0\<rparr>"

definition factory_rw_nvram_region :: region_info where
  "factory_rw_nvram_region = \<lparr>ri_storage = False, ri_base_addr = 0x3f2000, ri_total_size = 0x2000,
     ri_seg_size = 0x1000, ri_seg_offset = 0, ri_seg_write_offset = 0, ri_seg_seq_id = 0,
     ri_seg_item_map = None, ri_seg_item_map_size = 0\<rparr>"

definition nvram_region_check_info :: "(nat \<times> nat \<times> nat) list" where
  "nvram_region_check_info = [(0x3f4000, 0xc000, 0x2000), (0x3f0000, 0x2000, 0x1000), (0x3f2000, 0x2000, 0x1000)]"

definition is_in_nvram_region_bounds :: "region_info \<Rightarrow> bool" where
  "is_in_nvram_region_bounds region \<longleftrightarrow>
     (ri_base_addr region, ri_total_size region, ri_seg_size region) \<in> set nvram_region_check_info"

section \<open>Access to a region\<close>

definition region_read :: "'d storage_ops \<Rightarrow> region_info \<Rightarrow> nat \<Rightarrow> nat \<Rightarrow> 'd nvram \<Rightarrow> int \<times> bytes" where
  "region_read stg region offset len s =
     (if \<not> ri_storage region \<or> \<not> is_in_nvram_region_bounds region \<or> offset + len > ri_total_size region
      then (- EINVAL, [])
      else st_read stg (ri_base_addr region + offset) len (nv_dev s))"

definition region_write :: "'d storage_ops \<Rightarrow> region_info \<Rightarrow> nat \<Rightarrow> bytes \<Rightarrow> 'd nvram \<Rightarrow> int \<times> 'd nvram" where
  "region_write stg region offset buf s =
     (if \<not> ri_storage region \<or> \<not> is_in_nvram_region_bounds region \<or> offset + length buf > ri_total_size region
      then (- EINVAL, s)
      else let (err, dev) = st_write stg (ri_base_addr region + offset) buf (nv_dev s) in (err, s\<lparr>nv_dev := dev\<rparr>))"

text \<open>A read into \<open>nvram_buf\<close>; more bytes than it holds would overrun it.\<close>

definition buf_read :: "'d storage_ops \<Rightarrow> region_info \<Rightarrow> nat \<Rightarrow> nat \<Rightarrow> 'd nvram \<Rightarrow> (int \<times> 'd nvram) option" where
  "buf_read stg region offset len s =
     (let (err, data) = region_read stg region offset len s
      in if length data > NVRAM_BUFFER_SIZE then None
         else Some (err, s\<lparr>nv_buf := blit (nv_buf s) 0 data\<rparr>))"

function region_copy ::
    "'d storage_ops \<Rightarrow> region_info \<Rightarrow> nat \<Rightarrow> nat \<Rightarrow> nat \<Rightarrow> 'd nvram \<Rightarrow> int \<times> 'd nvram" where
  "region_copy stg region src_offset dest_offset len s =
     (if len > 0
      then let write_size = (if len < NVRAM_BUFFER_SIZE then len else NVRAM_BUFFER_SIZE);
               (err, data) = region_read stg region src_offset write_size s;
               s = s\<lparr>nv_buf := blit (nv_buf s) 0 data\<rparr>
           in if err \<noteq> 0 then (err, s)
              else let (err, s) = region_write stg region dest_offset (take write_size (nv_buf s)) s
                   in if err \<noteq> 0 then (err, s)
                      else region_copy stg region (src_offset + write_size) (dest_offset + write_size) (len - write_size) s
      else (0, s))"
  by pat_completeness auto
termination
  by (relation "measure (\<lambda>(stg, region, src, dst, len, s). len)") (auto simp: NVRAM_BUFFER_SIZE_def)

function region_is_empy :: "'d storage_ops \<Rightarrow> region_info \<Rightarrow> nat \<Rightarrow> nat \<Rightarrow> 'd nvram \<Rightarrow> bool \<times> 'd nvram" where
  "region_is_empy stg region offset sz s =
     (if sz > 0
      then let read_size = (if sz < NVRAM_BUFFER_SIZE then sz else NVRAM_BUFFER_SIZE);
               (err, data) = st_read stg (ri_base_addr region + offset) read_size (nv_dev s);
               s = s\<lparr>nv_buf := blit (nv_buf s) 0 data\<rparr>
           in if list_all (\<lambda>b. b = 0xff) (take (4 * (read_size div 4)) (nv_buf s))
              then region_is_empy stg region (offset + read_size) (sz - read_size) s
              else (False, s)
      else (True, s))"
  by pat_completeness auto
termination
  by (relation "measure (\<lambda>(stg, region, off, sz, s). sz)") (auto simp: NVRAM_BUFFER_SIZE_def)

function erase_loop :: "'d storage_ops \<Rightarrow> region_info \<Rightarrow> nat \<Rightarrow> nat \<Rightarrow> 'd nvram \<Rightarrow> 'd nvram" where
  "erase_loop stg region offset sz s =
     (if sz > 0
      then let (empty, s) = region_is_empy stg region offset NVRAM_ERASE_ALIGN_SIZE s;
               s = (if empty then s
                    else s\<lparr>nv_dev := snd (st_erase stg (ri_base_addr region + offset) NVRAM_ERASE_ALIGN_SIZE (nv_dev s))\<rparr>)
           in erase_loop stg region (offset + NVRAM_ERASE_ALIGN_SIZE) (sz - NVRAM_ERASE_ALIGN_SIZE) s
      else s)"
  by pat_completeness auto
termination
  by (relation "measure (\<lambda>(stg, region, off, sz, s). sz)") (auto simp: NVRAM_ERASE_ALIGN_SIZE_def)

declare region_copy.simps [simp del] region_is_empy.simps [simp del] erase_loop.simps [simp del]

definition region_erase :: "'d storage_ops \<Rightarrow> region_info \<Rightarrow> nat \<Rightarrow> nat \<Rightarrow> 'd nvram \<Rightarrow> int \<times> 'd nvram" where
  "region_erase stg region offset sz s =
     (if \<not> ri_storage region \<or> offset + sz > ri_total_size region \<or>
         offset mod NVRAM_ERASE_ALIGN_SIZE \<noteq> 0 \<or> sz mod NVRAM_ERASE_ALIGN_SIZE \<noteq> 0
      then (- EINVAL, s)
      else (0, erase_loop stg region offset sz s))"

definition region_clear :: "'d storage_ops \<Rightarrow> region_info \<Rightarrow> nat \<Rightarrow> 'd nvram \<Rightarrow> 'd nvram" where
  "region_clear stg region clear_size s =
     (let clear_size = round_up clear_size (ri_seg_size region);
          clear_size = (if clear_size > ri_total_size region - ri_seg_size region
                        then ri_total_size region - ri_seg_size region else clear_size);
          offset = ri_seg_offset region + ri_seg_size region;
          (offset, clear_size, s) =
            (if offset + clear_size > ri_total_size region
             then let erase_size = ri_total_size region - offset;
                      (_, s) = region_erase stg region offset erase_size s
                  in (0, clear_size - erase_size, s)
             else (offset, clear_size, s))
      in snd (region_erase stg region offset clear_size s))"

section \<open>Items\<close>

definition item_is_empty :: "nvram_item \<Rightarrow> bool" where
  "item_is_empty item \<longleftrightarrow> list_all (\<lambda>b. b = 0xff) (item_bytes item)"

definition item_calc_real_size :: "nat \<Rightarrow> nat \<Rightarrow> nat" where
  "item_calc_real_size name_size data_size = SIZEOF_ITEM + name_size + data_size"

definition item_calc_aligned_size :: "nat \<Rightarrow> nat \<Rightarrow> nat" where
  "item_calc_aligned_size name_size data_size = round_up (item_calc_real_size name_size data_size) NVRAM_ITEM_ALIGN_SIZE"

definition item_get_real_size :: "nvram_item \<Rightarrow> nat" where
  "item_get_real_size item = item_calc_real_size (unat (it_name_size item)) (unat (it_data_size item))"

definition item_get_aligned_size :: "nvram_item \<Rightarrow> nat" where
  "item_get_aligned_size item = item_calc_aligned_size (unat (it_name_size item)) (unat (it_data_size item))"

definition item_update_state :: "'d storage_ops \<Rightarrow> region_info \<Rightarrow> nat \<Rightarrow> u8 \<Rightarrow> 'd nvram \<Rightarrow> 'd nvram" where
  "item_update_state stg region item_offset state s = snd (region_write stg region (item_offset + 1) [state] s)"

function item_calc_data_crc ::
    "'d storage_ops \<Rightarrow> region_info \<Rightarrow> nat \<Rightarrow> nat \<Rightarrow> u8 \<Rightarrow> 'd nvram \<Rightarrow> u8 \<times> 'd nvram" where
  "item_calc_data_crc stg region offset sz crc s =
     (if sz > 0
      then let read_size = (if sz < NVRAM_BUFFER_SIZE then sz else NVRAM_BUFFER_SIZE);
               (_, data) = region_read stg region offset read_size s;
               s = s\<lparr>nv_buf := blit (nv_buf s) 0 data\<rparr>;
               crc = calc_crc8 (take read_size (nv_buf s)) crc
           in item_calc_data_crc stg region (offset + read_size) (sz - read_size) crc s
      else (crc, s))"
  by pat_completeness auto
termination
  by (relation "measure (\<lambda>(stg, region, off, sz, crc, s). sz)") (auto simp: NVRAM_BUFFER_SIZE_def)

declare item_calc_data_crc.simps [simp del]

text \<open>The checksum of the item header from the hash on.\<close>

definition item_header_crc :: "nvram_item \<Rightarrow> u8" where
  "item_header_crc item = calc_crc8 (drop 3 (item_bytes item)) 0"

text \<open>The name of an item, read into a zeroed array of 112 bytes.\<close>

definition item_get_item_name ::
    "'d storage_ops \<Rightarrow> region_info \<Rightarrow> nat \<Rightarrow> nvram_item \<Rightarrow> bytes \<Rightarrow> 'd nvram \<Rightarrow> int \<times> bytes" where
  "item_get_item_name stg region item_offs item buf s =
     (if it_magic item \<noteq> NVRAM_REGION_ITEM_MAGIC then (- 1, buf)
      else if it_state item \<noteq> NVRAM_STATE_VALID then (- 1, buf)
      else if length buf < unat (it_name_size item) then (- 1, buf)
      else (0, blit buf 0 (snd (region_read stg region (item_offs + SIZEOF_ITEM) (unat (it_name_size item)) s))))"

definition item_check_validity ::
    "'d storage_ops \<Rightarrow> region_info \<Rightarrow> nat \<Rightarrow> nvram_item \<Rightarrow> bool \<Rightarrow> 'd nvram \<Rightarrow> (item_status \<times> 'd nvram) option" where
  "item_check_validity stg region item_offs item check_crc s =
     (if it_magic item \<noteq> NVRAM_REGION_ITEM_MAGIC
      then Some (if item_is_empty item then ITEM_STATUS_EMPTY else ITEM_STATUS_INVALID, s)
      else if it_state item \<noteq> NVRAM_STATE_VALID
      then Some (if it_state item = NVRAM_STATE_OBSOLETE then ITEM_STATUS_OBSOLETE else ITEM_STATUS_INVALID, s)
      else do {
        let name_offset = item_offs + SIZEOF_ITEM;
        let name_size = unat (it_name_size item);
        (_, s) \<leftarrow> buf_read stg region name_offset name_size s;
        if name_size > NVRAM_BUFFER_SIZE then None
        else if it_hash item \<noteq> calc_hash (take name_size (nv_buf s)) then Some (ITEM_STATUS_INVALID, s)
        else if \<not> check_crc then Some (ITEM_STATUS_VALID, s)
        else let crc = calc_crc8 (take name_size (nv_buf s)) (item_header_crc item);
                 (crc, s) = item_calc_data_crc stg region (name_offset + name_size) (unat (it_data_size item)) crc s
             in if it_crc item \<noteq> crc
                then Some (ITEM_STATUS_INVALID, item_update_state stg region item_offs NVRAM_STATE_OBSOLETE s)
                else Some (ITEM_STATUS_VALID, s)
      })"

section \<open>Finding an item\<close>

text \<open>Comparing the first \<open>n\<close> bytes of two arrays: past the end of either, the comparison must have been
  decided before.\<close>

definition memcmp_eq :: "bytes \<Rightarrow> bytes \<Rightarrow> nat \<Rightarrow> bool option" where
  "memcmp_eq xs ys n =
     (if n \<le> length xs \<and> n \<le> length ys then Some (take n xs = take n ys)
      else let m = min (length xs) (length ys) in if take m xs \<noteq> take m ys then Some False else None)"

text \<open>The test of one item: a valid item with the right hash whose stored name is the name.\<close>

definition item_name_matches ::
    "'d storage_ops \<Rightarrow> region_info \<Rightarrow> bytes \<Rightarrow> nat \<Rightarrow> nvram_item \<Rightarrow> 'd nvram \<Rightarrow> (bool \<times> 'd nvram) option" where
  "item_name_matches stg region name item_offs item s =
     (if it_state item = NVRAM_STATE_VALID \<and> it_hash item = calc_hash (name @ [0])
      then do {
        (_, s) \<leftarrow> buf_read stg region (item_offs + SIZEOF_ITEM) (unat (it_name_size item)) s;
        found \<leftarrow> memcmp_eq (name @ [0]) (nv_buf s) (unat (it_name_size item));
        Some (found, s)
      }
      else Some (False, s))"

partial_function (option) find_item_loop ::
    "'d storage_ops \<Rightarrow> region_info \<Rightarrow> bytes \<Rightarrow> nat \<Rightarrow> nvram_item \<Rightarrow> 'd nvram \<Rightarrow> (int \<times> nvram_item \<times> 'd nvram) option" where
  "find_item_loop stg region name offs item s =
     (if offs < ri_seg_size region
      then let item_offs = ri_seg_offset region + offs;
               item = item_load (snd (region_read stg region item_offs SIZEOF_ITEM s)) item
           in if it_magic item \<noteq> NVRAM_REGION_ITEM_MAGIC then Some (- ENOENT, item, s)
              else Option.bind (item_name_matches stg region name item_offs item s) (\<lambda>(found, s).
                if found then Some (int item_offs, item, s)
                else Option.bind
                  (item_bitmap_next_offset (ri_seg_item_map region) (ri_seg_size region) (offs + item_get_aligned_size item))
                  (\<lambda>offs. find_item_loop stg region name offs item s))
      else Some (- ENOENT, item, s))"

definition region_find_item ::
    "'d storage_ops \<Rightarrow> region_info \<Rightarrow> bytes \<Rightarrow> nvram_item \<Rightarrow> 'd nvram \<Rightarrow> (int \<times> nvram_item \<times> 'd nvram) option" where
  "region_find_item stg region name item s = do {
     offs \<leftarrow> item_bitmap_first_offset (ri_seg_item_map region) (ri_seg_size region);
     find_item_loop stg region name offs item s }"

section \<open>Writing items and segments\<close>

definition region_seg_update_state :: "'d storage_ops \<Rightarrow> region_info \<Rightarrow> nat \<Rightarrow> u8 \<Rightarrow> 'd nvram \<Rightarrow> 'd nvram" where
  "region_seg_update_state stg region seg_offset state s = snd (region_write stg region (seg_offset + 4) [state] s)"

function region_write_data :: "'d storage_ops \<Rightarrow> region_info \<Rightarrow> nat \<Rightarrow> bytes \<Rightarrow> 'd nvram \<Rightarrow> 'd nvram" where
  "region_write_data stg region offset data s =
     (if length data > 0
      then let wsize = (if length data < NVRAM_BUFFER_SIZE then length data else NVRAM_BUFFER_SIZE);
               s = s\<lparr>nv_buf := blit (nv_buf s) 0 (take wsize data)\<rparr>;
               (_, s) = region_write stg region offset (take wsize (nv_buf s)) s
           in region_write_data stg region (offset + wsize) (drop wsize data) s
      else s)"
  by pat_completeness auto
termination
  by (relation "measure (\<lambda>(stg, region, off, data, s). length data)") (auto simp: NVRAM_BUFFER_SIZE_def)

declare region_write_data.simps [simp del]

text \<open>The header of a new item, with its checksum.\<close>

definition new_item :: "bytes \<Rightarrow> bytes \<Rightarrow> nat \<Rightarrow> nvram_item" where
  "new_item name data len =
     (let name_size = word_of_nat (length name + 1);
          item = \<lparr>it_magic = NVRAM_REGION_ITEM_MAGIC, it_state = NVRAM_STATE_VALID, it_crc = 0,
                  it_hash = calc_hash (take (unat name_size) (name @ [0])), it_reserved = 0,
                  it_name_size = name_size, it_data_size = word_of_nat len\<rparr>
      in item\<lparr>it_crc := calc_crc8 (take (unat (it_data_size item)) data)
           (calc_crc8 (take (unat name_size) (name @ [0])) (item_header_crc item))\<rparr>)"

definition region_write_item ::
    "'d storage_ops \<Rightarrow> region_info \<Rightarrow> nat \<Rightarrow> bytes \<Rightarrow> bytes \<Rightarrow> nat \<Rightarrow> 'd nvram \<Rightarrow> int \<times> 'd nvram" where
  "region_write_item stg region offset name data len s =
     (let item = new_item name data len;
          name_size = unat (it_name_size item);
          item_data_offs = SIZEOF_ITEM + name_size;
          item_size = item_data_offs + unat (it_data_size item);
          s = s\<lparr>nv_buf := blit (nv_buf s) 0 (item_bytes item)\<rparr>
      in if item_data_offs > NVRAM_BUFFER_SIZE then (- EINVAL, s)
         else let s = s\<lparr>nv_buf := blit (nv_buf s) SIZEOF_ITEM (take name_size (name @ [0]))\<rparr>;
                  (_, s) = region_write stg region offset (take item_data_offs (nv_buf s)) s;
                  s = region_write_data stg region (offset + item_data_offs) (take len data) s
              in (int item_size, s))"

text \<open>Copying the valid items of a segment: the loop, with the offset to write to.\<close>

partial_function (option) copy_seg_loop ::
    "'d storage_ops \<Rightarrow> nat \<Rightarrow> nat \<Rightarrow> bool \<Rightarrow> nat \<Rightarrow> nat \<Rightarrow> nvram_item \<Rightarrow> region_info \<Rightarrow> 'd nvram \<Rightarrow>
     (nat \<times> region_info \<times> 'd nvram) option" where
  "copy_seg_loop stg new_seg_offset end_offs check_crc item_offs new_item_offs item region s =
     (if item_offs < end_offs
      then let item = item_load (snd (region_read stg region item_offs SIZEOF_ITEM s)) item
           in Option.bind (item_check_validity stg region item_offs item check_crc s) (\<lambda>(status, s).
             if status = ITEM_STATUS_INVALID \<or> status = ITEM_STATUS_EMPTY then Some (new_item_offs, region, s)
             else if status = ITEM_STATUS_VALID
             then let s = snd (region_copy stg region item_offs new_item_offs (item_get_real_size item) s)
                  in Option.bind (item_bitmap_update (ri_seg_item_map region) (new_item_offs - new_seg_offset) True) (\<lambda>m.
                    copy_seg_loop stg new_seg_offset end_offs check_crc (item_offs + item_get_aligned_size item)
                      (new_item_offs + item_get_aligned_size item) item (region\<lparr>ri_seg_item_map := m\<rparr>) s)
             else copy_seg_loop stg new_seg_offset end_offs check_crc (item_offs + item_get_aligned_size item)
                    new_item_offs item region s)
      else Some (new_item_offs, region, s))"

definition region_copy_seg ::
    "'d storage_ops \<Rightarrow> nat \<Rightarrow> nat \<Rightarrow> nat \<Rightarrow> bool \<Rightarrow> region_info \<Rightarrow> 'd nvram \<Rightarrow> (region_info \<times> 'd nvram) option" where
  "region_copy_seg stg new_seg_offset old_seg_offset copy_size check_crc region s = do {
     let region = region\<lparr>ri_seg_item_map := item_bitmap_clear_all (ri_seg_item_map region) (ri_seg_item_map_size region)\<rparr>;
     (new_item_offs, region, s) \<leftarrow> copy_seg_loop stg new_seg_offset (old_seg_offset + copy_size) check_crc
       (old_seg_offset + NVRAM_SEG_ITEM_START_OFFSET) (new_seg_offset + NVRAM_SEG_ITEM_START_OFFSET)
       (nv_stack s) region s;
     Some (region\<lparr>ri_seg_write_offset := new_item_offs\<rparr>, s) }"

definition new_seg_header :: "region_info \<Rightarrow> region_seg_header" where
  "new_seg_header region =
     (let hdr = \<lparr>sh_magic = NVRAM_REGION_SEG_MAGIC, sh_state = NVRAM_STATE_VALID, sh_crc = 0, sh_version = 1,
                 sh_reserved = 0, sh_seq_id = ri_seg_seq_id region + 1, sh_head_size = word_of_nat SIZEOF_SEG_HEADER,
                 sh_seg_size = word_of_nat (ri_seg_size region), sh_reserved2 = [0, 0, 0, 0]\<rparr>
      in hdr\<lparr>sh_crc := calc_crc8 (drop 6 (seg_header_bytes hdr)) 0\<rparr>)"

definition region_init_new_seg :: "'d storage_ops \<Rightarrow> nat \<Rightarrow> region_info \<Rightarrow> 'd nvram \<Rightarrow> region_info \<times> 'd nvram" where
  "region_init_new_seg stg seg_offset region s =
     (let hdr = new_seg_header region;
          (_, s) = region_erase stg region seg_offset (ri_seg_size region) s;
          (_, s) = region_write stg region seg_offset (seg_header_bytes hdr) s
      in (region\<lparr>ri_seg_seq_id := sh_seq_id hdr, ri_seg_offset := seg_offset,
            ri_seg_write_offset := seg_offset + NVRAM_SEG_ITEM_START_OFFSET,
            ri_seg_item_map := item_bitmap_clear_all (ri_seg_item_map region) (ri_seg_item_map_size region)\<rparr>, s))"

definition region_purge_seg ::
    "'d storage_ops \<Rightarrow> bool \<Rightarrow> region_info \<Rightarrow> 'd nvram \<Rightarrow> (region_info \<times> 'd nvram) option" where
  "region_purge_seg stg check_crc region s = do {
     let new_seg_offset = ri_seg_offset region + ri_seg_size region;
     let new_seg_offset = (if new_seg_offset \<ge> ri_total_size region then 0 else new_seg_offset);
     let (empty, s) = region_is_empy stg region new_seg_offset (ri_seg_size region) s;
     let s = (if empty then s else snd (region_erase stg region new_seg_offset (ri_seg_size region) s));
     let old_seg_offset = ri_seg_offset region;
     let seg_copy_size = ri_seg_write_offset region - ri_seg_offset region;
     let (region, s) = region_init_new_seg stg new_seg_offset region s;
     (region, s) \<leftarrow> region_copy_seg stg new_seg_offset old_seg_offset seg_copy_size check_crc region s;
     Some (region, region_seg_update_state stg region old_seg_offset NVRAM_STATE_OBSOLETE s) }"

definition region_prepare_write_item ::
    "'d storage_ops \<Rightarrow> nat \<Rightarrow> region_info \<Rightarrow> 'd nvram \<Rightarrow> (region_info \<times> 'd nvram) option" where
  "region_prepare_write_item stg item_size region s =
     (if ri_seg_write_offset region + item_size > ri_seg_offset region + ri_seg_size region
      then region_purge_seg stg False region s
      else Some (region, s))"

section \<open>Setting and getting\<close>

function same_data_loop :: "'d storage_ops \<Rightarrow> region_info \<Rightarrow> nat \<Rightarrow> bytes \<Rightarrow> 'd nvram \<Rightarrow> bool \<times> 'd nvram" where
  "same_data_loop stg region offset data s =
     (if length data > 0
      then let read_size = (if length data < NVRAM_BUFFER_SIZE then length data else NVRAM_BUFFER_SIZE);
               s = s\<lparr>nv_buf := blit (nv_buf s) 0 (snd (region_read stg region offset read_size s))\<rparr>
           in if take read_size (nv_buf s) \<noteq> take read_size data then (False, s)
              else same_data_loop stg region (offset + read_size) (drop read_size data) s
      else (True, s))"
  by pat_completeness auto
termination
  by (relation "measure (\<lambda>(stg, region, off, data, s). length data)") (auto simp: NVRAM_BUFFER_SIZE_def)

declare same_data_loop.simps [simp del]

definition region_is_same_config_data ::
    "'d storage_ops \<Rightarrow> region_info \<Rightarrow> bytes \<Rightarrow> bytes \<Rightarrow> nat \<Rightarrow> 'd nvram \<Rightarrow> (bool \<times> 'd nvram) option" where
  "region_is_same_config_data stg region name data len s = do {
     (old_item_offs, item, s) \<leftarrow> region_find_item stg region name (nv_stack s) s;
     Some (if old_item_offs > 0 \<and> len = unat (it_data_size item)
           then same_data_loop stg region (nat old_item_offs + SIZEOF_ITEM + unat (it_name_size item)) (take len data) s
           else (False, s)) }"

text \<open>The old item becomes obsolete, in the flash and in the bitmap.\<close>

definition retire_item ::
    "'d storage_ops \<Rightarrow> int \<Rightarrow> region_info \<Rightarrow> 'd nvram \<Rightarrow> (region_info \<times> 'd nvram) option" where
  "retire_item stg old_item_offs region s =
     (if old_item_offs > 0
      then do {
        let s = item_update_state stg region (nat old_item_offs) NVRAM_STATE_OBSOLETE s;
        m \<leftarrow> item_bitmap_update (ri_seg_item_map region) (nat old_item_offs - ri_seg_offset region) False;
        Some (region\<lparr>ri_seg_item_map := m\<rparr>, s) }
      else Some (region, s))"

text \<open>The new item is written at the end of the segment before the old one is retired.\<close>

definition region_append_item ::
    "'d storage_ops \<Rightarrow> bytes \<Rightarrow> bytes \<Rightarrow> nat \<Rightarrow> nat \<Rightarrow> region_info \<Rightarrow> 'd nvram \<Rightarrow> (int \<times> region_info \<times> 'd nvram) option" where
  "region_append_item stg name data len new_item_size region s = do {
     (old_item_offs, _, s) \<leftarrow> region_find_item stg region name (nv_stack s) s;
     let (_, s) = region_write_item stg region (ri_seg_write_offset region) name data len s;
     m \<leftarrow> item_bitmap_update (ri_seg_item_map region) (ri_seg_write_offset region - ri_seg_offset region) True;
     let region = region\<lparr>ri_seg_item_map := m, ri_seg_write_offset := ri_seg_write_offset region + new_item_size\<rparr>;
     (region, s) \<leftarrow> retire_item stg old_item_offs region s;
     Some (0, region, s) }"

text \<open>\<open>name\<close> and \<open>data\<close> are \<open>None\<close> for null pointers. A length that is not positive deletes.\<close>

definition region_set ::
    "'d storage_ops \<Rightarrow> bytes option \<Rightarrow> bytes option \<Rightarrow> int \<Rightarrow> region_info \<Rightarrow> 'd nvram \<Rightarrow>
     (int \<times> region_info \<times> 'd nvram) option" where
  "region_set stg name data len region s =
     (case name of None \<Rightarrow> Some (- EINVAL, region, s)
      | Some name \<Rightarrow>
          if (data = None \<and> len \<noteq> 0) \<or> len > int NVRAM_MAX_DATA_SIZE then Some (- EINVAL, region, s)
          else if \<not> is_in_nvram_region_bounds region then Some (- EINVAL, region, s)
          else if length name + 1 > NVRAM_MAX_NAME_SIZE then Some (- EINVAL, region, s)
          else if len > 0
          then do {
            let data = the data;
            (same, s) \<leftarrow> region_is_same_config_data stg region name data (nat len) s;
            if same then Some (0, region, s)
            else do {
              let new_item_size = item_calc_aligned_size (length name + 1) (nat len);
              (region, s) \<leftarrow> region_prepare_write_item stg new_item_size region s;
              region_append_item stg name data (nat len) new_item_size region s } }
          else do {
            (old_item_offs, _, s) \<leftarrow> region_find_item stg region name (nv_stack s) s;
            (region, s) \<leftarrow> retire_item stg old_item_offs region s;
            Some (0, region, s) })"

text \<open>The result is the length, or an error; \<open>data\<close> tells whether the caller's buffer is not null, and the
  bytes returned are those stored in it.\<close>

definition region_get ::
    "'d storage_ops \<Rightarrow> region_info \<Rightarrow> bytes option \<Rightarrow> bool \<Rightarrow> int \<Rightarrow> 'd nvram \<Rightarrow> (int \<times> bytes \<times> 'd nvram) option" where
  "region_get stg region name data max_len s =
     (case name of None \<Rightarrow> Some (- EINVAL, [], s)
      | Some name \<Rightarrow>
          if \<not> data \<or> max_len = 0 then Some (- EINVAL, [], s)
          else do {
            (item_offs, item, s) \<leftarrow> region_find_item stg region name (nv_stack s) s;
            if item_offs < 0 then Some (- ENOENT, [], s)
            else do {
              let name_size = unat (it_name_size item);
              let data_offs = nat item_offs + SIZEOF_ITEM + name_size;
              let crc = calc_crc8 (take name_size (nv_buf s)) (item_header_crc item);
              let (crc, s) = item_calc_data_crc stg region data_offs (unat (it_data_size item)) crc s;
              if it_crc item \<noteq> crc then Some (- EACCES, [], s)
              else let len = (if max_len < int (unat (it_data_size item)) then max_len else int (unat (it_data_size item)))
                   in Some (len, snd (region_read stg region data_offs (nat len) s), s) } })"

section \<open>Traversing the items\<close>

text \<open>The callbacks are calls in a log, with the bytes they are given.\<close>

datatype traverse_call = NameCb bytes | DataCb bytes

partial_function (option) traverse_data_loop ::
    "'d storage_ops \<Rightarrow> region_info \<Rightarrow> nat \<Rightarrow> nat \<Rightarrow> nat \<Rightarrow> bytes \<Rightarrow> traverse_call list \<Rightarrow> 'd nvram \<Rightarrow>
     (bytes \<times> traverse_call list) option" where
  "traverse_data_loop stg region offset sz data_size data log s =
     (if sz > 0
      then let read_size = (if sz < data_size then sz else data_size);
               data = blit data 0 (snd (region_read stg region offset read_size s))
           in traverse_data_loop stg region (offset + read_size) (sz - read_size) read_size data
                (log @ [DataCb (take read_size data)]) s
      else Some (data, log))"

definition region_traverse_data ::
    "'d storage_ops \<Rightarrow> region_info \<Rightarrow> nat \<Rightarrow> nat \<Rightarrow> bytes \<Rightarrow> bool \<Rightarrow> traverse_call list \<Rightarrow> 'd nvram \<Rightarrow>
     (bytes \<times> traverse_call list) option" where
  "region_traverse_data stg region offset sz data traverse_cb log s =
     (if \<not> traverse_cb then Some (data, log)
      else traverse_data_loop stg region offset sz (length data) data log s)"

text \<open>\<open>data_buf\<close> is the caller's buffer; a name longer than it would overrun it.\<close>

partial_function (option) traverse_loop ::
    "'d storage_ops \<Rightarrow> region_info \<Rightarrow> bool \<Rightarrow> bool \<Rightarrow> nat \<Rightarrow> nvram_item \<Rightarrow> bytes \<Rightarrow> traverse_call list \<Rightarrow> 'd nvram \<Rightarrow>
     (bytes \<times> traverse_call list) option" where
  "traverse_loop stg region name_cb data_cb offs item data_buf log s =
     (if offs < ri_seg_size region
      then let item_offs = ri_seg_offset region + offs;
               item = item_load (snd (region_read stg region item_offs SIZEOF_ITEM s)) item;
               name_size = unat (it_name_size item);
               name = snd (region_read stg region (item_offs + SIZEOF_ITEM) name_size s);
               next = item_bitmap_next_offset (ri_seg_item_map region) (ri_seg_size region) (offs + item_get_aligned_size item)
           in if it_magic item \<noteq> NVRAM_REGION_ITEM_MAGIC then Some (data_buf, log)
              else if it_state item \<noteq> NVRAM_STATE_VALID
              then Option.bind next (\<lambda>offs. traverse_loop stg region name_cb data_cb offs item data_buf log s)
              else if length name > length data_buf \<or> (name_cb \<and> name_size > length data_buf) then None
              else let data_buf = blit data_buf 0 name;
                       log = (if name_cb then log @ [NameCb (take name_size data_buf)] else log)
                   in Option.bind (region_traverse_data stg region (item_offs + SIZEOF_ITEM + name_size)
                        (unat (it_data_size item)) data_buf data_cb log s) (\<lambda>(data_buf, log).
                      Option.bind next (\<lambda>offs. traverse_loop stg region name_cb data_cb offs item data_buf log s))
      else Some (data_buf, log))"

definition region_traverse ::
    "'d storage_ops \<Rightarrow> region_info \<Rightarrow> bytes \<Rightarrow> bool \<Rightarrow> bool \<Rightarrow> 'd nvram \<Rightarrow> (bytes \<times> traverse_call list) option" where
  "region_traverse stg region data_buf name_cb data_cb s = do {
     offs \<leftarrow> item_bitmap_first_offset (ri_seg_item_map region) (ri_seg_size region);
     traverse_loop stg region name_cb data_cb offs (nv_stack s) data_buf [] s }"

section \<open>Scanning at start-up\<close>

definition seg_header_crc_ok :: "region_seg_header \<Rightarrow> bool" where
  "seg_header_crc_ok hdr \<longleftrightarrow> sh_crc hdr = calc_crc8 (drop 6 (seg_header_bytes hdr)) 0"

definition is_valid_region_seg_header :: "region_seg_header \<Rightarrow> bool" where
  "is_valid_region_seg_header hdr \<longleftrightarrow>
     sh_magic hdr = NVRAM_REGION_SEG_MAGIC \<and> sh_state hdr = NVRAM_STATE_VALID \<and> seg_header_crc_ok hdr"

definition is_valid_merge_region_seg_header :: "region_seg_header \<Rightarrow> bool" where
  "is_valid_merge_region_seg_header hdr \<longleftrightarrow>
     sh_magic hdr = NVRAM_REGION_SEG_MAGIC \<and> sh_state hdr = NVRAM_STATE_OBSOLETE \<and> seg_header_crc_ok hdr"

text \<open>The string in an array: it must be terminated inside it.\<close>

definition c_string :: "bytes \<Rightarrow> bytes option" where
  "c_string buf = (if 0 \<in> set buf then Some (takeWhile (\<lambda>b. b \<noteq> 0) buf) else None)"

text \<open>A valid item makes an earlier item of the same name obsolete.\<close>

definition scan_valid_item ::
    "'d storage_ops \<Rightarrow> nat \<Rightarrow> nvram_item \<Rightarrow> nvram_item \<Rightarrow> region_info \<Rightarrow> 'd nvram \<Rightarrow>
     (nvram_item \<times> region_info \<times> 'd nvram) option" where
  "scan_valid_item stg offs item old_item region s = do {
     let item_offs = ri_seg_offset region + offs;
     let (r, item_name) = item_get_item_name stg region item_offs item (replicate NVRAM_MAX_NAME_SIZE 0) s;
     (old_item, region, s) \<leftarrow>
       (if r = 0
        then do {
          name \<leftarrow> c_string item_name;
          (old_item_offs, old_item, s) \<leftarrow> region_find_item stg region name old_item s;
          if old_item_offs > 0 \<and> old_item_offs \<noteq> int item_offs
          then do { (region, s) \<leftarrow> retire_item stg old_item_offs region s; Some (old_item, region, s) }
          else Some (old_item, region, s) }
        else Some (old_item, region, s));
     m \<leftarrow> item_bitmap_update (ri_seg_item_map region) offs True;
     Some (old_item, region\<lparr>ri_seg_item_map := m\<rparr>, s) }"

partial_function (option) seg_scan_loop ::
    "'d storage_ops \<Rightarrow> nat \<Rightarrow> nvram_item \<Rightarrow> nvram_item \<Rightarrow> region_info \<Rightarrow> 'd nvram \<Rightarrow>
     (int \<times> nat \<times> region_info \<times> 'd nvram) option" where
  "seg_scan_loop stg offs item old_item region s =
     (if offs < ri_seg_size region
      then let item_offs = ri_seg_offset region + offs;
               (err, data) = region_read stg region item_offs SIZEOF_ITEM s;
               item = item_load data item
           in if err \<noteq> 0 then Some (err, offs, region, s)
              else Option.bind (item_check_validity stg region item_offs item True s) (\<lambda>(status, s).
                if status = ITEM_STATUS_VALID
                then Option.bind (scan_valid_item stg offs item old_item region s) (\<lambda>(old_item, region, s).
                  seg_scan_loop stg (offs + item_get_aligned_size item) item old_item region s)
                else if status = ITEM_STATUS_EMPTY then Some (0, offs, region, s)
                else seg_scan_loop stg (offs + item_get_aligned_size item) item old_item region s)
      else Some (0, offs, region, s))"

definition region_seg_scan ::
    "'d storage_ops \<Rightarrow> bool \<Rightarrow> region_info \<Rightarrow> 'd nvram \<Rightarrow> (int \<times> region_info \<times> 'd nvram) option" where
  "region_seg_scan stg force_merge region s = do {
     let region = region\<lparr>ri_seg_item_map := item_bitmap_clear_all (ri_seg_item_map region) (ri_seg_item_map_size region)\<rparr>;
     (err, offs, region, s) \<leftarrow> seg_scan_loop stg NVRAM_SEG_ITEM_START_OFFSET (nv_stack s) (nv_stack s) region s;
     if err \<noteq> 0 then Some (err, region, s)
     else do {
       let item_offs = ri_seg_offset region + offs;
       let region = region\<lparr>ri_seg_write_offset := item_offs\<rparr>;
       let (clean, s) = (if offs \<ge> ri_seg_size region then (False, s)
                         else region_is_empy stg region item_offs (ri_seg_size region - offs) s);
       if force_merge \<or> \<not> clean
       then do { (region, s) \<leftarrow> region_purge_seg stg True region s; Some (0, region, s) }
       else Some (0, region, s) } }"

text \<open>Sequence numbers are compared as signed bytes.\<close>

definition s8_positive :: "u8 \<Rightarrow> bool" where
  "s8_positive x \<longleftrightarrow> 0 < unat x \<and> unat x < 128"

record scan_result =
  sr_found :: "(u8 \<times> nat) option"
  sr_old_found :: "(u8 \<times> nat) option"

definition scan_header :: "region_seg_header \<Rightarrow> nat \<Rightarrow> scan_result \<Rightarrow> scan_result" where
  "scan_header hdr offs r =
     (let newer = (\<lambda>best. case best of None \<Rightarrow> True | Some (sid, _) \<Rightarrow> s8_positive (sh_seq_id hdr - sid));
          r = (if is_valid_region_seg_header hdr \<and> newer (sr_found r)
               then r\<lparr>sr_found := Some (sh_seq_id hdr, offs)\<rparr> else r)
      in if is_valid_merge_region_seg_header hdr \<and> newer (sr_old_found r)
         then r\<lparr>sr_old_found := Some (sh_seq_id hdr, offs)\<rparr> else r)"

partial_function (option) scan_headers ::
    "'d storage_ops \<Rightarrow> region_info \<Rightarrow> nat \<Rightarrow> scan_result \<Rightarrow> 'd nvram \<Rightarrow> (int \<times> scan_result) option" where
  "scan_headers stg region offs r s =
     (if offs < ri_total_size region
      then let (err, data) = region_read stg region offs SIZEOF_SEG_HEADER s
           in if err \<noteq> 0 then Some (err, r)
              else scan_headers stg region (offs + ri_seg_size region) (scan_header (seg_header_of_bytes data) offs r) s
      else Some (0, r))"

text \<open>The last valid segment whose number is one less than the newest.\<close>

partial_function (option) scan_previous ::
    "'d storage_ops \<Rightarrow> region_info \<Rightarrow> nat \<Rightarrow> nat option \<Rightarrow> 'd nvram \<Rightarrow> (int \<times> nat option) option" where
  "scan_previous stg region offs prev s =
     (if offs < ri_total_size region
      then let (err, data) = region_read stg region offs SIZEOF_SEG_HEADER s;
               hdr = seg_header_of_bytes data
           in if err \<noteq> 0 then Some (err, prev)
              else scan_previous stg region (offs + ri_seg_size region)
                (if is_valid_region_seg_header hdr \<and> ri_seg_seq_id region - sh_seq_id hdr = 1 then Some offs else prev) s
      else Some (0, prev))"

text \<open>A copy that was interrupted is started again.\<close>

definition merge_previous ::
    "'d storage_ops \<Rightarrow> nat \<Rightarrow> region_info \<Rightarrow> 'd nvram \<Rightarrow> (region_info \<times> 'd nvram) option" where
  "merge_previous stg last_region_off region s = do {
     let (region, s) = region_init_new_seg stg (ri_seg_offset region) region s;
     (region, s) \<leftarrow> region_copy_seg stg (ri_seg_offset region) last_region_off (ri_seg_size region) True region s;
     Some (region, region_seg_update_state stg region last_region_off NVRAM_STATE_OBSOLETE s) }"

definition region_scan ::
    "'d storage_ops \<Rightarrow> region_info \<Rightarrow> 'd nvram \<Rightarrow> (int \<times> region_info \<times> 'd nvram) option" where
  "region_scan stg region s = do {
     (err, r) \<leftarrow> scan_headers stg region 0 \<lparr>sr_found = None, sr_old_found = None\<rparr> s;
     let region = (case sr_found r of None \<Rightarrow> region
                   | Some (sid, offs) \<Rightarrow> region\<lparr>ri_seg_seq_id := sid, ri_seg_offset := offs\<rparr>);
     if err \<noteq> 0 then Some (err, region, s)
     else case sr_found r of
       Some _ \<Rightarrow> do {
         (err, prev) \<leftarrow> scan_previous stg region 0 None s;
         if err \<noteq> 0 then Some (err, region, s)
         else do {
           (region, s) \<leftarrow> (case prev of None \<Rightarrow> Some (region, s) | Some off \<Rightarrow> merge_previous stg off region s);
           (err, region, s) \<leftarrow> region_seg_scan stg False region s;
           Some (if err \<noteq> 0 then - 1 else 0, region, s) } }
     | None \<Rightarrow> (case sr_old_found r of
         Some (sid, offs) \<Rightarrow> do {
           (err, region, s) \<leftarrow> region_seg_scan stg True (region\<lparr>ri_seg_seq_id := sid, ri_seg_offset := offs\<rparr>) s;
           Some (if err \<noteq> 0 then - 1 else 0, region, s) }
       | None \<Rightarrow> (case region_init_new_seg stg 0 region s of (region, s) \<Rightarrow> Some (0, region, s))) }"

section \<open>The interface\<close>

text \<open>The three regions and the shared state. Callers are serialised by \<open>nvram_lock\<close>.\<close>

record 'd nvram_config =
  nc_user :: region_info
  nc_factory_rw :: region_info
  nc_factory :: region_info
  nc_nv :: "'d nvram"

definition nvram_config_set_factory ::
    "'d storage_ops \<Rightarrow> bytes option \<Rightarrow> bytes option \<Rightarrow> int \<Rightarrow> 'd nvram_config \<Rightarrow> (int \<times> 'd nvram_config) option" where
  "nvram_config_set_factory stg name data len c = do {
     (ret, region, s) \<leftarrow> region_set stg name data len (nc_factory_rw c) (nc_nv c);
     Some (ret, c\<lparr>nc_factory_rw := region, nc_nv := s\<rparr>) }"

definition nvram_config_set ::
    "'d storage_ops \<Rightarrow> bytes option \<Rightarrow> bytes option \<Rightarrow> int \<Rightarrow> 'd nvram_config \<Rightarrow> (int \<times> 'd nvram_config) option" where
  "nvram_config_set stg name data len c = do {
     (ret, region, s) \<leftarrow> region_set stg name data len (nc_user c) (nc_nv c);
     Some (ret, c\<lparr>nc_user := region, nc_nv := s\<rparr>) }"

definition nvram_config_get_factory ::
    "'d storage_ops \<Rightarrow> bytes option \<Rightarrow> bool \<Rightarrow> int \<Rightarrow> 'd nvram_config \<Rightarrow> (int \<times> bytes \<times> 'd nvram_config) option" where
  "nvram_config_get_factory stg name data max_len c = do {
     (ret, bs, s) \<leftarrow> region_get stg (nc_factory_rw c) name data max_len (nc_nv c);
     if ret \<ge> 0 then Some (ret, bs, c\<lparr>nc_nv := s\<rparr>)
     else do {
       (ret, bs, s) \<leftarrow> region_get stg (nc_factory c) name data max_len s;
       Some (ret, bs, c\<lparr>nc_nv := s\<rparr>) } }"

definition nvram_config_get ::
    "'d storage_ops \<Rightarrow> bytes option \<Rightarrow> bool \<Rightarrow> int \<Rightarrow> 'd nvram_config \<Rightarrow> (int \<times> bytes \<times> 'd nvram_config) option" where
  "nvram_config_get stg name data max_len c = do {
     (ret, bs, s) \<leftarrow> region_get stg (nc_user c) name data max_len (nc_nv c);
     if ret \<ge> 0 then Some (ret, bs, c\<lparr>nc_nv := s\<rparr>)
     else do {
       (ret, bs, s) \<leftarrow> region_get stg (nc_factory_rw c) name data max_len s;
       if ret \<ge> 0 then Some (ret, bs, c\<lparr>nc_nv := s\<rparr>)
       else do {
         (ret, bs, s) \<leftarrow> region_get stg (nc_factory c) name data max_len s;
         Some (ret, bs, c\<lparr>nc_nv := s\<rparr>) } } }"

definition nvram_config_traverse ::
    "'d storage_ops \<Rightarrow> bytes \<Rightarrow> bool \<Rightarrow> bool \<Rightarrow> 'd nvram_config \<Rightarrow> (bytes \<times> traverse_call list) option" where
  "nvram_config_traverse stg data_buf name_cb data_cb c =
     region_traverse stg (nc_user c) data_buf name_cb data_cb (nc_nv c)"

definition nvram_config_clear :: "'d storage_ops \<Rightarrow> nat \<Rightarrow> 'd nvram_config \<Rightarrow> 'd nvram_config" where
  "nvram_config_clear stg len c = c\<lparr>nc_nv := region_clear stg (nc_user c) len (nc_nv c)\<rparr>"

definition nvram_config_clear_all :: "'d storage_ops \<Rightarrow> 'd nvram_config \<Rightarrow> 'd nvram_config option" where
  "nvram_config_clear_all stg c = do {
     let region = nc_user c;
     let (_, s) = region_erase stg region 0 (ri_total_size region) (nc_nv c);
     (_, region, s) \<leftarrow> region_scan stg region s;
     Some (c\<lparr>nc_user := region, nc_nv := s\<rparr>) }"

text \<open>The start-up from the initialised statics; \<open>storage\<close> tells whether the flash device was found.\<close>

definition nvram_statics :: "'d nvram \<Rightarrow> 'd nvram_config" where
  "nvram_statics s = \<lparr>nc_user = user_nvram_region, nc_factory_rw = factory_rw_nvram_region,
     nc_factory = factory_nvram_region, nc_nv = s\<lparr>nv_buf := replicate NVRAM_BUFFER_SIZE 0\<rparr>\<rparr>"

definition nvram_config_init :: "'d storage_ops \<Rightarrow> bool \<Rightarrow> 'd nvram \<Rightarrow> (int \<times> 'd nvram_config) option" where
  "nvram_config_init stg storage s =
     (let c = nvram_statics s
      in if \<not> storage then Some (- ENODEV, c)
         else do {
           (_, rw, s) \<leftarrow> region_scan stg ((nc_factory_rw c)\<lparr>ri_storage := True\<rparr>) (nc_nv c);
           (_, fa, s) \<leftarrow> region_scan stg ((nc_factory c)\<lparr>ri_storage := True\<rparr>) s;
           (_, us, s) \<leftarrow> region_scan stg ((nc_user c)\<lparr>ri_storage := True\<rparr>) s;
           Some (0, \<lparr>nc_user = us, nc_factory_rw = rw, nc_factory = fa,
                     nc_nv = region_clear stg us (ri_total_size us div 2) s\<rparr>) })"

end
