(* ===== verification/Nvram_Access.thy ===== *)
theory Nvram_Access
  imports Nvram_Region
begin

text \<open>
  What the block operations of the parameter store do to the cells of its storage: reading,
  writing, copying, erasing and checking a range through the 128-byte buffer, each as one
  equation over the whole range. Everything is proved once, from the storage contract.
\<close>

section \<open>Regions inside the storage\<close>

text \<open>A region as configured, attached to its device.\<close>

definition region_cfg :: "region_info \<Rightarrow> bool" where
  "region_cfg reg \<longleftrightarrow> ri_storage reg \<and> is_in_nvram_region_bounds reg"

definition seg_cfg :: "region_info \<Rightarrow> nat \<Rightarrow> bool" where
  "seg_cfg reg off \<longleftrightarrow> off mod ri_seg_size reg = 0 \<and> off + ri_seg_size reg \<le> ri_total_size reg"

lemma region_cfg_cases:
  assumes "region_cfg reg"
  obtains "ri_base_addr reg = 0x3f4000" "ri_total_size reg = 0xc000" "ri_seg_size reg = 0x2000"
  | "ri_base_addr reg = 0x3f0000" "ri_total_size reg = 0x2000" "ri_seg_size reg = 0x1000"
  | "ri_base_addr reg = 0x3f2000" "ri_total_size reg = 0x2000" "ri_seg_size reg = 0x1000"
  using assms by (auto simp: region_cfg_def is_in_nvram_region_bounds_def nvram_region_check_info_def)

lemma region_cfg_facts:
  assumes "region_cfg reg"
  shows "ri_storage reg" "is_in_nvram_region_bounds reg" "4096 dvd ri_seg_size reg" "ri_seg_size reg dvd ri_total_size reg"
    "4096 \<le> ri_seg_size reg" "ri_seg_size reg \<le> 8192" "2 * ri_seg_size reg \<le> ri_total_size reg"
    "4096 dvd ri_base_addr reg" "0x3f0000 \<le> ri_base_addr reg" "ri_base_addr reg + ri_total_size reg \<le> 0x400000"
  using assms by (simp_all add: region_cfg_def) (rule region_cfg_cases [OF assms]; simp add: dvd_def; presburger)+

text \<open>The storage holds the whole region; the state is sound.\<close>

definition covered :: "nat \<Rightarrow> nat \<Rightarrow> region_info \<Rightarrow> bool" where
  "covered lo hi reg \<longleftrightarrow> region_cfg reg \<and> lo \<le> ri_base_addr reg \<and> ri_base_addr reg + ri_total_size reg \<le> hi"

definition nv_ok :: "('d \<Rightarrow> bool) \<Rightarrow> 'd nvram \<Rightarrow> bool" where
  "nv_ok ok s \<longleftrightarrow> ok (nv_dev s) \<and> length (nv_buf s) = NVRAM_BUFFER_SIZE"

text \<open>Nothing but the buffer has changed.\<close>

definition same_nv :: "'d nvram \<Rightarrow> 'd nvram \<Rightarrow> bool" where
  "same_nv s s' \<longleftrightarrow> nv_dev s' = nv_dev s \<and> nv_stack s' = nv_stack s \<and> length (nv_buf s') = length (nv_buf s)"

lemma same_nv_refl [simp]: "same_nv s s"
  by (simp add: same_nv_def)

lemma same_nv_trans: "same_nv s s' \<Longrightarrow> same_nv s' s'' \<Longrightarrow> same_nv s s''"
  by (simp add: same_nv_def)

lemma same_nv_ok: "same_nv s s' \<Longrightarrow> nv_ok ok s' = nv_ok ok s"
  by (simp add: same_nv_def nv_ok_def)

lemma same_nv_dev: "same_nv s s' \<Longrightarrow> nv_dev s' = nv_dev s"
  by (simp add: same_nv_def)

definition blanked :: "(nat \<Rightarrow> u8) \<Rightarrow> nat \<Rightarrow> nat \<Rightarrow> nat \<Rightarrow> u8" where
  "blanked f a n = overlay f a (replicate n 0xff)"

definition is_blank :: "(nat \<Rightarrow> u8) \<Rightarrow> nat \<Rightarrow> nat \<Rightarrow> bool" where
  "is_blank f a n \<longleftrightarrow> (\<forall>i. a \<le> i \<longrightarrow> i < a + n \<longrightarrow> f i = 0xff)"

lemma is_blank_clears: "is_blank f a n \<Longrightarrow> length bs \<le> n \<Longrightarrow> clears f a bs"
  by (rule clears_blank) (simp add: is_blank_def)

lemma is_blank_sub: "is_blank f a n \<Longrightarrow> a \<le> b \<Longrightarrow> b + m \<le> a + n \<Longrightarrow> is_blank f b m"
  by (simp add: is_blank_def)

lemma is_blank_cong: "is_blank f a n \<Longrightarrow> (\<And>i. a \<le> i \<Longrightarrow> i < a + n \<Longrightarrow> g i = f i) \<Longrightarrow> is_blank g a n"
  by (simp add: is_blank_def)

lemma is_blank_slice: "is_blank f a n \<longleftrightarrow> mem_slice f a n = replicate n 0xff"
  by (auto simp: is_blank_def list_eq_iff_nth_eq)
    (metis le_add_diff_inverse nat_add_left_cancel_less)

lemma is_blank_append: "is_blank f a (m + n) \<longleftrightarrow> is_blank f a m \<and> is_blank f (a + m) n"
  by (simp add: is_blank_slice mem_slice_append replicate_add)

lemma is_blank_id: "is_blank f a n \<Longrightarrow> blanked f a n = f"
  by (rule ext) (auto simp: blanked_def overlay_def is_blank_def)

lemma blanked_append: "blanked f a (m + n) = blanked (blanked f a m) (a + m) n"
  by (simp add: blanked_def replicate_add overlay_append)

lemma blanked_blank: "is_blank (blanked f a n) a n"
  by (simp add: is_blank_def blanked_def overlay_def)

lemma blanked_other: "i < a \<or> a + n \<le> i \<Longrightarrow> blanked f a n i = f i"
  by (auto simp: blanked_def overlay_def)

section \<open>Block operations\<close>

context nvram_storage
begin

lemma region_read_eq:
  assumes "covered lo hi reg" "ok (nv_dev s)" "off + n \<le> ri_total_size reg"
  shows "region_read stg reg off n s = (0, mem_slice (cells (nv_dev s)) (ri_base_addr reg + off) n)"
  using assms region_cfg_facts(1,2) read_law
  by (auto simp: region_read_def covered_def)

lemma region_write_eq:
  assumes "covered lo hi reg" "ok (nv_dev s)" "off + length bs \<le> ri_total_size reg"
    and "clears (cells (nv_dev s)) (ri_base_addr reg + off) bs"
  shows "\<exists>d'. region_write stg reg off bs s = (0, s\<lparr>nv_dev := d'\<rparr>) \<and> ok d' \<and>
    cells d' = overlay (cells (nv_dev s)) (ri_base_addr reg + off) bs"
proof -
  have "lo \<le> ri_base_addr reg + off" "ri_base_addr reg + off + length bs \<le> hi"
    using assms(1,3) by (auto simp: covered_def)
  then obtain d' where "st_write stg (ri_base_addr reg + off) bs (nv_dev s) = (0, d')" "ok d'"
      "cells d' = overlay (cells (nv_dev s)) (ri_base_addr reg + off) bs"
    using write_law assms(2,4) by blast
  then show ?thesis
    using assms(1,3) region_cfg_facts(1,2) by (auto simp: region_write_def covered_def)
qed

lemma region_is_empy_eq:
  assumes "covered lo hi reg" "off + n \<le> ri_total_size reg" "4 dvd n"
  shows "nv_ok ok s \<Longrightarrow> \<exists>s'. region_is_empy stg reg off n s =
    (is_blank (cells (nv_dev s)) (ri_base_addr reg + off) n, s') \<and> same_nv s s'"
  using assms(2,3)
proof (induction n arbitrary: off s rule: less_induct)
  case (less n)
  show ?case
  proof (cases "n = 0")
    case False
    define r where "r = (if n < NVRAM_BUFFER_SIZE then n else NVRAM_BUFFER_SIZE)"
    have r: "0 < r" "r \<le> n" "4 dvd r" "r \<le> 128" "4 * (r div 4) = r"
      using False less.prems(3) by (auto simp: r_def NVRAM_BUFFER_SIZE_def)
    let ?a = "ri_base_addr reg + off" and ?f = "cells (nv_dev s)"
    have rd: "st_read stg ?a r (nv_dev s) = (0, mem_slice ?f ?a r)"
      using assms(1) less.prems(1,2) r(2) by (intro read_law) (auto simp: covered_def nv_ok_def)
    let ?s = "s\<lparr>nv_buf := blit (nv_buf s) 0 (mem_slice ?f ?a r)\<rparr>"
    have s: "same_nv s ?s" "take r (nv_buf ?s) = mem_slice ?f ?a r"
      using less.prems(1) r(4) by (auto simp: same_nv_def nv_ok_def NVRAM_BUFFER_SIZE_def blit_def)
    have "nv_ok ok ?s" using same_nv_ok [OF s(1)] less.prems(1) by simp
    then obtain s' where s': "region_is_empy stg reg (off + r) (n - r) ?s = (is_blank ?f (?a + r) (n - r), s')" "same_nv ?s s'"
      using less.IH [of "n - r" ?s "off + r"] r less.prems(2,3) by (auto simp: add.assoc dvd_diff_nat)
    have b: "list_all (\<lambda>b. b = 0xff) (mem_slice ?f ?a r) \<longleftrightarrow> is_blank ?f ?a r"
      by (simp add: is_blank_slice list_all_iff list_eq_iff_nth_eq all_set_conv_all_nth)
    have "is_blank ?f ?a n \<longleftrightarrow> is_blank ?f ?a r \<and> is_blank ?f (?a + r) (n - r)"
      using is_blank_append [of ?f ?a r "n - r"] r(2) by simp
    then show ?thesis
      using False s s' same_nv_trans [OF s(1) s'(2)]
      by (subst region_is_empy.simps) (simp add: r_def [symmetric] rd r(5) b Let_def)
  qed (simp add: region_is_empy.simps is_blank_def)
qed

lemma erase_loop_eq:
  assumes "covered lo hi reg" "off + 4096 * n \<le> ri_total_size reg" "4096 dvd off"
  shows "nv_ok ok s \<Longrightarrow> \<exists>s'. erase_loop stg reg off (4096 * n) s = s' \<and> nv_ok ok s' \<and> nv_stack s' = nv_stack s \<and>
    cells (nv_dev s') = blanked (cells (nv_dev s)) (ri_base_addr reg + off) (4096 * n)"
  using assms(2,3)
proof (induction n arbitrary: off s)
  case (Suc n)
  let ?a = "ri_base_addr reg + off" and ?f = "cells (nv_dev s)"
  obtain s1 where s1: "region_is_empy stg reg off 4096 s = (is_blank ?f ?a 4096, s1)" "same_nv s s1"
    using region_is_empy_eq [OF assms(1), of off 4096 s] Suc.prems by auto
  have ok1: "ok (nv_dev s1)" "length (nv_buf s1) = NVRAM_BUFFER_SIZE" "nv_dev s1 = nv_dev s" "nv_stack s1 = nv_stack s"
    using s1(2) Suc.prems(1) by (simp_all add: same_nv_def nv_ok_def)
  have "?a mod 4096 = 0" using region_cfg_facts(8) assms(1) Suc.prems(3) by (auto simp: covered_def)
  then obtain err d' where d': "st_erase stg ?a 4096 (nv_dev s1) = (err, d')" "ok d'" "cells d' = blanked ?f ?a 4096"
    using erase_law [of "nv_dev s1" ?a] ok1 assms(1) Suc.prems(2) by (auto simp: covered_def blanked_def)
  define s2 where "s2 = (if is_blank ?f ?a 4096 then s1 else s1\<lparr>nv_dev := d'\<rparr>)"
  have s2: "nv_ok ok s2" "nv_stack s2 = nv_stack s" "cells (nv_dev s2) = blanked ?f ?a 4096"
    using ok1 d' is_blank_id by (auto simp: s2_def nv_ok_def)
  have "erase_loop stg reg off (4096 * Suc n) s = erase_loop stg reg (off + 4096) (4096 * n) s2"
    using s1(1) d'(1) by (subst erase_loop.simps) (auto simp: NVRAM_ERASE_ALIGN_SIZE_def s2_def Let_def)
  moreover obtain s3 where "erase_loop stg reg (off + 4096) (4096 * n) s2 = s3" "nv_ok ok s3" "nv_stack s3 = nv_stack s2"
      "cells (nv_dev s3) = blanked (cells (nv_dev s2)) (?a + 4096) (4096 * n)"
    using Suc.IH [of s2 "off + 4096"] s2 Suc.prems by (auto simp: add.assoc)
  ultimately show ?case
    using s2 blanked_append [of ?f ?a 4096 "4096 * n"] by simp
qed (simp add: erase_loop.simps blanked_def)

lemma region_erase_eq:
  assumes "covered lo hi reg" "off + n \<le> ri_total_size reg" "4096 dvd off" "4096 dvd n" "nv_ok ok s"
  shows "\<exists>s'. region_erase stg reg off n s = (0, s') \<and> nv_ok ok s' \<and> nv_stack s' = nv_stack s \<and>
    cells (nv_dev s') = blanked (cells (nv_dev s)) (ri_base_addr reg + off) n"
proof -
  obtain k where k: "n = 4096 * k" using assms(4) by blast
  have "ri_storage reg" using assms(1) region_cfg_facts(1) by (auto simp: covered_def)
  then show ?thesis
    using erase_loop_eq [OF assms(1) _ assms(3), of k s] assms(2,3,5) k
    by (auto simp: region_erase_def NVRAM_ERASE_ALIGN_SIZE_def)
qed

lemma buf_load:
  assumes "nv_ok ok s" "length bs \<le> NVRAM_BUFFER_SIZE"
  shows "same_nv s (s\<lparr>nv_buf := blit (nv_buf s) 0 bs\<rparr>)" "take (length bs) (blit (nv_buf s) 0 bs) = bs"
    "nv_ok ok (s\<lparr>nv_buf := blit (nv_buf s) 0 bs\<rparr>)"
  using assms by (auto simp: same_nv_def nv_ok_def take_blit_0)

lemma buf_read_eq:
  assumes "covered lo hi reg" "nv_ok ok s" "off + n \<le> ri_total_size reg" "n \<le> NVRAM_BUFFER_SIZE"
  shows "\<exists>s'. buf_read stg reg off n s = Some (0, s') \<and> same_nv s s' \<and>
    take n (nv_buf s') = mem_slice (cells (nv_dev s)) (ri_base_addr reg + off) n"
  using region_read_eq [OF assms(1) _ assms(3), of s] assms(2,4)
    buf_load [OF assms(2), of "mem_slice (cells (nv_dev s)) (ri_base_addr reg + off) n"]
  by (auto simp: buf_read_def nv_ok_def)

lemma region_copy_eq:
  assumes "covered lo hi reg"
  shows "nv_ok ok s \<Longrightarrow> src + len \<le> ri_total_size reg \<Longrightarrow> dst + len \<le> ri_total_size reg \<Longrightarrow>
    src + len \<le> dst \<or> dst + len \<le> src \<Longrightarrow> is_blank (cells (nv_dev s)) (ri_base_addr reg + dst) len \<Longrightarrow>
    \<exists>s'. region_copy stg reg src dst len s = (0, s') \<and> nv_ok ok s' \<and> nv_stack s' = nv_stack s \<and>
      cells (nv_dev s') = overlay (cells (nv_dev s)) (ri_base_addr reg + dst) (mem_slice (cells (nv_dev s)) (ri_base_addr reg + src) len)"
proof (induction len arbitrary: src dst s rule: less_induct)
  case (less n)
  show ?case
  proof (cases "n = 0")
    case False
    define w where "w = (if n < NVRAM_BUFFER_SIZE then n else NVRAM_BUFFER_SIZE)"
    have w: "0 < w" "w \<le> n" "w \<le> NVRAM_BUFFER_SIZE" using False by (auto simp: w_def NVRAM_BUFFER_SIZE_def)
    let ?b = "ri_base_addr reg" and ?f = "cells (nv_dev s)"
    let ?x = "mem_slice ?f (?b + src) w" and ?y = "mem_slice ?f (?b + src + w) (n - w)"
    let ?s = "s\<lparr>nv_buf := blit (nv_buf s) 0 ?x\<rparr>"
    have s: "nv_ok ok ?s" "same_nv s ?s" "take w (nv_buf ?s) = ?x"
      using buf_load [OF less.prems(1), of ?x] w(3) by simp_all
    have rd: "region_read stg reg src w s = (0, ?x)"
      using region_read_eq [OF assms] less.prems(1,2) w(2) by (simp add: nv_ok_def)
    have "clears ?f (?b + dst) ?x" using less.prems(5) w(2) by (intro is_blank_clears) simp_all
    then obtain d1 where d1: "region_write stg reg dst ?x ?s = (0, ?s\<lparr>nv_dev := d1\<rparr>)" "ok d1" "cells d1 = overlay ?f (?b + dst) ?x"
      using region_write_eq [OF assms, of ?s dst ?x] less.prems(3) s(1) w(2) by (auto simp: nv_ok_def)
    let ?s1 = "?s\<lparr>nv_dev := d1\<rparr>"
    have "is_blank (cells d1) (?b + dst + w) (n - w)"
      unfolding d1(3) using less.prems(5) w(2) by (auto simp: is_blank_def overlay_def)
    moreover have y: "mem_slice (cells d1) (?b + src + w) (n - w) = ?y"
      unfolding d1(3) using less.prems(4) w(2) by (intro mem_slice_overlay_other) auto
    ultimately obtain s2 where s2: "region_copy stg reg (src + w) (dst + w) (n - w) ?s1 = (0, s2)" "nv_ok ok s2"
        "nv_stack s2 = nv_stack s" "cells (nv_dev s2) = overlay (cells d1) (?b + dst + w) ?y"
      using less.IH [of "n - w" ?s1 "src + w" "dst + w"] less.prems(2-4) w s(1) d1(2)
      by (auto simp: nv_ok_def add.assoc)
    have "cells (nv_dev s2) = overlay ?f (?b + dst) (mem_slice ?f (?b + src) n)"
      using s2(4) d1(3) overlay_append [of ?f "?b + dst" ?x ?y] mem_slice_append [of ?f "?b + src" w "n - w"] w(2)
      by simp
    moreover have "region_copy stg reg src dst n s = region_copy stg reg (src + w) (dst + w) (n - w) ?s1"
      using False rd d1(1) s(3) by (subst region_copy.simps) (simp add: w_def [symmetric] Let_def)
    ultimately show ?thesis using s2 by auto
  qed (use less in \<open>simp add: region_copy.simps\<close>)
qed

lemma item_calc_data_crc_eq:
  assumes "covered lo hi reg"
  shows "nv_ok ok s \<Longrightarrow> off + n \<le> ri_total_size reg \<Longrightarrow>
    \<exists>s'. item_calc_data_crc stg reg off n crc s =
      (calc_crc8 (mem_slice (cells (nv_dev s)) (ri_base_addr reg + off) n) crc, s') \<and> same_nv s s'"
proof (induction n arbitrary: off crc s rule: less_induct)
  case (less n)
  show ?case
  proof (cases "n = 0")
    case False
    define w where "w = (if n < NVRAM_BUFFER_SIZE then n else NVRAM_BUFFER_SIZE)"
    have w: "0 < w" "w \<le> n" "w \<le> NVRAM_BUFFER_SIZE" using False by (auto simp: w_def NVRAM_BUFFER_SIZE_def)
    let ?a = "ri_base_addr reg + off" and ?f = "cells (nv_dev s)"
    let ?x = "mem_slice ?f ?a w" and ?y = "mem_slice ?f (?a + w) (n - w)"
    let ?s = "s\<lparr>nv_buf := blit (nv_buf s) 0 ?x\<rparr>"
    have s: "nv_ok ok ?s" "same_nv s ?s" "take w (nv_buf ?s) = ?x"
      using buf_load [OF less.prems(1), of ?x] w(3) by simp_all
    have rd: "region_read stg reg off w s = (0, ?x)"
      using region_read_eq [OF assms] less.prems w(2) by (simp add: nv_ok_def)
    obtain s' where s': "item_calc_data_crc stg reg (off + w) (n - w) (calc_crc8 ?x crc) ?s = (calc_crc8 ?y (calc_crc8 ?x crc), s')"
        "same_nv ?s s'"
      using less.IH [of "n - w" ?s "off + w" "calc_crc8 ?x crc"] s(1) w less.prems(2) by (auto simp: add.assoc)
    have "item_calc_data_crc stg reg off n crc s = item_calc_data_crc stg reg (off + w) (n - w) (calc_crc8 ?x crc) ?s"
      using False rd s(3) by (subst item_calc_data_crc.simps) (simp add: w_def [symmetric] Let_def)
    then show ?thesis
      using s' same_nv_trans [OF s(2) s'(2)] mem_slice_append [of ?f ?a w "n - w"] w(2) by (simp add: calc_crc8_def)
  qed (simp add: item_calc_data_crc.simps calc_crc8_def)
qed

lemma region_write_data_eq:
  assumes "covered lo hi reg"
  shows "nv_ok ok s \<Longrightarrow> off + length data \<le> ri_total_size reg \<Longrightarrow>
    is_blank (cells (nv_dev s)) (ri_base_addr reg + off) (length data) \<Longrightarrow>
    \<exists>s'. region_write_data stg reg off data s = s' \<and> nv_ok ok s' \<and> nv_stack s' = nv_stack s \<and>
      cells (nv_dev s') = overlay (cells (nv_dev s)) (ri_base_addr reg + off) data"
proof (induction data arbitrary: off s rule: length_induct)
  case (1 data)
  show ?case
  proof (cases "data = []")
    case False
    define w where "w = (if length data < NVRAM_BUFFER_SIZE then length data else NVRAM_BUFFER_SIZE)"
    let ?x = "take w data" and ?y = "drop w data" and ?a = "ri_base_addr reg + off" and ?f = "cells (nv_dev s)"
    have w: "0 < w" "w \<le> length data" "length ?x = w" "w \<le> NVRAM_BUFFER_SIZE"
      using False by (auto simp: w_def NVRAM_BUFFER_SIZE_def)
    let ?s = "s\<lparr>nv_buf := blit (nv_buf s) 0 ?x\<rparr>"
    have s: "nv_ok ok ?s" "take w (nv_buf ?s) = ?x"
      using buf_load [OF "1.prems"(1), of ?x] w(3,4) by simp_all
    have "clears ?f ?a ?x" using "1.prems"(3) w by (intro is_blank_clears) simp_all
    then obtain d1 where d1: "region_write stg reg off ?x ?s = (0, ?s\<lparr>nv_dev := d1\<rparr>)" "ok d1" "cells d1 = overlay ?f ?a ?x"
      using region_write_eq [OF assms, of ?s off ?x] "1.prems"(2) s(1) w(2,3) by (auto simp: nv_ok_def)
    let ?s1 = "?s\<lparr>nv_dev := d1\<rparr>"
    have "is_blank (cells d1) (?a + w) (length ?y)"
      unfolding d1(3) using "1.prems"(3) w by (auto simp: is_blank_def overlay_def)
    moreover have "nv_ok ok ?s1" using s(1) d1(2) by (simp add: nv_ok_def)
    moreover have "length ?y < length data" "off + w + length ?y \<le> ri_total_size reg" using w "1.prems"(2) by simp_all
    ultimately obtain s2 where s2: "region_write_data stg reg (off + w) ?y ?s1 = s2" "nv_ok ok s2"
        "nv_stack s2 = nv_stack ?s1" "cells (nv_dev s2) = overlay (cells d1) (?a + w) ?y"
      using "1.IH" [rule_format, of ?y ?s1 "off + w"] by (auto simp: add.assoc)
    have "region_write_data stg reg off data s = region_write_data stg reg (off + w) ?y ?s1"
      using False d1(1) s(2) by (subst region_write_data.simps) (simp add: w_def [symmetric] Let_def)
    then show ?thesis
      using s2 d1(3) overlay_append [of ?f ?a ?x ?y] w(3) by simp
  qed (use 1 in \<open>simp add: region_write_data.simps\<close>)
qed

lemma same_data_loop_eq:
  assumes "covered lo hi reg"
  shows "nv_ok ok s \<Longrightarrow> off + length data \<le> ri_total_size reg \<Longrightarrow>
    \<exists>s'. same_data_loop stg reg off data s =
      (mem_slice (cells (nv_dev s)) (ri_base_addr reg + off) (length data) = data, s') \<and> same_nv s s'"
proof (induction data arbitrary: off s rule: length_induct)
  case (1 data)
  show ?case
  proof (cases "data = []")
    case False
    define w where "w = (if length data < NVRAM_BUFFER_SIZE then length data else NVRAM_BUFFER_SIZE)"
    let ?x = "take w data" and ?y = "drop w data" and ?a = "ri_base_addr reg + off" and ?f = "cells (nv_dev s)"
    let ?mx = "mem_slice ?f ?a w"
    have w: "0 < w" "w \<le> length data" "length ?x = w" "w \<le> NVRAM_BUFFER_SIZE"
      using False by (auto simp: w_def NVRAM_BUFFER_SIZE_def)
    let ?s = "s\<lparr>nv_buf := blit (nv_buf s) 0 ?mx\<rparr>"
    have s: "nv_ok ok ?s" "same_nv s ?s" "take w (nv_buf ?s) = ?mx"
      using buf_load [OF "1.prems"(1), of ?mx] w(4) by simp_all
    have rd: "region_read stg reg off w s = (0, ?mx)"
      using region_read_eq [OF assms] "1.prems" w(2) by (simp add: nv_ok_def)
    have "length ?y < length data" "off + w + length ?y \<le> ri_total_size reg" using w "1.prems"(2) by simp_all
    then obtain s2 where s2: "same_data_loop stg reg (off + w) ?y ?s = (mem_slice ?f (?a + w) (length ?y) = ?y, s2)" "same_nv ?s s2"
      using "1.IH" [rule_format, of ?y ?s "off + w"] s(1) by (auto simp: add.assoc)
    have "mem_slice ?f ?a (length data) = data \<longleftrightarrow> ?mx = ?x \<and> mem_slice ?f (?a + w) (length ?y) = ?y"
      using mem_slice_append [of ?f ?a w "length ?y"] w(2,3) append_eq_append_conv [of ?mx ?x]
      by (metis append_take_drop_id length_append length_mem_slice)
    then show ?thesis
      using False rd s s2 same_nv_trans [OF s(2) s2(2)]
      by (subst same_data_loop.simps) (auto simp: w_def [symmetric] Let_def)
  qed (simp add: same_data_loop.simps)
qed

end

end
