(* ===== verification/Nvram_Layout.thy ===== *)
theory Nvram_Layout
  imports Nvram_Access
begin

text \<open>
  The layout of a segment: a sequence of entries, each an item header, a name and data, padded to
  a multiple of 16 bytes. The theory relates such a sequence to the cells of the storage and to the
  item bitmap, and shows that the search for an item finds the first live entry of that name.
\<close>

section \<open>Headers in memory\<close>

lemma length_item_bytes [simp]: "length (item_bytes it) = 8"
  by (simp add: item_bytes_def u16_bytes_def)

lemma item_of_bytes_bytes [simp]: "item_of_bytes (item_bytes it) = it"
  by (simp add: item_of_bytes_def item_bytes_def u16_bytes_def u16_of_def lo8_hi8_combine)

lemma item_load_bytes [simp]: "item_load (item_bytes it) it' = it"
  by (simp add: item_load_def blit_def)

lemma item_load_length_8: "length bs = 8 \<Longrightarrow> item_load bs it = item_of_bytes bs"
  by (simp add: item_load_def blit_def)

lemma round_up_16: "x \<le> round_up x 16" "round_up x 16 < x + 16" "16 dvd round_up x 16"
  by (simp_all add: round_up_def)

section \<open>Entries\<close>

datatype entry = Entry (en_item: nvram_item) (en_name: bytes) (en_data: bytes)

definition live :: "entry \<Rightarrow> bool" where
  "live e \<longleftrightarrow> it_state (en_item e) = NVRAM_STATE_VALID"

definition retire :: "entry \<Rightarrow> entry" where
  "retire e = Entry ((en_item e)\<lparr>it_state := NVRAM_STATE_OBSOLETE\<rparr>) (en_name e) (en_data e)"

definition entry_bytes :: "entry \<Rightarrow> bytes" where
  "entry_bytes e = item_bytes (en_item e) @ en_name e @ en_data e"

definition esize :: "entry \<Rightarrow> nat" where
  "esize e = item_get_aligned_size (en_item e)"

text \<open>A name is a string of at most 111 bytes, stored with its terminator.\<close>

definition good_name :: "bytes \<Rightarrow> bool" where
  "good_name name \<longleftrightarrow> 0 \<notin> set name \<and> length name + 1 \<le> NVRAM_MAX_NAME_SIZE"

definition live_entry_ok :: "entry \<Rightarrow> bool" where
  "live_entry_ok e \<longleftrightarrow> it_hash (en_item e) = calc_hash (en_name e) \<and>
     it_crc (en_item e) = calc_crc8 (en_data e) (calc_crc8 (en_name e) (item_header_crc (en_item e))) \<and>
     (\<exists>n. en_name e = n @ [0] \<and> good_name n)"

definition entry_ok :: "entry \<Rightarrow> bool" where
  "entry_ok e \<longleftrightarrow> it_magic (en_item e) = NVRAM_REGION_ITEM_MAGIC \<and>
     length (en_name e) = unat (it_name_size (en_item e)) \<and> length (en_data e) = unat (it_data_size (en_item e)) \<and>
     (if live e then live_entry_ok e else it_state (en_item e) = NVRAM_STATE_OBSOLETE)"

lemma length_entry_bytes: "entry_ok e \<Longrightarrow> length (entry_bytes e) = item_get_real_size (en_item e)"
  by (simp add: entry_ok_def entry_bytes_def item_get_real_size_def item_calc_real_size_def SIZEOF_ITEM_def)

lemma esize_facts: "entry_ok e \<Longrightarrow> length (entry_bytes e) \<le> esize e" "16 dvd esize e" "16 \<le> esize e"
proof -
  show "entry_ok e \<Longrightarrow> length (entry_bytes e) \<le> esize e"
    using round_up_16(1) by (simp add: length_entry_bytes esize_def item_get_aligned_size_def
        item_get_real_size_def item_calc_aligned_size_def NVRAM_ITEM_ALIGN_SIZE_def)
  show "16 dvd esize e"
    using round_up_16(3) by (simp add: esize_def item_get_aligned_size_def item_calc_aligned_size_def NVRAM_ITEM_ALIGN_SIZE_def)
  moreover have "0 < esize e"
    using round_up_16(1) [of "item_get_real_size (en_item e)"]
    by (simp add: esize_def item_get_aligned_size_def item_get_real_size_def item_calc_aligned_size_def
        item_calc_real_size_def NVRAM_ITEM_ALIGN_SIZE_def SIZEOF_ITEM_def)
  ultimately show "16 \<le> esize e" by (rule dvd_imp_le)
qed

lemma retire_simps [simp]:
  "\<not> live (retire e)" "esize (retire e) = esize e" "en_name (retire e) = en_name e" "en_data (retire e) = en_data e"
  by (simp_all add: live_def retire_def esize_def item_get_aligned_size_def NVRAM_STATE_VALID_def NVRAM_STATE_OBSOLETE_def)

lemma entry_ok_retire: "entry_ok e \<Longrightarrow> entry_ok (retire e)"
  by (simp add: entry_ok_def live_def retire_def NVRAM_STATE_VALID_def NVRAM_STATE_OBSOLETE_def)

lemma entry_ok_live_name:
  assumes "entry_ok e" "live e"
  obtains n where "en_name e = n @ [0]" "good_name n"
  using assms by (auto simp: entry_ok_def live_entry_ok_def)

section \<open>Sequences of entries\<close>

fun entries_at :: "(nat \<Rightarrow> u8) \<Rightarrow> nat \<Rightarrow> entry list \<Rightarrow> bool" where
  "entries_at f a [] = True"
| "entries_at f a (e # es) \<longleftrightarrow> mem_slice f a (length (entry_bytes e)) = entry_bytes e \<and> entries_at f (a + esize e) es"

definition tsize :: "entry list \<Rightarrow> nat" where
  "tsize es = sum_list (map esize es)"

lemma tsize_simps [simp]: "tsize [] = 0" "tsize (e # es) = esize e + tsize es" "tsize (xs @ ys) = tsize xs + tsize ys"
  by (simp_all add: tsize_def)

lemma tsize_dvd: "16 dvd tsize es"
  by (induction es) (simp_all add: esize_facts)

lemma entries_at_append: "entries_at f a (xs @ ys) \<longleftrightarrow> entries_at f a xs \<and> entries_at f (a + tsize xs) ys"
  by (induction xs arbitrary: a) (auto simp: add.assoc)

lemma entries_at_cong:
  "list_all entry_ok es \<Longrightarrow> (\<And>i. a \<le> i \<Longrightarrow> i < a + tsize es \<Longrightarrow> g i = f i) \<Longrightarrow> entries_at g a es \<longleftrightarrow> entries_at f a es"
proof (induction es arbitrary: a)
  case (Cons e es)
  have "mem_slice g a (length (entry_bytes e)) = mem_slice f a (length (entry_bytes e))"
    using Cons.prems esize_facts(1) [of e] by (intro mem_slice_cong) auto
  moreover have "entries_at g (a + esize e) es \<longleftrightarrow> entries_at f (a + esize e) es"
    using Cons.prems by (intro Cons.IH) auto
  ultimately show ?case by simp
qed simp

text \<open>The offsets of the live entries, and the first of them.\<close>

fun live_offs :: "nat \<Rightarrow> entry list \<Rightarrow> nat set" where
  "live_offs p [] = {}"
| "live_offs p (e # es) = (if live e then {p} else {}) \<union> live_offs (p + esize e) es"

fun next_live :: "nat \<Rightarrow> entry list \<Rightarrow> nat \<Rightarrow> nat" where
  "next_live p [] hi = hi"
| "next_live p (e # es) hi = (if live e then p else next_live (p + esize e) es hi)"

lemma live_offs_append: "live_offs p (xs @ ys) = live_offs p xs \<union> live_offs (p + tsize xs) ys"
  by (induction xs arbitrary: p) (auto simp: add.assoc)

lemma live_offs_bounds: "q \<in> live_offs p es \<Longrightarrow> p \<le> q \<and> q + 16 \<le> p + tsize es"
proof (induction es arbitrary: p)
  case (Cons e es)
  then consider "q = p" | "q \<in> live_offs (p + esize e) es" by (auto split: if_splits)
  then show ?case using esize_facts(3) [of e] by cases (auto dest: Cons.IH)
qed simp

lemma live_offs_retired: "\<not> live e \<Longrightarrow> live_offs p (xs @ e # ys) = live_offs p xs \<union> live_offs (p + tsize xs + esize e) ys"
  by (simp add: live_offs_append)

lemma next_live_next_set:
  assumes "16 dvd p" "p + tsize es \<le> 16 * hi"
    and "\<And>i. p \<le> 16 * i \<Longrightarrow> i < hi \<Longrightarrow> P i \<longleftrightarrow> 16 * i \<in> live_offs p es"
  shows "16 * next_set P (p div 16) hi = next_live p es (16 * hi)"
  using assms
proof (induction es arbitrary: p)
  case Nil
  then have "next_set P (p div 16) hi = hi" by (intro next_set_none) auto
  then show ?case by simp
next
  case (Cons e es)
  obtain k where k: "p = 16 * k" using Cons.prems(1) by blast
  obtain j where j: "esize e = 16 * j" using esize_facts(2) by blast
  have j1: "1 \<le> j" using esize_facts(3) [of e] j by simp
  show ?case
  proof (cases "live e")
    case True
    then have "P k" "k < hi" using Cons.prems(2) Cons.prems(3) [of k] k j j1 by auto
    then have "next_set P k hi = k" by (intro next_setI) auto
    then show ?thesis using True k by simp
  next
    case False
    have low: "\<not> P i" if "k \<le> i" "i < k + j" for i
      using that Cons.prems(2) Cons.prems(3) [of i] False k j live_offs_bounds [of "16 * i" "p + esize e" es] by auto
    have "next_set P k hi = next_set P (k + j) hi"
      using Cons.prems(2) k j low by (intro next_set_skip) auto
    moreover have "16 * next_set P ((p + esize e) div 16) hi = next_live (p + esize e) es (16 * hi)"
      using Cons.prems False k j by (intro Cons.IH) auto
    ultimately show ?thesis using False k j by simp
  qed
qed

section \<open>The bitmap of a segment\<close>

text \<open>The bits from a position on are those of the live entries that follow; a region without a bitmap
  needs none.\<close>

definition bitmap_ok :: "region_info \<Rightarrow> nat \<Rightarrow> entry list \<Rightarrow> bool" where
  "bitmap_ok reg p es \<longleftrightarrow> (case ri_seg_item_map reg of None \<Rightarrow> True
     | Some m \<Rightarrow> ri_seg_size reg = 16 * (32 * length m) \<and> ri_seg_item_map_size reg = 4 * length m \<and> \<not> map_bit m 0 \<and>
         (\<forall>i. p \<le> 16 * i \<longrightarrow> i < 32 * length m \<longrightarrow> (map_bit m i \<longleftrightarrow> 16 * i \<in> live_offs p es)))"

lemma bitmap_ok_suffix:
  assumes "bitmap_ok reg p (xs @ ys)"
  shows "bitmap_ok reg (p + tsize xs) ys"
  using assms live_offs_bounds [of _ p xs] by (fastforce simp: bitmap_ok_def live_offs_append split: option.splits)

definition search_start :: "region_info \<Rightarrow> nat \<Rightarrow> entry list \<Rightarrow> nat" where
  "search_start reg p es = (if ri_seg_item_map reg = None then p else next_live p es (ri_seg_size reg))"

lemma item_bitmap_next_offset_eq:
  assumes "bitmap_ok reg p es" "16 dvd p" "p + tsize es \<le> ri_seg_size reg"
  shows "item_bitmap_next_offset (ri_seg_item_map reg) (ri_seg_size reg) p = Some (search_start reg p es)"
proof (cases "ri_seg_item_map reg")
  case (Some m)
  let ?n = "32 * length m"
  have m: "ri_seg_size reg = 16 * ?n" "\<And>i. p \<le> 16 * i \<Longrightarrow> i < ?n \<Longrightarrow> map_bit m i \<longleftrightarrow> 16 * i \<in> live_offs p es"
    using assms(1) Some by (simp_all add: bitmap_ok_def)
  have "16 * next_set (map_bit m) (p div 16) ?n = next_live p es (16 * ?n)"
    using assms(2,3) m by (intro next_live_next_set) auto
  moreover have "(if ?n \<le> p div 16 then ?n else next_set (map_bit m) (p div 16) ?n) = next_set (map_bit m) (p div 16) ?n"
    using assms(3) m(1) by (auto simp: next_set_def)
  ultimately show ?thesis
    using Some m(1) find_next_bit_next_set [of ?n m "p div 16"]
    by (simp add: item_bitmap_next_offset_def search_start_def NVRAM_ITEM_ALIGN_SIZE_def mult.commute)
qed (simp add: item_bitmap_next_offset_def search_start_def)

lemma item_bitmap_first_offset_eq:
  assumes "bitmap_ok reg 16 es" "16 + tsize es \<le> ri_seg_size reg"
  shows "item_bitmap_first_offset (ri_seg_item_map reg) (ri_seg_size reg) = Some (search_start reg 16 es)"
proof (cases "ri_seg_item_map reg")
  case (Some m)
  let ?n = "32 * length m"
  have m: "ri_seg_size reg = 16 * ?n" "\<not> map_bit m 0"
      "\<And>i. 16 \<le> 16 * i \<Longrightarrow> i < ?n \<Longrightarrow> map_bit m i \<longleftrightarrow> 16 * i \<in> live_offs 16 es"
    using assms(1) Some by (auto simp: bitmap_ok_def)
  have "16 * next_set (map_bit m) (16 div 16) ?n = next_live 16 es (16 * ?n)"
    using assms(2) m by (intro next_live_next_set) auto
  moreover have "next_set (map_bit m) 0 ?n = next_set (map_bit m) 1 ?n"
    using m(1,2) assms(2) by (intro next_set_skip) auto
  ultimately show ?thesis
    using Some m(1) find_first_bit_next_set [of ?n m]
    by (simp add: item_bitmap_first_offset_def search_start_def NVRAM_ITEM_ALIGN_SIZE_def mult.commute)
qed (simp add: item_bitmap_first_offset_def search_start_def NVRAM_SEG_ITEM_START_OFFSET_def)

section \<open>Finding an entry\<close>

fun find_entry :: "bytes \<Rightarrow> nat \<Rightarrow> entry list \<Rightarrow> (nat \<times> entry) option" where
  "find_entry name p [] = None"
| "find_entry name p (e # es) =
     (if live e \<and> en_name e = name @ [0] then Some (p, e) else find_entry name (p + esize e) es)"

lemma memcmp_name:
  assumes "good_name name" "good_name n" "length buf = 128" "take (length n + 1) buf = n @ [0]"
  shows "memcmp_eq (name @ [0]) buf (length n + 1) = Some (n = name)"
proof (cases "length n \<le> length name")
  case True
  have l: "length n + 1 \<le> length buf" using assms(2,3) by (simp add: good_name_def NVRAM_MAX_NAME_SIZE_def)
  have "take (length n + 1) (name @ [0]) = n @ [0] \<longleftrightarrow> n = name"
  proof
    assume *: "take (length n + 1) (name @ [0]) = n @ [0]"
    show "n = name"
    proof (rule ccontr)
      assume "n \<noteq> name"
      then have "length n \<noteq> length name" using * True by auto
      then have "take (length n + 1) (name @ [0]) = take (length n + 1) name" using True by simp
      then have "0 \<in> set name" using * by (metis in_set_conv_decomp in_set_takeD)
      then show False using assms(1) by (simp add: good_name_def)
    qed
  qed simp
  then show ?thesis using True l assms(3,4) by (auto simp: memcmp_eq_def)
next
  case False
  let ?m = "length name + 1"
  have "?m \<le> 128" using assms(1) by (simp add: good_name_def NVRAM_MAX_NAME_SIZE_def)
  then have m: "min (length (name @ [0])) (length buf) = ?m" using assms(3) by simp
  have "take ?m buf = take ?m (n @ [0])"
    using assms(4) False by (metis Suc_eq_plus1 Suc_leI min.absorb1 nat_le_linear not_less_eq_eq take_take)
  also have "\<dots> = take ?m n" using False by simp
  finally have "take ?m buf \<noteq> name @ [0]"
    using assms(2) by (metis good_name_def in_set_conv_decomp in_set_takeD)
  moreover have "n \<noteq> name" using False by auto
  ultimately show ?thesis using False m by (simp add: memcmp_eq_def Let_def)
qed

lemma entry_parts:
  assumes "mem_slice f a (length (entry_bytes e)) = entry_bytes e"
  shows "mem_slice f a 8 = item_bytes (en_item e)" "mem_slice f (a + 8) (length (en_name e)) = en_name e"
    "mem_slice f (a + 8 + length (en_name e)) (length (en_data e)) = en_data e"
proof -
  have "mem_slice f a 8 @ mem_slice f (a + 8) (length (en_name e)) @
      mem_slice f (a + 8 + length (en_name e)) (length (en_data e)) = item_bytes (en_item e) @ en_name e @ en_data e"
    using assms mem_slice_append [of f a 8] mem_slice_append [of f "a + 8" "length (en_name e)"]
    by (simp add: entry_bytes_def)
  then show "mem_slice f a 8 = item_bytes (en_item e)" "mem_slice f (a + 8) (length (en_name e)) = en_name e"
    "mem_slice f (a + 8 + length (en_name e)) (length (en_data e)) = en_data e"
    by (simp_all add: append_eq_append_conv)
qed

text \<open>What follows the entries ends the search of a region without a bitmap.\<close>

definition search_end :: "region_info \<Rightarrow> nat \<Rightarrow> (nat \<Rightarrow> u8) \<Rightarrow> bool" where
  "search_end reg p f \<longleftrightarrow> ri_seg_item_map reg = None \<longrightarrow> p = ri_seg_size reg \<or>
     f (ri_base_addr reg + ri_seg_offset reg + p) \<noteq> NVRAM_REGION_ITEM_MAGIC"

context nvram_storage
begin

lemma read_header:
  assumes "covered lo hi reg" "nv_ok ok s" "entry_ok e" "q + esize e \<le> ri_total_size reg"
    and "mem_slice (cells (nv_dev s)) (ri_base_addr reg + q) (length (entry_bytes e)) = entry_bytes e"
  shows "region_read stg reg q SIZEOF_ITEM s = (0, item_bytes (en_item e))"
  using region_read_eq [OF assms(1), of s q 8] assms(2,4) esize_facts(3) [of e] entry_parts(1) [OF assms(5)]
  by (simp add: nv_ok_def SIZEOF_ITEM_def)

lemma item_name_matches_eq:
  assumes "covered lo hi reg" "nv_ok ok s" "entry_ok e" "q + esize e \<le> ri_total_size reg"
    and "mem_slice (cells (nv_dev s)) (ri_base_addr reg + q) (length (entry_bytes e)) = entry_bytes e" "good_name name"
  shows "\<exists>s'. item_name_matches stg reg name q (en_item e) s = Some (live e \<and> en_name e = name @ [0], s') \<and> same_nv s s' \<and>
    (live e \<and> en_name e = name @ [0] \<longrightarrow> take (length (en_name e)) (nv_buf s') = en_name e)"
proof (cases "live e \<and> it_hash (en_item e) = calc_hash (name @ [0])")
  case True
  obtain n where n: "en_name e = n @ [0]" "good_name n" using entry_ok_live_name assms(3) True by blast
  have l: "length (en_name e) = unat (it_name_size (en_item e))" using assms(3) by (simp add: entry_ok_def)
  have "8 + length (en_name e) \<le> esize e"
    using esize_facts(1) [OF assms(3)] by (simp add: entry_bytes_def)
  moreover have "length (en_name e) \<le> NVRAM_BUFFER_SIZE" using n by (simp add: good_name_def nvram_consts)
  ultimately obtain s' where s': "buf_read stg reg (q + 8) (length (en_name e)) s = Some (0, s')" "same_nv s s'"
      "take (length (en_name e)) (nv_buf s') = en_name e"
    using buf_read_eq [OF assms(1,2), of "q + 8" "length (en_name e)"] assms(4) entry_parts(2) [OF assms(5)]
    by (auto simp: add.assoc)
  have "length (nv_buf s') = 128" using s'(2) assms(2) by (simp add: same_nv_def nv_ok_def NVRAM_BUFFER_SIZE_def)
  then have "memcmp_eq (name @ [0]) (nv_buf s') (length (en_name e)) = Some (en_name e = name @ [0])"
    using memcmp_name [OF assms(6) n(2)] s'(3) n(1) by simp
  then show ?thesis
    using True s' l by (auto simp: item_name_matches_def live_def SIZEOF_ITEM_def)
next
  case False
  then have "\<not> (live e \<and> en_name e = name @ [0])"
    using assms(3) by (auto simp: entry_ok_def live_entry_ok_def)
  then show ?thesis using False by (auto simp: item_name_matches_def live_def)
qed

lemma find_item_loop_stop:
  assumes "covered lo hi reg" "ri_seg_offset reg + ri_seg_size reg \<le> ri_total_size reg" "16 dvd ri_seg_size reg"
    and "nv_ok ok s" "16 dvd p" "search_end reg p (cells (nv_dev s))"
  shows "\<exists>item'. find_item_loop stg reg name (search_start reg p []) item s = Some (- ENOENT, item', s)"
proof (cases "search_start reg p [] < ri_seg_size reg")
  case True
  then have m: "ri_seg_item_map reg = None" "p < ri_seg_size reg"
    by (auto simp: search_start_def split: if_splits)
  let ?a = "ri_base_addr reg + ri_seg_offset reg + p" and ?f = "cells (nv_dev s)"
  have "p + 8 \<le> ri_seg_size reg" using m(2) assms(3,5) by (auto elim!: dvdE)
  then have "region_read stg reg (ri_seg_offset reg + p) 8 s = (0, mem_slice ?f ?a 8)"
    using region_read_eq [OF assms(1), of s "ri_seg_offset reg + p" 8] assms(2,4) by (simp add: nv_ok_def add.assoc)
  moreover have "it_magic (item_load (mem_slice ?f ?a 8) item) \<noteq> NVRAM_REGION_ITEM_MAGIC"
    using assms(6) m by (simp add: item_load_length_8 item_of_bytes_def search_end_def)
  ultimately show ?thesis
    using m by (subst find_item_loop.simps) (auto simp: search_start_def SIZEOF_ITEM_def)
qed (subst find_item_loop.simps, auto)

lemma find_item_loop_step:
  assumes "covered lo hi reg" "ri_seg_offset reg + ri_seg_size reg \<le> ri_total_size reg" "good_name name"
    and "nv_ok ok s" "entry_ok e" "16 dvd p" "p + esize e + tsize es \<le> ri_seg_size reg" "bitmap_ok reg (p + esize e) es"
    and "mem_slice (cells (nv_dev s)) (ri_base_addr reg + ri_seg_offset reg + p) (length (entry_bytes e)) = entry_bytes e"
  shows "\<exists>s'. same_nv s s' \<and> (live e \<and> en_name e = name @ [0] \<longrightarrow> take (length (en_name e)) (nv_buf s') = en_name e) \<and>
    find_item_loop stg reg name p item s = (if live e \<and> en_name e = name @ [0] then Some (int (ri_seg_offset reg + p), en_item e, s')
      else find_item_loop stg reg name (search_start reg (p + esize e) es) (en_item e) s')"
proof -
  have m: "mem_slice (cells (nv_dev s)) (ri_base_addr reg + (ri_seg_offset reg + p)) (length (entry_bytes e)) = entry_bytes e"
    using assms(9) by (simp add: add.assoc)
  have fit: "ri_seg_offset reg + p + esize e \<le> ri_total_size reg" using assms(2,7) by simp
  obtain s1 where s1: "item_name_matches stg reg name (ri_seg_offset reg + p) (en_item e) s = Some (live e \<and> en_name e = name @ [0], s1)"
      "same_nv s s1" "live e \<and> en_name e = name @ [0] \<longrightarrow> take (length (en_name e)) (nv_buf s1) = en_name e"
    using item_name_matches_eq [OF assms(1,4,5) fit m assms(3)] by blast
  have "item_bitmap_next_offset (ri_seg_item_map reg) (ri_seg_size reg) (p + item_get_aligned_size (en_item e)) =
      Some (search_start reg (p + esize e) es)"
    using item_bitmap_next_offset_eq [OF assms(8) _ assms(7)] assms(6) esize_facts(2) [of e] by (simp add: esize_def)
  moreover have "p < ri_seg_size reg" "it_magic (en_item e) = NVRAM_REGION_ITEM_MAGIC"
    using assms(5,7) esize_facts(3) [of e] by (simp_all add: entry_ok_def)
  ultimately have "find_item_loop stg reg name p item s = (if live e \<and> en_name e = name @ [0]
      then Some (int (ri_seg_offset reg + p), en_item e, s1) else find_item_loop stg reg name (search_start reg (p + esize e) es) (en_item e) s1)"
    using read_header [OF assms(1,4,5) fit m] s1(1) by (subst find_item_loop.simps) (simp add: Let_def)
  then show ?thesis using s1 by blast
qed

lemma find_item_loop_eq:
  assumes "covered lo hi reg" "ri_seg_offset reg + ri_seg_size reg \<le> ri_total_size reg" "16 dvd ri_seg_size reg" "good_name name"
  shows "nv_ok ok s \<Longrightarrow> list_all entry_ok es \<Longrightarrow> entries_at (cells (nv_dev s)) (ri_base_addr reg + ri_seg_offset reg + p) es \<Longrightarrow>
    16 dvd p \<Longrightarrow> p + tsize es \<le> ri_seg_size reg \<Longrightarrow> bitmap_ok reg p es \<Longrightarrow> search_end reg (p + tsize es) (cells (nv_dev s)) \<Longrightarrow>
    \<exists>item' s'. same_nv s s' \<and> find_item_loop stg reg name (search_start reg p es) item s =
      Some (case find_entry name p es of None \<Rightarrow> (- ENOENT, item', s') | Some (q, e) \<Rightarrow> (int (ri_seg_offset reg + q), en_item e, s')) \<and>
      (\<forall>q e. find_entry name p es = Some (q, e) \<longrightarrow> take (length (en_name e)) (nv_buf s') = en_name e)"
proof (induction es arbitrary: p item s)
  case Nil
  then show ?case using find_item_loop_stop [OF assms(1-3), of s p name item] by auto
next
  case (Cons e es)
  let ?q = "p + esize e" and ?found = "live e \<and> en_name e = name @ [0]"
  have e: "entry_ok e" "16 dvd ?q" using Cons.prems(2,4) esize_facts(2) by simp_all
  have bm: "bitmap_ok reg ?q es" using bitmap_ok_suffix [of reg p "[e]" es] Cons.prems(6) by simp
  have rest: "list_all entry_ok es" "entries_at (cells (nv_dev s)) (ri_base_addr reg + ri_seg_offset reg + ?q) es"
      "?q + tsize es \<le> ri_seg_size reg" "search_end reg (?q + tsize es) (cells (nv_dev s))"
    using Cons.prems by (simp_all add: add.assoc)
  show ?case
  proof (cases "ri_seg_item_map reg \<noteq> None \<and> \<not> live e")
    case True
    then have "search_start reg p (e # es) = search_start reg ?q es" "find_entry name p (e # es) = find_entry name ?q es"
      by (auto simp: search_start_def)
    then show ?thesis using Cons.IH [OF Cons.prems(1) rest(1,2) e(2) rest(3) bm rest(4)] by simp
  next
    case False
    have st: "search_start reg p (e # es) = p" using False by (auto simp: search_start_def)
    obtain s1 where s1: "same_nv s s1" "?found \<longrightarrow> take (length (en_name e)) (nv_buf s1) = en_name e"
      "find_item_loop stg reg name p item s = (if ?found then Some (int (ri_seg_offset reg + p), en_item e, s1)
        else find_item_loop stg reg name (search_start reg ?q es) (en_item e) s1)"
      using find_item_loop_step [OF assms(1,2,4) Cons.prems(1) e(1) Cons.prems(4) rest(3) bm, of item] Cons.prems(3) by auto
    have dev: "nv_dev s1 = nv_dev s" "nv_ok ok s1"
      using s1(1) Cons.prems(1) same_nv_ok [OF s1(1)] by (simp_all add: same_nv_def)
    obtain item' s' where s': "same_nv s1 s'" "find_item_loop stg reg name (search_start reg ?q es) (en_item e) s1 =
        Some (case find_entry name ?q es of None \<Rightarrow> (- ENOENT, item', s') | Some (q, e) \<Rightarrow> (int (ri_seg_offset reg + q), en_item e, s'))"
        "\<forall>q e. find_entry name ?q es = Some (q, e) \<longrightarrow> take (length (en_name e)) (nv_buf s') = en_name e"
      using Cons.IH [of s1 ?q "en_item e"] dev rest e(2) bm by auto
    show ?thesis
    proof (cases ?found)
      case True
      then show ?thesis using st s1 by (intro exI [of _ item] exI [of _ s1]) auto
    next
      case F: False
      then have "find_entry name p (e # es) = find_entry name ?q es" by auto
      then show ?thesis using st s1(3) F s' same_nv_trans [OF s1(1) s'(1)] by auto
    qed
  qed
qed

lemma region_find_item_eq:
  assumes "covered lo hi reg" "ri_seg_offset reg + ri_seg_size reg \<le> ri_total_size reg" "16 dvd ri_seg_size reg" "good_name name"
    and "nv_ok ok s" "list_all entry_ok es" "entries_at (cells (nv_dev s)) (ri_base_addr reg + ri_seg_offset reg + 16) es"
    and "16 + tsize es \<le> ri_seg_size reg" "bitmap_ok reg 16 es" "search_end reg (16 + tsize es) (cells (nv_dev s))"
  shows "\<exists>item' s'. same_nv s s' \<and>
    region_find_item stg reg name item s = Some (case find_entry name 16 es of None \<Rightarrow> (- ENOENT, item', s')
       | Some (q, e) \<Rightarrow> (int (ri_seg_offset reg + q), en_item e, s')) \<and>
    (\<forall>q e. find_entry name 16 es = Some (q, e) \<longrightarrow> take (length (en_name e)) (nv_buf s') = en_name e)"
  using find_item_loop_eq [OF assms(1-7) _ assms(8-10), of item] item_bitmap_first_offset_eq [OF assms(9,8)]
  by (simp add: region_find_item_def)

end

end
