(* ===== verification/Nvram_Items.thy ===== *)
theory Nvram_Items
  imports Nvram_Layout
begin

text \<open>
  The current segment of a region as a sequence of entries, and what reading, appending and
  retiring an item do to it. The contents of a segment are a map from names to data.
\<close>

section \<open>The state of a segment\<close>

definition seg_holds :: "region_info \<Rightarrow> (nat \<Rightarrow> u8) \<Rightarrow> entry list \<Rightarrow> bool" where
  "seg_holds reg f es \<longleftrightarrow> seg_cfg reg (ri_seg_offset reg) \<and> list_all entry_ok es \<and>
     entries_at f (ri_base_addr reg + ri_seg_offset reg + 16) es \<and> 16 + tsize es \<le> ri_seg_size reg \<and>
     ri_seg_write_offset reg = ri_seg_offset reg + 16 + tsize es \<and>
     is_blank f (ri_base_addr reg + ri_seg_write_offset reg) (ri_seg_size reg - 16 - tsize es) \<and>
     bitmap_ok reg 16 es"

definition is_entry_of :: "bytes \<Rightarrow> entry \<Rightarrow> bool" where
  "is_entry_of name e \<longleftrightarrow> live e \<and> en_name e = name @ [0]"

definition lookup :: "entry list \<Rightarrow> bytes \<Rightarrow> bytes option" where
  "lookup es name = map_option en_data (find (is_entry_of name) es)"

text \<open>At most one live entry of each name.\<close>

definition one_live :: "entry list \<Rightarrow> bool" where
  "one_live es \<longleftrightarrow> distinct (map en_name (filter live es))"

lemma find_entry_find: "map_option snd (find_entry name p es) = find (is_entry_of name) es"
  by (induction es arbitrary: p) (auto simp: is_entry_of_def)

lemma lookup_find_entry: "lookup es name = (case find_entry name p es of None \<Rightarrow> None | Some (q, e) \<Rightarrow> Some (en_data e))"
  unfolding lookup_def find_entry_find [of name p, symmetric] by (auto split: option.splits)

lemma find_entry_Some:
  "find_entry name p es = Some (q, e) \<Longrightarrow> \<exists>xs ys. es = xs @ e # ys \<and> q = p + tsize xs \<and> is_entry_of name e \<and>
     (\<forall>x \<in> set xs. \<not> is_entry_of name x)"
proof (induction es arbitrary: p)
  case (Cons x es)
  show ?case
  proof (cases "is_entry_of name x")
    case True
    then show ?thesis using Cons.prems by (intro exI [of _ "[]"] exI [of _ es]) (auto simp: is_entry_of_def)
  next
    case False
    then obtain xs ys where "es = xs @ e # ys" "q = p + esize x + tsize xs" "is_entry_of name e" "\<forall>x \<in> set xs. \<not> is_entry_of name x"
      using Cons.IH [of "p + esize x"] Cons.prems by (auto simp: is_entry_of_def)
    then show ?thesis using False by (intro exI [of _ "x # xs"] exI [of _ ys]) auto
  qed
qed simp

lemma find_entry_None: "find_entry name p es = None \<longleftrightarrow> (\<forall>x \<in> set es. \<not> is_entry_of name x)"
  by (induction es arbitrary: p) (auto simp: is_entry_of_def)

lemma one_live_split:
  assumes "one_live (xs @ e # ys)" "is_entry_of name e" "y \<in> set xs \<union> set ys"
  shows "\<not> is_entry_of name y"
proof
  assume y: "is_entry_of name y"
  then have "name @ [0] \<in> set (map en_name (filter live xs)) \<union> set (map en_name (filter live ys))"
    using assms(3) by (force simp: is_entry_of_def)
  then show False using assms(1,2) by (simp add: one_live_def is_entry_of_def)
qed

lemma find_append_option: "find P (xs @ ys) = (case find P xs of None \<Rightarrow> find P ys | Some x \<Rightarrow> Some x)"
  by (induction xs) auto

lemma lookup_append: "lookup (xs @ ys) name = (case lookup xs name of None \<Rightarrow> lookup ys name | Some d \<Rightarrow> Some d)"
  by (auto simp: lookup_def find_append_option split: option.splits)

lemma lookup_none: "lookup es name = None \<longleftrightarrow> (\<forall>x \<in> set es. \<not> is_entry_of name x)"
  by (auto simp: lookup_def find_None_iff)

lemma lookup_filter_live: "lookup (filter live es) = lookup es"
proof
  fix name
  show "lookup (filter live es) name = lookup es name"
    by (induction es) (auto simp: lookup_def is_entry_of_def)
qed

lemma seg_holds_region:
  assumes "region_cfg reg" "seg_holds reg f es"
  shows "ri_seg_offset reg + ri_seg_size reg \<le> ri_total_size reg" "16 dvd ri_seg_size reg" "list_all entry_ok es"
    "entries_at f (ri_base_addr reg + ri_seg_offset reg + 16) es" "16 + tsize es \<le> ri_seg_size reg" "bitmap_ok reg 16 es"
    "search_end reg (16 + tsize es) f"
proof -
  show *: "ri_seg_offset reg + ri_seg_size reg \<le> ri_total_size reg" "16 dvd ri_seg_size reg" "list_all entry_ok es"
    "entries_at f (ri_base_addr reg + ri_seg_offset reg + 16) es" "16 + tsize es \<le> ri_seg_size reg" "bitmap_ok reg 16 es"
    using assms region_cfg_facts(3) [OF assms(1)] by (auto simp: seg_holds_def seg_cfg_def intro: dvd_trans [of 16 4096])
  show "search_end reg (16 + tsize es) f"
    using assms(2) *(5) by (auto simp: search_end_def seg_holds_def is_blank_def NVRAM_REGION_ITEM_MAGIC_def add.assoc)
qed

section \<open>Reading an item\<close>

context nvram_storage
begin

lemma find_in_segment:
  assumes "covered lo hi reg" "nv_ok ok s" "seg_holds reg (cells (nv_dev s)) es" "good_name name"
  shows "\<exists>item' s'. same_nv s s' \<and>
    region_find_item stg reg name item s = Some (case find_entry name 16 es of None \<Rightarrow> (- ENOENT, item', s')
       | Some (q, e) \<Rightarrow> (int (ri_seg_offset reg + q), en_item e, s')) \<and>
    (\<forall>q e. find_entry name 16 es = Some (q, e) \<longrightarrow> take (length (en_name e)) (nv_buf s') = en_name e)"
proof -
  have "region_cfg reg" using assms(1) by (simp add: covered_def)
  note h = seg_holds_region [OF this assms(3)]
  show ?thesis by (rule region_find_item_eq [OF assms(1) h(1,2) assms(4,2) h(3-7)])
qed

lemma entry_in_segment:
  assumes "region_cfg reg" "seg_holds reg f es" "es = xs @ e # ys"
  shows "entry_ok e" "16 + tsize xs + esize e \<le> ri_seg_size reg"
    "mem_slice f (ri_base_addr reg + ri_seg_offset reg + (16 + tsize xs)) (length (entry_bytes e)) = entry_bytes e"
  using seg_holds_region [OF assms(1,2)] assms(3) by (auto simp: entries_at_append add.assoc)

lemma entry_data_at:
  assumes "covered lo hi reg" "seg_holds reg f es" "es = xs @ e # ys"
  defines "dat \<equiv> ri_seg_offset reg + (16 + tsize xs) + 8 + length (en_name e)"
  shows "mem_slice f (ri_base_addr reg + dat) (length (en_data e)) = en_data e" "dat + length (en_data e) \<le> ri_total_size reg"
proof -
  have cfg: "region_cfg reg" using assms(1) by (simp add: covered_def)
  note e = entry_in_segment [OF cfg assms(2,3)]
  show "mem_slice f (ri_base_addr reg + dat) (length (en_data e)) = en_data e"
    using entry_parts(3) [OF e(3)] by (simp add: dat_def add.assoc)
  show "dat + length (en_data e) \<le> ri_total_size reg"
    using esize_facts(1) [OF e(1)] e(2) seg_holds_region(1) [OF cfg assms(2)] by (simp add: dat_def entry_bytes_def)
qed

lemma region_get_found:
  assumes "covered lo hi reg" "nv_ok ok s" "entry_ok e" "live e" "take (length (en_name e)) (nv_buf s) = en_name e"
    and dat: "dat = nat q + 8 + length (en_name e)" "dat + length (en_data e) \<le> ri_total_size reg"
    and "mem_slice (cells (nv_dev s)) (ri_base_addr reg + dat) (length (en_data e)) = en_data e" "0 < n" "0 \<le> q"
    and find: "region_find_item stg reg name (nv_stack s0) s0 = Some (q, en_item e, s)"
  shows "\<exists>s'. same_nv s s' \<and> region_get stg reg (Some name) True n s0 =
    Some (min n (int (length (en_data e))), take (nat n) (en_data e), s')"
proof -
  let ?k = "if n < int (length (en_data e)) then n else int (length (en_data e))"
  have szs: "unat (it_name_size (en_item e)) = length (en_name e)" "unat (it_data_size (en_item e)) = length (en_data e)"
    using assms(3) by (simp_all add: entry_ok_def)
  have crc: "calc_crc8 (en_data e) (calc_crc8 (en_name e) (item_header_crc (en_item e))) = it_crc (en_item e)"
    using assms(3,4) by (simp add: entry_ok_def live_entry_ok_def)
  obtain s2 where s2: "item_calc_data_crc stg reg dat (length (en_data e)) (calc_crc8 (en_name e) (item_header_crc (en_item e))) s =
      (it_crc (en_item e), s2)" "same_nv s s2"
    using item_calc_data_crc_eq [OF assms(1,2) dat(2)] assms(8) crc by metis
  have "ok (nv_dev s2)" "nv_dev s2 = nv_dev s" using s2(2) assms(2) by (simp_all add: same_nv_def nv_ok_def)
  moreover have "nat ?k \<le> length (en_data e)" "nat ?k = min (nat n) (length (en_data e))" using assms(9) by auto
  ultimately have rd: "region_read stg reg dat (nat ?k) s2 = (0, take (nat n) (en_data e))"
    using region_read_eq [OF assms(1), of s2 dat "nat ?k"] dat(2) arg_cong [OF assms(8), of "take (nat n)"]
    by (simp add: take_mem_slice)
  have "region_get stg reg (Some name) True n s0 = Some (?k, take (nat n) (en_data e), s2)"
    using find assms(5,9,10) dat(1) s2(1) rd
    by (cases "n < int (length (en_data e))") (simp_all add: region_get_def szs SIZEOF_ITEM_def Let_def)
  then show ?thesis using s2(2) by (intro exI [of _ s2]) (auto simp: min_def)
qed

lemma region_get_eq:
  assumes "covered lo hi reg" "nv_ok ok s" "seg_holds reg (cells (nv_dev s)) es" "good_name name" "0 < n"
  shows "\<exists>s'. same_nv s s' \<and> region_get stg reg (Some name) True n s =
    Some (case lookup es name of None \<Rightarrow> (- ENOENT, [], s') | Some d \<Rightarrow> (min n (int (length d)), take (nat n) d, s'))"
proof -
  obtain item' s1 where s1: "same_nv s s1" "region_find_item stg reg name (nv_stack s) s =
      Some (case find_entry name 16 es of None \<Rightarrow> (- ENOENT, item', s1) | Some (q, e) \<Rightarrow> (int (ri_seg_offset reg + q), en_item e, s1))"
      "\<forall>q e. find_entry name 16 es = Some (q, e) \<longrightarrow> take (length (en_name e)) (nv_buf s1) = en_name e"
    using find_in_segment [OF assms(1-4), of "nv_stack s"] by blast
  have cfg: "region_cfg reg" using assms(1) by (simp add: covered_def)
  have dev: "nv_dev s1 = nv_dev s" "nv_ok ok s1" using s1(1) assms(2) same_nv_ok [OF s1(1)] by (simp_all add: same_nv_def)
  show ?thesis
  proof (cases "find_entry name 16 es")
    case None
    then show ?thesis
      using s1 assms(5) lookup_find_entry [of es name 16] by (auto simp: region_get_def)
  next
    case (Some qe)
    obtain q e where qe: "find_entry name 16 es = Some (q, e)" using Some by (cases qe) auto
    obtain xs ys where x: "es = xs @ e # ys" "q = 16 + tsize xs" "is_entry_of name e" using find_entry_Some [OF qe] by blast
    note d = entry_data_at [OF assms(1,3) x(1)] entry_in_segment(1) [OF cfg assms(3) x(1)]
    have q: "ri_seg_offset reg + (16 + tsize xs) + 8 + length (en_name e) = nat (int (ri_seg_offset reg + q)) + 8 + length (en_name e)"
      by (simp only: nat_int x(2))
    have find: "region_find_item stg reg name (nv_stack s) s = Some (int (ri_seg_offset reg + q), en_item e, s1)"
      using s1(2) qe by simp
    obtain s' where "same_nv s1 s'" "region_get stg reg (Some name) True n s =
        Some (min n (int (length (en_data e))), take (nat n) (en_data e), s')"
      using region_get_found [OF assms(1) dev(2) d(3) _ s1(3) [rule_format, OF qe] q d(2) _ assms(5) _ find] d(1) x(3)
      by (auto simp: dev(1) is_entry_of_def)
    then show ?thesis
      using same_nv_trans [OF s1(1)] lookup_find_entry [of es name 16] qe by (intro exI [of _ s']) simp
  qed
qed

end

section \<open>Appending and retiring\<close>

lemma region_cfg_updates [simp]:
  "region_cfg (reg\<lparr>ri_seg_item_map := m\<rparr>) = region_cfg reg"
  "region_cfg (reg\<lparr>ri_seg_write_offset := w\<rparr>) = region_cfg reg"
  "region_cfg (reg\<lparr>ri_seg_offset := w\<rparr>) = region_cfg reg"
  "region_cfg (reg\<lparr>ri_seg_seq_id := q\<rparr>) = region_cfg reg"
  by (simp_all add: region_cfg_def is_in_nvram_region_bounds_def)

lemma covered_updates [simp]:
  "covered lo hi (reg\<lparr>ri_seg_item_map := m\<rparr>) = covered lo hi reg"
  "covered lo hi (reg\<lparr>ri_seg_write_offset := w\<rparr>) = covered lo hi reg"
  "covered lo hi (reg\<lparr>ri_seg_offset := w\<rparr>) = covered lo hi reg"
  "covered lo hi (reg\<lparr>ri_seg_seq_id := q\<rparr>) = covered lo hi reg"
  by (simp_all add: covered_def)

lemma seg_cfg_updates [simp]:
  "seg_cfg (reg\<lparr>ri_seg_item_map := m\<rparr>) = seg_cfg reg"
  "seg_cfg (reg\<lparr>ri_seg_write_offset := w\<rparr>) = seg_cfg reg"
  "seg_cfg (reg\<lparr>ri_seg_offset := w\<rparr>) = seg_cfg reg"
  "seg_cfg (reg\<lparr>ri_seg_seq_id := q\<rparr>) = seg_cfg reg"
  by (simp_all add: seg_cfg_def fun_eq_iff)

lemma bitmap_ok_updates [simp]:
  "bitmap_ok (reg\<lparr>ri_seg_write_offset := w\<rparr>) = bitmap_ok reg"
  "bitmap_ok (reg\<lparr>ri_seg_offset := w\<rparr>) = bitmap_ok reg"
  "bitmap_ok (reg\<lparr>ri_seg_seq_id := q\<rparr>) = bitmap_ok reg"
  by (simp_all add: bitmap_ok_def fun_eq_iff split: option.split)

definition new_entry :: "bytes \<Rightarrow> bytes \<Rightarrow> entry" where
  "new_entry name data = Entry (new_item name data (length data)) (name @ [0]) data"

lemma item_header_crc_upd [simp]: "item_header_crc (it\<lparr>it_crc := c\<rparr>) = item_header_crc it"
  by (simp add: item_header_crc_def item_bytes_def)

lemma new_entry_facts:
  assumes "good_name name" "length data < 65536"
  shows "entry_ok (new_entry name data)" "is_entry_of name (new_entry name data)" "live (new_entry name data)"
    "esize (new_entry name data) = item_calc_aligned_size (length name + 1) (length data)"
    "unat (it_name_size (new_item name data (length data))) = length name + 1"
proof -
  have sz: "unat (word_of_nat (length name + 1) :: u8) = length name + 1" "unat (word_of_nat (length data) :: u16) = length data"
    using assms by (simp_all add: unat_of_nat good_name_def NVRAM_MAX_NAME_SIZE_def del: of_nat_add of_nat_Suc)
  then show "entry_ok (new_entry name data)" "is_entry_of name (new_entry name data)" "live (new_entry name data)"
    "esize (new_entry name data) = item_calc_aligned_size (length name + 1) (length data)"
    "unat (it_name_size (new_item name data (length data))) = length name + 1"
    using assms(1) by (auto simp: entry_ok_def live_entry_ok_def live_def new_entry_def new_item_def Let_def esize_def
        item_get_aligned_size_def is_entry_of_def item_header_crc_def item_bytes_def simp del: of_nat_add of_nat_Suc)
qed

lemma bitmap_ok_update:
  assumes "bitmap_ok reg 16 es" "16 dvd p" "16 \<le> p" "p < ri_seg_size reg"
    and "live_offs 16 es' = (if b then insert p (live_offs 16 es) else live_offs 16 es - {p})"
  shows "\<exists>m. item_bitmap_update (ri_seg_item_map reg) p b = Some m \<and> bitmap_ok (reg\<lparr>ri_seg_item_map := m\<rparr>) 16 es'"
proof (cases "ri_seg_item_map reg")
  case None
  then show ?thesis by (simp add: item_bitmap_update_def bitmap_ok_def)
next
  case (Some m)
  obtain k where k: "p = 16 * k" using assms(2) by blast
  have m: "ri_seg_size reg = 16 * (32 * length m)" "ri_seg_item_map_size reg = 4 * length m" "\<not> map_bit m 0"
      "\<And>i. 16 \<le> 16 * i \<Longrightarrow> i < 32 * length m \<Longrightarrow> map_bit m i \<longleftrightarrow> 16 * i \<in> live_offs 16 es"
    using assms(1) Some by (simp_all add: bitmap_ok_def)
  have "k < 32 * length m" using assms(4) m(1) k by simp
  then obtain m' where m': "item_bitmap_update (Some m) (16 * k) b = Some (Some m')" using item_bitmap_update_ok by blast
  note u = map_bit_update [OF m']
  have "bitmap_ok (reg\<lparr>ri_seg_item_map := Some m'\<rparr>) 16 es'"
    using m u assms(3,5) k by (auto simp: bitmap_ok_def)
  then show ?thesis using m' Some k by simp
qed

text \<open>Appending an entry to a segment.\<close>

lemma seg_holds_append:
  assumes "seg_holds reg f es" "entry_ok e" "16 + tsize es + esize e \<le> ri_seg_size reg" "live e"
    and "f' = overlay f (ri_base_addr reg + ri_seg_write_offset reg) (entry_bytes e)"
  shows "\<exists>m. item_bitmap_update (ri_seg_item_map reg) (16 + tsize es) True = Some m \<and>
    seg_holds (reg\<lparr>ri_seg_item_map := m, ri_seg_write_offset := ri_seg_write_offset reg + esize e\<rparr>) f' (es @ [e])"
proof -
  let ?a = "ri_base_addr reg + ri_seg_offset reg + 16" and ?w = "ri_base_addr reg + ri_seg_write_offset reg"
  have h: "list_all entry_ok es" "entries_at f ?a es" "?w = ?a + tsize es" "bitmap_ok reg 16 es"
      "is_blank f ?w (ri_seg_size reg - 16 - tsize es)" "seg_cfg reg (ri_seg_offset reg)"
      "ri_seg_write_offset reg = ri_seg_offset reg + 16 + tsize es"
    using assms(1) by (auto simp: seg_holds_def)
  have f': "f' = overlay f (?a + tsize es) (entry_bytes e)" using assms(5) h(3) by simp
  have "entries_at f' ?a es \<longleftrightarrow> entries_at f ?a es"
    using h(1) f' by (intro entries_at_cong) (auto simp: overlay_other)
  then have at: "entries_at f' ?a (es @ [e])"
    using h(2) mem_slice_overlay_same [of f "?a + tsize es" "entry_bytes e"] by (simp add: f' entries_at_append)
  have "is_blank f' (?w + esize e) (ri_seg_size reg - 16 - tsize (es @ [e]))"
    unfolding assms(5) using esize_facts(1) [OF assms(2)] assms(3)
    by (intro is_blank_cong [OF is_blank_sub [OF h(5)]]) (auto simp: overlay_other)
  moreover have "live_offs 16 (es @ [e]) = insert (16 + tsize es) (live_offs 16 es)"
    using assms(4) by (simp add: live_offs_append)
  then obtain m where "item_bitmap_update (ri_seg_item_map reg) (16 + tsize es) True = Some m"
      "bitmap_ok (reg\<lparr>ri_seg_item_map := m\<rparr>) 16 (es @ [e])"
    using bitmap_ok_update [OF h(4), of "16 + tsize es" "es @ [e]" True] assms(3) esize_facts(3) [of e] tsize_dvd by auto
  ultimately show ?thesis
    using at h assms(2,3) by (intro exI [of _ m]) (auto simp: seg_holds_def add.assoc)
qed

text \<open>Retiring one.\<close>

lemma entry_bytes_retire: "entry_bytes (retire e) = (entry_bytes e)[1 := NVRAM_STATE_OBSOLETE]"
  by (simp add: entry_bytes_def retire_def item_bytes_def)

lemma mem_slice_overlay_1:
  assumes "k < n"
  shows "mem_slice (overlay f (a + k) [x]) a n = (mem_slice f a n)[k := x]"
  using assms by (intro nth_equalityI) (auto simp: overlay_def nth_list_update)

lemma live_offs_retire_eq: "live_offs 16 (xs @ retire e # ys) = live_offs 16 (xs @ e # ys) - {16 + tsize xs}"
proof -
  have "16 + tsize xs \<notin> live_offs 16 xs" using live_offs_bounds [of "16 + tsize xs" 16 xs] by auto
  moreover have "16 + tsize xs \<notin> live_offs (16 + tsize xs + esize e) ys"
    using live_offs_bounds [of "16 + tsize xs" "16 + tsize xs + esize e" ys] esize_facts(3) [of e] by auto
  ultimately show ?thesis by (auto simp: live_offs_append)
qed

lemma seg_holds_retire:
  assumes "seg_holds reg f (xs @ e # ys)" "f' = overlay f (ri_base_addr reg + ri_seg_offset reg + 16 + tsize xs + 1) [NVRAM_STATE_OBSOLETE]"
  shows "\<exists>m. item_bitmap_update (ri_seg_item_map reg) (16 + tsize xs) False = Some m \<and>
    seg_holds (reg\<lparr>ri_seg_item_map := m\<rparr>) f' (xs @ retire e # ys)"
proof -
  let ?a = "ri_base_addr reg + ri_seg_offset reg + 16" and ?es = "xs @ e # ys" and ?es' = "xs @ retire e # ys"
  have h: "list_all entry_ok xs" "entry_ok e" "list_all entry_ok ys" "entries_at f ?a xs"
      "mem_slice f (?a + tsize xs) (length (entry_bytes e)) = entry_bytes e" "entries_at f (?a + tsize xs + esize e) ys"
      "bitmap_ok reg 16 ?es" "16 + tsize ?es \<le> ri_seg_size reg"
    using assms(1) by (simp_all add: seg_holds_def entries_at_append)
  have b: "is_blank f (ri_base_addr reg + ri_seg_write_offset reg) (ri_seg_size reg - 16 - tsize ?es)"
      "ri_seg_write_offset reg = ri_seg_offset reg + 16 + tsize ?es"
    using assms(1) unfolding seg_holds_def by blast+
  have sz: "tsize ?es' = tsize ?es" "16 \<le> esize e" "8 \<le> length (entry_bytes e)"
    using esize_facts(3) by (simp_all add: entry_bytes_def)
  have "entries_at f' ?a xs = entries_at f ?a xs"
    using h(1) assms(2) by (intro entries_at_cong) (auto simp: overlay_other)
  moreover have "entries_at f' (?a + tsize xs + esize e) ys = entries_at f (?a + tsize xs + esize e) ys"
    using h(3) assms(2) sz(2) by (intro entries_at_cong) (auto simp: overlay_other)
  moreover have "mem_slice f' (?a + tsize xs) (length (entry_bytes (retire e))) = entry_bytes (retire e)"
    using mem_slice_overlay_1 [of 1 "length (entry_bytes e)" f "?a + tsize xs" NVRAM_STATE_OBSOLETE] h(5) sz(3) assms(2)
    by (simp add: entry_bytes_retire)
  ultimately have at: "entries_at f' ?a ?es'" using h(4,6) by (simp add: entries_at_append)
  have "is_blank f' (ri_base_addr reg + ri_seg_write_offset reg) (ri_seg_size reg - 16 - tsize ?es)"
  proof (rule is_blank_cong [OF b(1)])
    fix i
    assume "ri_base_addr reg + ri_seg_write_offset reg \<le> i"
    then have "ri_base_addr reg + ri_seg_offset reg + 16 + tsize xs + 1 + length [NVRAM_STATE_OBSOLETE] \<le> i"
      using b(2) sz(2) by simp
    then show "f' i = f i" unfolding assms(2) by (intro overlay_other disjI2)
  qed
  moreover obtain m where "item_bitmap_update (ri_seg_item_map reg) (16 + tsize xs) False = Some m"
      "bitmap_ok (reg\<lparr>ri_seg_item_map := m\<rparr>) 16 ?es'"
    using bitmap_ok_update [OF h(7), of "16 + tsize xs" ?es' False] live_offs_retire_eq [of xs e ys] h(8) sz(2) tsize_dvd [of xs] by auto
  ultimately show ?thesis
    using at h assms(1) sz(1) entry_ok_retire [OF h(2)]
    by (intro exI [of _ m]) (auto simp: seg_holds_def)
qed

section \<open>The contents after an update\<close>

definition drop_name :: "bytes \<Rightarrow> entry list \<Rightarrow> entry list" where
  "drop_name name es = map (\<lambda>e. if is_entry_of name e then retire e else e) es"

lemma drop_name_none: "\<forall>x \<in> set es. \<not> is_entry_of name x \<Longrightarrow> drop_name name es = es"
  by (simp add: drop_name_def map_idI)

lemma drop_name_split:
  assumes "one_live (xs @ e # ys)" "is_entry_of name e"
  shows "drop_name name (xs @ e # ys) = xs @ retire e # ys"
proof -
  have "\<forall>x \<in> set xs. \<not> is_entry_of name x" "\<forall>x \<in> set ys. \<not> is_entry_of name x"
    using one_live_split [OF assms] by blast+
  then show ?thesis using assms(2) drop_name_none [of xs name] drop_name_none [of ys name] by (simp add: drop_name_def)
qed

lemma lookup_drop_name: "lookup (drop_name name es) = (lookup es)(name := None)"
proof
  fix n
  have r: "\<not> is_entry_of n (retire e)" for n e by (simp add: is_entry_of_def)
  show "lookup (drop_name name es) n = ((lookup es)(name := None)) n"
  proof (cases "n = name")
    case True
    have "lookup (drop_name name es) name = None" using r by (auto simp: lookup_none drop_name_def)
    then show ?thesis using True by simp
  next
    case False
    then have "is_entry_of n e \<Longrightarrow> \<not> is_entry_of name e" for e by (simp add: is_entry_of_def)
    then show ?thesis using r False by (induction es) (auto simp: drop_name_def lookup_def)
  qed
qed

lemma lookup_set:
  assumes "good_name name" "length data < 65536"
  shows "lookup (drop_name name es @ [new_entry name data]) = (lookup es)(name \<mapsto> data)"
proof
  fix n
  have "is_entry_of n (new_entry name data) \<longleftrightarrow> n = name"
    using new_entry_facts(2) [OF assms] by (auto simp: is_entry_of_def)
  then have "lookup [new_entry name data] n = (if n = name then Some data else None)"
    by (simp add: lookup_def) (simp add: new_entry_def)
  then show "lookup (drop_name name es @ [new_entry name data]) n = ((lookup es)(name \<mapsto> data)) n"
    by (auto simp: lookup_append lookup_drop_name split: option.split)
qed

lemma live_drop_name: "filter live (drop_name name es) = filter (\<lambda>e. \<not> is_entry_of name e) (filter live es)"
  by (induction es) (auto simp: drop_name_def is_entry_of_def)

lemma one_live_drop_name: "one_live es \<Longrightarrow> one_live (drop_name name es)"
  by (simp add: one_live_def live_drop_name distinct_map_filter del: filter_filter)

lemma one_live_set:
  assumes "one_live es" "good_name name" "length data < 65536"
  shows "one_live (drop_name name es @ [new_entry name data])"
proof -
  note e = new_entry_facts(2,3) [OF assms(2,3)]
  have "en_name (new_entry name data) = name @ [0]" by (simp add: new_entry_def)
  then show ?thesis
    using one_live_drop_name [OF assms(1), of name] e(2)
    by (auto simp: one_live_def live_drop_name is_entry_of_def)
qed

lemma tsize_drop_name [simp]: "tsize (drop_name name es) = tsize es"
  by (induction es) (simp_all add: drop_name_def)

section \<open>Writing an item\<close>

context nvram_storage
begin

lemma region_write_item_eq:
  assumes "covered lo hi reg" "nv_ok ok s" "good_name name" "length data < 65536"
    and "off + length (entry_bytes (new_entry name data)) \<le> ri_total_size reg"
    and "is_blank (cells (nv_dev s)) (ri_base_addr reg + off) (length (entry_bytes (new_entry name data)))"
  shows "\<exists>n s'. region_write_item stg reg off name data (length data) s = (n, s') \<and> nv_ok ok s' \<and> nv_stack s' = nv_stack s \<and>
    cells (nv_dev s') = overlay (cells (nv_dev s)) (ri_base_addr reg + off) (entry_bytes (new_entry name data))"
proof -
  let ?it = "new_item name data (length data)" and ?f = "cells (nv_dev s)" and ?a = "ri_base_addr reg + off"
  let ?x = "item_bytes ?it @ name @ [0]" and ?k = "9 + length name"
  have n: "unat (it_name_size ?it) = length name + 1" by (rule new_entry_facts(5) [OF assms(3,4)])
  have k: "?k \<le> NVRAM_BUFFER_SIZE" "length ?x = ?k" using assms(3) by (simp_all add: good_name_def nvram_consts)
  have e: "entry_bytes (new_entry name data) = ?x @ data" by (simp add: entry_bytes_def new_entry_def)
  have len: "length (entry_bytes (new_entry name data)) = ?k + length data" using e k(2) by simp
  let ?b = "blit (blit (nv_buf s) 0 (item_bytes ?it)) 8 (name @ [0])"
  let ?s = "s\<lparr>nv_buf := ?b\<rparr>"
  have b: "length ?b = NVRAM_BUFFER_SIZE" "take ?k ?b = ?x"
    using assms(2) k(1) by (auto simp: nv_ok_def NVRAM_BUFFER_SIZE_def blit_def)
  have "clears ?f ?a ?x" using assms(6) len k(2) by (intro is_blank_clears [OF assms(6)]) simp
  then obtain d1 where d1: "region_write stg reg off ?x ?s = (0, ?s\<lparr>nv_dev := d1\<rparr>)" "ok d1" "cells d1 = overlay ?f ?a ?x"
    using region_write_eq [OF assms(1), of ?s off ?x] assms(2,5) len k(2) by (auto simp: nv_ok_def)
  let ?s1 = "?s\<lparr>nv_dev := d1\<rparr>"
  have "is_blank (cells d1) (ri_base_addr reg + (off + ?k)) (length data)"
    unfolding d1(3) using assms(6) len k(2) by (auto simp: is_blank_def overlay_other)
  then obtain s2 where s2: "region_write_data stg reg (off + ?k) data ?s1 = s2" "nv_ok ok s2" "nv_stack s2 = nv_stack s"
      "cells (nv_dev s2) = overlay (cells d1) (ri_base_addr reg + (off + ?k)) data"
    using region_write_data_eq [OF assms(1), of ?s1 "off + ?k" data] d1(2) b(1) assms(5) len by (auto simp: nv_ok_def)
  have "cells (nv_dev s2) = overlay ?f ?a (entry_bytes (new_entry name data))"
    unfolding e using s2(4) d1(3) overlay_append [of ?f ?a ?x data] k(2) by (simp add: add.assoc)
  moreover have "snd (region_write_item stg reg off name data (length data) s) = s2"
    using d1(1) s2(1) b(2) k(1) by (simp add: region_write_item_def Let_def n SIZEOF_ITEM_def)
  ultimately show ?thesis using s2(2,3) by (metis prod.collapse)
qed

lemma retire_item_eq:
  assumes "covered lo hi reg" "nv_ok ok s" "seg_holds reg (cells (nv_dev s)) (xs @ e # ys)" "live e"
  shows "\<exists>m s'. retire_item stg (int (ri_seg_offset reg + (16 + tsize xs))) reg s = Some (reg\<lparr>ri_seg_item_map := m\<rparr>, s') \<and>
    nv_ok ok s' \<and> nv_stack s' = nv_stack s \<and> seg_holds (reg\<lparr>ri_seg_item_map := m\<rparr>) (cells (nv_dev s')) (xs @ retire e # ys) \<and>
    cells (nv_dev s') = overlay (cells (nv_dev s)) (ri_base_addr reg + ri_seg_offset reg + 16 + tsize xs + 1) [NVRAM_STATE_OBSOLETE]"
proof -
  have cfg: "region_cfg reg" using assms(1) by (simp add: covered_def)
  let ?q = "ri_seg_offset reg + (16 + tsize xs)" and ?f = "cells (nv_dev s)"
  note e = entry_in_segment [OF cfg assms(3) refl]
  have at: "ri_base_addr reg + (?q + 1) = ri_base_addr reg + ri_seg_offset reg + 16 + tsize xs + 1" by simp
  have "mem_slice ?f (ri_base_addr reg + ri_seg_offset reg + (16 + tsize xs)) 8 ! 1 = item_bytes (en_item e) ! 1"
    using entry_parts(1) [OF e(3)] by simp
  then have "?f (ri_base_addr reg + (?q + 1)) = 0xff"
    using assms(4) by (simp add: live_def item_bytes_def NVRAM_STATE_VALID_def add.assoc add.left_commute)
  then have "clears ?f (ri_base_addr reg + (?q + 1)) [NVRAM_STATE_OBSOLETE]" by (simp add: clears_def ones_and)
  then obtain d1 where d1: "region_write stg reg (?q + 1) [NVRAM_STATE_OBSOLETE] s = (0, s\<lparr>nv_dev := d1\<rparr>)" "ok d1"
      "cells d1 = overlay ?f (ri_base_addr reg + (?q + 1)) [NVRAM_STATE_OBSOLETE]"
    using region_write_eq [OF assms(1), of s "?q + 1" "[NVRAM_STATE_OBSOLETE]"] assms(2) e(2) esize_facts(3) [of e]
      seg_holds_region(1) [OF cfg assms(3)] by (auto simp: nv_ok_def)
  obtain m where m: "item_bitmap_update (ri_seg_item_map reg) (16 + tsize xs) False = Some m"
      "seg_holds (reg\<lparr>ri_seg_item_map := m\<rparr>) (cells d1) (xs @ retire e # ys)"
    using seg_holds_retire [OF assms(3) d1(3) [unfolded at]] by blast
  have "retire_item stg (int ?q) reg s = Some (reg\<lparr>ri_seg_item_map := m\<rparr>, s\<lparr>nv_dev := d1\<rparr>)"
    using d1(1) m(1) unfolding retire_item_def item_update_state_def nat_int by simp
  then show ?thesis using d1(2) d1(3) [unfolded at] m(2) assms(2)
    by (intro exI [of _ m] exI [of _ "s\<lparr>nv_dev := d1\<rparr>"]) (simp add: nv_ok_def)
qed

lemma region_is_same_config_data_eq:
  assumes "covered lo hi reg" "nv_ok ok s" "seg_holds reg (cells (nv_dev s)) es" "good_name name"
  shows "\<exists>s'. same_nv s s' \<and>
    region_is_same_config_data stg reg name data (length data) s = Some (lookup es name = Some data, s')"
proof -
  obtain item' s1 where s1: "same_nv s s1" "region_find_item stg reg name (nv_stack s) s =
      Some (case find_entry name 16 es of None \<Rightarrow> (- ENOENT, item', s1) | Some (q, e) \<Rightarrow> (int (ri_seg_offset reg + q), en_item e, s1))"
    using find_in_segment [OF assms, of "nv_stack s"] by blast
  have dev: "nv_dev s1 = nv_dev s" "nv_ok ok s1" using s1(1) assms(2) same_nv_ok [OF s1(1)] by (simp_all add: same_nv_def)
  show ?thesis
  proof (cases "find_entry name 16 es")
    case None
    then show ?thesis using s1 lookup_find_entry [of es name 16] by (auto simp: region_is_same_config_data_def)
  next
    case (Some qe)
    obtain q e where qe: "find_entry name 16 es = Some (q, e)" using Some by (cases qe) auto
    obtain xs ys where x: "es = xs @ e # ys" "q = 16 + tsize xs" using find_entry_Some [OF qe] by blast
    have cfg: "region_cfg reg" using assms(1) by (simp add: covered_def)
    note d = entry_data_at [OF assms(1,3) x(1)] entry_in_segment(1) [OF cfg assms(3) x(1)]
    have l: "lookup es name = Some data \<longleftrightarrow> en_data e = data" using lookup_find_entry [of es name 16] qe by simp
    let ?dat = "ri_seg_offset reg + (16 + tsize xs) + 8 + length (en_name e)"
    have unf: "region_is_same_config_data stg reg name data (length data) s = Some (if length data = length (en_data e)
        then same_data_loop stg reg ?dat data s1 else (False, s1))"
      using s1(2) qe d(3) unfolding region_is_same_config_data_def
      by (simp add: entry_ok_def SIZEOF_ITEM_def x(2) nat_int_add add.assoc del: of_nat_add)
    show ?thesis
    proof (cases "length data = length (en_data e)")
      case True
      then obtain s2 where "same_data_loop stg reg ?dat data s1 = (en_data e = data, s2)" "same_nv s1 s2"
        using same_data_loop_eq [OF assms(1) dev(2), of ?dat data] d(1,2) by (auto simp: dev(1))
      then show ?thesis using unf True l same_nv_trans [OF s1(1)] by auto
    next
      case False
      then show ?thesis using unf l s1(1) by auto
    qed
  qed
qed

text \<open>Retiring the entry of a name, if there is one.\<close>

lemma retire_found:
  assumes "covered lo hi reg" "nv_ok ok s" "seg_holds reg (cells (nv_dev s)) (es @ zs)" "one_live es"
    and "pos = (case find_entry name 16 es of None \<Rightarrow> - ENOENT | Some (q, e) \<Rightarrow> int (ri_seg_offset reg + q))"
  shows "\<exists>m s'. retire_item stg pos reg s = Some (reg\<lparr>ri_seg_item_map := m\<rparr>, s') \<and> nv_ok ok s' \<and> nv_stack s' = nv_stack s \<and>
    seg_holds (reg\<lparr>ri_seg_item_map := m\<rparr>) (cells (nv_dev s')) (drop_name name es @ zs) \<and>
    (\<forall>i. i < ri_base_addr reg + ri_seg_offset reg + 16 \<or> ri_base_addr reg + ri_seg_offset reg + ri_seg_size reg \<le> i \<longrightarrow>
      cells (nv_dev s') i = cells (nv_dev s) i)"
proof (cases "find_entry name 16 es")
  case None
  have "pos < 0" using assms(5) None by simp
  moreover have "drop_name name es = es" using None drop_name_none [of es name] by (simp add: find_entry_None)
  ultimately show ?thesis
    using assms(2,3) by (intro exI [of _ "ri_seg_item_map reg"] exI [of _ s]) (simp add: retire_item_def)
next
  case (Some qe)
  obtain q e where qe: "find_entry name 16 es = Some (q, e)" using Some by (cases qe) auto
  obtain xs ys where x: "es = xs @ e # ys" "q = 16 + tsize xs" "is_entry_of name e" using find_entry_Some [OF qe] by blast
  have h: "seg_holds reg (cells (nv_dev s)) (xs @ e # (ys @ zs))" "live e"
    using assms(3) x by (simp_all add: is_entry_of_def)
  obtain m s' where m: "retire_item stg (int (ri_seg_offset reg + (16 + tsize xs))) reg s = Some (reg\<lparr>ri_seg_item_map := m\<rparr>, s')"
      "nv_ok ok s'" "nv_stack s' = nv_stack s" "seg_holds (reg\<lparr>ri_seg_item_map := m\<rparr>) (cells (nv_dev s')) (xs @ retire e # (ys @ zs))"
      "cells (nv_dev s') = overlay (cells (nv_dev s)) (ri_base_addr reg + ri_seg_offset reg + 16 + tsize xs + 1) [NVRAM_STATE_OBSOLETE]"
    using retire_item_eq [OF assms(1,2) h] by blast
  have "16 + tsize xs + esize e \<le> ri_seg_size reg" "16 \<le> esize e"
    using h(1) esize_facts(3) by (simp_all add: seg_holds_def)
  then have "\<forall>i. i < ri_base_addr reg + ri_seg_offset reg + 16 \<or> ri_base_addr reg + ri_seg_offset reg + ri_seg_size reg \<le> i \<longrightarrow>
      cells (nv_dev s') i = cells (nv_dev s) i"
    unfolding m(5) by (auto intro!: overlay_other)
  moreover have "pos = int (ri_seg_offset reg + (16 + tsize xs))" using assms(5) qe x(2) by simp
  moreover have "drop_name name es @ zs = xs @ retire e # (ys @ zs)"
    using drop_name_split [of xs e ys name] assms(4) x by simp
  ultimately show ?thesis using m(1-4) by (intro exI [of _ m] exI [of _ s']) simp
qed

lemma region_append_item_eq:
  assumes "covered lo hi reg" "nv_ok ok s" "seg_holds reg (cells (nv_dev s)) es" "one_live es" "good_name name" "length data < 65536"
    and "16 + tsize es + esize (new_entry name data) \<le> ri_seg_size reg"
  shows "\<exists>m w s'. region_append_item stg name data (length data) (esize (new_entry name data)) reg s =
      Some (0, reg\<lparr>ri_seg_write_offset := w, ri_seg_item_map := m\<rparr>, s') \<and> nv_ok ok s' \<and> nv_stack s' = nv_stack s \<and>
    seg_holds (reg\<lparr>ri_seg_write_offset := w, ri_seg_item_map := m\<rparr>) (cells (nv_dev s')) (drop_name name es @ [new_entry name data]) \<and>
    (\<forall>i. i < ri_base_addr reg + ri_seg_offset reg + 16 \<or> ri_base_addr reg + ri_seg_offset reg + ri_seg_size reg \<le> i \<longrightarrow>
      cells (nv_dev s') i = cells (nv_dev s) i)"
proof -
  let ?e = "new_entry name data" and ?w = "ri_seg_write_offset reg" and ?f = "cells (nv_dev s)"
  obtain item' s1 where s1: "same_nv s s1" "region_find_item stg reg name (nv_stack s) s =
      Some (case find_entry name 16 es of None \<Rightarrow> (- ENOENT, item', s1) | Some (q, e) \<Rightarrow> (int (ri_seg_offset reg + q), en_item e, s1))"
    using find_in_segment [OF assms(1-3,5), of "nv_stack s"] by blast
  have dev: "nv_dev s1 = nv_dev s" "nv_ok ok s1" "nv_stack s1 = nv_stack s"
    using s1(1) assms(2) same_nv_ok [OF s1(1)] by (simp_all add: same_nv_def)
  note e = new_entry_facts [OF assms(5,6)]
  have cfg: "region_cfg reg" using assms(1) by (simp add: covered_def)
  have wr: "?w = ri_seg_offset reg + 16 + tsize es" "is_blank ?f (ri_base_addr reg + ?w) (ri_seg_size reg - 16 - tsize es)"
    using assms(3) unfolding seg_holds_def by blast+
  have fit: "length (entry_bytes ?e) \<le> ri_seg_size reg - 16 - tsize es" using esize_facts(1) [OF e(1)] assms(7) by simp
  have "?w + length (entry_bytes ?e) \<le> ri_total_size reg"
    using esize_facts(1) [OF e(1)] assms(7) wr(1) seg_holds_region(1) [OF cfg assms(3)] by simp
  then obtain n s2 where s2: "region_write_item stg reg ?w name data (length data) s1 = (n, s2)" "nv_ok ok s2" "nv_stack s2 = nv_stack s"
      "cells (nv_dev s2) = overlay ?f (ri_base_addr reg + ?w) (entry_bytes ?e)"
    using region_write_item_eq [OF assms(1) dev(2) assms(5,6), of ?w] is_blank_sub [OF wr(2) _ add_left_mono [OF fit]]
    by (auto simp: dev(1,3))
  obtain m where m: "item_bitmap_update (ri_seg_item_map reg) (16 + tsize es) True = Some m"
      "seg_holds (reg\<lparr>ri_seg_item_map := m, ri_seg_write_offset := ?w + esize ?e\<rparr>) (cells (nv_dev s2)) (es @ [?e])"
    using seg_holds_append [OF assms(3) e(1) assms(7) e(3) s2(4)] by blast
  let ?reg = "reg\<lparr>ri_seg_item_map := m, ri_seg_write_offset := ?w + esize ?e\<rparr>"
  obtain m' s3 where s3: "retire_item stg (case find_entry name 16 es of None \<Rightarrow> - ENOENT | Some (q, e) \<Rightarrow> int (ri_seg_offset ?reg + q)) ?reg s2 =
        Some (?reg\<lparr>ri_seg_item_map := m'\<rparr>, s3)" "nv_ok ok s3" "nv_stack s3 = nv_stack s2"
      "seg_holds (?reg\<lparr>ri_seg_item_map := m'\<rparr>) (cells (nv_dev s3)) (drop_name name es @ [?e])"
      "\<forall>i. i < ri_base_addr ?reg + ri_seg_offset ?reg + 16 \<or> ri_base_addr ?reg + ri_seg_offset ?reg + ri_seg_size ?reg \<le> i \<longrightarrow>
        cells (nv_dev s3) i = cells (nv_dev s2) i"
    using retire_found [of ?reg s2 es "[?e]", OF _ s2(2) m(2) assms(4) refl, of name] assms(1) by auto
  have "region_append_item stg name data (length data) (esize ?e) reg s = Some (0, ?reg\<lparr>ri_seg_item_map := m'\<rparr>, s3)"
    using s1(2) s2(1) m(1) s3(1) wr(1)
    by (cases "find_entry name 16 es") (auto simp: region_append_item_def)
  moreover have "\<forall>i. i < ri_base_addr reg + ri_seg_offset reg + 16 \<or> ri_base_addr reg + ri_seg_offset reg + ri_seg_size reg \<le> i \<longrightarrow>
      cells (nv_dev s3) i = ?f i"
    using s3(5) wr(1) assms(7) esize_facts(1) [OF e(1)] by (auto simp: s2(4) intro!: overlay_other)
  ultimately show ?thesis
    using s3(2-4) s2(3) by (intro exI [of _ m'] exI [of _ "?w + esize ?e"] exI [of _ s3]) simp
qed

end

end
