(* ===== verification/Nvram_Purge.thy ===== *)
theory Nvram_Purge
  imports Nvram_Items
begin

text \<open>
  Moving to a new segment: its header, the copy of the live items, and the change-over. The new
  segment holds exactly the live entries of the old one, in the same order.
\<close>

section \<open>Segment headers\<close>

lemma u32_bytes_list: "u32_bytes x = [ucast x, ucast (drop_bit 8 x), ucast (drop_bit 16 x), ucast (drop_bit 24 x)]"
  by (simp add: u32_bytes_def upt_rec)

lemma u32_of_bytes: "u32_of (u32_bytes x @ bs) = x"
proof (rule bit_word_eqI)
  fix n
  assume "n < LENGTH(32)"
  then consider "n < 8" | "8 \<le> n" "n < 16" | "16 \<le> n" "n < 24" | "24 \<le> n" "n < 32" by fastforce
  then show "bit (u32_of (u32_bytes x @ bs)) n = bit x n"
    by cases (auto simp: u32_of_def u32_bytes_list bit_simps)
qed

lemma length_seg_header_bytes: "length (sh_reserved2 h) = 4 \<Longrightarrow> length (seg_header_bytes h) = 16"
  by (simp add: seg_header_bytes_def u32_bytes_list u16_bytes_def)

lemma u16_of_bytes [simp]: "u16_of (lo8 x) (hi8 x) = x"
  by (simp add: u16_of_def lo8_hi8_combine)

lemma seg_header_round_trip:
  assumes "length (sh_reserved2 h) = 4"
  shows "seg_header_of_bytes (seg_header_bytes h) = h"
proof -
  have "u32_of (seg_header_bytes h) = sh_magic h" unfolding seg_header_bytes_def by (rule u32_of_bytes)
  then show ?thesis
    using assms by (cases h) (simp add: seg_header_of_bytes_def, simp add: seg_header_bytes_def u32_bytes_list u16_bytes_def)
qed

text \<open>The header at an address.\<close>

definition header_at :: "(nat \<Rightarrow> u8) \<Rightarrow> nat \<Rightarrow> region_seg_header" where
  "header_at f a = seg_header_of_bytes (mem_slice f a 16)"

lemma header_at_cong: "(\<And>i. a \<le> i \<Longrightarrow> i < a + 16 \<Longrightarrow> g i = f i) \<Longrightarrow> header_at g a = header_at f a"
  by (simp add: header_at_def cong: mem_slice_cong)

lemma header_at_write: "length (sh_reserved2 h) = 4 \<Longrightarrow> header_at (overlay f a (seg_header_bytes h)) a = h"
  using mem_slice_overlay_same [of f a "seg_header_bytes h"]
  by (simp add: header_at_def length_seg_header_bytes seg_header_round_trip)

lemma new_seg_header_facts:
  "length (sh_reserved2 (new_seg_header reg)) = 4" "is_valid_region_seg_header (new_seg_header reg)"
  "sh_seq_id (new_seg_header reg) = ri_seg_seq_id reg + 1"
  by (simp_all add: new_seg_header_def Let_def is_valid_region_seg_header_def seg_header_crc_ok_def
      seg_header_bytes_def u32_bytes_list u16_bytes_def)

text \<open>An obsolete header is not taken for a valid one.\<close>

lemma header_at_obsolete:
  "\<not> is_valid_region_seg_header (header_at (overlay f (a + 4) [NVRAM_STATE_OBSOLETE]) a)"
  by (simp add: is_valid_region_seg_header_def header_at_def seg_header_of_bytes_def overlay_def nvram_consts)

lemma header_at_blank: "is_blank f a 16 \<Longrightarrow> \<not> is_valid_region_seg_header (header_at f a)"
  by (simp add: is_valid_region_seg_header_def header_at_def seg_header_of_bytes_def is_blank_def u32_of_def nvram_consts)

section \<open>Checking an item\<close>

lemma replicate_8: "replicate 8 x = [x, x, x, x, x, x, x, x]"
  by (simp add: numeral_eq_Suc)

lemma item_of_blank:
  "item_is_empty (item_of_bytes (replicate 8 0xff))" "it_magic (item_of_bytes (replicate 8 0xff)) \<noteq> NVRAM_REGION_ITEM_MAGIC"
  by (simp_all add: item_is_empty_def item_bytes_def item_of_bytes_def u16_bytes_def u16_of_def lo8_def hi8_def
      NVRAM_REGION_ITEM_MAGIC_def replicate_8)

section \<open>Copying the live items\<close>

text \<open>
  What the copy loop relies on with entries \<open>es\<close> still to be visited at offset \<open>q\<close> and the next free
  byte of the new segment at \<open>p\<close>: the two ranges do not overlap and the new one is blank.
\<close>

definition copy_ready :: "region_info \<Rightarrow> (nat \<Rightarrow> u8) \<Rightarrow> nat \<Rightarrow> nat \<Rightarrow> nat \<Rightarrow> entry list \<Rightarrow> bool" where
  "copy_ready reg f end_offs q p es \<longleftrightarrow> list_all entry_ok es \<and> entries_at f (ri_base_addr reg + q) es \<and>
     q + tsize es \<le> ri_total_size reg \<and> p + tsize (filter live es) \<le> ri_total_size reg \<and> q + tsize es \<le> end_offs \<and>
     is_blank f (ri_base_addr reg + p) (tsize (filter live es)) \<and>
     (end_offs \<le> p \<or> p + tsize (filter live es) \<le> q) \<and>
     (end_offs = q + tsize es \<or> q + tsize es + 8 \<le> end_offs \<and> end_offs \<le> ri_total_size reg \<and> is_blank f (ri_base_addr reg + (q + tsize es)) 8)"

lemma copy_ready_dead:
  "copy_ready reg f end_offs q p (e # es) \<Longrightarrow> \<not> live e \<Longrightarrow> copy_ready reg f end_offs (q + esize e) p es"
  by (auto simp: copy_ready_def add.assoc)

lemma copy_ready_live:
  assumes "copy_ready reg f end_offs q p (e # es)" "live e" "ri_base_addr reg' = ri_base_addr reg" "ri_total_size reg' = ri_total_size reg"
  shows "copy_ready reg' (overlay f (ri_base_addr reg + p) (entry_bytes e)) end_offs (q + esize e) (p + esize e) es"
proof -
  let ?b = "ri_base_addr reg" and ?g = "overlay f (ri_base_addr reg + p) (entry_bytes e)"
  note r = assms(1,2) [unfolded copy_ready_def]
  have n: "length (entry_bytes e) \<le> esize e" using r by (intro esize_facts(1)) simp
  have far: "end_offs \<le> p \<or> p + esize e \<le> q" "q + esize e + tsize es \<le> end_offs" using r by auto
  have g: "?g i = f i" if "i < ?b + p \<or> ?b + p + esize e \<le> i" for i using that n by (intro overlay_other) auto
  have "entries_at ?g (?b + (q + esize e)) es = entries_at f (?b + (q + esize e)) es"
    using r far by (intro entries_at_cong) (auto intro!: g)
  moreover have "is_blank ?g (?b + (p + esize e)) (tsize (filter live es))"
  proof (rule is_blank_cong)
    show "is_blank f (?b + (p + esize e)) (tsize (filter live es))" using r by (auto intro: is_blank_sub)
  qed (auto intro: g)
  moreover have "is_blank ?g (?b + (q + esize e + tsize es)) 8"
    if "is_blank f (?b + (q + esize e + tsize es)) 8" "q + esize e + tsize es + 8 \<le> end_offs"
    using that far by (intro is_blank_cong [OF that(1)] g) auto
  ultimately show ?thesis using r assms(3,4) by (auto simp: copy_ready_def add.assoc)
qed

section \<open>Segments of a region\<close>

text \<open>The segment that follows, which a purge moves to.\<close>

definition next_seg :: "region_info \<Rightarrow> nat" where
  "next_seg reg = (if ri_total_size reg \<le> ri_seg_offset reg + ri_seg_size reg then 0 else ri_seg_offset reg + ri_seg_size reg)"

text \<open>The current segment holds the entries and carries a valid header with the sequence number of the region.\<close>

definition seg_current :: "region_info \<Rightarrow> (nat \<Rightarrow> u8) \<Rightarrow> entry list \<Rightarrow> bool" where
  "seg_current reg f es \<longleftrightarrow> seg_holds reg f es \<and>
     is_valid_region_seg_header (header_at f (ri_base_addr reg + ri_seg_offset reg)) \<and>
     sh_seq_id (header_at f (ri_base_addr reg + ri_seg_offset reg)) = ri_seg_seq_id reg"

text \<open>The part of a region that no operation changes.\<close>

definition same_region :: "region_info \<Rightarrow> region_info \<Rightarrow> bool" where
  "same_region reg reg' \<longleftrightarrow> ri_storage reg' = ri_storage reg \<and> ri_base_addr reg' = ri_base_addr reg \<and>
     ri_total_size reg' = ri_total_size reg \<and> ri_seg_size reg' = ri_seg_size reg \<and>
     ri_seg_item_map_size reg' = ri_seg_item_map_size reg"

lemma same_region_refl [simp]: "same_region reg reg"
  by (simp add: same_region_def)

lemma same_region_trans: "same_region r1 r2 \<Longrightarrow> same_region r2 r3 \<Longrightarrow> same_region r1 r3"
  by (simp add: same_region_def)

lemma same_region_covered: "same_region reg reg' \<Longrightarrow> covered lo hi reg' = covered lo hi reg"
  by (simp add: same_region_def covered_def region_cfg_def is_in_nvram_region_bounds_def)

lemma multiple_apart:
  fixes a b n :: nat
  assumes "n dvd a" "n dvd b" "a \<noteq> b"
  shows "a + n \<le> b \<or> b + n \<le> a"
proof -
  obtain x y where "a = n * x" "b = n * y" using assms(1,2) by blast
  then show ?thesis
    using assms(3) mult_le_mono2 [of "Suc x" y n] mult_le_mono2 [of "Suc y" x n] by (cases x y rule: linorder_cases) auto
qed

lemma seg_cfg_apart:
  "seg_cfg reg a \<Longrightarrow> seg_cfg reg b \<Longrightarrow> a \<noteq> b \<Longrightarrow> a + ri_seg_size reg \<le> b \<or> b + ri_seg_size reg \<le> a"
  by (rule multiple_apart) (auto simp: seg_cfg_def)

lemma same_region_seg_cfg: "same_region reg reg' \<Longrightarrow> seg_cfg reg' = seg_cfg reg \<and> ri_base_addr reg' = ri_base_addr reg"
  by (simp add: same_region_def seg_cfg_def fun_eq_iff)

lemma next_seg_facts:
  assumes "region_cfg reg" "seg_cfg reg (ri_seg_offset reg)"
  shows "seg_cfg reg (next_seg reg)" "4096 dvd next_seg reg" "next_seg reg + ri_seg_size reg \<le> ri_total_size reg"
    "ri_seg_offset reg \<noteq> next_seg reg"
proof -
  note r = region_cfg_facts [OF assms(1)]
  have d: "ri_seg_size reg dvd ri_seg_offset reg" using assms(2) by (auto simp: seg_cfg_def)
  then have n: "ri_seg_size reg dvd next_seg reg" by (simp add: next_seg_def)
  have lt: "next_seg reg < ri_total_size reg" using r(5,7) by (simp add: next_seg_def)
  obtain x y where xy: "next_seg reg = ri_seg_size reg * x" "ri_total_size reg = ri_seg_size reg * y" using n r(4) by blast
  then have "x < y" using lt by simp
  then have "ri_seg_size reg * Suc x \<le> ri_total_size reg" unfolding xy(2) by (intro mult_le_mono2) simp
  then show le: "next_seg reg + ri_seg_size reg \<le> ri_total_size reg" using xy(1) by simp
  show "seg_cfg reg (next_seg reg)" using n le by (auto simp: seg_cfg_def)
  show "4096 dvd next_seg reg" using r(3) n by (rule dvd_trans)
  show "ri_seg_offset reg \<noteq> next_seg reg" using r(5,7) by (simp add: next_seg_def)
qed

text \<open>The bitmap has the size the segments need.\<close>

definition map_sized :: "region_info \<Rightarrow> bool" where
  "map_sized reg \<longleftrightarrow> (case ri_seg_item_map reg of None \<Rightarrow> True
     | Some m \<Rightarrow> ri_seg_size reg = 16 * (32 * length m) \<and> ri_seg_item_map_size reg = 4 * length m)"

lemma bitmap_ok_sized: "bitmap_ok reg 16 es \<Longrightarrow> map_sized reg"
  by (simp add: bitmap_ok_def map_sized_def split: option.splits)

lemma map_sized_clear:
  assumes "map_sized reg"
  shows "bitmap_ok (reg\<lparr>ri_seg_item_map := item_bitmap_clear_all (ri_seg_item_map reg) (ri_seg_item_map_size reg)\<rparr>) 16 []"
  using assms by (cases "ri_seg_item_map reg") (simp_all add: map_sized_def bitmap_ok_def item_bitmap_clear_all_def map_bit_clear_all(2))

lemma map_sized_updates [simp]:
  "map_sized (reg\<lparr>ri_seg_offset := p\<rparr>) = map_sized reg" "map_sized (reg\<lparr>ri_seg_seq_id := q\<rparr>) = map_sized reg"
  by (simp_all add: map_sized_def split: option.split)

lemma item_bitmap_clear_all_None [simp]: "item_bitmap_clear_all m n = None \<longleftrightarrow> m = None"
  by (auto simp: item_bitmap_clear_all_def split: option.split)

lemma bitmap_ok_cong:
  "ri_seg_item_map r' = ri_seg_item_map r \<Longrightarrow> ri_seg_size r' = ri_seg_size r \<Longrightarrow> ri_seg_item_map_size r' = ri_seg_item_map_size r \<Longrightarrow>
    bitmap_ok r' = bitmap_ok r"
  by (simp add: bitmap_ok_def fun_eq_iff split: option.split)

lemma valid_header_state: "is_valid_region_seg_header (header_at f a) \<Longrightarrow> f (a + 4) = NVRAM_STATE_VALID"
  by (simp add: is_valid_region_seg_header_def header_at_def seg_header_of_bytes_def)

lemma tsize_live: "tsize (filter live es) \<le> tsize es"
  by (induction es) auto

lemma entry_ok_filter: "list_all entry_ok es \<Longrightarrow> list_all entry_ok (filter P es)"
  by (auto simp: list_all_iff)

section \<open>The memory during a purge\<close>

text \<open>The next segment erased, with a header.\<close>

definition fresh_seg :: "region_info \<Rightarrow> (nat \<Rightarrow> u8) \<Rightarrow> nat \<Rightarrow> nat \<Rightarrow> u8" where
  "fresh_seg reg f off = overlay (blanked f (ri_base_addr reg + off) (ri_seg_size reg)) (ri_base_addr reg + off)
     (seg_header_bytes (new_seg_header reg))"

lemma fresh_seg_facts:
  assumes "region_cfg reg"
  shows "i < ri_base_addr reg + off \<or> ri_base_addr reg + off + ri_seg_size reg \<le> i \<Longrightarrow> fresh_seg reg f off i = f i"
    "is_blank (fresh_seg reg f off) (ri_base_addr reg + off + 16) (ri_seg_size reg - 16)"
    "header_at (fresh_seg reg f off) (ri_base_addr reg + off) = new_seg_header reg"
proof -
  have len: "length (seg_header_bytes (new_seg_header reg)) = 16" by (rule length_seg_header_bytes [OF new_seg_header_facts(1)])
  show "i < ri_base_addr reg + off \<or> ri_base_addr reg + off + ri_seg_size reg \<le> i \<Longrightarrow> fresh_seg reg f off i = f i"
    "is_blank (fresh_seg reg f off) (ri_base_addr reg + off + 16) (ri_seg_size reg - 16)"
    using len region_cfg_facts(5) [OF assms] by (auto simp: fresh_seg_def overlay_def blanked_def is_blank_def)
  show "header_at (fresh_seg reg f off) (ri_base_addr reg + off) = new_seg_header reg"
    by (simp add: fresh_seg_def header_at_write [OF new_seg_header_facts(1)])
qed

text \<open>The entries of a segment, whatever the region knows of it.\<close>

definition disk_seg :: "region_info \<Rightarrow> nat \<Rightarrow> (nat \<Rightarrow> u8) \<Rightarrow> entry list \<Rightarrow> bool" where
  "disk_seg reg off f es \<longleftrightarrow> seg_cfg reg off \<and> list_all entry_ok es \<and> entries_at f (ri_base_addr reg + (off + 16)) es \<and>
     16 + tsize es \<le> ri_seg_size reg \<and> is_blank f (ri_base_addr reg + (off + 16 + tsize es)) (ri_seg_size reg - 16 - tsize es)"

lemma seg_holds_disk:
  "seg_holds reg f es \<longleftrightarrow> disk_seg reg (ri_seg_offset reg) f es \<and>
     ri_seg_write_offset reg = ri_seg_offset reg + 16 + tsize es \<and> bitmap_ok reg 16 es"
  by (auto simp: seg_holds_def disk_seg_def add.assoc)

text \<open>The old segment is copied whole or up to its last entry.\<close>

lemma move_ready:
  assumes "region_cfg reg" "disk_seg reg old f es" "seg_cfg reg new" "old \<noteq> new" "sz = 16 + tsize es \<or> sz = ri_seg_size reg"
    and "ri_base_addr r1 = ri_base_addr reg" "ri_total_size r1 = ri_total_size reg"
  shows "copy_ready r1 (fresh_seg reg f new) (old + sz) (old + 16) (new + 16) es"
proof -
  let ?b = "ri_base_addr reg" and ?n = "ri_seg_size reg" and ?g = "fresh_seg reg f new"
  note h = assms(2) [unfolded disk_seg_def]
  have ap: "old + ?n \<le> new \<or> new + ?n \<le> old" and le: "old + ?n \<le> ri_total_size reg" "new + ?n \<le> ri_total_size reg"
    using h assms(3,4) seg_cfg_apart [of reg old new] by (auto simp: seg_cfg_def)
  have g: "?g i = f i" if "?b + old \<le> i" "i < ?b + old + ?n" for i
    using that ap by (intro fresh_seg_facts(1) [OF assms(1)]) auto
  have "entries_at ?g (?b + (old + 16)) es = entries_at f (?b + (old + 16)) es"
    using h by (intro entries_at_cong) (auto intro!: g)
  moreover have "is_blank ?g (?b + (new + 16)) (tsize (filter live es))"
    using is_blank_sub [OF fresh_seg_facts(2) [OF assms(1), of f new], of "?b + (new + 16)" "tsize (filter live es)"] tsize_live [of es] h by auto
  moreover have "sz = 16 + tsize es \<or> 16 + tsize es + 8 \<le> sz \<and> is_blank ?g (?b + (old + 16 + tsize es)) 8"
  proof (cases "16 + tsize es = ?n")
    case False
    have "16 dvd ?n" using region_cfg_facts(3) [OF assms(1)] by (rule dvd_trans [rotated]) simp
    then have le16: "16 + tsize es + 16 \<le> ?n" using multiple_apart [of 16 "16 + tsize es" ?n] tsize_dvd [of es] False h by auto
    then have b8: "is_blank f (?b + (old + 16 + tsize es)) 8"
      using h is_blank_sub [of f "?b + (old + 16 + tsize es)" "?n - 16 - tsize es" "?b + (old + 16 + tsize es)" 8] by simp
    have "is_blank ?g (?b + (old + 16 + tsize es)) 8"
      using le16 by (intro is_blank_cong [OF b8] g) auto
    then show ?thesis using assms(5) le16 by auto
  qed (use assms(5) in auto)
  ultimately show ?thesis using h assms(5-7) tsize_live [of es] ap le by (auto simp: copy_ready_def)
qed

text \<open>The change-over: the entries are copied and the old header is made obsolete.\<close>

lemma move_current:
  assumes "region_cfg reg" "seg_cfg reg old" "seg_cfg reg new" "old \<noteq> new" "list_all entry_ok es" "16 + tsize es \<le> ri_seg_size reg"
    and "bitmap_ok reg' 16 es" "entries_at g (ri_base_addr reg + (new + 16)) es"
    and g: "\<And>i. i < ri_base_addr reg + (new + 16) \<or> ri_base_addr reg + (new + 16) + tsize es \<le> i \<Longrightarrow> g i = fresh_seg reg f new i"
    and "same_region reg reg'" "ri_seg_offset reg' = new" "ri_seg_write_offset reg' = new + 16 + tsize es" "ri_seg_seq_id reg' = ri_seg_seq_id reg + 1"
  shows "seg_current reg' (overlay g (ri_base_addr reg + (old + 4)) [NVRAM_STATE_OBSOLETE]) es"
proof -
  let ?b = "ri_base_addr reg" and ?n = "ri_seg_size reg"
  let ?g = "overlay g (?b + (old + 4)) [NVRAM_STATE_OBSOLETE]"
  note ap = seg_cfg_apart [OF assms(2-4)] and big = region_cfg_facts(5) [OF assms(1)]
  have o: "?g i = g i" if "?b + new \<le> i" "i < ?b + new + ?n" for i using that ap big by (intro overlay_other) auto
  have "entries_at ?g (?b + (new + 16)) es = entries_at g (?b + (new + 16)) es"
    using assms(5,6) by (intro entries_at_cong) (auto intro!: o)
  moreover have "is_blank ?g (?b + (new + 16 + tsize es)) (?n - 16 - tsize es)"
    using is_blank_sub [OF fresh_seg_facts(2) [OF assms(1), of f new], of "?b + (new + 16 + tsize es)" "?n - 16 - tsize es"] assms(6)
    by (auto intro!: is_blank_cong [of "fresh_seg reg f new"] simp: o g)
  moreover have "header_at ?g (?b + new) = header_at (fresh_seg reg f new) (?b + new)"
    using big by (intro header_at_cong) (simp add: o g)
  ultimately show ?thesis
    using assms(3,5-8,11-13) same_region_seg_cfg [OF assms(10)] assms(10) fresh_seg_facts(3) [OF assms(1)]
    by (simp add: seg_current_def seg_holds_disk disk_seg_def new_seg_header_facts same_region_def)
qed

context nvram_storage
begin

lemma item_check_validity_eq:
  assumes "covered lo hi reg" "nv_ok ok s" "entry_ok e" "q + esize e \<le> ri_total_size reg"
    and "mem_slice (cells (nv_dev s)) (ri_base_addr reg + q) (length (entry_bytes e)) = entry_bytes e"
  shows "\<exists>s'. item_check_validity stg reg q (en_item e) check_crc s =
    Some (if live e then ITEM_STATUS_VALID else ITEM_STATUS_OBSOLETE, s') \<and> same_nv s s'"
proof (cases "live e")
  case False
  then show ?thesis using assms(3) by (auto simp: item_check_validity_def entry_ok_def live_def)
next
  case True
  let ?n = "length (en_name e)"
  obtain n where n: "en_name e = n @ [0]" "good_name n" using entry_ok_live_name assms(3) True by blast
  have it: "it_magic (en_item e) = NVRAM_REGION_ITEM_MAGIC" "it_state (en_item e) = NVRAM_STATE_VALID"
      "unat (it_name_size (en_item e)) = ?n" "unat (it_data_size (en_item e)) = length (en_data e)"
      "it_hash (en_item e) = calc_hash (en_name e)"
      "it_crc (en_item e) = calc_crc8 (en_data e) (calc_crc8 (en_name e) (item_header_crc (en_item e)))"
    using assms(3) True by (simp_all add: entry_ok_def live_entry_ok_def live_def)
  have sz: "8 + ?n + length (en_data e) \<le> esize e" "?n \<le> NVRAM_BUFFER_SIZE"
    using esize_facts(1) [OF assms(3)] n by (simp_all add: entry_bytes_def good_name_def nvram_consts)
  obtain s1 where s1: "buf_read stg reg (q + 8) ?n s = Some (0, s1)" "same_nv s s1" "take ?n (nv_buf s1) = en_name e"
    using buf_read_eq [OF assms(1,2), of "q + 8" ?n] sz assms(4) entry_parts(2) [OF assms(5)] by (auto simp: add.assoc)
  have dev: "nv_dev s1 = nv_dev s" "nv_ok ok s1" using s1(2) assms(2) same_nv_ok [OF s1(2)] by (simp_all add: same_nv_def)
  obtain s2 where s2: "item_calc_data_crc stg reg (q + 8 + ?n) (length (en_data e)) (calc_crc8 (en_name e) (item_header_crc (en_item e))) s1 =
      (it_crc (en_item e), s2)" "same_nv s1 s2"
    using item_calc_data_crc_eq [OF assms(1) dev(2), of "q + 8 + ?n" "length (en_data e)" "calc_crc8 (en_name e) (item_header_crc (en_item e))"]
      sz(1) assms(4) entry_parts(3) [OF assms(5)] it(6) by (auto simp: dev(1) add.assoc)
  have "item_check_validity stg reg q (en_item e) check_crc s = Some (ITEM_STATUS_VALID, if check_crc then s2 else s1)"
    using s1(1,3) s2(1) sz(2) it by (simp add: item_check_validity_def Let_def SIZEOF_ITEM_def)
  then show ?thesis using True s1(2) same_nv_trans [OF s1(2) s2(2)] by simp
qed

lemma read_blank_header:
  assumes "covered lo hi reg" "nv_ok ok s" "q + 8 \<le> ri_total_size reg" "is_blank (cells (nv_dev s)) (ri_base_addr reg + q) 8"
  shows "region_read stg reg q SIZEOF_ITEM s = (0, replicate 8 0xff)"
    "item_check_validity stg reg q (item_load (replicate 8 0xff) item) check_crc s = Some (ITEM_STATUS_EMPTY, s)"
proof -
  show "region_read stg reg q SIZEOF_ITEM s = (0, replicate 8 0xff)"
    using region_read_eq [OF assms(1), of s q 8] assms(2-4) by (simp add: nv_ok_def SIZEOF_ITEM_def is_blank_slice)
  show "item_check_validity stg reg q (item_load (replicate 8 0xff) item) check_crc s = Some (ITEM_STATUS_EMPTY, s)"
    using item_of_blank by (simp add: item_check_validity_def item_load_length_8)
qed

text \<open>The loop ends after the last entry, at the end of the copied range or at blank memory.\<close>

lemma copy_seg_stop:
  assumes "covered lo hi reg" "nv_ok ok s"
    and "end_offs \<le> q \<or> q + 8 \<le> ri_total_size reg \<and> is_blank (cells (nv_dev s)) (ri_base_addr reg + q) 8"
  shows "copy_seg_loop stg new_seg end_offs chk q p item reg s = Some (p, reg, s)"
proof (cases "q < end_offs")
  case True
  then show ?thesis
    using read_blank_header [OF assms(1,2)] assms(3) by (subst copy_seg_loop.simps) simp
qed (subst copy_seg_loop.simps, simp)

lemma copy_seg_live:
  assumes "covered lo hi reg" "nv_ok ok s" "entry_ok e" "live e" "q + esize e \<le> ri_total_size reg" "p + esize e \<le> ri_total_size reg"
    and "mem_slice (cells (nv_dev s)) (ri_base_addr reg + q) (length (entry_bytes e)) = entry_bytes e"
    and "q + esize e \<le> p \<or> p + esize e \<le> q" "is_blank (cells (nv_dev s)) (ri_base_addr reg + p) (esize e)" "q < end_offs"
    and "item_bitmap_update (ri_seg_item_map reg) (p - new_seg) True = Some m"
  shows "\<exists>s'. nv_ok ok s' \<and> nv_stack s' = nv_stack s \<and> cells (nv_dev s') = overlay (cells (nv_dev s)) (ri_base_addr reg + p) (entry_bytes e) \<and>
    copy_seg_loop stg new_seg end_offs chk q p item reg s =
      copy_seg_loop stg new_seg end_offs chk (q + esize e) (p + esize e) (en_item e) (reg\<lparr>ri_seg_item_map := m\<rparr>) s'"
proof -
  obtain s1 where s1: "item_check_validity stg reg q (en_item e) chk s = Some (ITEM_STATUS_VALID, s1)" "same_nv s s1"
    using item_check_validity_eq [OF assms(1-3,5,7), of chk] assms(4) by auto
  have dev: "nv_dev s1 = nv_dev s" "nv_ok ok s1" "nv_stack s1 = nv_stack s"
    using s1(2) assms(2) same_nv_ok [OF s1(2)] by (simp_all add: same_nv_def)
  let ?n = "length (entry_bytes e)"
  have n: "?n \<le> esize e" by (rule esize_facts(1) [OF assms(3)])
  obtain s2 where s2: "region_copy stg reg q p ?n s1 = (0, s2)" "nv_ok ok s2" "nv_stack s2 = nv_stack s"
      "cells (nv_dev s2) = overlay (cells (nv_dev s)) (ri_base_addr reg + p) (entry_bytes e)"
    using region_copy_eq [OF assms(1) dev(2), of q ?n p] n assms(5-8) is_blank_sub [OF assms(9), of "ri_base_addr reg + p" ?n]
    by (auto simp: dev)
  have "copy_seg_loop stg new_seg end_offs chk q p item reg s =
      copy_seg_loop stg new_seg end_offs chk (q + esize e) (p + esize e) (en_item e) (reg\<lparr>ri_seg_item_map := m\<rparr>) s2"
    using assms(10,11) read_header [OF assms(1-3,5,7)] s1(1) s2(1) length_entry_bytes [OF assms(3)]
    by (subst copy_seg_loop.simps) (simp add: esize_def Let_def)
  then show ?thesis using s2 by blast
qed

lemma copy_seg_dead:
  assumes "covered lo hi reg" "nv_ok ok s" "entry_ok e" "\<not> live e" "q + esize e \<le> ri_total_size reg" "q < end_offs"
    and "mem_slice (cells (nv_dev s)) (ri_base_addr reg + q) (length (entry_bytes e)) = entry_bytes e"
  shows "\<exists>s'. same_nv s s' \<and> copy_seg_loop stg new_seg end_offs chk q p item reg s =
      copy_seg_loop stg new_seg end_offs chk (q + esize e) p (en_item e) reg s'"
proof -
  obtain s1 where "item_check_validity stg reg q (en_item e) chk s = Some (ITEM_STATUS_OBSOLETE, s1)" "same_nv s s1"
    using item_check_validity_eq [OF assms(1-3,5,7), of chk] assms(4) by auto
  then show ?thesis
    using assms(6) read_header [OF assms(1-3,5,7)]
    by (intro exI [of _ s1]) (subst copy_seg_loop.simps, simp add: esize_def Let_def)
qed

lemma copy_seg_loop_eq:
  "covered lo hi reg \<Longrightarrow> nv_ok ok s \<Longrightarrow> copy_ready reg (cells (nv_dev s)) end_offs q p es \<Longrightarrow> bitmap_ok reg 16 dn \<Longrightarrow>
    p = new_seg + 16 + tsize dn \<Longrightarrow> 16 + tsize dn + tsize (filter live es) \<le> ri_seg_size reg \<Longrightarrow>
    \<exists>m s'. copy_seg_loop stg new_seg end_offs chk q p item reg s = Some (p + tsize (filter live es), reg\<lparr>ri_seg_item_map := m\<rparr>, s') \<and>
      nv_ok ok s' \<and> nv_stack s' = nv_stack s \<and> entries_at (cells (nv_dev s')) (ri_base_addr reg + p) (filter live es) \<and>
      (\<forall>i. i < ri_base_addr reg + p \<or> ri_base_addr reg + p + tsize (filter live es) \<le> i \<longrightarrow> cells (nv_dev s') i = cells (nv_dev s) i) \<and>
      bitmap_ok (reg\<lparr>ri_seg_item_map := m\<rparr>) 16 (dn @ filter live es)"
proof (induction es arbitrary: q p dn item reg s)
  case Nil
  then have "copy_seg_loop stg new_seg end_offs chk q p item reg s = Some (p, reg, s)"
    by (intro copy_seg_stop) (auto simp: copy_ready_def)
  then show ?case using Nil.prems by (intro exI [of _ "ri_seg_item_map reg"] exI [of _ s]) simp
next
  case (Cons e es)
  let ?b = "ri_base_addr reg" and ?f = "cells (nv_dev s)"
  note r = Cons.prems(3) [unfolded copy_ready_def]
  have e: "entry_ok e" "mem_slice ?f (?b + q) (length (entry_bytes e)) = entry_bytes e" "q + esize e \<le> ri_total_size reg"
      "q < end_offs" "16 \<le> esize e"
    using r esize_facts(3) [of e] by auto
  show ?case
  proof (cases "live e")
    case False
    obtain s1 where s1: "same_nv s s1" "copy_seg_loop stg new_seg end_offs chk q p item reg s =
        copy_seg_loop stg new_seg end_offs chk (q + esize e) p (en_item e) reg s1"
      using copy_seg_dead [OF Cons.prems(1,2) e(1) False e(3,4,2)] by blast
    have dev: "nv_dev s1 = nv_dev s" "nv_ok ok s1" "nv_stack s1 = nv_stack s"
      using s1(1) Cons.prems(2) same_nv_ok [OF s1(1)] by (simp_all add: same_nv_def)
    show ?thesis
      using Cons.IH [OF Cons.prems(1) dev(2) copy_ready_dead [OF Cons.prems(3) False, folded dev(1)] Cons.prems(4,5)] Cons.prems(6) False
      by (simp add: s1(2) dev)
  next
    case True
    let ?g = "overlay ?f (?b + p) (entry_bytes e)"
    have fit: "p + esize e \<le> ri_total_size reg" "q + esize e \<le> p \<or> p + esize e \<le> q" "is_blank ?f (?b + p) (esize e)"
      using r True by (auto simp: is_blank_append)
    have "live_offs 16 (dn @ [e]) = insert (16 + tsize dn) (live_offs 16 dn)" using True by (simp add: live_offs_append)
    then obtain m where m: "item_bitmap_update (ri_seg_item_map reg) (p - new_seg) True = Some m"
        "bitmap_ok (reg\<lparr>ri_seg_item_map := m\<rparr>) 16 (dn @ [e])"
      using bitmap_ok_update [OF Cons.prems(4), of "16 + tsize dn" "dn @ [e]" True] Cons.prems(5,6) True e(5) tsize_dvd [of dn] by auto
    obtain s1 where s1: "nv_ok ok s1" "nv_stack s1 = nv_stack s" "cells (nv_dev s1) = ?g" "copy_seg_loop stg new_seg end_offs chk q p item reg s =
        copy_seg_loop stg new_seg end_offs chk (q + esize e) (p + esize e) (en_item e) (reg\<lparr>ri_seg_item_map := m\<rparr>) s1"
      using copy_seg_live [OF Cons.prems(1,2) e(1) True e(3) fit(1) e(2) fit(2,3) e(4) m(1)] by blast
    have r1: "copy_ready (reg\<lparr>ri_seg_item_map := m\<rparr>) (cells (nv_dev s1)) end_offs (q + esize e) (p + esize e) es"
      unfolding s1(3) by (rule copy_ready_live [OF Cons.prems(3) True]) simp_all
    obtain m' s' where s': "copy_seg_loop stg new_seg end_offs chk (q + esize e) (p + esize e) (en_item e) (reg\<lparr>ri_seg_item_map := m\<rparr>) s1 =
        Some (p + esize e + tsize (filter live es), reg\<lparr>ri_seg_item_map := m'\<rparr>, s')" "nv_ok ok s'" "nv_stack s' = nv_stack s"
        "entries_at (cells (nv_dev s')) (?b + (p + esize e)) (filter live es)"
        "\<And>i. i < ?b + (p + esize e) \<or> ?b + (p + esize e) + tsize (filter live es) \<le> i \<Longrightarrow> cells (nv_dev s') i = ?g i"
        "bitmap_ok (reg\<lparr>ri_seg_item_map := m'\<rparr>) 16 ((dn @ [e]) @ filter live es)"
      using Cons.IH [OF _ s1(1) r1 m(2), of "en_item e"] Cons.prems(1,5,6) True s1(2) by (auto simp: s1(3))
    have len: "length (entry_bytes e) \<le> esize e" by (rule esize_facts(1) [OF e(1)])
    have "mem_slice (cells (nv_dev s')) (?b + p) (length (entry_bytes e)) = entry_bytes e"
      using mem_slice_cong [of "length (entry_bytes e)" "cells (nv_dev s')" "?b + p" ?g] s'(5) len
        mem_slice_overlay_same [of ?f "?b + p" "entry_bytes e"] by simp
    moreover have "cells (nv_dev s') i = ?f i" if "i < ?b + p \<or> ?b + p + (esize e + tsize (filter live es)) \<le> i" for i
      using s'(5) [of i] overlay_other [of i "?b + p" "entry_bytes e" ?f] that len by auto
    ultimately show ?thesis
      using s1(4) s'(1-4,6) True by (intro exI [of _ m'] exI [of _ s']) (simp add: add.assoc)
  qed
qed

section \<open>A new segment\<close>

lemma region_init_new_seg_eq:
  assumes "covered lo hi reg" "nv_ok ok s" "seg_cfg reg off"
  shows "\<exists>s'. region_init_new_seg stg off reg s = (reg\<lparr>ri_seg_seq_id := ri_seg_seq_id reg + 1, ri_seg_offset := off, ri_seg_write_offset := off + 16,
      ri_seg_item_map := item_bitmap_clear_all (ri_seg_item_map reg) (ri_seg_item_map_size reg)\<rparr>, s') \<and> nv_ok ok s' \<and> nv_stack s' = nv_stack s \<and>
    cells (nv_dev s') = fresh_seg reg (cells (nv_dev s)) off"
proof -
  let ?h = "seg_header_bytes (new_seg_header reg)" and ?a = "ri_base_addr reg + off"
  have r: "region_cfg reg" using assms(1) by (simp add: covered_def)
  have len: "length ?h = 16" by (rule length_seg_header_bytes [OF new_seg_header_facts(1)])
  have off: "off + ri_seg_size reg \<le> ri_total_size reg" "4096 dvd off"
    using assms(3) dvd_trans [OF region_cfg_facts(3) [OF r], of off] by (auto simp: seg_cfg_def)
  obtain s1 where s1: "region_erase stg reg off (ri_seg_size reg) s = (0, s1)" "nv_ok ok s1" "nv_stack s1 = nv_stack s"
      "cells (nv_dev s1) = blanked (cells (nv_dev s)) ?a (ri_seg_size reg)"
    using region_erase_eq [OF assms(1) off region_cfg_facts(3) [OF r] assms(2)] by blast
  have "clears (cells (nv_dev s1)) ?a ?h"
    using len region_cfg_facts(5) [OF r] is_blank_clears [OF blanked_blank, of ?h] by (simp add: s1(4))
  then obtain d where d: "region_write stg reg off ?h s1 = (0, s1\<lparr>nv_dev := d\<rparr>)" "ok d" "cells d = overlay (cells (nv_dev s1)) ?a ?h"
    using region_write_eq [OF assms(1), of s1 off ?h] s1(2) len off region_cfg_facts(5) [OF r] by (auto simp: nv_ok_def)
  then show ?thesis
    using s1 by (intro exI [of _ "s1\<lparr>nv_dev := d\<rparr>"])
      (auto simp: region_init_new_seg_def Let_def nv_ok_def new_seg_header_facts NVRAM_SEG_ITEM_START_OFFSET_def fresh_seg_def)
qed

lemma region_copy_seg_eq:
  assumes "covered lo hi reg" "nv_ok ok s" "map_sized reg"
    and "copy_ready reg (cells (nv_dev s)) (old + sz) (old + 16) (new + 16) es" "16 + tsize (filter live es) \<le> ri_seg_size reg"
  shows "\<exists>m s'. region_copy_seg stg new old sz chk reg s =
      Some (reg\<lparr>ri_seg_item_map := m, ri_seg_write_offset := new + 16 + tsize (filter live es)\<rparr>, s') \<and> nv_ok ok s' \<and> nv_stack s' = nv_stack s \<and>
    entries_at (cells (nv_dev s')) (ri_base_addr reg + (new + 16)) (filter live es) \<and>
    (\<forall>i. i < ri_base_addr reg + (new + 16) \<or> ri_base_addr reg + (new + 16) + tsize (filter live es) \<le> i \<longrightarrow>
      cells (nv_dev s') i = cells (nv_dev s) i) \<and>
    bitmap_ok (reg\<lparr>ri_seg_item_map := m\<rparr>) 16 (filter live es)"
proof -
  let ?r = "reg\<lparr>ri_seg_item_map := item_bitmap_clear_all (ri_seg_item_map reg) (ri_seg_item_map_size reg)\<rparr>"
  have "copy_ready ?r (cells (nv_dev s)) (old + sz) (old + 16) (new + 16) es" using assms(4) by (simp add: copy_ready_def)
  then show ?thesis
    using copy_seg_loop_eq [of ?r s "old + sz" "old + 16" "new + 16" es "[]" new chk "nv_stack s"] assms(1,2,5) map_sized_clear [OF assms(3)]
    by (auto simp: region_copy_seg_def NVRAM_SEG_ITEM_START_OFFSET_def)
qed

text \<open>Clearing the new segment, if need be, and writing its header.\<close>

lemma purge_start:
  assumes "covered lo hi reg" "nv_ok ok s" "seg_cfg reg off"
  shows "\<exists>s1 s2. region_is_empy stg reg off (ri_seg_size reg) s = (is_blank (cells (nv_dev s)) (ri_base_addr reg + off) (ri_seg_size reg), s1) \<and>
    region_init_new_seg stg off reg (if is_blank (cells (nv_dev s)) (ri_base_addr reg + off) (ri_seg_size reg) then s1
        else snd (region_erase stg reg off (ri_seg_size reg) s1)) =
      (reg\<lparr>ri_seg_seq_id := ri_seg_seq_id reg + 1, ri_seg_offset := off, ri_seg_write_offset := off + 16,
        ri_seg_item_map := item_bitmap_clear_all (ri_seg_item_map reg) (ri_seg_item_map_size reg)\<rparr>, s2) \<and> nv_ok ok s2 \<and> nv_stack s2 = nv_stack s \<and>
    cells (nv_dev s2) = fresh_seg reg (cells (nv_dev s)) off"
proof -
  let ?a = "ri_base_addr reg + off" and ?n = "ri_seg_size reg" and ?f = "cells (nv_dev s)"
  have r: "region_cfg reg" using assms(1) by (simp add: covered_def)
  have off: "off + ?n \<le> ri_total_size reg" "4096 dvd off" "4 dvd ?n"
    using assms(3) dvd_trans [OF region_cfg_facts(3) [OF r], of off] dvd_trans [OF _ region_cfg_facts(3) [OF r], of 4] by (auto simp: seg_cfg_def)
  obtain s1 where s1: "region_is_empy stg reg off ?n s = (is_blank ?f ?a ?n, s1)" "same_nv s s1"
    using region_is_empy_eq [OF assms(1) off(1,3) assms(2)] by blast
  have dev: "nv_dev s1 = nv_dev s" "nv_ok ok s1" "nv_stack s1 = nv_stack s"
    using s1(2) assms(2) same_nv_ok [OF s1(2)] by (simp_all add: same_nv_def)
  define s2 where "s2 = (if is_blank ?f ?a ?n then s1 else snd (region_erase stg reg off ?n s1))"
  have s2: "nv_ok ok s2" "nv_stack s2 = nv_stack s" "cells (nv_dev s2) = blanked ?f ?a ?n"
    using region_erase_eq [OF assms(1) off(1,2) region_cfg_facts(3) [OF r] dev(2)] dev is_blank_id [of ?f ?a ?n] by (auto simp: s2_def)
  have "blanked (blanked ?f ?a ?n) ?a ?n = blanked ?f ?a ?n" by (rule is_blank_id [OF blanked_blank])
  then obtain s3 where "region_init_new_seg stg off reg s2 =
      (reg\<lparr>ri_seg_seq_id := ri_seg_seq_id reg + 1, ri_seg_offset := off, ri_seg_write_offset := off + 16,
        ri_seg_item_map := item_bitmap_clear_all (ri_seg_item_map reg) (ri_seg_item_map_size reg)\<rparr>, s3)" "nv_ok ok s3" "nv_stack s3 = nv_stack s"
      "cells (nv_dev s3) = fresh_seg reg ?f off"
    using region_init_new_seg_eq [OF assms(1) s2(1) assms(3)] unfolding s2(2,3) fresh_seg_def by metis
  then show ?thesis using s1(1) unfolding s2_def by (intro exI [of _ s1] exI [of _ s3]) simp
qed

text \<open>Copying an old segment to a new one that has its header, and the change-over.\<close>

lemma move_seg_eq:
  assumes "covered lo hi reg" "nv_ok ok s2" "cells (nv_dev s2) = fresh_seg reg f new" "map_sized reg"
    and old: "disk_seg reg old f es" "is_valid_region_seg_header (header_at f (ri_base_addr reg + old))"
    and "seg_cfg reg new" "old \<noteq> new" "sz = 16 + tsize es \<or> sz = ri_seg_size reg"
  defines "r1 \<equiv> reg\<lparr>ri_seg_seq_id := ri_seg_seq_id reg + 1, ri_seg_offset := new, ri_seg_write_offset := new + 16,
        ri_seg_item_map := item_bitmap_clear_all (ri_seg_item_map reg) (ri_seg_item_map_size reg)\<rparr>"
  shows "\<exists>reg' s3 s'. region_copy_seg stg new old sz chk r1 s2 = Some (reg', s3) \<and>
    region_seg_update_state stg reg' old NVRAM_STATE_OBSOLETE s3 = s' \<and> nv_ok ok s' \<and> nv_stack s' = nv_stack s2 \<and> same_region reg reg' \<and>
    ri_seg_offset reg' = new \<and> ri_seg_seq_id reg' = ri_seg_seq_id reg + 1 \<and> seg_current reg' (cells (nv_dev s')) (filter live es) \<and>
    \<not> is_valid_region_seg_header (header_at (cells (nv_dev s')) (ri_base_addr reg + old)) \<and>
    (\<forall>i. (i < ri_base_addr reg + new \<or> ri_base_addr reg + new + ri_seg_size reg \<le> i) \<longrightarrow>
      i \<noteq> ri_base_addr reg + old + 4 \<longrightarrow> cells (nv_dev s') i = f i)"
proof -
  let ?b = "ri_base_addr reg" and ?n = "ri_seg_size reg" and ?es = "filter live es"
  let ?g = "fresh_seg reg f new"
  have r: "region_cfg reg" using assms(1) by (simp add: covered_def)
  have cfg: "seg_cfg reg old" "list_all entry_ok ?es" "16 + tsize ?es \<le> ?n" "old + ?n \<le> ri_total_size reg"
    using old(1) tsize_live [of es] by (auto simp: disk_seg_def seg_cfg_def entry_ok_filter)
  note ap = seg_cfg_apart [OF cfg(1) assms(7,8)] and big = region_cfg_facts(5) [OF r]
  have c1: "covered lo hi r1" using assms(1) by (simp add: r1_def)
  have "map_sized r1" using assms(4) by (simp add: r1_def map_sized_def item_bitmap_clear_all_def split: option.splits)
  moreover have "copy_ready r1 (cells (nv_dev s2)) (old + sz) (old + 16) (new + 16) es"
    unfolding assms(3) by (rule move_ready [OF r old(1) assms(7-9)]) (simp_all add: r1_def)
  ultimately obtain m s3 where s3: "region_copy_seg stg new old sz chk r1 s2 =
      Some (r1\<lparr>ri_seg_item_map := m, ri_seg_write_offset := new + 16 + tsize ?es\<rparr>, s3)" "nv_ok ok s3" "nv_stack s3 = nv_stack s2"
      "entries_at (cells (nv_dev s3)) (?b + (new + 16)) ?es"
      "\<And>i. i < ?b + (new + 16) \<or> ?b + (new + 16) + tsize ?es \<le> i \<Longrightarrow> cells (nv_dev s3) i = ?g i"
      "bitmap_ok (r1\<lparr>ri_seg_item_map := m\<rparr>) 16 ?es"
    using region_copy_seg_eq [OF c1 assms(2), of old sz new es chk] cfg(3) by (auto simp: assms(3) r1_def)
  let ?r3 = "r1\<lparr>ri_seg_item_map := m, ri_seg_write_offset := new + 16 + tsize ?es\<rparr>"
  have keep: "cells (nv_dev s3) i = f i" if "i < ?b + new \<or> ?b + new + ?n \<le> i" for i
    using s3(5) [of i] fresh_seg_facts(1) [OF r that] that cfg(3) by auto
  have "cells (nv_dev s3) (?b + (old + 4)) = 0xff"
    using keep [of "?b + (old + 4)"] ap big valid_header_state [OF old(2)] by (auto simp: NVRAM_STATE_VALID_def add.assoc)
  then have "clears (cells (nv_dev s3)) (?b + (old + 4)) [NVRAM_STATE_OBSOLETE]" by (simp add: clears_def ones_and)
  then obtain d where d: "region_write stg ?r3 (old + 4) [NVRAM_STATE_OBSOLETE] s3 = (0, s3\<lparr>nv_dev := d\<rparr>)" "ok d"
      "cells d = overlay (cells (nv_dev s3)) (?b + (old + 4)) [NVRAM_STATE_OBSOLETE]"
    using region_write_eq [of ?r3 s3 "old + 4" "[NVRAM_STATE_OBSOLETE]"] c1 s3(2) cfg(4) big by (auto simp: nv_ok_def r1_def)
  have same: "same_region reg ?r3" by (simp add: same_region_def r1_def)
  show ?thesis
  proof (intro exI conjI)
    show "region_copy_seg stg new old sz chk r1 s2 = Some (?r3, s3)" by (rule s3(1))
    show "region_seg_update_state stg ?r3 old NVRAM_STATE_OBSOLETE s3 = s3\<lparr>nv_dev := d\<rparr>" using d(1) by (simp add: region_seg_update_state_def)
    show "seg_current ?r3 (cells (nv_dev (s3\<lparr>nv_dev := d\<rparr>))) ?es"
      using move_current [OF r cfg(1) assms(7,8) cfg(2,3) _ s3(4,5) same] s3(6) bitmap_ok_cong [of ?r3 "r1\<lparr>ri_seg_item_map := m\<rparr>"]
      by (simp add: d(3) r1_def)
    show "\<not> is_valid_region_seg_header (header_at (cells (nv_dev (s3\<lparr>nv_dev := d\<rparr>))) (?b + old))"
      using header_at_obsolete [of "cells (nv_dev s3)" "?b + old"] by (simp add: d(3) add.assoc)
    show "\<forall>i. i < ?b + new \<or> ?b + new + ?n \<le> i \<longrightarrow> i \<noteq> ?b + old + 4 \<longrightarrow> cells (nv_dev (s3\<lparr>nv_dev := d\<rparr>)) i = f i"
      using keep by (auto simp: d(3) overlay_def)
  qed (use s3(2,3) d(2) same in \<open>auto simp: nv_ok_def r1_def\<close>)
qed

lemma region_purge_seg_eq:
  assumes "covered lo hi reg" "nv_ok ok s" "seg_current reg (cells (nv_dev s)) es"
  shows "\<exists>reg' s'. region_purge_seg stg chk reg s = Some (reg', s') \<and> nv_ok ok s' \<and> nv_stack s' = nv_stack s \<and> same_region reg reg' \<and>
    ri_seg_offset reg' = next_seg reg \<and> ri_seg_seq_id reg' = ri_seg_seq_id reg + 1 \<and> seg_current reg' (cells (nv_dev s')) (filter live es) \<and>
    \<not> is_valid_region_seg_header (header_at (cells (nv_dev s')) (ri_base_addr reg + ri_seg_offset reg)) \<and>
    (\<forall>i. (i < ri_base_addr reg + next_seg reg \<or> ri_base_addr reg + next_seg reg + ri_seg_size reg \<le> i) \<longrightarrow>
      i \<noteq> ri_base_addr reg + ri_seg_offset reg + 4 \<longrightarrow> cells (nv_dev s') i = cells (nv_dev s) i)"
proof -
  let ?b = "ri_base_addr reg" and ?n = "ri_seg_size reg" and ?f = "cells (nv_dev s)" and ?new = "next_seg reg" and ?old = "ri_seg_offset reg"
  have r: "region_cfg reg" using assms(1) by (simp add: covered_def)
  have h: "disk_seg reg ?old ?f es" "ri_seg_write_offset reg - ?old = 16 + tsize es" "map_sized reg"
      "is_valid_region_seg_header (header_at ?f (?b + ?old))" "seg_cfg reg ?old"
    using assms(3) by (auto simp: seg_current_def seg_holds_disk disk_seg_def bitmap_ok_sized)
  note ns = next_seg_facts [OF r h(5)]
  let ?r1 = "reg\<lparr>ri_seg_seq_id := ri_seg_seq_id reg + 1, ri_seg_offset := ?new, ri_seg_write_offset := ?new + 16,
        ri_seg_item_map := item_bitmap_clear_all (ri_seg_item_map reg) (ri_seg_item_map_size reg)\<rparr>"
  obtain s1 s2 where s2: "region_is_empy stg reg ?new ?n s = (is_blank ?f (?b + ?new) ?n, s1)"
      "region_init_new_seg stg ?new reg (if is_blank ?f (?b + ?new) ?n then s1 else snd (region_erase stg reg ?new ?n s1)) = (?r1, s2)"
      "nv_ok ok s2" "nv_stack s2 = nv_stack s" "cells (nv_dev s2) = fresh_seg reg ?f ?new"
    using purge_start [OF assms(1,2) ns(1)] by blast
  have unf: "region_purge_seg stg chk reg s = Some (reg', region_seg_update_state stg reg' ?old NVRAM_STATE_OBSOLETE s3)"
    if "region_copy_seg stg ?new ?old (ri_seg_write_offset reg - ?old) chk ?r1 s2 = Some (reg', s3)" for reg' s3
    using s2(1,2) that by (cases "is_blank ?f (?b + ?new) ?n") (simp_all add: region_purge_seg_def Let_def next_seg_def [symmetric])
  have "ri_seg_write_offset reg - ?old = 16 + tsize es \<or> ri_seg_write_offset reg - ?old = ?n" using h(2) by blast
  from move_seg_eq [OF assms(1) s2(3,5) h(3,1,4) ns(1,4) this, of chk] obtain reg' s3 s' where
      c: "region_copy_seg stg ?new ?old (ri_seg_write_offset reg - ?old) chk ?r1 s2 = Some (reg', s3)"
      and s': "region_seg_update_state stg reg' ?old NVRAM_STATE_OBSOLETE s3 = s'" "nv_ok ok s'" "nv_stack s' = nv_stack s"
        "same_region reg reg'" "ri_seg_offset reg' = ?new" "ri_seg_seq_id reg' = ri_seg_seq_id reg + 1"
        "seg_current reg' (cells (nv_dev s')) (filter live es)" "\<not> is_valid_region_seg_header (header_at (cells (nv_dev s')) (?b + ?old))"
        "\<forall>i. i < ?b + ?new \<or> ?b + ?new + ?n \<le> i \<longrightarrow> i \<noteq> ?b + ?old + 4 \<longrightarrow> cells (nv_dev s') i = ?f i"
    unfolding s2(4) by (elim exE conjE) (rule that)
  have "region_purge_seg stg chk reg s = Some (reg', s')" using unf [OF c] s'(1) by (simp only:)
  then show ?thesis using s'(2-) by (intro exI [of _ reg'] exI [of _ s'] conjI)
qed

end

end
