(* ===== verification/Nvram_Store.thy ===== *)
theory Nvram_Store
  imports Nvram_Purge
begin

text \<open>
  A region as a finite map from names to data: setting, deleting and getting an item, with the space
  the map needs in a segment. Setting moves to a new segment when the current one is full.
\<close>

section \<open>The space a map needs\<close>

definition item_size :: "bytes \<Rightarrow> bytes \<Rightarrow> nat" where
  "item_size name data = item_calc_aligned_size (length name + 1) (length data)"

definition used :: "(bytes \<rightharpoonup> bytes) \<Rightarrow> nat" where
  "used M = (\<Sum>n\<in>dom M. item_size n (the (M n)))"

text \<open>There is room for one more item in a segment that holds the map.\<close>

definition room :: "nat \<Rightarrow> (bytes \<rightharpoonup> bytes) \<Rightarrow> bytes \<Rightarrow> bytes \<Rightarrow> bool" where
  "room seg_size M name data \<longleftrightarrow> 16 + used M + item_size name data \<le> seg_size"

lemma used_empty [simp]: "used Map.empty = 0"
  by (simp add: used_def)

lemma used_insert: "finite (dom M) \<Longrightarrow> M n = None \<Longrightarrow> used (M(n \<mapsto> d)) = item_size n d + used M"
  unfolding used_def by (auto simp: domIff intro!: sum.cong)

lemma used_remove: "finite (dom M) \<Longrightarrow> M n = Some d \<Longrightarrow> used (M(n := None)) + item_size n d = used M"
  using used_insert [of "M(n := None)" n d] by (simp add: fun_upd_idem)

lemma used_remove_le: "finite (dom M) \<Longrightarrow> used (M(n := None)) \<le> used M"
  using used_remove [of M n] by (cases "M n") (auto simp: fun_upd_idem)

lemma used_update_le: "finite (dom M) \<Longrightarrow> used (M(n \<mapsto> d)) \<le> used M + item_size n d"
  using used_insert [of "M(n := None)" n d] used_remove_le [of M n] by simp

lemma finite_lookup: "finite (dom (lookup es))"
proof (rule finite_subset)
  show "dom (lookup es) \<subseteq> (\<lambda>e. butlast (en_name e)) ` set es"
    by (auto simp: lookup_def find_Some_iff is_entry_of_def image_iff) (metis butlast_snoc nth_mem)
qed simp

lemma entry_item_size: "entry_ok e \<Longrightarrow> en_name e = n @ [0] \<Longrightarrow> esize e = item_size n (en_data e)"
  by (simp add: entry_ok_def esize_def item_size_def item_get_aligned_size_def item_get_real_size_def)

lemma used_lookup: "list_all entry_ok es \<Longrightarrow> one_live es \<Longrightarrow> tsize (filter live es) = used (lookup es)"
proof (induction es)
  case Nil
  have "lookup [] = Map.empty" by (simp add: lookup_def fun_eq_iff)
  then show ?case by simp
next
  case (Cons e es)
  have IH: "tsize (filter live es) = used (lookup es)" using Cons by (auto simp: one_live_def split: if_splits)
  show ?case
  proof (cases "live e")
    case True
    obtain n where n: "en_name e = n @ [0]" using entry_ok_live_name Cons.prems(1) True by auto
    have "lookup es n = None"
      using Cons.prems(2) True n by (auto simp: lookup_none one_live_def is_entry_of_def image_iff)
    moreover have "lookup (e # es) = (lookup es)(n \<mapsto> en_data e)" using True n by (simp add: lookup_def is_entry_of_def fun_eq_iff)
    ultimately show ?thesis
      using IH True n used_insert [OF finite_lookup, of es n "en_data e"] entry_item_size [of e n] Cons.prems(1) by (simp del: fun_upd_apply)
  next
    case False
    then have "lookup (e # es) = lookup es" by (simp add: lookup_def is_entry_of_def fun_eq_iff)
    then show ?thesis using IH False by simp
  qed
qed

section \<open>A region that holds a map\<close>

text \<open>The current segment is valid and no other segment of the region has a valid header.\<close>

definition region_holds :: "region_info \<Rightarrow> (nat \<Rightarrow> u8) \<Rightarrow> entry list \<Rightarrow> bool" where
  "region_holds reg f es \<longleftrightarrow> seg_current reg f es \<and> one_live es \<and>
     (\<forall>off. seg_cfg reg off \<longrightarrow> off \<noteq> ri_seg_offset reg \<longrightarrow> \<not> is_valid_region_seg_header (header_at f (ri_base_addr reg + off)))"

text \<open>The cells outside a region stay as they are.\<close>

definition region_frame :: "region_info \<Rightarrow> (nat \<Rightarrow> u8) \<Rightarrow> (nat \<Rightarrow> u8) \<Rightarrow> bool" where
  "region_frame reg f f' \<longleftrightarrow> (\<forall>i. i < ri_base_addr reg \<or> ri_base_addr reg + ri_total_size reg \<le> i \<longrightarrow> f' i = f i)"

lemma region_frame_refl [simp]: "region_frame reg f f"
  by (simp add: region_frame_def)

lemma region_frame_trans:
  "region_frame reg f g \<Longrightarrow> region_frame reg' g h \<Longrightarrow> same_region reg reg' \<Longrightarrow> region_frame reg f h"
  by (simp add: region_frame_def same_region_def)

text \<open>A change of the items of the current segment.\<close>

lemma region_holds_items:
  assumes "region_cfg reg" "region_holds reg f es" "seg_holds reg' f' es'" "one_live es'" "same_region reg reg'"
    and "ri_seg_offset reg' = ri_seg_offset reg" "ri_seg_seq_id reg' = ri_seg_seq_id reg"
    and g: "\<forall>i. i < ri_base_addr reg + ri_seg_offset reg + 16 \<or> ri_base_addr reg + ri_seg_offset reg + ri_seg_size reg \<le> i \<longrightarrow> f' i = f i"
  shows "region_holds reg' f' es'" "region_frame reg f f'"
proof -
  note big = region_cfg_facts(5) [OF assms(1)] and same = assms(5) [unfolded same_region_def]
  have cur: "seg_current reg f es" and cfg: "seg_cfg reg (ri_seg_offset reg)"
    using assms(2) by (auto simp: region_holds_def seg_current_def seg_holds_def)
  have "header_at f' (ri_base_addr reg + off) = header_at f (ri_base_addr reg + off)" if "seg_cfg reg off" for off
    using g big seg_cfg_apart [OF that cfg] by (intro header_at_cong) (cases "off = ri_seg_offset reg"; auto)
  then show "region_holds reg' f' es'"
    using assms(2-4,6,7) cfg same by (auto simp: region_holds_def seg_current_def seg_cfg_def)
  show "region_frame reg f f'" using g cfg by (auto simp: region_frame_def seg_cfg_def)
qed

context nvram_storage
begin

text \<open>Moving to a new segment keeps the map.\<close>

lemma purge_holds:
  assumes "covered lo hi reg" "nv_ok ok s" "region_holds reg (cells (nv_dev s)) es"
  shows "\<exists>reg' s'. region_purge_seg stg chk reg s = Some (reg', s') \<and> nv_ok ok s' \<and> nv_stack s' = nv_stack s \<and> same_region reg reg' \<and>
    region_holds reg' (cells (nv_dev s')) (filter live es) \<and> region_frame reg (cells (nv_dev s)) (cells (nv_dev s'))"
proof -
  let ?b = "ri_base_addr reg" and ?n = "ri_seg_size reg" and ?f = "cells (nv_dev s)"
  have h: "seg_current reg ?f es" "one_live es" "seg_cfg reg (ri_seg_offset reg)"
    using assms(3) by (auto simp: region_holds_def seg_current_def seg_holds_def)
  have r: "region_cfg reg" using assms(1) by (simp add: covered_def)
  note ns = next_seg_facts [OF r h(3)] and big = region_cfg_facts(5) [OF r]
  obtain reg' s' where s': "region_purge_seg stg chk reg s = Some (reg', s')" "nv_ok ok s'" "nv_stack s' = nv_stack s" "same_region reg reg'"
      "ri_seg_offset reg' = next_seg reg" "seg_current reg' (cells (nv_dev s')) (filter live es)"
      "\<not> is_valid_region_seg_header (header_at (cells (nv_dev s')) (?b + ri_seg_offset reg))"
      "\<forall>i. i < ?b + next_seg reg \<or> ?b + next_seg reg + ?n \<le> i \<longrightarrow> i \<noteq> ?b + ri_seg_offset reg + 4 \<longrightarrow> cells (nv_dev s') i = ?f i"
    using region_purge_seg_eq [OF assms(1,2) h(1), of chk] by blast
  have "\<not> is_valid_region_seg_header (header_at (cells (nv_dev s')) (?b + off))"
    if off: "seg_cfg reg off" "off \<noteq> next_seg reg" "off \<noteq> ri_seg_offset reg" for off
  proof -
    have "header_at (cells (nv_dev s')) (?b + off) = header_at ?f (?b + off)"
      using s'(8) seg_cfg_apart [OF off(1) ns(1) off(2)] seg_cfg_apart [OF off(1) h(3) off(3)] big by (intro header_at_cong) auto
    then show ?thesis using assms(3) off by (simp add: region_holds_def)
  qed
  moreover have "one_live (filter live es)" using h(2) by (simp add: one_live_def)
  ultimately have "region_holds reg' (cells (nv_dev s')) (filter live es)"
    using s'(5-7) same_region_seg_cfg [OF s'(4)] unfolding region_holds_def by metis
  moreover have "region_frame reg ?f (cells (nv_dev s'))"
    using s'(8) ns(3) h(3) big by (auto simp: region_frame_def seg_cfg_def)
  ultimately show ?thesis using s'(1-4) by blast
qed

section \<open>Setting and deleting\<close>

lemma region_append_holds:
  assumes "covered lo hi reg" "nv_ok ok s" "region_holds reg (cells (nv_dev s)) es" "good_name name" "length data < 65536"
    and "16 + tsize es + item_size name data \<le> ri_seg_size reg"
  shows "\<exists>reg' s' es'. region_append_item stg name data (length data) (item_size name data) reg s = Some (0, reg', s') \<and>
    nv_ok ok s' \<and> nv_stack s' = nv_stack s \<and> same_region reg reg' \<and> region_holds reg' (cells (nv_dev s')) es' \<and>
    lookup es' = (lookup es)(name \<mapsto> data) \<and> region_frame reg (cells (nv_dev s)) (cells (nv_dev s'))"
proof -
  have h: "seg_holds reg (cells (nv_dev s)) es" "one_live es" using assms(3) by (auto simp: region_holds_def seg_current_def)
  have sz: "esize (new_entry name data) = item_size name data"
    using new_entry_facts(4) [OF assms(4,5)] by (simp add: item_size_def)
  let ?es = "drop_name name es @ [new_entry name data]"
  obtain m w s' where s': "region_append_item stg name data (length data) (item_size name data) reg s =
      Some (0, reg\<lparr>ri_seg_write_offset := w, ri_seg_item_map := m\<rparr>, s')" "nv_ok ok s'" "nv_stack s' = nv_stack s"
      "seg_holds (reg\<lparr>ri_seg_write_offset := w, ri_seg_item_map := m\<rparr>) (cells (nv_dev s')) ?es"
      "\<forall>i. i < ri_base_addr reg + ri_seg_offset reg + 16 \<or> ri_base_addr reg + ri_seg_offset reg + ri_seg_size reg \<le> i \<longrightarrow>
        cells (nv_dev s') i = cells (nv_dev s) i"
    using region_append_item_eq [OF assms(1,2) h assms(4,5)] assms(6) unfolding sz by blast
  have r: "region_cfg reg" using assms(1) by (simp add: covered_def)
  show ?thesis
    using s'(1-3) lookup_set [OF assms(4,5), of es]
      region_holds_items [OF r assms(3) s'(4) one_live_set [OF h(2) assms(4,5)] _ _ _ s'(5)]
    by (intro exI [of _ "reg\<lparr>ri_seg_write_offset := w, ri_seg_item_map := m\<rparr>"] exI [of _ s'] exI [of _ ?es]) (simp add: same_region_def)
qed

lemma region_prepare_holds:
  assumes "covered lo hi reg" "nv_ok ok s" "region_holds reg (cells (nv_dev s)) es" "16 + used (lookup es) + sz \<le> ri_seg_size reg"
  shows "\<exists>reg' s' es'. region_prepare_write_item stg sz reg s = Some (reg', s') \<and> nv_ok ok s' \<and> nv_stack s' = nv_stack s \<and>
    same_region reg reg' \<and> region_holds reg' (cells (nv_dev s')) es' \<and> lookup es' = lookup es \<and> 16 + tsize es' + sz \<le> ri_seg_size reg' \<and>
    region_frame reg (cells (nv_dev s)) (cells (nv_dev s'))"
proof (cases "ri_seg_write_offset reg + sz > ri_seg_offset reg + ri_seg_size reg")
  case True
  obtain reg' s' where s': "region_purge_seg stg False reg s = Some (reg', s')" "nv_ok ok s'" "nv_stack s' = nv_stack s" "same_region reg reg'"
      "region_holds reg' (cells (nv_dev s')) (filter live es)" "region_frame reg (cells (nv_dev s)) (cells (nv_dev s'))"
    using purge_holds [OF assms(1-3), of False] by blast
  have "tsize (filter live es) = used (lookup es)"
    using assms(3) by (intro used_lookup) (auto simp: region_holds_def seg_current_def seg_holds_def)
  then show ?thesis
    using s' True assms(4)
    by (intro exI [of _ reg'] exI [of _ s'] exI [of _ "filter live es"])
      (simp add: region_prepare_write_item_def lookup_filter_live same_region_def)
next
  case False
  moreover have "ri_seg_write_offset reg = ri_seg_offset reg + 16 + tsize es"
    using assms(3) by (simp add: region_holds_def seg_current_def seg_holds_def)
  ultimately show ?thesis using assms(2,3) by (intro exI [of _ reg] exI [of _ s] exI [of _ es]) (simp add: region_prepare_write_item_def)
qed

lemma region_set_eq:
  assumes "covered lo hi reg" "nv_ok ok s" "region_holds reg (cells (nv_dev s)) es" "good_name name"
    and "0 < length data" "length data \<le> NVRAM_MAX_DATA_SIZE" "room (ri_seg_size reg) (lookup es) name data"
  shows "\<exists>reg' s' es'. region_set stg (Some name) (Some data) (int (length data)) reg s = Some (0, reg', s') \<and>
    nv_ok ok s' \<and> nv_stack s' = nv_stack s \<and> same_region reg reg' \<and> region_holds reg' (cells (nv_dev s')) es' \<and>
    lookup es' = (lookup es)(name \<mapsto> data) \<and> region_frame reg (cells (nv_dev s)) (cells (nv_dev s'))"
proof -
  have cfg: "is_in_nvram_region_bounds reg" "length data < 65536" "length name + 1 \<le> NVRAM_MAX_NAME_SIZE"
    using assms(1,4,6) by (simp_all add: covered_def region_cfg_def good_name_def NVRAM_MAX_DATA_SIZE_def)
  have h: "seg_holds reg (cells (nv_dev s)) es" using assms(3) by (auto simp: region_holds_def seg_current_def)
  obtain s1 where s1: "same_nv s s1" "region_is_same_config_data stg reg name data (length data) s = Some (lookup es name = Some data, s1)"
    using region_is_same_config_data_eq [OF assms(1,2) h assms(4)] by blast
  have dev: "nv_dev s1 = nv_dev s" "nv_ok ok s1" "nv_stack s1 = nv_stack s"
    using s1(1) assms(2) same_nv_ok [OF s1(1)] by (simp_all add: same_nv_def)
  show ?thesis
  proof (cases "lookup es name = Some data")
    case True
    then show ?thesis
      using cfg s1(2) dev assms(3,5,6) by (intro exI [of _ reg] exI [of _ s1] exI [of _ es]) (auto simp: region_set_def)
  next
    case False
    obtain r2 s2 es2 where s2: "region_prepare_write_item stg (item_size name data) reg s1 = Some (r2, s2)" "nv_ok ok s2" "nv_stack s2 = nv_stack s"
        "same_region reg r2" "region_holds r2 (cells (nv_dev s2)) es2" "lookup es2 = lookup es"
        "16 + tsize es2 + item_size name data \<le> ri_seg_size r2" "region_frame reg (cells (nv_dev s)) (cells (nv_dev s2))"
      using region_prepare_holds [OF assms(1) dev(2), of es "item_size name data"] assms(3,7) by (auto simp: dev room_def)
    obtain reg' s' es' where s': "region_append_item stg name data (length data) (item_size name data) r2 s2 = Some (0, reg', s')"
        "nv_ok ok s'" "nv_stack s' = nv_stack s2" "same_region r2 reg'" "region_holds reg' (cells (nv_dev s')) es'"
        "lookup es' = (lookup es2)(name \<mapsto> data)" "region_frame r2 (cells (nv_dev s2)) (cells (nv_dev s'))"
      using region_append_holds [OF _ s2(2,5) assms(4) cfg(2) s2(7)] assms(1) same_region_covered [OF s2(4)] by blast
    have "region_set stg (Some name) (Some data) (int (length data)) reg s = Some (0, reg', s')"
      using cfg s1(2) False s2(1) s'(1) assms(5,6) by (simp add: region_set_def item_size_def)
    then show ?thesis
      using s' s2(3,6) same_region_trans [OF s2(4) s'(4)] region_frame_trans [OF s2(8) s'(7) s2(4)]
      by (intro exI [of _ reg'] exI [of _ s'] exI [of _ es']) simp
  qed
qed

text \<open>A length that is not positive deletes.\<close>

lemma region_delete_eq:
  assumes "covered lo hi reg" "nv_ok ok s" "region_holds reg (cells (nv_dev s)) es" "good_name name" "len \<le> 0" "data = None \<longrightarrow> len = 0"
  shows "\<exists>reg' s' es'. region_set stg (Some name) data len reg s = Some (0, reg', s') \<and>
    nv_ok ok s' \<and> nv_stack s' = nv_stack s \<and> same_region reg reg' \<and> region_holds reg' (cells (nv_dev s')) es' \<and>
    lookup es' = (lookup es)(name := None) \<and> region_frame reg (cells (nv_dev s)) (cells (nv_dev s'))"
proof -
  have cfg: "is_in_nvram_region_bounds reg" "length name + 1 \<le> NVRAM_MAX_NAME_SIZE" "region_cfg reg"
    using assms(1,4) by (simp_all add: covered_def region_cfg_def good_name_def)
  have h: "seg_holds reg (cells (nv_dev s)) es" "one_live es" using assms(3) by (auto simp: region_holds_def seg_current_def)
  obtain item' s1 where s1: "same_nv s s1" "region_find_item stg reg name (nv_stack s) s =
      Some (case find_entry name 16 es of None \<Rightarrow> (- ENOENT, item', s1) | Some (q, e) \<Rightarrow> (int (ri_seg_offset reg + q), en_item e, s1))"
    using find_in_segment [OF assms(1,2) h(1) assms(4), of "nv_stack s"] by blast
  have dev: "nv_dev s1 = nv_dev s" "nv_ok ok s1" "nv_stack s1 = nv_stack s"
    using s1(1) assms(2) same_nv_ok [OF s1(1)] by (simp_all add: same_nv_def)
  define pos where "pos = (case find_entry name 16 es of None \<Rightarrow> - ENOENT | Some (q, e) \<Rightarrow> int (ri_seg_offset reg + q))"
  obtain m s' where s': "retire_item stg pos reg s1 = Some (reg\<lparr>ri_seg_item_map := m\<rparr>, s')" "nv_ok ok s'" "nv_stack s' = nv_stack s"
      "seg_holds (reg\<lparr>ri_seg_item_map := m\<rparr>) (cells (nv_dev s')) (drop_name name es)"
      "\<forall>i. i < ri_base_addr reg + ri_seg_offset reg + 16 \<or> ri_base_addr reg + ri_seg_offset reg + ri_seg_size reg \<le> i \<longrightarrow>
        cells (nv_dev s') i = cells (nv_dev s) i"
    using retire_found [OF assms(1) dev(2), of es "[]" pos name] h dev pos_def by auto
  obtain item2 where "region_find_item stg reg name (nv_stack s) s = Some (pos, item2, s1)"
    using s1(2) by (cases "find_entry name 16 es") (auto simp: pos_def)
  then have "region_set stg (Some name) data len reg s = Some (0, reg\<lparr>ri_seg_item_map := m\<rparr>, s')"
    using cfg(1,2) s'(1) assms(5,6) by (auto simp: region_set_def)
  then show ?thesis
    using s'(2,3) lookup_drop_name [of name es]
      region_holds_items [OF cfg(3) assms(3) s'(4) one_live_drop_name [OF h(2)] _ _ _ s'(5)]
    by (intro exI [of _ "reg\<lparr>ri_seg_item_map := m\<rparr>"] exI [of _ s'] exI [of _ "drop_name name es"]) (simp add: same_region_def)
qed

end

end
