(* ===== verification/Nvram_Scan.thy ===== *)
theory Nvram_Scan
  imports Nvram_Store
begin

text \<open>
  The scan of a segment at start-up. It rebuilds the bitmap and the write offset from the storage,
  and of several live items with one name, which an interrupted update leaves behind, it keeps the last.
\<close>

section \<open>What the scan leaves\<close>

fun scan_entries :: "entry list \<Rightarrow> entry list \<Rightarrow> entry list" where
  "scan_entries dn [] = dn"
| "scan_entries dn (e # es) = scan_entries ((if live e then drop_name (butlast (en_name e)) dn else dn) @ [e]) es"

lemma tsize_scan_entries: "tsize (scan_entries dn es) = tsize dn + tsize es"
  by (induction es arbitrary: dn) auto

lemma lookup_Nil [simp]: "lookup [] n = None"
  by (simp add: lookup_def)

lemma lookup_single: "lookup [e] n = (if is_entry_of n e then Some (en_data e) else None)"
  by (simp add: lookup_def)

lemma lookup_retire_append:
  assumes "live e" "en_name e = n @ [0]"
  shows "lookup (drop_name n dn @ [e]) = (lookup dn)(n \<mapsto> en_data e)"
proof
  fix k
  have "is_entry_of k e \<longleftrightarrow> k = n" using assms by (auto simp: is_entry_of_def)
  then show "lookup (drop_name n dn @ [e]) k = ((lookup dn)(n \<mapsto> en_data e)) k"
    by (auto simp: lookup_append lookup_drop_name lookup_single split: option.split)
qed

lemma lookup_scan_entries:
  "list_all entry_ok es \<Longrightarrow> lookup (scan_entries dn es) n = (case lookup (rev es) n of None \<Rightarrow> lookup dn n | Some d \<Rightarrow> Some d)"
proof (induction es arbitrary: dn)
  case Nil
  then show ?case by (simp add: lookup_def)
next
  case (Cons e es)
  show ?case
  proof (cases "live e")
    case True
    obtain k where k: "en_name e = k @ [0]" using entry_ok_live_name Cons.prems True by auto
    have "is_entry_of n e \<longleftrightarrow> n = k" using True k by (auto simp: is_entry_of_def)
    then show ?thesis
      using Cons True k lookup_retire_append [OF True k, of dn] by (auto simp: lookup_append lookup_single split: option.split)
  next
    case False
    then have "lookup [e] n = None" by (simp add: lookup_single is_entry_of_def)
    then show ?thesis using Cons False by (auto simp: lookup_append split: option.split)
  qed
qed

lemma one_live_snoc: "one_live dn \<Longrightarrow> \<not> live e \<Longrightarrow> one_live (dn @ [e])"
  by (simp add: one_live_def)

lemma one_live_retire_append: "one_live dn \<Longrightarrow> en_name e = n @ [0] \<Longrightarrow> one_live (drop_name n dn @ [e])"
  using one_live_drop_name [of dn n] by (auto simp: one_live_def live_drop_name is_entry_of_def)

text \<open>A segment with one live item per name is left as it is.\<close>

lemma lookup_rev: "one_live es \<Longrightarrow> lookup (rev es) = lookup es"
proof (induction es)
  case (Cons e es)
  have IH: "lookup (rev es) = lookup es" using Cons by (auto simp: one_live_def split: if_splits)
  have "lookup es n = None" if "is_entry_of n e" for n
    using Cons.prems that by (auto simp: lookup_none one_live_def is_entry_of_def image_iff)
  then show ?case
    using IH lookup_append [of "[e]" es] by (auto simp: fun_eq_iff lookup_append lookup_single split: option.split)
qed simp

lemma find_entry_append:
  "find_entry name p (xs @ ys) = (case find_entry name p xs of None \<Rightarrow> find_entry name (p + tsize xs) ys | Some r \<Rightarrow> Some r)"
  by (induction xs arbitrary: p) (auto simp: add.assoc split: option.split)

section \<open>The state of a scan\<close>

text \<open>The entries of the segment, of which those in \<open>dn\<close> have been visited and have their bits set.\<close>

definition scanning :: "region_info \<Rightarrow> (nat \<Rightarrow> u8) \<Rightarrow> entry list \<Rightarrow> entry list \<Rightarrow> bool" where
  "scanning reg f dn es \<longleftrightarrow> bitmap_ok reg 16 dn \<and>
     seg_holds (reg\<lparr>ri_seg_write_offset := ri_seg_offset reg + 16 + tsize (dn @ es), ri_seg_item_map := None\<rparr>) f (dn @ es)"

lemma bitmap_ok_none [simp]: "bitmap_ok (reg\<lparr>ri_seg_item_map := None\<rparr>) p es"
  by (simp add: bitmap_ok_def)

lemma scanning_done:
  "scanning reg f es [] \<longleftrightarrow> seg_holds (reg\<lparr>ri_seg_write_offset := ri_seg_offset reg + 16 + tsize es\<rparr>) f es"
  by (auto simp: scanning_def seg_holds_def)

lemma scanning_region:
  assumes "region_cfg reg" "scanning reg f dn es"
  shows "ri_seg_offset reg + ri_seg_size reg \<le> ri_total_size reg" "16 dvd ri_seg_size reg" "list_all entry_ok (dn @ es)"
    "entries_at f (ri_base_addr reg + ri_seg_offset reg + 16) (dn @ es)" "16 + tsize (dn @ es) \<le> ri_seg_size reg"
    "ri_seg_item_map reg = None \<Longrightarrow> search_end reg (16 + tsize (dn @ es)) f"
  using assms(1) seg_holds_region [of "reg\<lparr>ri_seg_write_offset := ri_seg_offset reg + 16 + tsize (dn @ es), ri_seg_item_map := None\<rparr>" f "dn @ es"]
    assms(2) by (simp_all add: scanning_def search_end_def)

lemma scanning_skip:
  assumes "scanning reg f dn (e # es)" "\<not> live e"
  shows "scanning reg f (dn @ [e]) es"
proof -
  have "live_offs 16 (dn @ [e]) = live_offs 16 dn" using assms(2) by (simp add: live_offs_append)
  then have "bitmap_ok reg 16 (dn @ [e])" using assms(1) by (simp add: scanning_def bitmap_ok_def split: option.splits)
  then show ?thesis using assms(1) by (simp add: scanning_def)
qed

lemma scanning_set_bit:
  assumes "scanning reg f dn (e # es)" "live e"
  shows "\<exists>m. item_bitmap_update (ri_seg_item_map reg) (16 + tsize dn) True = Some m \<and> scanning (reg\<lparr>ri_seg_item_map := m\<rparr>) f (dn @ [e]) es"
proof -
  have "16 + tsize dn + esize e \<le> ri_seg_size reg" using assms(1) by (simp add: scanning_def seg_holds_def)
  moreover have "live_offs 16 (dn @ [e]) = insert (16 + tsize dn) (live_offs 16 dn)" using assms(2) by (simp add: live_offs_append)
  ultimately obtain m where "item_bitmap_update (ri_seg_item_map reg) (16 + tsize dn) True = Some m"
      "bitmap_ok (reg\<lparr>ri_seg_item_map := m\<rparr>) 16 (dn @ [e])"
    using bitmap_ok_update [of reg dn "16 + tsize dn" "dn @ [e]" True] assms(1) esize_facts(3) [of e] tsize_dvd [of dn] by (auto simp: scanning_def)
  then show ?thesis using assms(1) by (intro exI [of _ m]) (simp add: scanning_def)
qed

section \<open>Scanning one item\<close>

lemma item_update_state_upd [simp]:
  "item_update_state stg (reg\<lparr>ri_seg_write_offset := w\<rparr>) = item_update_state stg reg"
  "item_update_state stg (reg\<lparr>ri_seg_item_map := m\<rparr>) = item_update_state stg reg"
  by (simp_all add: item_update_state_def region_write_def is_in_nvram_region_bounds_def fun_eq_iff)

lemma item_bitmap_update_None [simp]: "item_bitmap_update None p b = Some None"
  by (simp add: item_bitmap_update_def)

lemma c_string_name: "good_name n \<Longrightarrow> c_string (n @ 0 # zs) = Some n"
  by (auto simp: c_string_def good_name_def takeWhile_tail)

context nvram_storage
begin

text \<open>The search meets the visited entries first; without a bitmap it may go on to the item itself.\<close>

lemma scan_find:
  assumes "covered lo hi reg" "nv_ok ok s" "scanning reg (cells (nv_dev s)) dn (e # es)" "live e" "en_name e = n @ [0]" "good_name n"
  shows "\<exists>pos item' s'. region_find_item stg reg n old s = Some (pos, item', s') \<and> same_nv s s' \<and>
    (case find_entry n 16 dn of Some (q, _) \<Rightarrow> pos = int (ri_seg_offset reg + q)
     | None \<Rightarrow> pos < 0 \<or> pos = int (ri_seg_offset reg + (16 + tsize dn)))"
proof -
  have r: "region_cfg reg" using assms(1) by (simp add: covered_def)
  note h = scanning_region [OF r assms(3)]
  show ?thesis
  proof (cases "ri_seg_item_map reg")
    case None
    have "bitmap_ok reg 16 (dn @ e # es)" using None by (simp add: bitmap_ok_def)
    then obtain item' s' where s': "same_nv s s'" "region_find_item stg reg n old s = Some (case find_entry n 16 (dn @ e # es) of
        None \<Rightarrow> (- ENOENT, item', s') | Some (q, e) \<Rightarrow> (int (ri_seg_offset reg + q), en_item e, s'))"
      using region_find_item_eq [OF assms(1) h(1,2) assms(6,2) h(3,4,5) _ h(6) [OF None], of old] by blast
    then show ?thesis
      using assms(4,5) by (cases "find_entry n 16 dn") (auto simp: find_entry_append)
  next
    case (Some m)
    have "list_all entry_ok dn" "entries_at (cells (nv_dev s)) (ri_base_addr reg + ri_seg_offset reg + 16) dn"
        "16 + tsize dn \<le> ri_seg_size reg" "bitmap_ok reg 16 dn" "search_end reg (16 + tsize dn) (cells (nv_dev s))"
      using h(3-5) assms(3) Some by (auto simp: entries_at_append scanning_def search_end_def)
    then obtain item' s' where s': "same_nv s s'" "region_find_item stg reg n old s = Some (case find_entry n 16 dn of
        None \<Rightarrow> (- ENOENT, item', s') | Some (q, e) \<Rightarrow> (int (ri_seg_offset reg + q), en_item e, s'))"
      using region_find_item_eq [OF assms(1) h(1,2) assms(6,2), of dn old] by blast
    then show ?thesis by (cases "find_entry n 16 dn") auto
  qed
qed

lemma scan_retire:
  assumes "covered lo hi reg" "nv_ok ok s" "scanning reg (cells (nv_dev s)) dn es" "one_live dn" "find_entry n 16 dn = Some (q, e)"
  shows "\<exists>m s'. retire_item stg (int (ri_seg_offset reg + q)) reg s = Some (reg\<lparr>ri_seg_item_map := m\<rparr>, s') \<and> nv_ok ok s' \<and> nv_stack s' = nv_stack s \<and>
    scanning (reg\<lparr>ri_seg_item_map := m\<rparr>) (cells (nv_dev s')) (drop_name n dn) es \<and>
    (\<forall>i. i < ri_base_addr reg + ri_seg_offset reg + 16 \<or> ri_base_addr reg + ri_seg_offset reg + ri_seg_size reg \<le> i \<longrightarrow>
      cells (nv_dev s') i = cells (nv_dev s) i)"
proof -
  obtain xs ys where x: "dn = xs @ e # ys" "q = 16 + tsize xs" "is_entry_of n e" using find_entry_Some [OF assms(5)] by blast
  let ?w = "ri_seg_offset reg + 16 + tsize (dn @ es)"
  let ?r0 = "reg\<lparr>ri_seg_write_offset := ?w, ri_seg_item_map := None\<rparr>"
  have h0: "seg_holds ?r0 (cells (nv_dev s)) (xs @ e # (ys @ es))" "live e" "covered lo hi ?r0"
    using assms(1,3) x by (simp_all add: scanning_def is_entry_of_def)
  obtain m0 s' where s0: "retire_item stg (int (ri_seg_offset ?r0 + (16 + tsize xs))) ?r0 s = Some (?r0\<lparr>ri_seg_item_map := m0\<rparr>, s')"
      "cells (nv_dev s') = overlay (cells (nv_dev s)) (ri_base_addr ?r0 + ri_seg_offset ?r0 + 16 + tsize xs + 1) [NVRAM_STATE_OBSOLETE]"
      and s': "nv_ok ok s'" "nv_stack s' = nv_stack s" "seg_holds (?r0\<lparr>ri_seg_item_map := m0\<rparr>) (cells (nv_dev s')) (xs @ retire e # (ys @ es))"
    using retire_item_eq [OF h0(3) assms(2) h0(1,2)] by blast
  have st: "item_update_state stg reg (ri_seg_offset reg + q) NVRAM_STATE_OBSOLETE s = s'" "m0 = None"
    using s0(1) unfolding retire_item_def nat_int by (auto simp: x(2) dest: arg_cong [of _ _ ri_seg_item_map])
  have dn: "drop_name n dn = xs @ retire e # ys" using drop_name_split [of xs e ys n] assms(4) x by simp
  have sz: "16 + tsize xs + esize e \<le> ri_seg_size reg" "16 \<le> esize e" using h0(1) esize_facts(3) by (simp_all add: seg_holds_def)
  have "live_offs 16 (drop_name n dn) = live_offs 16 dn - {q}"
    unfolding dn unfolding x(1,2) by (rule live_offs_retire_eq)
  then obtain m where m: "item_bitmap_update (ri_seg_item_map reg) q False = Some m" "bitmap_ok (reg\<lparr>ri_seg_item_map := m\<rparr>) 16 (drop_name n dn)"
    using bitmap_ok_update [of reg dn q "drop_name n dn" False] assms(3) sz tsize_dvd [of xs] x(2) by (auto simp: scanning_def)
  have "retire_item stg (int (ri_seg_offset reg + q)) reg s = Some (reg\<lparr>ri_seg_item_map := m\<rparr>, s')"
    unfolding retire_item_def nat_int using st(1) m(1) x(2) by simp
  moreover have "scanning (reg\<lparr>ri_seg_item_map := m\<rparr>) (cells (nv_dev s')) (drop_name n dn) es"
    using m(2) s'(3) st(2) dn x(1) by (simp add: scanning_def)
  moreover have "\<forall>i. i < ri_base_addr reg + ri_seg_offset reg + 16 \<or> ri_base_addr reg + ri_seg_offset reg + ri_seg_size reg \<le> i \<longrightarrow>
      cells (nv_dev s') i = cells (nv_dev s) i"
    unfolding s0(2) using sz by (auto intro!: overlay_other)
  ultimately show ?thesis using s'(1,2) by blast
qed

lemma item_name_read:
  assumes "covered lo hi reg" "nv_ok ok s" "entry_ok e" "live e" "en_name e = n @ [0]" "good_name n" "q + esize e \<le> ri_total_size reg"
    and "mem_slice (cells (nv_dev s)) (ri_base_addr reg + q) (length (entry_bytes e)) = entry_bytes e"
  shows "\<exists>zs. item_get_item_name stg reg q (en_item e) (replicate NVRAM_MAX_NAME_SIZE 0) s = (0, n @ 0 # zs)"
proof -
  have l: "unat (it_name_size (en_item e)) = length n + 1" "it_magic (en_item e) = NVRAM_REGION_ITEM_MAGIC" "it_state (en_item e) = NVRAM_STATE_VALID"
    using assms(3-5) by (simp_all add: entry_ok_def live_def)
  have "8 + length (en_name e) \<le> esize e" using esize_facts(1) [OF assms(3)] by (simp add: entry_bytes_def)
  then have "region_read stg reg (q + 8) (length n + 1) s = (0, n @ [0])"
    using region_read_eq [OF assms(1), of s "q + 8" "length n + 1"] assms(2,5,7) entry_parts(2) [OF assms(8)]
    by (simp add: nv_ok_def add.assoc)
  then show ?thesis
    using l assms(6) by (simp add: item_get_item_name_def SIZEOF_ITEM_def good_name_def blit_def)
qed

lemma scan_valid_item_eq:
  assumes "covered lo hi reg" "nv_ok ok s" "scanning reg (cells (nv_dev s)) dn (e # es)" "one_live dn" "live e" "en_name e = n @ [0]" "good_name n"
  shows "\<exists>old' m s'. scan_valid_item stg (16 + tsize dn) (en_item e) old reg s = Some (old', reg\<lparr>ri_seg_item_map := m\<rparr>, s') \<and>
    nv_ok ok s' \<and> nv_stack s' = nv_stack s \<and> scanning (reg\<lparr>ri_seg_item_map := m\<rparr>) (cells (nv_dev s')) (drop_name n dn @ [e]) es \<and>
    (\<forall>i. i < ri_base_addr reg + ri_seg_offset reg + 16 \<or> ri_base_addr reg + ri_seg_offset reg + ri_seg_size reg \<le> i \<longrightarrow>
      cells (nv_dev s') i = cells (nv_dev s) i)"
proof -
  have r: "region_cfg reg" using assms(1) by (simp add: covered_def)
  note h = scanning_region [OF r assms(3)]
  let ?q = "ri_seg_offset reg + (16 + tsize dn)"
  have e: "entry_ok e" "?q + esize e \<le> ri_total_size reg"
      "mem_slice (cells (nv_dev s)) (ri_base_addr reg + ?q) (length (entry_bytes e)) = entry_bytes e"
    using h(1,3-5) by (auto simp: entries_at_append add.assoc)
  obtain zs where nm: "item_get_item_name stg reg ?q (en_item e) (replicate NVRAM_MAX_NAME_SIZE 0) s = (0, n @ 0 # zs)"
    using item_name_read [OF assms(1,2) e(1) assms(5-7) e(2,3)] by blast
  obtain pos item' s1 where s1: "region_find_item stg reg n old s = Some (pos, item', s1)" "same_nv s s1"
      "case find_entry n 16 dn of Some (q, _) \<Rightarrow> pos = int (ri_seg_offset reg + q) | None \<Rightarrow> pos < 0 \<or> pos = int ?q"
    using scan_find [OF assms(1-3,5-7)] by blast
  have dev: "nv_dev s1 = nv_dev s" "nv_ok ok s1" "nv_stack s1 = nv_stack s"
    using s1(2) assms(2) same_nv_ok [OF s1(2)] by (simp_all add: same_nv_def)
  let ?act = "if pos > 0 \<and> pos \<noteq> int ?q then retire_item stg pos reg s1 else Some (reg, s1)"
  obtain m s2 where s2: "?act = Some (reg\<lparr>ri_seg_item_map := m\<rparr>, s2)" "nv_ok ok s2" "nv_stack s2 = nv_stack s"
      "scanning (reg\<lparr>ri_seg_item_map := m\<rparr>) (cells (nv_dev s2)) (drop_name n dn) (e # es)"
      "\<forall>i. i < ri_base_addr reg + ri_seg_offset reg + 16 \<or> ri_base_addr reg + ri_seg_offset reg + ri_seg_size reg \<le> i \<longrightarrow>
        cells (nv_dev s2) i = cells (nv_dev s) i"
  proof (cases "find_entry n 16 dn")
    case None
    then have "?act = Some (reg\<lparr>ri_seg_item_map := ri_seg_item_map reg\<rparr>, s1)" using s1(3) by auto
    moreover have "drop_name n dn = dn" using None drop_name_none [of dn n] by (simp add: find_entry_None)
    ultimately show ?thesis using that [of "ri_seg_item_map reg" s1] dev assms(3) by simp
  next
    case (Some qe)
    obtain q e' where qe: "find_entry n 16 dn = Some (q, e')" using Some by (cases qe) auto
    obtain xs ys where x: "dn = xs @ e' # ys" "q = 16 + tsize xs" using find_entry_Some [OF qe] by blast
    have "?act = retire_item stg (int (ri_seg_offset reg + q)) reg s1"
      using s1(3) qe x esize_facts(3) [of e'] by auto
    then show ?thesis
      using that scan_retire [OF assms(1) dev(2), of dn "e # es" n q e'] assms(3,4) qe dev by auto
  qed
  obtain m' where m': "item_bitmap_update m (16 + tsize dn) True = Some m'"
      "scanning (reg\<lparr>ri_seg_item_map := m'\<rparr>) (cells (nv_dev s2)) (drop_name n dn @ [e]) es"
    using scanning_set_bit [OF s2(4) assms(5)] by auto
  have "ri_seg_item_map reg = m" if "\<not> (pos > 0 \<and> pos \<noteq> int ?q)"
    using s2(1) that by (auto dest!: arg_cong [of _ _ ri_seg_item_map])
  then have "scan_valid_item stg (16 + tsize dn) (en_item e) old reg s = Some (item', reg\<lparr>ri_seg_item_map := m'\<rparr>, s2)"
    using nm s1(1) s2(1) m'(1) c_string_name [OF assms(7)] by (auto simp: scan_valid_item_def split: if_splits)
  then show ?thesis using s2(2,3,5) m'(2) by blast
qed

section \<open>Scanning a segment\<close>

lemma scan_stop:
  assumes "covered lo hi reg" "nv_ok ok s" "scanning reg (cells (nv_dev s)) dn []"
  shows "seg_scan_loop stg (16 + tsize dn) item old reg s = Some (0, 16 + tsize dn, reg, s)"
proof (cases "16 + tsize dn < ri_seg_size reg")
  case True
  have r: "region_cfg reg" using assms(1) by (simp add: covered_def)
  note h = scanning_region [OF r assms(3)]
  have "16 dvd 16 + tsize dn" using tsize_dvd by simp
  then have "16 + tsize dn + 16 \<le> ri_seg_size reg" using multiple_apart [OF _ h(2)] True by fastforce
  moreover have "is_blank (cells (nv_dev s)) (ri_base_addr reg + (ri_seg_offset reg + (16 + tsize dn))) (ri_seg_size reg - 16 - tsize dn)"
    using assms(3) by (simp add: scanning_def seg_holds_def add.assoc)
  ultimately have b: "ri_seg_offset reg + (16 + tsize dn) + 8 \<le> ri_total_size reg"
      "is_blank (cells (nv_dev s)) (ri_base_addr reg + (ri_seg_offset reg + (16 + tsize dn))) 8"
    using h(1) by (auto elim: is_blank_sub)
  show ?thesis
    using True read_blank_header [OF assms(1,2) b] by (subst seg_scan_loop.simps) (simp add: Let_def)
qed (subst seg_scan_loop.simps, simp)

lemma seg_scan_loop_eq:
  "covered lo hi reg \<Longrightarrow> nv_ok ok s \<Longrightarrow> scanning reg (cells (nv_dev s)) dn es \<Longrightarrow> one_live dn \<Longrightarrow>
    \<exists>m s'. seg_scan_loop stg (16 + tsize dn) item old reg s = Some (0, 16 + tsize dn + tsize es, reg\<lparr>ri_seg_item_map := m\<rparr>, s') \<and>
    nv_ok ok s' \<and> nv_stack s' = nv_stack s \<and> scanning (reg\<lparr>ri_seg_item_map := m\<rparr>) (cells (nv_dev s')) (scan_entries dn es) [] \<and>
    one_live (scan_entries dn es) \<and>
    (\<forall>i. i < ri_base_addr reg + ri_seg_offset reg + 16 \<or> ri_base_addr reg + ri_seg_offset reg + ri_seg_size reg \<le> i \<longrightarrow>
      cells (nv_dev s') i = cells (nv_dev s) i)"
proof (induction es arbitrary: dn item old reg s)
  case Nil
  then show ?case using scan_stop [OF Nil.prems(1-3)] by (intro exI [of _ "ri_seg_item_map reg"] exI [of _ s]) simp
next
  case (Cons e es)
  let ?b = "ri_base_addr reg" and ?q = "ri_seg_offset reg + (16 + tsize dn)"
  have r: "region_cfg reg" using Cons.prems(1) by (simp add: covered_def)
  note h = scanning_region [OF r Cons.prems(3)]
  have e: "entry_ok e" "?q + esize e \<le> ri_total_size reg" "16 + tsize dn < ri_seg_size reg"
      "mem_slice (cells (nv_dev s)) (?b + ?q) (length (entry_bytes e)) = entry_bytes e"
    using h(1,3-5) esize_facts(3) [of e] by (auto simp: entries_at_append add.assoc)
  obtain s1 where s1: "item_check_validity stg reg ?q (en_item e) True s = Some (if live e then ITEM_STATUS_VALID else ITEM_STATUS_OBSOLETE, s1)"
      "same_nv s s1"
    using item_check_validity_eq [OF Cons.prems(1,2) e(1,2,4), of True] by blast
  have dev: "nv_dev s1 = nv_dev s" "nv_ok ok s1" "nv_stack s1 = nv_stack s"
    using s1(2) Cons.prems(2) same_nv_ok [OF s1(2)] by (simp_all add: same_nv_def)
  note rd = read_header [OF Cons.prems(1,2) e(1,2,4)]
  have sz: "16 + tsize dn + item_get_aligned_size (en_item e) = 16 + tsize dn + esize e" by (simp add: esize_def)
  show ?case
  proof (cases "live e")
    case False
    have "seg_scan_loop stg (16 + tsize dn) item old reg s = seg_scan_loop stg (16 + tsize (dn @ [e])) (en_item e) old reg s1"
      using False e(3) rd s1(1) sz by (subst seg_scan_loop.simps) (simp add: Let_def add.assoc)
    then show ?thesis
      using Cons.IH [OF Cons.prems(1) dev(2), of "dn @ [e]" "en_item e" old] scanning_skip [OF Cons.prems(3) False]
        one_live_snoc [OF Cons.prems(4) False] dev False by (simp add: add.assoc)
  next
    case True
    obtain n where n: "en_name e = n @ [0]" "good_name n" using entry_ok_live_name [OF e(1) True] by blast
    obtain old' m s2 where s2: "scan_valid_item stg (16 + tsize dn) (en_item e) old reg s1 = Some (old', reg\<lparr>ri_seg_item_map := m\<rparr>, s2)"
        "nv_ok ok s2" "nv_stack s2 = nv_stack s" "scanning (reg\<lparr>ri_seg_item_map := m\<rparr>) (cells (nv_dev s2)) (drop_name n dn @ [e]) es"
        "\<forall>i. i < ?b + ri_seg_offset reg + 16 \<or> ?b + ri_seg_offset reg + ri_seg_size reg \<le> i \<longrightarrow> cells (nv_dev s2) i = cells (nv_dev s) i"
      using scan_valid_item_eq [OF Cons.prems(1) dev(2) _ Cons.prems(4) True n, of es old] Cons.prems(3) dev by auto
    have "seg_scan_loop stg (16 + tsize dn) item old reg s =
        seg_scan_loop stg (16 + tsize (drop_name n dn @ [e])) (en_item e) old' (reg\<lparr>ri_seg_item_map := m\<rparr>) s2"
      using True e(3) rd s1(1) s2(1) sz by (subst seg_scan_loop.simps) (simp add: Let_def add.assoc)
    then show ?thesis
      using Cons.IH [OF _ s2(2,4) one_live_retire_append [OF Cons.prems(4) n(1)], of "en_item e" old'] Cons.prems(1) s2(3,5) True n(1)
      by (simp add: add.assoc)
  qed
qed

end

end
