(* ===== verification/Nvram_Boot.thy ===== *)
theory Nvram_Boot
  imports Nvram_Scan
begin

text \<open>
  The start-up of a region: choosing the newest segment, finishing a copy that a power failure has
  interrupted, and rebuilding the state in memory. What was stored before is found again.
\<close>

section \<open>The segments of a region\<close>

definition seg_offsets :: "region_info \<Rightarrow> nat list" where
  "seg_offsets reg = map (\<lambda>i. i * ri_seg_size reg) [0..<ri_total_size reg div ri_seg_size reg]"

lemma seg_offsets_set:
  assumes "region_cfg reg"
  shows "off \<in> set (seg_offsets reg) \<longleftrightarrow> seg_cfg reg off"
proof -
  obtain k where k: "ri_total_size reg = ri_seg_size reg * k" using region_cfg_facts(4) [OF assms] by blast
  have n: "0 < ri_seg_size reg" using region_cfg_facts(5) [OF assms] by simp
  have d: "ri_total_size reg div ri_seg_size reg = k" using k n by simp
  have lt: "i < k \<longleftrightarrow> i * ri_seg_size reg + ri_seg_size reg \<le> ri_total_size reg" for i
    using mult_le_cancel2 [of "Suc i" "ri_seg_size reg" k] n by (simp add: k mult.commute add.commute Suc_le_eq)
  show ?thesis
  proof
    assume "off \<in> set (seg_offsets reg)"
    then obtain i where "i < k" "off = i * ri_seg_size reg" by (auto simp: seg_offsets_def d)
    then show "seg_cfg reg off" using lt by (simp add: seg_cfg_def)
  next
    assume *: "seg_cfg reg off"
    then obtain i where i: "off = i * ri_seg_size reg" using dvdE [of "ri_seg_size reg" off] by (auto simp: seg_cfg_def mult.commute)
    then have "i < k" using * lt by (simp add: seg_cfg_def)
    then show "off \<in> set (seg_offsets reg)" using i by (auto simp: seg_offsets_def d)
  qed
qed

lemma distinct_seg_offsets: "region_cfg reg \<Longrightarrow> distinct (seg_offsets reg)"
  using region_cfg_facts(5) [of reg] by (auto simp: seg_offsets_def distinct_map inj_on_def)

text \<open>The loops over the headers, as folds.\<close>

definition hdr_of :: "region_info \<Rightarrow> (nat \<Rightarrow> u8) \<Rightarrow> nat \<Rightarrow> region_seg_header" where
  "hdr_of reg f off = header_at f (ri_base_addr reg + off)"

lemma hdr_of_updates [simp]:
  "hdr_of (reg\<lparr>ri_seg_seq_id := q\<rparr>) = hdr_of reg" "hdr_of (reg\<lparr>ri_seg_offset := p\<rparr>) = hdr_of reg"
  "seg_offsets (reg\<lparr>ri_seg_seq_id := q\<rparr>) = seg_offsets reg" "seg_offsets (reg\<lparr>ri_seg_offset := p\<rparr>) = seg_offsets reg"
  by (simp_all add: hdr_of_def seg_offsets_def fun_eq_iff)

definition previous_of :: "region_info \<Rightarrow> (nat \<Rightarrow> u8) \<Rightarrow> nat \<Rightarrow> nat option \<Rightarrow> nat option" where
  "previous_of reg f off prev =
     (if is_valid_region_seg_header (hdr_of reg f off) \<and> ri_seg_seq_id reg - sh_seq_id (hdr_of reg f off) = 1 then Some off else prev)"

lemma drop_seg_offsets:
  assumes "region_cfg reg" "k \<le> ri_total_size reg div ri_seg_size reg"
  shows "k * ri_seg_size reg < ri_total_size reg \<Longrightarrow>
      drop k (seg_offsets reg) = k * ri_seg_size reg # drop (Suc k) (seg_offsets reg) \<and> Suc k \<le> ri_total_size reg div ri_seg_size reg \<and>
      k * ri_seg_size reg + 16 \<le> ri_total_size reg"
    "\<not> k * ri_seg_size reg < ri_total_size reg \<Longrightarrow> drop k (seg_offsets reg) = []"
proof -
  obtain c where c: "ri_total_size reg = ri_seg_size reg * c" using region_cfg_facts(4) [OF assms(1)] by blast
  have n: "4096 \<le> ri_seg_size reg" by (rule region_cfg_facts(5) [OF assms(1)])
  have d: "ri_total_size reg div ri_seg_size reg = c" using c n by auto
  have len: "length (seg_offsets reg) = c" by (simp add: seg_offsets_def d)
  {
    assume "k * ri_seg_size reg < ri_total_size reg"
    then have k: "k < c" using c n by (simp add: mult.commute)
    then have "Suc k * ri_seg_size reg \<le> ri_total_size reg" using mult_le_mono1 [of "Suc k" c "ri_seg_size reg"] by (simp add: c mult.commute)
    then show "drop k (seg_offsets reg) = k * ri_seg_size reg # drop (Suc k) (seg_offsets reg) \<and> Suc k \<le> ri_total_size reg div ri_seg_size reg \<and>
        k * ri_seg_size reg + 16 \<le> ri_total_size reg"
      using k len n d by (simp add: Cons_nth_drop_Suc [symmetric]) (simp add: seg_offsets_def)
  next
    assume "\<not> k * ri_seg_size reg < ri_total_size reg"
    then have "c \<le> k" using c n by (simp add: mult.commute)
    then show "drop k (seg_offsets reg) = []" using len by simp
  }
qed

text \<open>The segment chosen is newer than the valid ones before it, and no valid one after it is newer.\<close>

lemma fold_found_none:
  "\<forall>x \<in> set xs. \<not> is_valid_region_seg_header (h x) \<Longrightarrow> sr_found (fold (\<lambda>off. scan_header (h off) off) xs r) = sr_found r"
  by (induction xs arbitrary: r) (simp_all add: scan_header_def Let_def)

lemma sr_found_scan_header:
  "sr_found (scan_header h off r) = (if is_valid_region_seg_header h \<and>
     (case sr_found r of None \<Rightarrow> True | Some (sid, _) \<Rightarrow> s8_positive (sh_seq_id h - sid)) then Some (sh_seq_id h, off) else sr_found r)"
  by (auto simp: scan_header_def Let_def)

lemma fold_found_before:
  assumes "sr_found r = None"
  shows "sr_found (fold (\<lambda>off. scan_header (h off) off) xs r) = None \<or>
    (\<exists>x \<in> set xs. is_valid_region_seg_header (h x) \<and> sr_found (fold (\<lambda>off. scan_header (h off) off) xs r) = Some (sh_seq_id (h x), x))"
  using assms by (induction xs rule: rev_induct) (auto simp: sr_found_scan_header split: if_splits)

lemma fold_found_after:
  "sr_found r = Some (sid, p) \<Longrightarrow> \<forall>y \<in> set ys. is_valid_region_seg_header (h y) \<longrightarrow> \<not> s8_positive (sh_seq_id (h y) - sid) \<Longrightarrow>
    sr_found (fold (\<lambda>off. scan_header (h off) off) ys r) = Some (sid, p)"
  by (induction ys arbitrary: r) (auto simp: sr_found_scan_header)

lemma fold_found:
  assumes "sr_found r = None" "is_valid_region_seg_header (h p)" "p \<in> set L"
    and "\<forall>x \<in> set L. is_valid_region_seg_header (h x) \<longrightarrow> x \<noteq> p \<longrightarrow>
      s8_positive (sh_seq_id (h p) - sh_seq_id (h x)) \<and> \<not> s8_positive (sh_seq_id (h x) - sh_seq_id (h p))"
  shows "sr_found (fold (\<lambda>off. scan_header (h off) off) L r) = Some (sh_seq_id (h p), p)"
proof -
  obtain xs ys where L: "L = xs @ p # ys" "p \<notin> set xs" using assms(3) by (meson split_list_first)
  let ?r = "fold (\<lambda>off. scan_header (h off) off) xs r"
  have "sr_found (scan_header (h p) p ?r) = Some (sh_seq_id (h p), p)"
    using fold_found_before [OF assms(1), of h xs] assms(2,4) L by (auto simp: sr_found_scan_header)
  moreover have "\<not> s8_positive (sh_seq_id (h y) - sh_seq_id (h p))" if "y \<in> set ys" "is_valid_region_seg_header (h y)" for y
    using assms(4) L that by (cases "y = p") (auto simp: s8_positive_def)
  ultimately show ?thesis using L fold_found_after by auto
qed

lemma fold_previous_none:
  "\<forall>x \<in> set L. is_valid_region_seg_header (hdr_of reg f x) \<longrightarrow> ri_seg_seq_id reg - sh_seq_id (hdr_of reg f x) \<noteq> 1 \<Longrightarrow>
    fold (previous_of reg f) L prev = prev"
  by (induction L arbitrary: prev) (auto simp: previous_of_def)

lemma fold_previous:
  assumes "p \<in> set L" "is_valid_region_seg_header (hdr_of reg f p)" "ri_seg_seq_id reg - sh_seq_id (hdr_of reg f p) = 1"
    and "\<forall>x \<in> set L. is_valid_region_seg_header (hdr_of reg f x) \<longrightarrow> x \<noteq> p \<longrightarrow> ri_seg_seq_id reg - sh_seq_id (hdr_of reg f x) \<noteq> 1"
  shows "fold (previous_of reg f) L prev = Some p"
proof -
  obtain xs ys where L: "L = xs @ p # ys" "p \<notin> set ys" using assms(1) by (meson split_list_last)
  then have "fold (previous_of reg f) ys (Some p) = Some p" using assms(4) by (intro fold_previous_none) auto
  then show ?thesis using L assms(2,3) by (simp add: previous_of_def)
qed

section \<open>A region before the scan\<close>

text \<open>What is on the storage: one valid segment with its entries.\<close>

definition disk_holds :: "region_info \<Rightarrow> nat \<Rightarrow> (nat \<Rightarrow> u8) \<Rightarrow> entry list \<Rightarrow> bool" where
  "disk_holds reg p f es \<longleftrightarrow> disk_seg reg p f es \<and> (\<forall>off. seg_cfg reg off \<longrightarrow> (is_valid_region_seg_header (hdr_of reg f off) \<longleftrightarrow> off = p))"

lemma region_holds_disk: "region_holds reg f es \<Longrightarrow> disk_holds reg (ri_seg_offset reg) f es"
  by (auto simp: region_holds_def disk_holds_def seg_current_def seg_holds_disk hdr_of_def)

lemma disk_seg_same: "same_region reg reg' \<Longrightarrow> disk_seg reg' = disk_seg reg"
  using same_region_seg_cfg [of reg reg'] by (simp add: disk_seg_def fun_eq_iff same_region_def)

lemma disk_holds_same: "same_region reg reg' \<Longrightarrow> disk_holds reg' = disk_holds reg"
  using same_region_seg_cfg [of reg reg'] disk_seg_same [of reg reg'] by (simp add: disk_holds_def hdr_of_def fun_eq_iff)

lemma header_at_blank_merge: "is_blank f a 16 \<Longrightarrow> \<not> is_valid_merge_region_seg_header (header_at f a)"
  by (simp add: is_valid_merge_region_seg_header_def header_at_def seg_header_of_bytes_def is_blank_def u32_of_def nvram_consts)

lemma fold_scan_none:
  "\<forall>x \<in> set L. \<not> is_valid_region_seg_header (h x) \<and> \<not> is_valid_merge_region_seg_header (h x) \<Longrightarrow>
    fold (\<lambda>off. scan_header (h off) off) L r = r"
  by (induction L arbitrary: r) (simp_all add: scan_header_def)

text \<open>Erasing whole segments other than the current one.\<close>

lemma region_holds_erase:
  assumes "region_cfg reg" "region_holds reg f es" "ri_seg_size reg dvd a" "ri_seg_size reg dvd c" "a + c \<le> ri_total_size reg"
    and "a + c \<le> ri_seg_offset reg \<or> ri_seg_offset reg + ri_seg_size reg \<le> a"
  shows "region_holds reg (blanked f (ri_base_addr reg + a) c) es"
proof -
  let ?b = "ri_base_addr reg" and ?n = "ri_seg_size reg" and ?g = "blanked f (ri_base_addr reg + a) c"
  note h = assms(2) [unfolded region_holds_def seg_current_def seg_holds_disk disk_seg_def]
  have g: "?g i = f i" if "?b + ri_seg_offset reg \<le> i" "i < ?b + ri_seg_offset reg + ?n" for i
    using that assms(6) by (intro blanked_other) auto
  have "entries_at ?g (?b + (ri_seg_offset reg + 16)) es = entries_at f (?b + (ri_seg_offset reg + 16)) es"
    using h by (intro entries_at_cong) (auto intro!: g)
  moreover have "is_blank ?g (?b + (ri_seg_offset reg + 16 + tsize es)) (?n - 16 - tsize es)"
  proof (rule is_blank_cong)
    show "is_blank f (?b + (ri_seg_offset reg + 16 + tsize es)) (?n - 16 - tsize es)" using h by blast
  qed (intro g; simp)
  moreover have "header_at ?g (?b + ri_seg_offset reg) = header_at f (?b + ri_seg_offset reg)"
    using region_cfg_facts(5) [OF assms(1)] by (intro header_at_cong g) auto
  moreover have "\<not> is_valid_region_seg_header (header_at ?g (?b + x))" if x: "seg_cfg reg x" "x \<noteq> ri_seg_offset reg" for x
  proof (cases "a \<le> x \<and> x < a + c")
    case True
    then have "x + ?n \<le> a + c" using multiple_apart [of ?n x "a + c"] x assms(3,4) by (auto simp: seg_cfg_def)
    then have "is_blank ?g (?b + x) 16"
      using True region_cfg_facts(5) [OF assms(1)] is_blank_sub [OF blanked_blank [of f "?b + a" c], of "?b + x" 16] by auto
    then show ?thesis by (rule header_at_blank)
  next
    case False
    then have "x + ?n \<le> a \<or> a + c \<le> x" using multiple_apart [of ?n x a] x assms(3) by (auto simp: seg_cfg_def)
    then have "header_at ?g (?b + x) = header_at f (?b + x)"
      using region_cfg_facts(5) [OF assms(1)] by (intro header_at_cong blanked_other) auto
    then show ?thesis using h x by simp
  qed
  ultimately show ?thesis using h by (simp add: region_holds_def seg_current_def seg_holds_disk disk_seg_def)
qed

context nvram_storage
begin

lemma read_seg_header:
  assumes "covered lo hi reg" "nv_ok ok s" "off + 16 \<le> ri_total_size reg"
  shows "\<exists>bs. region_read stg reg off SIZEOF_SEG_HEADER s = (0, bs) \<and> seg_header_of_bytes bs = hdr_of reg (cells (nv_dev s)) off"
  using region_read_eq [OF assms(1), of s off 16] assms(2,3) by (simp add: nv_ok_def SIZEOF_SEG_HEADER_def hdr_of_def header_at_def)

lemma scan_headers_eq:
  assumes "covered lo hi reg" "nv_ok ok s"
  shows "k \<le> ri_total_size reg div ri_seg_size reg \<Longrightarrow> scan_headers stg reg (k * ri_seg_size reg) r s =
    Some (0, fold (\<lambda>off. scan_header (hdr_of reg (cells (nv_dev s)) off) off) (drop k (seg_offsets reg)) r)"
proof (induction "ri_total_size reg div ri_seg_size reg - k" arbitrary: k r)
  case 0
  have r: "region_cfg reg" using assms(1) by (simp add: covered_def)
  have "\<not> k * ri_seg_size reg < ri_total_size reg"
    using drop_seg_offsets(1) [OF r 0(2)] 0(1) by auto
  then show ?case using drop_seg_offsets(2) [OF r 0(2)] by (subst scan_headers.simps) simp
next
  case (Suc x)
  have r: "region_cfg reg" using assms(1) by (simp add: covered_def)
  show ?case
  proof (cases "k * ri_seg_size reg < ri_total_size reg")
    case True
    note d = drop_seg_offsets(1) [OF r Suc.prems True]
    obtain bs where bs: "region_read stg reg (k * ri_seg_size reg) SIZEOF_SEG_HEADER s = (0, bs)"
        "seg_header_of_bytes bs = hdr_of reg (cells (nv_dev s)) (k * ri_seg_size reg)"
      using read_seg_header [OF assms, of "k * ri_seg_size reg"] d by auto
    show ?thesis
      using True bs d Suc.hyps(1) [of "Suc k"] Suc.hyps(2) by (subst scan_headers.simps) (simp add: Let_def add.commute)
  next
    case False
    then show ?thesis using drop_seg_offsets(2) [OF r Suc.prems] by (subst scan_headers.simps) simp
  qed
qed

lemma scan_previous_eq:
  assumes "covered lo hi reg" "nv_ok ok s"
  shows "k \<le> ri_total_size reg div ri_seg_size reg \<Longrightarrow> scan_previous stg reg (k * ri_seg_size reg) prev s =
    Some (0, fold (previous_of reg (cells (nv_dev s))) (drop k (seg_offsets reg)) prev)"
proof (induction "ri_total_size reg div ri_seg_size reg - k" arbitrary: k prev)
  case 0
  have r: "region_cfg reg" using assms(1) by (simp add: covered_def)
  have "\<not> k * ri_seg_size reg < ri_total_size reg"
    using drop_seg_offsets(1) [OF r 0(2)] 0(1) by auto
  then show ?case using drop_seg_offsets(2) [OF r 0(2)] by (subst scan_previous.simps) simp
next
  case (Suc x)
  have r: "region_cfg reg" using assms(1) by (simp add: covered_def)
  show ?case
  proof (cases "k * ri_seg_size reg < ri_total_size reg")
    case True
    note d = drop_seg_offsets(1) [OF r Suc.prems True]
    obtain bs where bs: "region_read stg reg (k * ri_seg_size reg) SIZEOF_SEG_HEADER s = (0, bs)"
        "seg_header_of_bytes bs = hdr_of reg (cells (nv_dev s)) (k * ri_seg_size reg)"
      using read_seg_header [OF assms, of "k * ri_seg_size reg"] d by auto
    show ?thesis
      using True bs d Suc.hyps(1) [of "Suc k"] Suc.hyps(2) by (subst scan_previous.simps) (simp add: Let_def previous_of_def add.commute)
  next
    case False
    then show ?thesis using drop_seg_offsets(2) [OF r Suc.prems] by (subst scan_previous.simps) simp
  qed
qed

section \<open>Scanning the current segment\<close>

lemma region_seg_scan_eq:
  assumes "covered lo hi reg" "nv_ok ok s" "map_sized reg" "disk_holds reg (ri_seg_offset reg) (cells (nv_dev s)) es"
    and "sh_seq_id (hdr_of reg (cells (nv_dev s)) (ri_seg_offset reg)) = ri_seg_seq_id reg"
  shows "\<exists>reg' s' es'. region_seg_scan stg False reg s = Some (0, reg', s') \<and> nv_ok ok s' \<and> nv_stack s' = nv_stack s \<and> same_region reg reg' \<and>
    region_holds reg' (cells (nv_dev s')) es' \<and> lookup es' = lookup (rev es) \<and> region_frame reg (cells (nv_dev s)) (cells (nv_dev s'))"
proof -
  let ?f = "cells (nv_dev s)" and ?b = "ri_base_addr reg" and ?off = "ri_seg_offset reg"
  let ?r0 = "reg\<lparr>ri_seg_item_map := item_bitmap_clear_all (ri_seg_item_map reg) (ri_seg_item_map_size reg)\<rparr>"
  have r: "region_cfg reg" using assms(1) by (simp add: covered_def)
  have cfg: "disk_seg reg ?off ?f es" "seg_cfg reg ?off" "list_all entry_ok es" using assms(4) by (auto simp: disk_holds_def disk_seg_def)
  have sc: "scanning ?r0 ?f [] es" using cfg(1) map_sized_clear [OF assms(3)] by (simp add: scanning_def seg_holds_disk disk_seg_def)
  obtain m s1 where s1: "seg_scan_loop stg 16 (nv_stack s) (nv_stack s) ?r0 s = Some (0, 16 + tsize es, reg\<lparr>ri_seg_item_map := m\<rparr>, s1)"
      "nv_ok ok s1" "nv_stack s1 = nv_stack s" "scanning (reg\<lparr>ri_seg_item_map := m\<rparr>) (cells (nv_dev s1)) (scan_entries [] es) []"
      "one_live (scan_entries [] es)"
      "\<forall>i. i < ?b + ?off + 16 \<or> ?b + ?off + ri_seg_size reg \<le> i \<longrightarrow> cells (nv_dev s1) i = ?f i"
    using seg_scan_loop_eq [of ?r0 s "[]" es "nv_stack s" "nv_stack s"] assms(1,2) sc by (auto simp: one_live_def)
  let ?r1 = "reg\<lparr>ri_seg_item_map := m, ri_seg_write_offset := ?off + (16 + tsize es)\<rparr>"
  have sh: "seg_holds ?r1 (cells (nv_dev s1)) (scan_entries [] es)"
    using s1(4) tsize_scan_entries [of "[]" es] by (simp add: scanning_done add.assoc)
  have hd: "hdr_of reg (cells (nv_dev s1)) off = hdr_of reg ?f off" if "seg_cfg reg off" for off
    unfolding hdr_of_def using s1(6) region_cfg_facts(5) [OF r] seg_cfg_apart [OF that cfg(2)]
    by (intro header_at_cong) (cases "off = ?off"; auto)
  have h1: "region_holds ?r1 (cells (nv_dev s1)) (scan_entries [] es)"
    using sh s1(5) hd assms(4,5) cfg(2) by (auto simp: region_holds_def seg_current_def disk_holds_def hdr_of_def)
  have lk: "lookup (scan_entries [] es) = lookup (rev es)"
    using lookup_scan_entries [OF cfg(3), of "[]"] by (simp add: fun_eq_iff split: option.split)
  have fr: "region_frame reg ?f (cells (nv_dev s1))" using s1(6) cfg(2) by (auto simp: region_frame_def seg_cfg_def)
  show ?thesis
  proof (cases "16 + tsize es < ri_seg_size reg")
    case True
    have "4 dvd ri_seg_size reg" using region_cfg_facts(3) [OF r] by (rule dvd_trans [rotated]) simp
    moreover have "4 dvd tsize es" using tsize_dvd [of es] by (rule dvd_trans [rotated]) simp
    ultimately have "4 dvd ri_seg_size reg - (16 + tsize es)" by (intro dvd_diff_nat dvd_add) simp_all
    moreover have "is_blank (cells (nv_dev s1)) (?b + (?off + (16 + tsize es))) (ri_seg_size reg - (16 + tsize es))"
      using sh tsize_scan_entries [of "[]" es] by (simp add: seg_holds_def)
    ultimately obtain s2 where "region_is_empy stg ?r1 (?off + (16 + tsize es)) (ri_seg_size reg - (16 + tsize es)) s1 = (True, s2)" "same_nv s1 s2"
      using region_is_empy_eq [of ?r1 "?off + (16 + tsize es)" "ri_seg_size reg - (16 + tsize es)" s1] assms(1) s1(2) cfg(2) True
      by (auto simp: seg_cfg_def)
    moreover from this have "region_seg_scan stg False reg s = Some (0, ?r1, s2)"
      using s1(1) True by (simp add: region_seg_scan_def NVRAM_SEG_ITEM_START_OFFSET_def)
    ultimately show ?thesis
      using h1 lk fr s1(2,3) same_nv_ok [of s1 s2]
      by (intro exI [of _ ?r1] exI [of _ s2] exI [of _ "scan_entries [] es"]) (simp add: same_nv_def same_region_def)
  next
    case False
    obtain reg' s' where s': "region_purge_seg stg True ?r1 s1 = Some (reg', s')" "nv_ok ok s'" "nv_stack s' = nv_stack s1" "same_region ?r1 reg'"
        "region_holds reg' (cells (nv_dev s')) (filter live (scan_entries [] es))" "region_frame ?r1 (cells (nv_dev s1)) (cells (nv_dev s'))"
      using purge_holds [OF _ s1(2) h1, of True] assms(1) by auto
    have "region_seg_scan stg False reg s = Some (0, reg', s')"
      using s1(1) s'(1) False by (simp add: region_seg_scan_def NVRAM_SEG_ITEM_START_OFFSET_def)
    then show ?thesis
      using s' s1(3) lk region_frame_trans [OF fr s'(6)]
      by (intro exI [of _ reg'] exI [of _ s'] exI [of _ "filter live (scan_entries [] es)"]) (simp add: same_region_def lookup_filter_live)
  qed
qed

section \<open>Scanning a region\<close>

text \<open>With one valid segment.\<close>

lemma region_scan_eq:
  assumes "covered lo hi reg" "nv_ok ok s" "map_sized reg" "disk_holds reg p (cells (nv_dev s)) es"
  shows "\<exists>reg' s' es'. region_scan stg reg s = Some (0, reg', s') \<and> nv_ok ok s' \<and> nv_stack s' = nv_stack s \<and> same_region reg reg' \<and>
    region_holds reg' (cells (nv_dev s')) es' \<and> lookup es' = lookup (rev es) \<and> region_frame reg (cells (nv_dev s)) (cells (nv_dev s'))"
proof -
  let ?f = "cells (nv_dev s)" and ?L = "seg_offsets reg"
  have r: "region_cfg reg" using assms(1) by (simp add: covered_def)
  have valid: "is_valid_region_seg_header (hdr_of reg ?f x) \<longleftrightarrow> x = p" if "x \<in> set ?L" for x
    using assms(4) seg_offsets_set [OF r] that by (simp add: disk_holds_def)
  have p: "p \<in> set ?L" using assms(4) seg_offsets_set [OF r] by (simp add: disk_holds_def disk_seg_def)
  define sid where "sid = sh_seq_id (hdr_of reg ?f p)"
  let ?r1 = "reg\<lparr>ri_seg_seq_id := sid, ri_seg_offset := p\<rparr>"
  have h: "covered lo hi ?r1" "same_region reg ?r1" using assms(1) by (simp_all add: same_region_def)
  obtain res where res: "scan_headers stg reg 0 \<lparr>sr_found = None, sr_old_found = None\<rparr> s = Some (0, res)" "sr_found res = Some (sid, p)"
    using scan_headers_eq [OF assms(1,2), of 0 "\<lparr>sr_found = None, sr_old_found = None\<rparr>"]
      fold_found [of "\<lparr>sr_found = None, sr_old_found = None\<rparr>" "hdr_of reg ?f" p ?L] valid p by (auto simp: sid_def)
  have "scan_previous stg ?r1 0 None s = Some (0, None)"
    using scan_previous_eq [OF h(1) assms(2), of 0 None] fold_previous_none [of ?L ?r1 ?f None] valid by (auto simp: sid_def)
  moreover obtain reg' s' es' where s': "region_seg_scan stg False ?r1 s = Some (0, reg', s')" "nv_ok ok s'" "nv_stack s' = nv_stack s"
      "same_region ?r1 reg'" "region_holds reg' (cells (nv_dev s')) es'" "lookup es' = lookup (rev es)" "region_frame ?r1 ?f (cells (nv_dev s'))"
    using region_seg_scan_eq [OF h(1) assms(2), of es] assms(3,4) disk_holds_same [OF h(2)] by (auto simp: sid_def)
  ultimately have "region_scan stg reg s = Some (0, reg', s')"
    using res by (simp add: region_scan_def)
  then show ?thesis using s' by (intro exI [of _ reg'] exI [of _ s'] exI [of _ es']) (simp add: same_region_def region_frame_def)
qed

text \<open>With an old segment that is still valid beside the new one: the copy is done again.\<close>

lemma merge_previous_eq:
  assumes "covered lo hi reg" "nv_ok ok s" "map_sized reg" "disk_seg reg old (cells (nv_dev s)) es"
    and "is_valid_region_seg_header (hdr_of reg (cells (nv_dev s)) old)" "seg_cfg reg (ri_seg_offset reg)" "old \<noteq> ri_seg_offset reg"
    and others: "\<And>x. seg_cfg reg x \<Longrightarrow> x \<noteq> old \<Longrightarrow> x \<noteq> ri_seg_offset reg \<Longrightarrow> \<not> is_valid_region_seg_header (hdr_of reg (cells (nv_dev s)) x)"
  shows "\<exists>reg' s'. merge_previous stg old reg s = Some (reg', s') \<and> nv_ok ok s' \<and> nv_stack s' = nv_stack s \<and> same_region reg reg' \<and>
    seg_current reg' (cells (nv_dev s')) (filter live es) \<and> disk_holds reg' (ri_seg_offset reg') (cells (nv_dev s')) (filter live es) \<and>
    region_frame reg (cells (nv_dev s)) (cells (nv_dev s'))"
proof -
  let ?f = "cells (nv_dev s)" and ?b = "ri_base_addr reg" and ?new = "ri_seg_offset reg" and ?n = "ri_seg_size reg"
  let ?r1 = "reg\<lparr>ri_seg_seq_id := ri_seg_seq_id reg + 1, ri_seg_offset := ?new, ri_seg_write_offset := ?new + 16,
        ri_seg_item_map := item_bitmap_clear_all (ri_seg_item_map reg) (ri_seg_item_map_size reg)\<rparr>"
  have r: "region_cfg reg" using assms(1) by (simp add: covered_def)
  note big = region_cfg_facts(5) [OF r]
  have old: "seg_cfg reg old" "is_valid_region_seg_header (header_at ?f (?b + old))" using assms(4,5) by (simp_all add: disk_seg_def hdr_of_def)
  obtain s2 where s2: "region_init_new_seg stg ?new reg s = (?r1, s2)" "nv_ok ok s2" "nv_stack s2 = nv_stack s" "cells (nv_dev s2) = fresh_seg reg ?f ?new"
    using region_init_new_seg_eq [OF assms(1,2,6)] by blast
  from move_seg_eq [OF assms(1) s2(2,4) assms(3,4) old(2) assms(6,7) disjI2 [OF refl], of True] obtain reg' s3 s' where
      c: "region_copy_seg stg ?new old ?n True ?r1 s2 = Some (reg', s3)"
      and s': "region_seg_update_state stg reg' old NVRAM_STATE_OBSOLETE s3 = s'" "nv_ok ok s'" "nv_stack s' = nv_stack s"
        "same_region reg reg'" "ri_seg_offset reg' = ?new" "seg_current reg' (cells (nv_dev s')) (filter live es)"
        "\<not> is_valid_region_seg_header (header_at (cells (nv_dev s')) (?b + old))"
        "\<forall>i. i < ?b + ?new \<or> ?b + ?new + ?n \<le> i \<longrightarrow> i \<noteq> ?b + old + 4 \<longrightarrow> cells (nv_dev s') i = ?f i"
    unfolding s2(3) by (elim exE conjE) (rule that)
  have "merge_previous stg old reg s = Some (reg', s')"
    using s2(1) c s'(1) by (simp add: merge_previous_def)
  moreover have "hdr_of reg (cells (nv_dev s')) x = hdr_of reg ?f x" if "seg_cfg reg x" "x \<noteq> old" "x \<noteq> ?new" for x
    unfolding hdr_of_def using s'(8) seg_cfg_apart [OF that(1) old(1) that(2)] seg_cfg_apart [OF that(1) assms(6) that(3)] big
    by (intro header_at_cong) auto
  then have "disk_holds reg' ?new (cells (nv_dev s')) (filter live es)"
    using s'(6,7) others same_region_seg_cfg [OF s'(4)] unfolding disk_holds_def seg_current_def seg_holds_disk s'(5) hdr_of_def by metis
  moreover have "region_frame reg ?f (cells (nv_dev s'))"
    using s'(8) assms(6) old(1) big by (auto simp: region_frame_def seg_cfg_def)
  ultimately show ?thesis using s' by (intro exI [of _ reg'] exI [of _ s']) simp
qed

lemma s8_positive_simps [simp]: "s8_positive 1" "\<not> s8_positive (-1)" "\<not> s8_positive 0" "s8_positive 2" "\<not> s8_positive (-2)"
  by code_simp+

lemma region_scan_merge:
  assumes "covered lo hi reg" "nv_ok ok s" "map_sized reg" "disk_seg reg old (cells (nv_dev s)) es" "one_live es"
    and valid: "\<And>x. seg_cfg reg x \<Longrightarrow> is_valid_region_seg_header (hdr_of reg (cells (nv_dev s)) x) \<longleftrightarrow> x = old \<or> x = new"
    and "seg_cfg reg new" "old \<noteq> new"
    and sid: "sh_seq_id (hdr_of reg (cells (nv_dev s)) new) = sh_seq_id (hdr_of reg (cells (nv_dev s)) old) + 1"
  shows "\<exists>reg' s' es'. region_scan stg reg s = Some (0, reg', s') \<and> nv_ok ok s' \<and> nv_stack s' = nv_stack s \<and> same_region reg reg' \<and>
    region_holds reg' (cells (nv_dev s')) es' \<and> lookup es' = lookup es \<and> region_frame reg (cells (nv_dev s)) (cells (nv_dev s'))"
proof -
  let ?f = "cells (nv_dev s)" and ?L = "seg_offsets reg"
  have r: "region_cfg reg" using assms(1) by (simp add: covered_def)
  have old: "seg_cfg reg old" using assms(4) by (simp add: disk_seg_def)
  define k where "k = sh_seq_id (hdr_of reg ?f new)"
  let ?r1 = "reg\<lparr>ri_seg_seq_id := k, ri_seg_offset := new\<rparr>"
  have h: "covered lo hi ?r1" "same_region reg ?r1" using assms(1) by (simp_all add: same_region_def)
  have L: "is_valid_region_seg_header (hdr_of reg ?f x) \<longleftrightarrow> x = old \<or> x = new" if "x \<in> set ?L" for x
    using valid seg_offsets_set [OF r] that by simp
  have mem: "old \<in> set ?L" "new \<in> set ?L" using old assms(7) seg_offsets_set [OF r] by simp_all
  obtain res where res: "scan_headers stg reg 0 \<lparr>sr_found = None, sr_old_found = None\<rparr> s = Some (0, res)" "sr_found res = Some (k, new)"
    using scan_headers_eq [OF assms(1,2), of 0 "\<lparr>sr_found = None, sr_old_found = None\<rparr>"]
      fold_found [of "\<lparr>sr_found = None, sr_old_found = None\<rparr>" "hdr_of reg ?f" new ?L] L mem sid by (auto simp: k_def)
  have prev: "scan_previous stg ?r1 0 None s = Some (0, Some old)"
    using scan_previous_eq [OF h(1) assms(2), of 0 None] fold_previous [of old ?L ?r1 ?f None] L mem sid by (auto simp: k_def)
  obtain r2 s2 where s2: "merge_previous stg old ?r1 s = Some (r2, s2)" "nv_ok ok s2" "nv_stack s2 = nv_stack s" "same_region ?r1 r2"
      "seg_current r2 (cells (nv_dev s2)) (filter live es)" "disk_holds r2 (ri_seg_offset r2) (cells (nv_dev s2)) (filter live es)"
      "region_frame ?r1 ?f (cells (nv_dev s2))"
    using merge_previous_eq [OF h(1) assms(2), of old es] assms(3,4,7,8) valid old disk_seg_same [OF h(2)] by auto
  have m2: "map_sized r2" using s2(5) by (auto simp: seg_current_def seg_holds_disk bitmap_ok_sized)
  have c2: "covered lo hi r2" using h(1) same_region_covered [OF s2(4)] by simp
  obtain reg' s' es' where s': "region_seg_scan stg False r2 s2 = Some (0, reg', s')" "nv_ok ok s'" "nv_stack s' = nv_stack s2"
      "same_region r2 reg'" "region_holds reg' (cells (nv_dev s')) es'" "lookup es' = lookup (rev (filter live es))"
      "region_frame r2 (cells (nv_dev s2)) (cells (nv_dev s'))"
    using region_seg_scan_eq [OF c2 s2(2) m2 s2(6)] s2(5) by (auto simp: seg_current_def hdr_of_def)
  have "region_scan stg reg s = Some (0, reg', s')" using res prev s2(1) s'(1) by (simp add: region_scan_def)
  moreover have "lookup es' = lookup es"
    using s'(6) lookup_rev [of "filter live es"] assms(5) by (simp add: one_live_def lookup_filter_live)
  ultimately show ?thesis
    using s' s2(3) same_region_trans [OF same_region_trans [OF h(2) s2(4)] s'(4)] region_frame_trans [OF s2(7) s'(7) s2(4)]
    by (intro exI [of _ reg'] exI [of _ s'] exI [of _ es']) (simp add: region_frame_def)
qed

text \<open>A blank region gets its first segment.\<close>

lemma region_scan_blank:
  assumes "covered lo hi reg" "nv_ok ok s" "map_sized reg" "is_blank (cells (nv_dev s)) (ri_base_addr reg) (ri_total_size reg)"
  shows "\<exists>reg' s'. region_scan stg reg s = Some (0, reg', s') \<and> nv_ok ok s' \<and> nv_stack s' = nv_stack s \<and> same_region reg reg' \<and>
    region_holds reg' (cells (nv_dev s')) [] \<and> region_frame reg (cells (nv_dev s)) (cells (nv_dev s')) \<and> ri_seg_offset reg' = 0"
proof -
  let ?f = "cells (nv_dev s)" and ?b = "ri_base_addr reg" and ?n = "ri_seg_size reg" and ?L = "seg_offsets reg"
  have r: "region_cfg reg" using assms(1) by (simp add: covered_def)
  note big = region_cfg_facts(5,7) [OF r]
  have b16: "is_blank ?f (?b + x) 16" if "seg_cfg reg x" for x
    using is_blank_sub [OF assms(4), of "?b + x" 16] that big by (auto simp: seg_cfg_def)
  have inv: "\<not> is_valid_region_seg_header (hdr_of reg ?f x)" "\<not> is_valid_merge_region_seg_header (hdr_of reg ?f x)" if "seg_cfg reg x" for x
    using header_at_blank [OF b16 [OF that]] header_at_blank_merge [OF b16 [OF that]] by (simp_all add: hdr_of_def)
  have "fold (\<lambda>off. scan_header (hdr_of reg ?f off) off) ?L res = res" for res
    using inv seg_offsets_set [OF r] by (intro fold_scan_none) simp
  then have res: "scan_headers stg reg 0 \<lparr>sr_found = None, sr_old_found = None\<rparr> s = Some (0, \<lparr>sr_found = None, sr_old_found = None\<rparr>)"
    using scan_headers_eq [OF assms(1,2), of 0 "\<lparr>sr_found = None, sr_old_found = None\<rparr>"] by simp
  let ?r1 = "reg\<lparr>ri_seg_seq_id := ri_seg_seq_id reg + 1, ri_seg_offset := 0, ri_seg_write_offset := 0 + 16,
        ri_seg_item_map := item_bitmap_clear_all (ri_seg_item_map reg) (ri_seg_item_map_size reg)\<rparr>"
  have c0: "seg_cfg reg 0" using big by (simp add: seg_cfg_def)
  obtain s1 where s1: "region_init_new_seg stg 0 reg s = (?r1, s1)" "nv_ok ok s1" "nv_stack s1 = nv_stack s" "cells (nv_dev s1) = fresh_seg reg ?f 0"
    using region_init_new_seg_eq [OF assms(1,2) c0] by blast
  have fresh: "i < ?b \<or> ?b + ?n \<le> i \<Longrightarrow> fresh_seg reg ?f 0 i = ?f i" "is_blank (fresh_seg reg ?f 0) (?b + 16) (?n - 16)"
      "header_at (fresh_seg reg ?f 0) ?b = new_seg_header reg" for i
    using fresh_seg_facts [OF r, where off = 0 and f = ?f] by simp_all
  have "header_at (fresh_seg reg ?f 0) (?b + x) = header_at ?f (?b + x)" if "seg_cfg reg x" "x \<noteq> 0" for x
    using seg_cfg_apart [OF that(1) c0 that(2)] big by (intro header_at_cong fresh(1)) auto
  then have "region_holds ?r1 (cells (nv_dev s1)) []"
    using fresh(2,3) c0 inv bitmap_ok_cong [of ?r1 "reg\<lparr>ri_seg_item_map := ri_seg_item_map ?r1\<rparr>"] map_sized_clear [OF assms(3)] big(1)
    by (auto simp: region_holds_def seg_current_def seg_holds_disk disk_seg_def one_live_def new_seg_header_facts s1(4) hdr_of_def)
  moreover have "region_frame reg ?f (cells (nv_dev s1))"
    unfolding s1(4) region_frame_def using big by (auto intro!: fresh(1))
  moreover have "region_scan stg reg s = Some (0, ?r1, s1)" using res s1(1) by (simp add: region_scan_def)
  ultimately show ?thesis
    using s1(2,3) by (intro exI [of _ ?r1] exI [of _ s1]) (simp add: same_region_def)
qed

section \<open>Clearing segments ahead\<close>

lemma region_clear_eq:
  assumes "covered lo hi reg" "nv_ok ok s" "region_holds reg (cells (nv_dev s)) es"
  shows "nv_ok ok (region_clear stg reg len s) \<and> nv_stack (region_clear stg reg len s) = nv_stack s \<and>
    region_holds reg (cells (nv_dev (region_clear stg reg len s))) es \<and>
    region_frame reg (cells (nv_dev s)) (cells (nv_dev (region_clear stg reg len s)))"
proof -
  let ?n = "ri_seg_size reg" and ?T = "ri_total_size reg"
  have r: "region_cfg reg" using assms(1) by (simp add: covered_def)
  note rf = region_cfg_facts(3,4,5,7) [OF r]
  have cfg: "?n dvd ri_seg_offset reg" "ri_seg_offset reg + ?n \<le> ?T"
    using assms(3) by (auto simp: region_holds_def seg_current_def seg_holds_disk disk_seg_def seg_cfg_def)
  have step: "\<exists>s'. region_erase stg reg a c s0 = (0, s') \<and> nv_ok ok s' \<and> nv_stack s' = nv_stack s0 \<and>
      region_holds reg (cells (nv_dev s')) es \<and> region_frame reg (cells (nv_dev s0)) (cells (nv_dev s'))"
    if a: "?n dvd a" "?n dvd c" "a + c \<le> ?T" "a + c \<le> ri_seg_offset reg \<or> ri_seg_offset reg + ?n \<le> a"
      and s0: "nv_ok ok s0" "region_holds reg (cells (nv_dev s0)) es" for a c s0
  proof -
    obtain s' where s': "region_erase stg reg a c s0 = (0, s')" "nv_ok ok s'" "nv_stack s' = nv_stack s0"
        "cells (nv_dev s') = blanked (cells (nv_dev s0)) (ri_base_addr reg + a) c"
      using region_erase_eq [OF assms(1) a(3) dvd_trans [OF rf(1) a(1)] dvd_trans [OF rf(1) a(2)] s0(1)] by blast
    then show ?thesis
      using region_holds_erase [OF r s0(2) a] a(3) by (auto simp: region_frame_def blanked_other)
  qed
  define C where "C = min (round_up len ?n) (?T - ?n)"
  have C: "?n dvd C" "C + ?n \<le> ?T"
    using rf(2,4) by (auto simp: C_def min_def round_up_def intro: dvd_diff_nat)
  let ?o = "ri_seg_offset reg + ?n"
  have unf: "region_clear stg reg len s = (if ?o + C > ?T
      then snd (region_erase stg reg 0 (C - (?T - ?o)) (snd (region_erase stg reg ?o (?T - ?o) s)))
      else snd (region_erase stg reg ?o C s))"
    by (auto simp: region_clear_def Let_def C_def min_def split: prod.splits)
  show ?thesis
  proof (cases "?o + C > ?T")
    case True
    have d: "?n dvd ?o" "?n dvd ?T - ?o" "?n dvd C - (?T - ?o)" using C(1) cfg rf(2) by (auto intro!: dvd_diff_nat)
    obtain s1 where s1: "region_erase stg reg ?o (?T - ?o) s = (0, s1)" "nv_ok ok s1" "nv_stack s1 = nv_stack s"
        "region_holds reg (cells (nv_dev s1)) es" "region_frame reg (cells (nv_dev s)) (cells (nv_dev s1))"
      using step [OF d(1,2) _ _ assms(2,3)] cfg(2) by auto
    have le: "0 + (C - (?T - ?o)) \<le> ri_seg_offset reg" using C(2) cfg(2) by simp
    then have "0 + (C - (?T - ?o)) \<le> ?T" using cfg(2) by linarith
    then obtain s2 where "region_erase stg reg 0 (C - (?T - ?o)) s1 = (0, s2)" "nv_ok ok s2" "nv_stack s2 = nv_stack s1"
        "region_holds reg (cells (nv_dev s2)) es" "region_frame reg (cells (nv_dev s1)) (cells (nv_dev s2))"
      using step [OF dvd_0_right d(3) _ disjI1 [OF le] s1(2,4)] by blast
    then show ?thesis
      unfolding unf using True s1 region_frame_trans [OF s1(5)] by simp
  next
    case False
    obtain s1 where "region_erase stg reg ?o C s = (0, s1)" "nv_ok ok s1" "nv_stack s1 = nv_stack s"
        "region_holds reg (cells (nv_dev s1)) es" "region_frame reg (cells (nv_dev s)) (cells (nv_dev s1))"
      using step [OF _ C(1) _ _ assms(2,3), of ?o] False cfg by auto
    then show ?thesis unfolding unf using False by simp
  qed
qed

section \<open>A second failure\<close>

text \<open>A fresh segment is scanned as it is.\<close>

lemma region_seg_scan_empty:
  assumes "covered lo hi reg" "nv_ok ok s" "map_sized reg" "disk_seg reg (ri_seg_offset reg) (cells (nv_dev s)) []"
  shows "\<exists>reg' s'. region_seg_scan stg False reg s = Some (0, reg', s') \<and> same_nv s s' \<and> same_region reg reg' \<and>
    seg_holds reg' (cells (nv_dev s')) []"
proof -
  let ?f = "cells (nv_dev s)" and ?off = "ri_seg_offset reg" and ?n = "ri_seg_size reg"
  let ?r0 = "reg\<lparr>ri_seg_item_map := item_bitmap_clear_all (ri_seg_item_map reg) (ri_seg_item_map_size reg)\<rparr>"
  let ?r1 = "?r0\<lparr>ri_seg_write_offset := ?off + 16\<rparr>"
  have r: "region_cfg reg" using assms(1) by (simp add: covered_def)
  have d: "is_blank ?f (ri_base_addr reg + (?off + 16)) (?n - 16)" "?off + ?n \<le> ri_total_size reg"
    using assms(4) by (simp_all add: disk_seg_def seg_cfg_def)
  have sc: "scanning ?r0 ?f [] []" using assms(4) map_sized_clear [OF assms(3)] by (simp add: scanning_def seg_holds_disk disk_seg_def)
  then have sh: "seg_holds ?r1 ?f []" by (simp add: scanning_done)
  have loop: "seg_scan_loop stg 16 (nv_stack s) (nv_stack s) ?r0 s = Some (0, 16, ?r0, s)"
    using scan_stop [OF _ assms(2) sc, of "nv_stack s" "nv_stack s"] assms(1) by simp
  have "4 dvd ?n" using region_cfg_facts(3) [OF r] by (rule dvd_trans [rotated]) simp
  then have "4 dvd ?n - 16" by (intro dvd_diff_nat) simp_all
  then obtain s1 where s1: "region_is_empy stg ?r1 (?off + 16) (?n - 16) s = (True, s1)" "same_nv s s1"
    using region_is_empy_eq [of ?r1 "?off + 16" "?n - 16" s] assms(1,2) d region_cfg_facts(5) [OF r] by auto
  have "region_seg_scan stg False reg s = Some (0, ?r1, s1)"
    using loop s1(1) region_cfg_facts(5) [OF r] by (simp add: region_seg_scan_def NVRAM_SEG_ITEM_START_OFFSET_def)
  then show ?thesis
    using s1(2) sh same_nv_dev [OF s1(2)] by (intro exI [of _ ?r1] exI [of _ s1]) (simp add: same_region_def)
qed

text \<open>A copy that is started again gets a sequence number two above that of the old segment. If it is interrupted
  again, the old segment is no longer recognised as the previous one.\<close>

lemma second_failure:
  assumes "covered lo hi reg" "nv_ok ok s" "region_holds reg (cells (nv_dev s)) es" "map_sized reg" "same_region reg r0" "map_sized r0"
  shows "\<exists>s1 reg' s'. region_init_new_seg stg (next_seg reg) (reg\<lparr>ri_seg_seq_id := ri_seg_seq_id reg + 1, ri_seg_offset := next_seg reg\<rparr>) s = s1 \<and>
    region_scan stg r0 (snd s1) = Some (0, reg', s') \<and> nv_ok ok s' \<and> same_region reg reg' \<and> seg_holds reg' (cells (nv_dev s')) []"
proof -
  let ?f = "cells (nv_dev s)" and ?new = "next_seg reg" and ?old = "ri_seg_offset reg" and ?k = "ri_seg_seq_id reg"
  let ?rn = "reg\<lparr>ri_seg_seq_id := ?k + 1, ri_seg_offset := ?new\<rparr>"
  have r: "region_cfg reg" using assms(1) by (simp add: covered_def)
  have h: "disk_holds reg ?old ?f es" "seg_cfg reg ?old" "sh_seq_id (hdr_of reg ?f ?old) = ?k"
    using assms(3) by (auto simp: region_holds_def seg_current_def seg_holds_disk disk_holds_def disk_seg_def hdr_of_def)
  note ns = next_seg_facts [OF r h(2)] and big = region_cfg_facts(5) [OF r]
  obtain s1 where s1: "snd (region_init_new_seg stg ?new ?rn s) = s1" "nv_ok ok s1" "cells (nv_dev s1) = fresh_seg ?rn ?f ?new"
    using region_init_new_seg_eq [of ?rn s ?new] assms(1,2) ns(1) by auto
  let ?g = "cells (nv_dev s1)"
  have rn: "region_cfg ?rn" using r by simp
  have gn: "hdr_of reg ?g ?new = new_seg_header ?rn" using fresh_seg_facts(3) [OF rn, of ?f ?new] by (simp add: s1(3) hdr_of_def)
  have go: "hdr_of reg ?g x = hdr_of reg ?f x" if "seg_cfg reg x" "x \<noteq> ?new" for x
    unfolding hdr_of_def s1(3) using seg_cfg_apart [OF that(1) ns(1) that(2)] big
    by (intro header_at_cong fresh_seg_facts(1) [OF rn]) auto
  have same: "covered lo hi r0" "hdr_of r0 = hdr_of reg" "seg_cfg r0 = seg_cfg reg" "seg_offsets r0 = seg_offsets reg" "disk_seg r0 = disk_seg reg"
    using assms(1,5) same_region_covered [OF assms(5)] same_region_seg_cfg [OF assms(5)] disk_seg_same [OF assms(5)]
    by (simp_all add: hdr_of_def fun_eq_iff seg_offsets_def same_region_def)
  have valid: "is_valid_region_seg_header (hdr_of reg ?g x) \<longleftrightarrow> x = ?old \<or> x = ?new" if "x \<in> set (seg_offsets reg)" for x
    using that h(1) go gn ns(4) seg_offsets_set [OF r] by (cases "x = ?new") (auto simp: disk_holds_def new_seg_header_facts)
  have sid: "sh_seq_id (hdr_of reg ?g ?new) = ?k + 2" "sh_seq_id (hdr_of reg ?g ?old) = ?k"
    using gn go [OF h(2) ns(4)] h(3) by (simp_all add: new_seg_header_facts)
  have mem: "?new \<in> set (seg_offsets reg)" using ns(1) seg_offsets_set [OF r] by simp
  obtain res where res: "scan_headers stg r0 0 \<lparr>sr_found = None, sr_old_found = None\<rparr> s1 = Some (0, res)" "sr_found res = Some (?k + 2, ?new)"
    using scan_headers_eq [OF same(1) s1(2), of 0 "\<lparr>sr_found = None, sr_old_found = None\<rparr>"]
      fold_found [of "\<lparr>sr_found = None, sr_old_found = None\<rparr>" "hdr_of reg ?g" ?new "seg_offsets reg"] valid mem sid by (auto simp: same)
  let ?r1 = "r0\<lparr>ri_seg_seq_id := ?k + 2, ri_seg_offset := ?new\<rparr>"
  have "scan_previous stg ?r1 0 None s1 = Some (0, None)"
    using scan_previous_eq [of ?r1 s1 0 None] same s1(2) fold_previous_none [of "seg_offsets reg" ?r1 ?g None] valid sid by auto
  moreover have "disk_seg ?r1 ?new ?g []"
    using fresh_seg_facts(2) [OF rn, of ?f ?new] ns(1) same(3) assms(5) big by (simp add: disk_seg_def s1(3) same_region_def add.assoc)
  then obtain reg' s' where s': "region_seg_scan stg False ?r1 s1 = Some (0, reg', s')" "same_nv s1 s'" "same_region ?r1 reg'"
      "seg_holds reg' (cells (nv_dev s')) []"
    using region_seg_scan_empty [of ?r1 s1] same(1) s1(2) assms(6) by auto
  ultimately have "region_scan stg r0 s1 = Some (0, reg', s')" using res by (simp add: region_scan_def)
  moreover have "nv_ok ok s'" using s1(2) same_nv_ok [OF s'(2)] by simp
  ultimately show ?thesis using s1(1) s'(3,4) assms(5) by (auto simp: same_region_def)
qed

end

end
