(* ===== verification/Nvram_Config.thy ===== *)
theory Nvram_Config
  imports Nvram_Boot
begin

text \<open>
  The parameter store as its callers see it: a user map over two factory maps, which set, delete and get
  behave like, and which start-up finds again on the storage, also after a power failure.
\<close>

section \<open>The contents of the store\<close>

abbreviation powered :: "region_info \<Rightarrow> region_info" where
  "powered reg \<equiv> reg\<lparr>ri_storage := True\<rparr>"

definition region_maps :: "region_info \<Rightarrow> region_info \<Rightarrow> (nat \<Rightarrow> u8) \<Rightarrow> (bytes \<rightharpoonup> bytes) \<Rightarrow> bool" where
  "region_maps static reg f M \<longleftrightarrow> same_region (powered static) reg \<and> (\<exists>es. region_holds reg f es \<and> lookup es = M)"

definition config_holds ::
    "('d \<Rightarrow> bool) \<Rightarrow> ('d \<Rightarrow> nat \<Rightarrow> u8) \<Rightarrow> 'd nvram_config \<Rightarrow> (bytes \<rightharpoonup> bytes) \<Rightarrow> (bytes \<rightharpoonup> bytes) \<Rightarrow> (bytes \<rightharpoonup> bytes) \<Rightarrow> bool" where
  "config_holds ok cells c U R F \<longleftrightarrow> nv_ok ok (nc_nv c) \<and>
     region_maps user_nvram_region (nc_user c) (cells (nv_dev (nc_nv c))) U \<and>
     region_maps factory_rw_nvram_region (nc_factory_rw c) (cells (nv_dev (nc_nv c))) R \<and>
     region_maps factory_nvram_region (nc_factory c) (cells (nv_dev (nc_nv c))) F"

text \<open>Only the cells of a region matter to it.\<close>

lemma disk_seg_cells:
  assumes "disk_seg reg p f es" "\<And>i. ri_base_addr reg + p \<le> i \<Longrightarrow> i < ri_base_addr reg + p + ri_seg_size reg \<Longrightarrow> g i = f i"
  shows "disk_seg reg p g es"
proof -
  let ?b = "ri_base_addr reg" and ?n = "ri_seg_size reg"
  note h = assms(1) [unfolded disk_seg_def] and g = assms(2)
  have "entries_at g (?b + (p + 16)) es = entries_at f (?b + (p + 16)) es"
    using h by (intro entries_at_cong) (auto intro!: g)
  moreover have "is_blank g (?b + (p + 16 + tsize es)) (?n - 16 - tsize es)"
  proof (rule is_blank_cong)
    show "is_blank f (?b + (p + 16 + tsize es)) (?n - 16 - tsize es)" using h by blast
  qed (intro g; simp)
  ultimately show ?thesis using h by (simp add: disk_seg_def)
qed

lemma hdr_of_cells:
  assumes "region_cfg reg" "\<And>i. ri_base_addr reg + p \<le> i \<Longrightarrow> i < ri_base_addr reg + p + ri_seg_size reg \<Longrightarrow> g i = f i"
  shows "hdr_of reg g p = hdr_of reg f p"
  unfolding hdr_of_def using region_cfg_facts(5) [OF assms(1)] by (intro header_at_cong assms(2)) auto

lemma disk_holds_cells:
  assumes "region_cfg reg" "disk_holds reg p f es"
    and g: "\<And>i. ri_base_addr reg \<le> i \<Longrightarrow> i < ri_base_addr reg + ri_total_size reg \<Longrightarrow> g i = f i"
  shows "disk_holds reg p g es"
proof -
  have hd: "hdr_of reg g x = hdr_of reg f x" if "seg_cfg reg x" for x
    using that by (intro hdr_of_cells [OF assms(1)] g) (auto simp: seg_cfg_def)
  have d: "disk_seg reg p f es" "p + ri_seg_size reg \<le> ri_total_size reg"
    using assms(2) by (simp_all add: disk_holds_def disk_seg_def seg_cfg_def)
  have "disk_seg reg p g es" by (rule disk_seg_cells [OF d(1) g]) (use d(2) in simp_all)
  then show ?thesis using assms(2) hd by (simp add: disk_holds_def)
qed

lemma region_holds_iff_disk:
  "region_holds reg f es \<longleftrightarrow> disk_holds reg (ri_seg_offset reg) f es \<and> one_live es \<and> bitmap_ok reg 16 es \<and>
     ri_seg_write_offset reg = ri_seg_offset reg + 16 + tsize es \<and> sh_seq_id (hdr_of reg f (ri_seg_offset reg)) = ri_seg_seq_id reg"
  by (auto simp: region_holds_def disk_holds_def seg_current_def seg_holds_disk hdr_of_def disk_seg_def)

lemma region_holds_cells:
  assumes "region_cfg reg" "region_holds reg f es"
    and g: "\<And>i. ri_base_addr reg \<le> i \<Longrightarrow> i < ri_base_addr reg + ri_total_size reg \<Longrightarrow> g i = f i"
  shows "region_holds reg g es"
proof -
  have h: "disk_holds reg (ri_seg_offset reg) f es" "seg_cfg reg (ri_seg_offset reg)"
    using assms(2) by (auto simp: region_holds_iff_disk disk_holds_def disk_seg_def)
  have "hdr_of reg g (ri_seg_offset reg) = hdr_of reg f (ri_seg_offset reg)"
    using h(2) by (intro hdr_of_cells [OF assms(1)] g) (auto simp: seg_cfg_def)
  then show ?thesis using assms(2) disk_holds_cells [OF assms(1) h(1) g] by (simp add: region_holds_iff_disk)
qed

text \<open>The three regions are powered, have a bitmap of the right size, and do not overlap.\<close>

lemmas static_defs = user_nvram_region_def factory_rw_nvram_region_def factory_nvram_region_def

lemma static_regions:
  "region_cfg (powered user_nvram_region)" "region_cfg (powered factory_rw_nvram_region)" "region_cfg (powered factory_nvram_region)"
  "map_sized (powered user_nvram_region)" "map_sized (powered factory_rw_nvram_region)" "map_sized (powered factory_nvram_region)"
  by (simp_all add: static_defs region_cfg_def is_in_nvram_region_bounds_def nvram_region_check_info_def map_sized_def NVRAM_ITEM_ALIGN_SIZE_def)

lemma same_region_cfg: "same_region reg reg' \<Longrightarrow> region_cfg reg' = region_cfg reg"
  by (simp add: same_region_def region_cfg_def is_in_nvram_region_bounds_def)

lemma region_maps_other:
  assumes "region_maps static reg f M" "region_cfg (powered static)" "region_frame reg2 f g"
    and "ri_base_addr static + ri_total_size static \<le> ri_base_addr reg2 \<or> ri_base_addr reg2 + ri_total_size reg2 \<le> ri_base_addr static"
  shows "region_maps static reg g M"
proof -
  obtain es where es: "same_region (powered static) reg" "region_holds reg f es" "lookup es = M" using assms(1) by (auto simp: region_maps_def)
  have "region_holds reg g es"
  proof (rule region_holds_cells [OF _ es(2)])
    show "region_cfg reg" using same_region_cfg [OF es(1)] assms(2) by simp
  qed (use assms(3,4) es(1) in \<open>auto simp: region_frame_def same_region_def\<close>)
  then show ?thesis using es by (auto simp: region_maps_def)
qed

text \<open>What start-up finds in a region whose cells are given.\<close>

definition scans_to ::
    "'d storage_ops \<Rightarrow> ('d \<Rightarrow> nat \<Rightarrow> u8) \<Rightarrow> ('d \<Rightarrow> bool) \<Rightarrow> region_info \<Rightarrow> (nat \<Rightarrow> u8) \<Rightarrow> (bytes \<rightharpoonup> bytes) \<Rightarrow> bool" where
  "scans_to stg cells ok static f M \<longleftrightarrow> (\<forall>s. nv_ok ok s \<longrightarrow>
     (\<forall>i. ri_base_addr static \<le> i \<longrightarrow> i < ri_base_addr static + ri_total_size static \<longrightarrow> cells (nv_dev s) i = f i) \<longrightarrow>
     (\<exists>reg' s'. region_scan stg (powered static) s = Some (0, reg', s') \<and> nv_ok ok s' \<and>
        region_maps static reg' (cells (nv_dev s')) M \<and> region_frame (powered static) (cells (nv_dev s)) (cells (nv_dev s'))))"

text \<open>The storage covers the three regions.\<close>

locale nvram_store = nvram_storage +
  assumes store_lo: "lo \<le> 0x3f0000" and store_hi: "0x400000 \<le> hi"
begin

lemma static_covered:
  "covered lo hi (powered user_nvram_region)" "covered lo hi (powered factory_rw_nvram_region)" "covered lo hi (powered factory_nvram_region)"
  using static_regions store_lo store_hi by (simp_all add: covered_def, simp_all add: static_defs)

lemma maps_covered:
  assumes "config_holds ok cells c U R F"
  shows "covered lo hi (nc_user c)" "covered lo hi (nc_factory_rw c)" "covered lo hi (nc_factory c)"
  using assms static_covered by (auto simp: config_holds_def region_maps_def dest: same_region_covered)

section \<open>Getting\<close>

lemma region_get_maps:
  assumes "region_maps static reg (cells (nv_dev s)) M" "covered lo hi reg" "nv_ok ok s" "good_name name" "0 < n"
  shows "\<exists>s'. same_nv s s' \<and> region_get stg reg (Some name) True n s =
    Some (case M name of None \<Rightarrow> (- ENOENT, [], s') | Some d \<Rightarrow> (min n (int (length d)), take (nat n) d, s'))"
proof -
  obtain es where "seg_holds reg (cells (nv_dev s)) es" "lookup es = M"
    using assms(1) by (auto simp: region_maps_def region_holds_def seg_current_def)
  then show ?thesis using region_get_eq [OF assms(2,3) _ assms(4,5), of es] by blast
qed

lemma config_get_eq:
  assumes "config_holds ok cells c U R F" "good_name name" "0 < n"
  shows "\<exists>c'. nvram_config_get stg (Some name) True n c =
    Some (case (F ++ R ++ U) name of None \<Rightarrow> (- ENOENT, [], c') | Some d \<Rightarrow> (min n (int (length d)), take (nat n) d, c')) \<and>
    config_holds ok cells c' U R F"
proof -
  note cov = maps_covered [OF assms(1)]
  note h = assms(1) [unfolded config_holds_def]
  obtain s1 where s1: "same_nv (nc_nv c) s1" "region_get stg (nc_user c) (Some name) True n (nc_nv c) =
      Some (case U name of None \<Rightarrow> (- ENOENT, [], s1) | Some d \<Rightarrow> (min n (int (length d)), take (nat n) d, s1))"
    using region_get_maps [OF _ cov(1) _ assms(2,3)] h by blast
  obtain s2 where s2: "same_nv s1 s2" "region_get stg (nc_factory_rw c) (Some name) True n s1 =
      Some (case R name of None \<Rightarrow> (- ENOENT, [], s2) | Some d \<Rightarrow> (min n (int (length d)), take (nat n) d, s2))"
    using region_get_maps [OF _ cov(2) _ assms(2,3), of factory_rw_nvram_region s1 R] h same_nv_dev [OF s1(1)] same_nv_ok [OF s1(1)] by auto
  obtain s3 where s3: "same_nv s2 s3" "region_get stg (nc_factory c) (Some name) True n s2 =
      Some (case F name of None \<Rightarrow> (- ENOENT, [], s3) | Some d \<Rightarrow> (min n (int (length d)), take (nat n) d, s3))"
    using region_get_maps [OF _ cov(3) _ assms(2,3), of factory_nvram_region s2 F] h same_nv_dev [OF s1(1)] same_nv_ok [OF s1(1)]
      same_nv_dev [OF s2(1)] same_nv_ok [OF s2(1)] by auto
  have keep: "config_holds ok cells (c\<lparr>nc_nv := s\<rparr>) U R F" if "same_nv (nc_nv c) s" for s
    using h same_nv_dev [OF that] same_nv_ok [OF that] by (simp add: config_holds_def)
  have k: "config_holds ok cells (c\<lparr>nc_nv := s1\<rparr>) U R F" "config_holds ok cells (c\<lparr>nc_nv := s2\<rparr>) U R F"
      "config_holds ok cells (c\<lparr>nc_nv := s3\<rparr>) U R F"
    using keep s1(1) same_nv_trans [OF s1(1) s2(1)] same_nv_trans [OF same_nv_trans [OF s1(1) s2(1)] s3(1)] by blast+
  consider d where "U name = Some d" | d where "U name = None" "R name = Some d" | "U name = None" "R name = None"
    by (cases "U name"; cases "R name") auto
  then show ?thesis
    using s1(2) s2(2) s3(2) assms(3) k
    by cases (auto simp: nvram_config_get_def map_add_def split: option.splits)
qed

section \<open>Setting and deleting\<close>

text \<open>A change of one region leaves the other two.\<close>

lemma user_changed:
  assumes "config_holds ok cells c U R F" "nv_ok ok s'" "same_region (nc_user c) reg'"
    and "region_holds reg' (cells (nv_dev s')) es'" "region_frame (nc_user c) (cells (nv_dev (nc_nv c))) (cells (nv_dev s'))"
  shows "config_holds ok cells (c\<lparr>nc_user := reg', nc_nv := s'\<rparr>) (lookup es') R F"
proof -
  note h = assms(1) [unfolded config_holds_def]
  have u: "same_region (powered user_nvram_region) (nc_user c)" using h by (simp add: region_maps_def)
  have b: "ri_base_addr (nc_user c) = 0x3f4000" "ri_total_size (nc_user c) = 0xc000"
    using u by (simp_all add: same_region_def user_nvram_region_def)
  have "region_maps factory_rw_nvram_region (nc_factory_rw c) (cells (nv_dev s')) R"
    using h static_regions(2) assms(5) by (rule_tac region_maps_other [of _ _ "cells (nv_dev (nc_nv c))"]) (auto simp: b factory_rw_nvram_region_def)
  moreover have "region_maps factory_nvram_region (nc_factory c) (cells (nv_dev s')) F"
    using h static_regions(3) assms(5) by (rule_tac region_maps_other [of _ _ "cells (nv_dev (nc_nv c))"]) (auto simp: b factory_nvram_region_def)
  ultimately show ?thesis
    using assms(2,4) same_region_trans [OF u assms(3)] by (auto simp: config_holds_def region_maps_def)
qed

lemma factory_changed:
  assumes "config_holds ok cells c U R F" "nv_ok ok s'" "same_region (nc_factory_rw c) reg'"
    and "region_holds reg' (cells (nv_dev s')) es'" "region_frame (nc_factory_rw c) (cells (nv_dev (nc_nv c))) (cells (nv_dev s'))"
  shows "config_holds ok cells (c\<lparr>nc_factory_rw := reg', nc_nv := s'\<rparr>) U (lookup es') F"
proof -
  note h = assms(1) [unfolded config_holds_def]
  have u: "same_region (powered factory_rw_nvram_region) (nc_factory_rw c)" using h by (simp add: region_maps_def)
  have b: "ri_base_addr (nc_factory_rw c) = 0x3f2000" "ri_total_size (nc_factory_rw c) = 0x2000"
    using u by (simp_all add: same_region_def factory_rw_nvram_region_def)
  have "region_maps user_nvram_region (nc_user c) (cells (nv_dev s')) U"
    using h static_regions(1) assms(5) by (rule_tac region_maps_other [of _ _ "cells (nv_dev (nc_nv c))"]) (auto simp: b user_nvram_region_def)
  moreover have "region_maps factory_nvram_region (nc_factory c) (cells (nv_dev s')) F"
    using h static_regions(3) assms(5) by (rule_tac region_maps_other [of _ _ "cells (nv_dev (nc_nv c))"]) (auto simp: b factory_nvram_region_def)
  ultimately show ?thesis
    using assms(2,4) same_region_trans [OF u assms(3)] by (auto simp: config_holds_def region_maps_def)
qed

lemma config_set_eq:
  assumes "config_holds ok cells c U R F" "good_name name" "0 < length data" "length data \<le> NVRAM_MAX_DATA_SIZE" "room 0x2000 U name data"
  shows "\<exists>c'. nvram_config_set stg (Some name) (Some data) (int (length data)) c = Some (0, c') \<and>
    config_holds ok cells c' (U(name \<mapsto> data)) R F"
proof -
  have "region_maps user_nvram_region (nc_user c) (cells (nv_dev (nc_nv c))) U" "nv_ok ok (nc_nv c)"
    using assms(1) by (simp_all add: config_holds_def)
  then obtain es where es: "region_holds (nc_user c) (cells (nv_dev (nc_nv c))) es" "lookup es = U" "ri_seg_size (nc_user c) = 0x2000" "nv_ok ok (nc_nv c)"
    by (auto simp: region_maps_def same_region_def user_nvram_region_def)
  obtain reg' s' es' where "region_set stg (Some name) (Some data) (int (length data)) (nc_user c) (nc_nv c) = Some (0, reg', s')"
      "nv_ok ok s'" "same_region (nc_user c) reg'" "region_holds reg' (cells (nv_dev s')) es'" "lookup es' = U(name \<mapsto> data)"
      "region_frame (nc_user c) (cells (nv_dev (nc_nv c))) (cells (nv_dev s'))"
    using region_set_eq [OF maps_covered(1) [OF assms(1)] es(4,1) assms(2-4)] es(2,3) assms(5) by auto
  then show ?thesis
    using user_changed [OF assms(1), of s' reg' es'] by (auto simp: nvram_config_set_def)
qed

lemma config_set_factory_eq:
  assumes "config_holds ok cells c U R F" "good_name name" "0 < length data" "length data \<le> NVRAM_MAX_DATA_SIZE" "room 0x1000 R name data"
  shows "\<exists>c'. nvram_config_set_factory stg (Some name) (Some data) (int (length data)) c = Some (0, c') \<and>
    config_holds ok cells c' U (R(name \<mapsto> data)) F"
proof -
  have "region_maps factory_rw_nvram_region (nc_factory_rw c) (cells (nv_dev (nc_nv c))) R" "nv_ok ok (nc_nv c)"
    using assms(1) by (simp_all add: config_holds_def)
  then obtain es where es: "region_holds (nc_factory_rw c) (cells (nv_dev (nc_nv c))) es" "lookup es = R" "ri_seg_size (nc_factory_rw c) = 0x1000"
      "nv_ok ok (nc_nv c)"
    by (auto simp: region_maps_def same_region_def factory_rw_nvram_region_def)
  obtain reg' s' es' where "region_set stg (Some name) (Some data) (int (length data)) (nc_factory_rw c) (nc_nv c) = Some (0, reg', s')"
      "nv_ok ok s'" "same_region (nc_factory_rw c) reg'" "region_holds reg' (cells (nv_dev s')) es'" "lookup es' = R(name \<mapsto> data)"
      "region_frame (nc_factory_rw c) (cells (nv_dev (nc_nv c))) (cells (nv_dev s'))"
    using region_set_eq [OF maps_covered(2) [OF assms(1)] es(4,1) assms(2-4)] es(2,3) assms(5) by auto
  then show ?thesis
    using factory_changed [OF assms(1), of s' reg' es'] by (auto simp: nvram_config_set_factory_def)
qed

lemma config_delete_eq:
  assumes "config_holds ok cells c U R F" "good_name name" "len \<le> 0" "data = None \<longrightarrow> len = 0"
  shows "\<exists>c'. nvram_config_set stg (Some name) data len c = Some (0, c') \<and> config_holds ok cells c' (U(name := None)) R F"
proof -
  have "region_maps user_nvram_region (nc_user c) (cells (nv_dev (nc_nv c))) U" "nv_ok ok (nc_nv c)"
    using assms(1) by (simp_all add: config_holds_def)
  then obtain es where es: "region_holds (nc_user c) (cells (nv_dev (nc_nv c))) es" "lookup es = U" "nv_ok ok (nc_nv c)"
    by (auto simp: region_maps_def)
  obtain reg' s' es' where "region_set stg (Some name) data len (nc_user c) (nc_nv c) = Some (0, reg', s')"
      "nv_ok ok s'" "same_region (nc_user c) reg'" "region_holds reg' (cells (nv_dev s')) es'" "lookup es' = U(name := None)"
      "region_frame (nc_user c) (cells (nv_dev (nc_nv c))) (cells (nv_dev s'))"
    using region_delete_eq [OF maps_covered(1) [OF assms(1)] es(3,1) assms(2-4)] es(2) by auto
  then show ?thesis
    using user_changed [OF assms(1), of s' reg' es'] by (auto simp: nvram_config_set_def)
qed

section \<open>Start-up\<close>

lemma config_init_eq:
  assumes "ok (nv_dev s)" "scans_to stg cells ok user_nvram_region (cells (nv_dev s)) U"
    and "scans_to stg cells ok factory_rw_nvram_region (cells (nv_dev s)) R" "scans_to stg cells ok factory_nvram_region (cells (nv_dev s)) F"
  shows "\<exists>c. nvram_config_init stg True s = Some (0, c) \<and> config_holds ok cells c U R F \<and>
    (\<exists>s0 s'. region_scan stg (powered user_nvram_region) s0 = Some (0, nc_user c, s') \<and> nv_ok ok s0 \<and>
      (\<forall>i. 0x3f4000 \<le> i \<longrightarrow> cells (nv_dev s0) i = cells (nv_dev s) i))"
proof -
  let ?s0 = "s\<lparr>nv_buf := replicate NVRAM_BUFFER_SIZE 0\<rparr>"
  have ok0: "nv_ok ok ?s0" using assms(1) by (simp add: nv_ok_def)
  obtain rw s1 where s1: "region_scan stg (powered factory_rw_nvram_region) ?s0 = Some (0, rw, s1)" "nv_ok ok s1"
      "region_maps factory_rw_nvram_region rw (cells (nv_dev s1)) R"
      "region_frame (powered factory_rw_nvram_region) (cells (nv_dev s)) (cells (nv_dev s1))"
    using assms(3) ok0 unfolding scans_to_def by fastforce
  obtain fa s2 where s2: "region_scan stg (powered factory_nvram_region) s1 = Some (0, fa, s2)" "nv_ok ok s2"
      "region_maps factory_nvram_region fa (cells (nv_dev s2)) F"
      "region_frame (powered factory_nvram_region) (cells (nv_dev s1)) (cells (nv_dev s2))"
    using assms(4) [unfolded scans_to_def, rule_format, OF s1(2)] s1(4) by (auto simp: region_frame_def static_defs)
  obtain us s3 where s3: "region_scan stg (powered user_nvram_region) s2 = Some (0, us, s3)" "nv_ok ok s3"
      "region_maps user_nvram_region us (cells (nv_dev s3)) U"
      "region_frame (powered user_nvram_region) (cells (nv_dev s2)) (cells (nv_dev s3))"
    using assms(2) [unfolded scans_to_def, rule_format, OF s2(2)] s1(4) s2(4) by (auto simp: region_frame_def static_defs)
  obtain es where es: "same_region (powered user_nvram_region) us" "region_holds us (cells (nv_dev s3)) es" "lookup es = U"
    using s3(3) by (auto simp: region_maps_def)
  let ?s4 = "region_clear stg us (ri_total_size us div 2) s3"
  have cov: "covered lo hi us" using same_region_covered [OF es(1)] static_covered(1) by simp
  note s4 = region_clear_eq [OF cov s3(2) es(2), of "ri_total_size us div 2"]
  have b: "ri_base_addr us = 0x3f4000" using es(1) by (simp add: same_region_def user_nvram_region_def)
  have fr: "region_frame (powered user_nvram_region) (cells (nv_dev s2)) (cells (nv_dev ?s4))"
    using region_frame_trans [OF s3(4) _ es(1)] s4 by blast
  have "region_maps factory_nvram_region fa (cells (nv_dev ?s4)) F"
    by (rule region_maps_other [OF s2(3) static_regions(3) fr]) (simp add: static_defs)
  moreover have "region_maps factory_rw_nvram_region rw (cells (nv_dev s2)) R"
    by (rule region_maps_other [OF s1(3) static_regions(2) s2(4)]) (simp add: static_defs)
  then have "region_maps factory_rw_nvram_region rw (cells (nv_dev ?s4)) R"
    by (rule region_maps_other [OF _ static_regions(2) fr]) (simp add: static_defs)
  moreover have "region_maps user_nvram_region us (cells (nv_dev ?s4)) U" using s4 es by (auto simp: region_maps_def)
  moreover have "\<forall>i. 0x3f4000 \<le> i \<longrightarrow> cells (nv_dev s2) i = cells (nv_dev s) i"
    using s1(4) s2(4) by (auto simp: region_frame_def static_defs)
  ultimately show ?thesis
    using s4 s1(1) s2(1,2) s3(1) by (auto simp: nvram_config_init_def nvram_statics_def config_holds_def)
qed

lemma scans_blank:
  assumes "covered lo hi (powered static)" "map_sized (powered static)" "is_blank f (ri_base_addr static) (ri_total_size static)"
  shows "scans_to stg cells ok static f Map.empty"
  unfolding scans_to_def
proof (intro allI impI)
  fix s0
  assume s0: "nv_ok ok s0" "\<forall>i. ri_base_addr static \<le> i \<longrightarrow> i < ri_base_addr static + ri_total_size static \<longrightarrow> cells (nv_dev s0) i = f i"
  have "is_blank (cells (nv_dev s0)) (ri_base_addr (powered static)) (ri_total_size (powered static))"
    using assms(3) s0(2) by (simp add: is_blank_def)
  moreover have "lookup [] = Map.empty" by (simp add: fun_eq_iff)
  ultimately show "\<exists>reg' s'. region_scan stg (powered static) s0 = Some (0, reg', s') \<and> nv_ok ok s' \<and>
      region_maps static reg' (cells (nv_dev s')) Map.empty \<and> region_frame (powered static) (cells (nv_dev s0)) (cells (nv_dev s'))"
    using region_scan_blank [OF assms(1) s0(1) assms(2)] unfolding region_maps_def by metis
qed

lemma scans_disk:
  assumes "covered lo hi (powered static)" "map_sized (powered static)" "disk_holds (powered static) p f es"
  shows "scans_to stg cells ok static f (lookup (rev es))"
  unfolding scans_to_def
proof (intro allI impI)
  fix s
  assume s: "nv_ok ok s" "\<forall>i. ri_base_addr static \<le> i \<longrightarrow> i < ri_base_addr static + ri_total_size static \<longrightarrow> cells (nv_dev s) i = f i"
  have "region_cfg (powered static)" using assms(1) by (simp add: covered_def)
  then have "disk_holds (powered static) p (cells (nv_dev s)) es" using s(2) by (intro disk_holds_cells [OF _ assms(3)]) auto
  then show "\<exists>reg' s'. region_scan stg (powered static) s = Some (0, reg', s') \<and> nv_ok ok s' \<and>
      region_maps static reg' (cells (nv_dev s')) (lookup (rev es)) \<and> region_frame (powered static) (cells (nv_dev s)) (cells (nv_dev s'))"
    using region_scan_eq [OF assms(1) s(1) assms(2)] unfolding region_maps_def by metis
qed

lemma scans_maps:
  assumes "covered lo hi (powered static)" "map_sized (powered static)" "region_maps static reg f M"
  shows "scans_to stg cells ok static f M"
proof -
  obtain es where es: "same_region (powered static) reg" "region_holds reg f es" "lookup es = M" using assms(3) by (auto simp: region_maps_def)
  have "disk_holds (powered static) (ri_seg_offset reg) f es" "one_live es"
    using es(2) disk_holds_same [OF es(1)] by (simp_all add: region_holds_iff_disk)
  then show ?thesis using scans_disk [OF assms(1,2)] lookup_rev [of es] es(3) by metis
qed

lemma scans_cells:
  assumes "scans_to stg cells ok static f M" "\<And>i. ri_base_addr static \<le> i \<Longrightarrow> i < ri_base_addr static + ri_total_size static \<Longrightarrow> g i = f i"
  shows "scans_to stg cells ok static g M"
  using assms by (auto simp: scans_to_def)

text \<open>A power cycle: only the device keeps its state.\<close>

lemma config_reboot_eq:
  assumes "config_holds ok cells c U R F" "nv_dev s = nv_dev (nc_nv c)"
  shows "\<exists>c'. nvram_config_init stg True s = Some (0, c') \<and> config_holds ok cells c' U R F"
proof -
  have "ok (nv_dev s)" using assms by (simp add: config_holds_def nv_ok_def)
  moreover have "scans_to stg cells ok user_nvram_region (cells (nv_dev s)) U" "scans_to stg cells ok factory_rw_nvram_region (cells (nv_dev s)) R"
      "scans_to stg cells ok factory_nvram_region (cells (nv_dev s)) F"
    using assms static_covered static_regions(4-6) by (auto simp: config_holds_def intro!: scans_maps)
  ultimately show ?thesis using config_init_eq by blast
qed

text \<open>A device whose user region has changed.\<close>

lemma config_boot_user:
  assumes "config_holds ok cells c U R F" "ok (nv_dev s)" "region_frame (nc_user c) (cells (nv_dev (nc_nv c))) (cells (nv_dev s))"
    and "scans_to stg cells ok user_nvram_region (cells (nv_dev s)) U'"
  shows "\<exists>c'. nvram_config_init stg True s = Some (0, c') \<and> config_holds ok cells c' U' R F"
proof -
  note h = assms(1) [unfolded config_holds_def]
  have b: "ri_base_addr (nc_user c) = 0x3f4000" "ri_total_size (nc_user c) = 0xc000"
    using h by (auto simp: region_maps_def same_region_def user_nvram_region_def)
  have "scans_to stg cells ok factory_rw_nvram_region (cells (nv_dev s)) R"
    using h assms(3) b static_covered(2) static_regions(5) by (intro scans_cells [OF scans_maps]) (auto simp: region_frame_def factory_rw_nvram_region_def)
  moreover have "scans_to stg cells ok factory_nvram_region (cells (nv_dev s)) F"
    using h assms(3) b static_covered(3) static_regions(6) by (intro scans_cells [OF scans_maps]) (auto simp: region_frame_def factory_nvram_region_def)
  ultimately show ?thesis using config_init_eq [OF assms(2,4)] by blast
qed

section \<open>Power failures\<close>

text \<open>An item has been written and the old one is not retired yet.\<close>

lemma config_after_write:
  assumes "config_holds ok cells c U R F" "good_name name" "length data < 65536"
    and "ri_seg_write_offset (nc_user c) + item_size name data \<le> ri_seg_offset (nc_user c) + ri_seg_size (nc_user c)"
    and "nv_dev s = nv_dev (snd (region_write_item stg (nc_user c) (ri_seg_write_offset (nc_user c)) name data (length data) (nc_nv c)))"
  shows "\<exists>c'. nvram_config_init stg True s = Some (0, c') \<and> config_holds ok cells c' (U(name \<mapsto> data)) R F"
proof -
  let ?reg = "nc_user c" and ?f = "cells (nv_dev (nc_nv c))" and ?e = "new_entry name data"
  obtain es where es: "same_region (powered user_nvram_region) ?reg" "region_holds ?reg ?f es" "lookup es = U" "nv_ok ok (nc_nv c)"
    using assms(1) by (auto simp: config_holds_def region_maps_def)
  note e = new_entry_facts [OF assms(2,3)]
  note cov = maps_covered(1) [OF assms(1)]
  have r: "region_cfg ?reg" using cov by (simp add: covered_def)
  have sh: "seg_holds ?reg ?f es" "seg_cfg ?reg (ri_seg_offset ?reg)" "ri_seg_write_offset ?reg = ri_seg_offset ?reg + 16 + tsize es"
    using es(2) by (auto simp: region_holds_def seg_current_def seg_holds_disk disk_seg_def)
  have fit: "16 + tsize es + esize ?e \<le> ri_seg_size ?reg" "length (entry_bytes ?e) \<le> esize ?e"
    using assms(4) sh(3) e(4) esize_facts(1) [OF e(1)] by (simp_all add: item_size_def)
  have "is_blank ?f (ri_base_addr ?reg + ri_seg_write_offset ?reg) (ri_seg_size ?reg - 16 - tsize es)"
    using sh(1) unfolding seg_holds_def by blast
  then have bl: "is_blank ?f (ri_base_addr ?reg + ri_seg_write_offset ?reg) (length (entry_bytes ?e))" using fit by (rule_tac is_blank_sub) auto
  have "ri_seg_write_offset ?reg + length (entry_bytes ?e) \<le> ri_total_size ?reg" using fit sh(2,3) by (simp add: seg_cfg_def)
  then have dev: "ok (nv_dev s)" "cells (nv_dev s) = overlay ?f (ri_base_addr ?reg + ri_seg_write_offset ?reg) (entry_bytes ?e)"
    using region_write_item_eq [OF cov es(4) assms(2,3) _ bl] assms(5) by (auto simp: nv_ok_def)
  have other: "cells (nv_dev s) i = ?f i"
    if "i < ri_base_addr ?reg + ri_seg_offset ?reg + 16 \<or> ri_base_addr ?reg + ri_seg_offset ?reg + ri_seg_size ?reg \<le> i" for i
    unfolding dev(2) using that fit sh(3) by (intro overlay_other) auto
  obtain m where "seg_holds (?reg\<lparr>ri_seg_item_map := m, ri_seg_write_offset := ri_seg_write_offset ?reg + esize ?e\<rparr>) (cells (nv_dev s)) (es @ [?e])"
    using seg_holds_append [OF sh(1) e(1) fit(1) e(3) dev(2)] by blast
  then have ds: "disk_seg ?reg (ri_seg_offset ?reg) (cells (nv_dev s)) (es @ [?e])" by (simp add: seg_holds_disk disk_seg_def)
  have "hdr_of ?reg (cells (nv_dev s)) x = hdr_of ?reg ?f x" if "seg_cfg ?reg x" for x
    unfolding hdr_of_def using region_cfg_facts(5) [OF r] seg_cfg_apart [OF that sh(2)]
    by (intro header_at_cong other) (cases "x = ri_seg_offset ?reg"; auto)
  then have "disk_holds ?reg (ri_seg_offset ?reg) (cells (nv_dev s)) (es @ [?e])"
    using es(2) ds by (simp add: region_holds_iff_disk disk_holds_def)
  then have "disk_holds (powered user_nvram_region) (ri_seg_offset ?reg) (cells (nv_dev s)) (es @ [?e])"
    by (simp only: disk_holds_same [OF es(1)])
  then have "scans_to stg cells ok user_nvram_region (cells (nv_dev s)) (lookup (rev (es @ [?e])))"
    by (rule scans_disk [OF static_covered(1) static_regions(4)])
  moreover have "lookup (rev (es @ [?e])) = U(name \<mapsto> data)"
  proof
    fix k
    have "lookup (rev es) = U" using lookup_rev [of es] es(2,3) by (simp add: region_holds_iff_disk)
    moreover have "is_entry_of k ?e \<longleftrightarrow> k = name" using e(2) by (auto simp: is_entry_of_def)
    moreover have "en_data ?e = data" by (simp add: new_entry_def)
    ultimately show "lookup (rev (es @ [?e])) k = (U(name \<mapsto> data)) k"
      using lookup_append [of "[?e]" "rev es" k] by (simp add: lookup_single)
  qed
  moreover have "region_frame ?reg ?f (cells (nv_dev s))" using other sh(2) by (auto simp: region_frame_def seg_cfg_def)
  ultimately show ?thesis using config_boot_user [OF assms(1) dev(1)] by metis
qed

text \<open>The current segment is being copied: whatever the next one holds, the old one counts until it is made obsolete.\<close>

lemma scans_interrupted:
  assumes "region_holds reg f es" "same_region (powered static) reg" "covered lo hi reg" "map_sized (powered static)"
    and g: "\<And>i. i < ri_base_addr reg + next_seg reg \<or> ri_base_addr reg + next_seg reg + ri_seg_size reg \<le> i \<Longrightarrow> g i = f i"
    and "hdr_of reg g (next_seg reg) = new_seg_header reg \<or> \<not> is_valid_region_seg_header (hdr_of reg g (next_seg reg))"
  shows "scans_to stg cells ok static g (lookup es)"
  unfolding scans_to_def
proof (intro allI impI)
  fix s
  assume s: "nv_ok ok s" "\<forall>i. ri_base_addr static \<le> i \<longrightarrow> i < ri_base_addr static + ri_total_size static \<longrightarrow> cells (nv_dev s) i = g i"
  let ?p = "powered static" and ?h = "cells (nv_dev s)" and ?old = "ri_seg_offset reg" and ?new = "next_seg reg"
  have r: "region_cfg reg" "region_cfg ?p" using assms(3) same_region_cfg [OF assms(2)] by (simp_all add: covered_def)
  have p: "ri_base_addr reg = ri_base_addr static" "ri_total_size reg = ri_total_size static" "ri_seg_size reg = ri_seg_size static"
    using assms(2) by (simp_all add: same_region_def)
  have cov: "covered lo hi ?p" using assms(3) same_region_covered [OF assms(2)] by simp
  have h: "disk_holds reg ?old f es" "one_live es" "seg_cfg reg ?old" "sh_seq_id (hdr_of reg f ?old) = ri_seg_seq_id reg"
    using assms(1) by (auto simp: region_holds_iff_disk disk_holds_def disk_seg_def)
  note ns = next_seg_facts [OF r(1) h(3)]
  have agree: "?h i = f i" if "seg_cfg reg x" "x \<noteq> ?new" "ri_base_addr reg + x \<le> i" "i < ri_base_addr reg + x + ri_seg_size reg" for x i
    using s(2) g [of i] seg_cfg_apart [OF that(1) ns(1) that(2)] that p by (auto simp: seg_cfg_def)
  have hd: "hdr_of reg ?h x = hdr_of reg f x" if "seg_cfg reg x" "x \<noteq> ?new" for x
    using agree [OF that] by (intro hdr_of_cells [OF r(1)])
  have hn: "hdr_of reg ?h ?new = hdr_of reg g ?new"
    using s(2) p ns(3) by (intro hdr_of_cells [OF r(1)]) auto
  have sc: "seg_cfg ?p = seg_cfg reg" "hdr_of ?p = hdr_of reg" using same_region_seg_cfg [OF assms(2)] by (simp_all add: hdr_of_def fun_eq_iff)
  have ds: "disk_seg ?p ?old ?h es"
    using h(1) agree [OF h(3) ns(4)] disk_seg_same [OF assms(2)] disk_seg_cells [of reg ?old f es ?h] by (simp add: disk_holds_def)
  have valid: "is_valid_region_seg_header (hdr_of ?p ?h x) \<longleftrightarrow> x = ?old \<or> x = ?new \<and> is_valid_region_seg_header (hdr_of reg g ?new)"
    if "seg_cfg ?p x" for x
    using that h(1) hd hn ns(4) by (cases "x = ?new") (auto simp: sc disk_holds_def)
  show "\<exists>reg' s'. region_scan stg ?p s = Some (0, reg', s') \<and> nv_ok ok s' \<and>
      region_maps static reg' (cells (nv_dev s')) (lookup es) \<and> region_frame ?p (cells (nv_dev s)) (cells (nv_dev s'))"
  proof (cases "is_valid_region_seg_header (hdr_of reg g ?new)")
    case False
    then have "disk_holds ?p ?old ?h es" using ds valid by (auto simp: disk_holds_def)
    then show ?thesis
      using region_scan_eq [OF cov s(1) assms(4), of ?old es] lookup_rev [OF h(2)] unfolding region_maps_def by metis
  next
    case True
    then have n: "hdr_of reg g ?new = new_seg_header reg" using assms(6) by blast
    have "sh_seq_id (hdr_of ?p ?h ?new) = sh_seq_id (hdr_of ?p ?h ?old) + 1"
      using n hn hd [OF h(3) ns(4)] h(4) by (simp add: sc new_seg_header_facts)
    then show ?thesis
      using region_scan_merge [OF cov s(1) assms(4) ds h(2) _ _ ns(4)] valid True ns(1) unfolding region_maps_def sc by metis
  qed
qed

lemma config_interrupted:
  assumes "config_holds ok cells c U R F" "ok (nv_dev s)"
    and "\<And>i. i < ri_base_addr (nc_user c) + next_seg (nc_user c) \<or>
      ri_base_addr (nc_user c) + next_seg (nc_user c) + ri_seg_size (nc_user c) \<le> i \<Longrightarrow> cells (nv_dev s) i = cells (nv_dev (nc_nv c)) i"
    and "hdr_of (nc_user c) (cells (nv_dev s)) (next_seg (nc_user c)) = new_seg_header (nc_user c) \<or>
      \<not> is_valid_region_seg_header (hdr_of (nc_user c) (cells (nv_dev s)) (next_seg (nc_user c)))"
  shows "\<exists>c'. nvram_config_init stg True s = Some (0, c') \<and> config_holds ok cells c' U R F"
proof -
  let ?reg = "nc_user c"
  obtain es where es: "same_region (powered user_nvram_region) ?reg" "region_holds ?reg (cells (nv_dev (nc_nv c))) es" "lookup es = U"
    using assms(1) by (auto simp: config_holds_def region_maps_def)
  note cov = maps_covered(1) [OF assms(1)]
  have "region_cfg ?reg" "seg_cfg ?reg (ri_seg_offset ?reg)"
    using cov es(2) by (auto simp: covered_def region_holds_iff_disk disk_holds_def disk_seg_def)
  note ns = next_seg_facts [OF this]
  have "scans_to stg cells ok user_nvram_region (cells (nv_dev s)) U"
    using scans_interrupted [OF es(2,1) cov static_regions(4) assms(3,4)] es(3) by simp
  moreover have "region_frame ?reg (cells (nv_dev (nc_nv c))) (cells (nv_dev s))"
    using assms(3) ns(3) by (auto simp: region_frame_def)
  ultimately show ?thesis using config_boot_user [OF assms(1,2)] by blast
qed

end

end
