(* ===== verification/Nvram.thy ===== *)
theory Nvram
  imports Nvram_Config
begin

text \<open>
  The properties of the parameter store over any NOR flash: what sequences of updates and power cycles
  leave, what a reader gets, which interruptions lose nothing, and the errors.
\<close>

section \<open>Sequences of operations\<close>

datatype param_cmd = Put bytes bytes | Del bytes | Power_Cycle

fun spec_step :: "param_cmd \<Rightarrow> (bytes \<rightharpoonup> bytes) \<Rightarrow> (bytes \<rightharpoonup> bytes)" where
  "spec_step (Put name data) M = M(name \<mapsto> data)"
| "spec_step (Del name) M = M(name := None)"
| "spec_step Power_Cycle M = M"

text \<open>An update fits if the segment has room for it beside all that is stored.\<close>

fun step_fits :: "(bytes \<rightharpoonup> bytes) \<Rightarrow> param_cmd \<Rightarrow> bool" where
  "step_fits M (Put name data) \<longleftrightarrow>
     good_name name \<and> 0 < length data \<and> length data \<le> NVRAM_MAX_DATA_SIZE \<and> room 0x2000 M name data"
| "step_fits M (Del name) \<longleftrightarrow> good_name name"
| "step_fits M Power_Cycle \<longleftrightarrow> True"

text \<open>An update that reports success.\<close>

definition store_step :: "'d storage_ops \<Rightarrow> param_cmd \<Rightarrow> 'd nvram_config \<Rightarrow> 'd nvram_config option" where
  "store_step stg cmd c = do {
     (ret, c) \<leftarrow> (case cmd of
         Put name data \<Rightarrow> nvram_config_set stg (Some name) (Some data) (int (length data)) c
       | Del name \<Rightarrow> nvram_config_set stg (Some name) None 0 c
       | Power_Cycle \<Rightarrow> nvram_config_init stg True (nc_nv c));
     if ret = 0 then Some c else None }"

sublocale nvram_store \<subseteq> params: step_refinement "store_step stg" spec_step step_fits "\<lambda>c U. config_holds ok cells c U R F" for R F
proof
  fix c U cmd
  assume h: "config_holds ok cells c U R F" "step_fits U cmd"
  show "\<exists>c'. store_step stg cmd c = Some c' \<and> config_holds ok cells c' (spec_step cmd U) R F"
  proof (cases cmd)
    case (Put name data)
    then show ?thesis using config_set_eq [OF h(1), of name data] h(2) by (auto simp: store_step_def)
  next
    case (Del name)
    then show ?thesis using config_delete_eq [OF h(1), of name 0 None] h(2) by (auto simp: store_step_def)
  next
    case Power_Cycle
    then show ?thesis using config_reboot_eq [OF h(1) refl] by (auto simp: store_step_def)
  qed
qed

context nvram_store
begin

lemma store_refines:
  assumes "config_holds ok cells c U R F" "all_fit spec_step step_fits U cmds"
  shows "\<exists>c'. run_steps (store_step stg) cmds c = Some c' \<and> config_holds ok cells c' (fold spec_step cmds U) R F"
  by (rule params.run_refines [OF assms])

text \<open>The room is not checked again after a purge.\<close>

lemma prepare_overflow:
  assumes "config_holds ok cells c U R F" "0x2000 < 16 + used U + sz"
  shows "\<exists>reg' s'. region_prepare_write_item stg sz (nc_user c) (nc_nv c) = Some (reg', s') \<and>
    ri_seg_offset reg' + ri_seg_size reg' < ri_seg_write_offset reg' + sz"
proof -
  let ?reg = "nc_user c"
  obtain es where es: "region_holds ?reg (cells (nv_dev (nc_nv c))) es" "lookup es = U" "ri_seg_size ?reg = 0x2000" "nv_ok ok (nc_nv c)"
    using assms(1) by (auto simp: config_holds_def region_maps_def same_region_def user_nvram_region_def)
  have sz: "tsize (filter live es) = used U" "ri_seg_write_offset ?reg = ri_seg_offset ?reg + 16 + tsize es"
    using es(1,2) used_lookup [of es] by (auto simp: region_holds_iff_disk disk_holds_def disk_seg_def)
  then have full: "ri_seg_write_offset ?reg + sz > ri_seg_offset ?reg + ri_seg_size ?reg" using assms(2) tsize_live [of es] es(3) by simp
  obtain reg' s' where s': "region_purge_seg stg False ?reg (nc_nv c) = Some (reg', s')" "same_region ?reg reg'"
      "region_holds reg' (cells (nv_dev s')) (filter live es)"
    using purge_holds [OF maps_covered(1) [OF assms(1)] es(4,1), of False] by blast
  have "ri_seg_write_offset reg' = ri_seg_offset reg' + 16 + used U" "ri_seg_size reg' = 0x2000"
    using s'(2,3) sz(1) es(3) by (auto simp: region_holds_iff_disk same_region_def)
  then show ?thesis using s'(1) full assms(2) by (simp add: region_prepare_write_item_def)
qed

end

section \<open>A NOR flash as the storage\<close>

lemma nor_flash_store:
  assumes "nor_flash api cells n" "0x400000 \<le> n"
  shows "nvram_store (flash_storage api) cells (\<lambda>d. True) 0 n"
proof -
  have "nvram_storage (flash_storage api) cells (\<lambda>d. True) 0 n" by (rule nor_flash.flash_is_storage [OF assms(1)])
  then show ?thesis using assms(2) by (intro nvram_store.intro nvram_store_axioms.intro) simp_all
qed

interpretation nor_store: nvram_store "flash_storage nor_sim" "\<lambda>d. d" "\<lambda>d. True" 0 "0x400000"
  by (rule nor_flash_store [OF nor.nor_flash_axioms]) simp

abbreviation store_holds :: "('d \<Rightarrow> nat \<Rightarrow> u8) \<Rightarrow> 'd nvram_config \<Rightarrow> (bytes \<rightharpoonup> bytes) \<Rightarrow> (bytes \<rightharpoonup> bytes) \<Rightarrow> (bytes \<rightharpoonup> bytes) \<Rightarrow> bool" where
  "store_holds cells \<equiv> config_holds (\<lambda>d. True) cells"

text \<open>The first start-up of an erased flash.\<close>

lemma first_init:
  assumes "nor_flash api cells n" "0x400000 \<le> n" "\<And>i. 0x3f0000 \<le> i \<Longrightarrow> i < 0x400000 \<Longrightarrow> cells (nv_dev s) i = 0xff"
  shows "\<exists>c. nvram_config_init (flash_storage api) True s = Some (0, c) \<and> store_holds cells c Map.empty Map.empty Map.empty \<and>
    ri_seg_offset (nc_user c) = 0 \<and> ri_seg_write_offset (nc_user c) = 16 \<and> ri_seg_size (nc_user c) = 0x2000"
proof -
  note st = nor_flash_store [OF assms(1,2)]
  note cov = nvram_store.static_covered [OF st]
  have stg: "nvram_storage (flash_storage api) cells (\<lambda>d. True) 0 n" by (rule nor_flash.flash_is_storage [OF assms(1)])
  have "scans_to (flash_storage api) cells (\<lambda>d. True) static (cells (nv_dev s)) Map.empty"
    if "covered 0 n (powered static)" "map_sized (powered static)" for static
    using that nvram_store.scans_blank [OF st that] assms(3) region_cfg_facts(9,10) [of "powered static"]
    by (auto simp: is_blank_def covered_def)
  then have scans: "scans_to (flash_storage api) cells (\<lambda>d. True) user_nvram_region (cells (nv_dev s)) Map.empty"
      "scans_to (flash_storage api) cells (\<lambda>d. True) factory_rw_nvram_region (cells (nv_dev s)) Map.empty"
      "scans_to (flash_storage api) cells (\<lambda>d. True) factory_nvram_region (cells (nv_dev s)) Map.empty"
    using cov static_regions(4-6) by simp_all
  obtain c s0 s' where c: "nvram_config_init (flash_storage api) True s = Some (0, c)" "store_holds cells c Map.empty Map.empty Map.empty"
      "region_scan (flash_storage api) (powered user_nvram_region) s0 = Some (0, nc_user c, s')" "nv_ok (\<lambda>d. True) s0"
      "\<forall>i. 0x3f4000 \<le> i \<longrightarrow> cells (nv_dev s0) i = cells (nv_dev s) i"
    using nvram_store.config_init_eq [OF st _ scans] by blast
  have "is_blank (cells (nv_dev s0)) (ri_base_addr (powered user_nvram_region)) (ri_total_size (powered user_nvram_region))"
    using c(5) assms(3) by (simp add: is_blank_def user_nvram_region_def)
  then have "same_region (powered user_nvram_region) (nc_user c)" "region_holds (nc_user c) (cells (nv_dev s')) []" "ri_seg_offset (nc_user c) = 0"
    using nvram_storage.region_scan_blank [OF stg cov(1) c(4) static_regions(4)] c(3) by auto
  then show ?thesis
    using c(1,2) by (auto simp: region_holds_iff_disk same_region_def user_nvram_region_def)
qed

section \<open>Properties\<close>

text \<open>(C15) Over any NOR flash, a sequence of updates, deletions and power cycles, in which each update fits,
  runs to its end, every operation reports success, and the store then holds the map those operations
  denote; the factory regions are as they were.\<close>

theorem nvram_config_run_refines:
  assumes "nor_flash api cells n" "0x400000 \<le> n" "store_holds cells c U R F" "all_fit spec_step step_fits U cmds"
  shows "\<exists>c'. run_steps (store_step (flash_storage api)) cmds c = Some c' \<and> store_holds cells c' (fold spec_step cmds U) R F"
  by (rule nvram_store.store_refines [OF nor_flash_store [OF assms(1,2)] assms(3,4)])

text \<open>(C22) What a reader gets: the user value of a name, else that of the writable factory region, else
  that of the factory region, cut to the length the caller asks for, and an error if no region has the
  name. Reading changes nothing.\<close>

theorem nvram_config_get_priority:
  assumes "nor_flash api cells n" "0x400000 \<le> n" "store_holds cells c U R F" "good_name name" "0 < len"
  shows "\<exists>c'. nvram_config_get (flash_storage api) (Some name) True len c =
    Some (case (F ++ R ++ U) name of None \<Rightarrow> (- ENOENT, [], c') | Some d \<Rightarrow> (min len (int (length d)), take (nat len) d, c')) \<and>
    store_holds cells c' U R F"
  by (rule nvram_store.config_get_eq [OF nor_flash_store [OF assms(1,2)] assms(3-5)])

text \<open>(C23) A value that was set is read back whole, also after a power cycle, when the caller's buffer has
  room for it.\<close>

theorem nvram_config_set_get:
  assumes "nor_flash api cells n" "0x400000 \<le> n" "store_holds cells c U R F" "step_fits U (Put name data)" "int (length data) \<le> len"
  shows "\<exists>c1 c2 c3. nvram_config_set (flash_storage api) (Some name) (Some data) (int (length data)) c = Some (0, c1) \<and>
    nvram_config_init (flash_storage api) True (nc_nv c1) = Some (0, c2) \<and>
    nvram_config_get (flash_storage api) (Some name) True len c2 = Some (int (length data), data, c3)"
proof -
  note st = nor_flash_store [OF assms(1,2)]
  have fit: "good_name name" "0 < length data" "length data \<le> NVRAM_MAX_DATA_SIZE" "room 0x2000 U name data" using assms(4) by simp_all
  obtain c1 where c1: "nvram_config_set (flash_storage api) (Some name) (Some data) (int (length data)) c = Some (0, c1)"
      "store_holds cells c1 (U(name \<mapsto> data)) R F"
    using nvram_store.config_set_eq [OF st assms(3) fit] by blast
  obtain c2 where c2: "nvram_config_init (flash_storage api) True (nc_nv c1) = Some (0, c2)" "store_holds cells c2 (U(name \<mapsto> data)) R F"
    using nvram_store.config_reboot_eq [OF st c1(2) refl] by blast
  have "(F ++ R ++ U(name \<mapsto> data)) name = Some data" "0 < len" "min len (int (length data)) = int (length data)" "take (nat len) data = data"
    using fit(2) assms(5) by simp_all (cases data; simp)
  then obtain c3 where "nvram_config_get (flash_storage api) (Some name) True len c2 = Some (int (length data), data, c3)"
    using nvram_store.config_get_eq [OF st c2(2) fit(1), of len] by auto
  then show ?thesis using c1(1) c2(1) by blast
qed

text \<open>(C21) A power failure after a new item has been written and before the old one is made obsolete: the
  next start-up finds two valid items with the name, keeps the new one, and loses nothing else.\<close>

theorem nvram_interrupted_update:
  assumes "nor_flash api cells n" "0x400000 \<le> n" "store_holds cells c U R F" "good_name name" "length data < 65536"
    and "ri_seg_write_offset (nc_user c) + item_size name data \<le> ri_seg_offset (nc_user c) + ri_seg_size (nc_user c)"
    and "nv_dev s = nv_dev (snd (region_write_item (flash_storage api) (nc_user c) (ri_seg_write_offset (nc_user c)) name data (length data) (nc_nv c)))"
  shows "\<exists>c'. nvram_config_init (flash_storage api) True s = Some (0, c') \<and> store_holds cells c' (U(name \<mapsto> data)) R F"
  by (rule nvram_store.config_after_write [OF nor_flash_store [OF assms(1,2)] assms(3-7)])


text \<open>(C26) A second power failure, while start-up repeats an interrupted move: the header it has just written
  carries a number two above that of the old segment, which is then no longer taken for the previous one,
  and the next scan finds an empty region.\<close>

theorem nvram_second_failure_loses_all:
  assumes "nor_flash api cells n" "0x400000 \<le> n" "store_holds cells c U R F" "good_name name" "0 < len"
  shows "\<exists>r1 s1 reg' s' s''. region_init_new_seg (flash_storage api) (next_seg (nc_user c))
      ((nc_user c)\<lparr>ri_seg_seq_id := ri_seg_seq_id (nc_user c) + 1, ri_seg_offset := next_seg (nc_user c)\<rparr>) (nc_nv c) = (r1, s1) \<and>
    region_scan (flash_storage api) (powered user_nvram_region) s1 = Some (0, reg', s') \<and>
    region_get (flash_storage api) reg' (Some name) True len s' = Some (- ENOENT, [], s'')"
proof -
  note st = nor_flash_store [OF assms(1,2)]
  have stg: "nvram_storage (flash_storage api) cells (\<lambda>d. True) 0 n" by (rule nor_flash.flash_is_storage [OF assms(1)])
  let ?reg = "nc_user c"
  obtain es where es: "same_region (powered user_nvram_region) ?reg" "region_holds ?reg (cells (nv_dev (nc_nv c))) es" "nv_ok (\<lambda>d. True) (nc_nv c)"
    using assms(3) by (auto simp: config_holds_def region_maps_def)
  have m: "map_sized ?reg" using es(2) by (auto simp: region_holds_iff_disk bitmap_ok_sized)
  have same: "same_region ?reg (powered user_nvram_region)" using es(1) by (simp add: same_region_def)
  note cov = nvram_store.maps_covered(1) [OF st assms(3)]
  obtain p reg' s' where s': "region_init_new_seg (flash_storage api) (next_seg ?reg)
        (?reg\<lparr>ri_seg_seq_id := ri_seg_seq_id ?reg + 1, ri_seg_offset := next_seg ?reg\<rparr>) (nc_nv c) = p"
      "region_scan (flash_storage api) (powered user_nvram_region) (snd p) = Some (0, reg', s')" "nv_ok (\<lambda>d. True) s'"
      "same_region ?reg reg'" "seg_holds reg' (cells (nv_dev s')) []"
    using nvram_storage.second_failure [OF stg cov es(3,2) m same static_regions(4)] by blast
  have "covered 0 n reg'" using cov same_region_covered [OF s'(4)] by simp
  then obtain s'' where "region_get (flash_storage api) reg' (Some name) True len s' = Some (- ENOENT, [], s'')"
    using nvram_storage.region_get_eq [OF stg _ s'(3,5) assms(4,5)] by auto
  moreover obtain r1 s1 where "p = (r1, s1)" by (cases p)
  ultimately show ?thesis using s'(1,2) by auto
qed

text \<open>(C25) When all that is stored and the new item do not fit in one segment, moving to a new segment does not
  help, and the space is not checked again: the caller goes on with a write that ends behind the segment.\<close>

theorem nvram_purge_overflow:
  assumes "nor_flash api cells n" "0x400000 \<le> n" "store_holds cells c U R F" "0x2000 < 16 + used U + sz"
  shows "\<exists>reg' s'. region_prepare_write_item (flash_storage api) sz (nc_user c) (nc_nv c) = Some (reg', s') \<and>
    ri_seg_offset reg' + ri_seg_size reg' < ri_seg_write_offset reg' + sz"
  by (rule nvram_store.prepare_overflow [OF nor_flash_store [OF assms(1,2)] assms(3,4)])

text \<open>(C24) A call with a null name, a length without data, a length above the limit, or a name that is too long
  is refused, on any storage and in any state, and changes nothing.\<close>

theorem nvram_config_set_refuses:
  assumes "case name of None \<Rightarrow> True | Some nm \<Rightarrow> (data = None \<and> len \<noteq> 0) \<or> len > int NVRAM_MAX_DATA_SIZE \<or> NVRAM_MAX_NAME_SIZE < length nm + 1"
  shows "nvram_config_set stg name data len c = Some (- EINVAL, c) \<and> nvram_config_set_factory stg name data len c = Some (- EINVAL, c)"
  using assms by (cases name) (auto simp: nvram_config_set_def nvram_config_set_factory_def region_set_def)

section \<open>Witnesses\<close>

definition erased_nvram :: "(nat \<Rightarrow> u8) nvram" where
  "erased_nvram = \<lparr>nv_dev = (\<lambda>_. 0xff), nv_buf = [], nv_stack = item_of_bytes (replicate 8 0)\<rparr>"

lemma erased_init:
  "\<exists>c. nvram_config_init (flash_storage nor_sim) True erased_nvram = Some (0, c) \<and> store_holds (\<lambda>d. d) c Map.empty Map.empty Map.empty \<and>
    ri_seg_offset (nc_user c) = 0 \<and> ri_seg_write_offset (nc_user c) = 16 \<and> ri_seg_size (nc_user c) = 0x2000"
  using first_init [OF nor.nor_flash_axioms, of erased_nvram] by (simp add: erased_nvram_def)

lemmas size_defs = item_size_def item_calc_aligned_size_def item_calc_real_size_def round_up_def room_def used_def good_name_def nvram_consts

theorem nvram_config_run_refines_witness:
  "\<exists>c c'. nvram_config_init (flash_storage nor_sim) True erased_nvram = Some (0, c) \<and>
    run_steps (store_step (flash_storage nor_sim)) [Put [65] [1, 2], Power_Cycle, Put [66] [3], Del [65]] c = Some c' \<and>
    store_holds (\<lambda>d. d) c' [[66] \<mapsto> [3]] Map.empty Map.empty"
proof -
  obtain c where c: "nvram_config_init (flash_storage nor_sim) True erased_nvram = Some (0, c)" "store_holds (\<lambda>d. d) c Map.empty Map.empty Map.empty"
    using erased_init by blast
  have "all_fit spec_step step_fits Map.empty [Put [65] [1, 2], Power_Cycle, Put [66] [3], Del [65]]" by (simp add: size_defs)
  from nvram_config_run_refines [OF nor.nor_flash_axioms order_refl c(2) this]
  have "\<exists>c'. run_steps (store_step (flash_storage nor_sim)) [Put [65] [1, 2], Power_Cycle, Put [66] [3], Del [65]] c = Some c' \<and>
      store_holds (\<lambda>d. d) c' [[66] \<mapsto> [3]] Map.empty Map.empty"
    by (simp add: fun_upd_twist)
  then show ?thesis using c(1) by blast
qed

theorem nvram_config_get_priority_witness:
  "\<exists>c c' c''. nvram_config_init (flash_storage nor_sim) True erased_nvram = Some (0, c) \<and>
    nvram_config_set (flash_storage nor_sim) (Some [65]) (Some [1, 2]) 2 c = Some (0, c') \<and>
    nvram_config_get (flash_storage nor_sim) (Some [65]) True 1 c' = Some (1, [1], c'')"
proof -
  obtain c where c: "nvram_config_init (flash_storage nor_sim) True erased_nvram = Some (0, c)" "store_holds (\<lambda>d. d) c Map.empty Map.empty Map.empty"
    using erased_init by blast
  obtain c' where c': "nvram_config_set (flash_storage nor_sim) (Some [65]) (Some [1, 2]) 2 c = Some (0, c')"
      "store_holds (\<lambda>d. d) c' [[65] \<mapsto> [1, 2]] Map.empty Map.empty"
    using nor_store.config_set_eq [OF c(2), of "[65]" "[1, 2]"] by (auto simp: size_defs)
  have "good_name [65]" by (simp add: size_defs)
  from nvram_config_get_priority [OF nor.nor_flash_axioms order_refl c'(2) this, of 1] show ?thesis using c(1) c'(1) by auto
qed

theorem nvram_config_set_get_witness:
  "\<exists>c c1 c2 c3. nvram_config_init (flash_storage nor_sim) True erased_nvram = Some (0, c) \<and>
    nvram_config_set (flash_storage nor_sim) (Some [65]) (Some [1, 2]) 2 c = Some (0, c1) \<and>
    nvram_config_init (flash_storage nor_sim) True (nc_nv c1) = Some (0, c2) \<and>
    nvram_config_get (flash_storage nor_sim) (Some [65]) True 5 c2 = Some (2, [1, 2], c3)"
proof -
  obtain c where c: "nvram_config_init (flash_storage nor_sim) True erased_nvram = Some (0, c)" "store_holds (\<lambda>d. d) c Map.empty Map.empty Map.empty"
    using erased_init by blast
  have "step_fits Map.empty (Put [65] [1, 2])" by (simp add: size_defs)
  from nvram_config_set_get [OF nor.nor_flash_axioms order_refl c(2) this, of 5] show ?thesis using c(1) by auto
qed

theorem nvram_interrupted_update_witness:
  "\<exists>c c'. nvram_config_init (flash_storage nor_sim) True erased_nvram = Some (0, c) \<and>
    nvram_config_init (flash_storage nor_sim) True (snd (region_write_item (flash_storage nor_sim) (nc_user c) 16 [65] [1, 2] 2 (nc_nv c))) = Some (0, c') \<and>
    store_holds (\<lambda>d. d) c' [[65] \<mapsto> [1, 2]] Map.empty Map.empty"
proof -
  obtain c where c: "nvram_config_init (flash_storage nor_sim) True erased_nvram = Some (0, c)" "store_holds (\<lambda>d. d) c Map.empty Map.empty Map.empty"
      "ri_seg_offset (nc_user c) = 0" "ri_seg_write_offset (nc_user c) = 16" "ri_seg_size (nc_user c) = 0x2000"
    using erased_init by blast
  have "good_name [65]" "item_size [65] [1, 2] = 16" by (simp_all add: size_defs)
  then show ?thesis
    using nvram_interrupted_update [OF nor.nor_flash_axioms order_refl c(2), of "[65]" "[1, 2]"] c by (auto simp: numeral_2_eq_2)
qed


theorem nvram_second_failure_loses_all_witness:
  "\<exists>c c' r1 s1 reg' s' s''. nvram_config_init (flash_storage nor_sim) True erased_nvram = Some (0, c) \<and>
    nvram_config_set (flash_storage nor_sim) (Some [65]) (Some [1, 2]) 2 c = Some (0, c') \<and>
    region_init_new_seg (flash_storage nor_sim) (next_seg (nc_user c'))
      ((nc_user c')\<lparr>ri_seg_seq_id := ri_seg_seq_id (nc_user c') + 1, ri_seg_offset := next_seg (nc_user c')\<rparr>) (nc_nv c') = (r1, s1) \<and>
    region_scan (flash_storage nor_sim) (powered user_nvram_region) s1 = Some (0, reg', s') \<and>
    region_get (flash_storage nor_sim) reg' (Some [65]) True 2 s' = Some (- ENOENT, [], s'')"
proof -
  obtain c where c: "nvram_config_init (flash_storage nor_sim) True erased_nvram = Some (0, c)" "store_holds (\<lambda>d. d) c Map.empty Map.empty Map.empty"
    using erased_init by blast
  obtain c' where c': "nvram_config_set (flash_storage nor_sim) (Some [65]) (Some [1, 2]) 2 c = Some (0, c')"
      "store_holds (\<lambda>d. d) c' [[65] \<mapsto> [1, 2]] Map.empty Map.empty"
    using nor_store.config_set_eq [OF c(2), of "[65]" "[1, 2]"] by (auto simp: size_defs)
  have "good_name [65]" by (simp add: size_defs)
  from nvram_second_failure_loses_all [OF nor.nor_flash_axioms order_refl c'(2) this, of 2] c(1) c'(1) show ?thesis by auto
qed

theorem nvram_purge_overflow_witness:
  "\<exists>c reg' s'. nvram_config_init (flash_storage nor_sim) True erased_nvram = Some (0, c) \<and>
    region_prepare_write_item (flash_storage nor_sim) 0x2000 (nc_user c) (nc_nv c) = Some (reg', s') \<and>
    ri_seg_offset reg' + ri_seg_size reg' < ri_seg_write_offset reg' + 0x2000"
proof -
  obtain c where c: "nvram_config_init (flash_storage nor_sim) True erased_nvram = Some (0, c)" "store_holds (\<lambda>d. d) c Map.empty Map.empty Map.empty"
    using erased_init by blast
  from nvram_purge_overflow [OF nor.nor_flash_axioms order_refl c(2), where sz = "0x2000"] show ?thesis using c(1) by auto
qed

theorem nvram_config_set_refuses_witness:
  "nvram_config_set ramsim_storage None None 0 (nvram_statics \<lparr>nv_dev = ramsim_init, nv_buf = [], nv_stack = item_of_bytes (replicate 8 0)\<rparr>) =
    Some (- EINVAL, nvram_statics \<lparr>nv_dev = ramsim_init, nv_buf = [], nv_stack = item_of_bytes (replicate 8 0)\<rparr>)"
  using nvram_config_set_refuses [where stg = ramsim_storage and name = None and data = None and len = 0] by simp

end
