(* ===== verification/Audio_Volume.thy ===== *)
theory Audio_Volume
  imports Prelude
begin

text \<open>
  The stream volumes of the audio system: \<^verbatim>\<open>audio_system_set_stream_volume\<close>
  and \<^verbatim>\<open>audio_system_get_stream_volume\<close> of \<^verbatim>\<open>audio_system.c\<close>, the
  tracks they drive (\<^verbatim>\<open>audio_track.c\<close>), the policy they consult
  (\<^verbatim>\<open>audio_policy.c\<close>), and \<^verbatim>\<open>volume_manager.c\<close> on top, as built for the
  \<^verbatim>\<open>285l2_mc_bt\<close> configuration (codec ACM8635, Bluetooth manager, no TWS, no external
  effect, no ESD manager). Calls that leave the component (media player, amplifier, Bluetooth
  manager, property store, user-interface messages) are appended to an ordered log.
\<close>

section \<open>Data\<close>

datatype audio_stream =
    AUDIO_STREAM_DEFAULT | AUDIO_STREAM_MUSIC | AUDIO_STREAM_LOCAL_MUSIC | AUDIO_STREAM_TTS
  | AUDIO_STREAM_VOICE | AUDIO_STREAM_LINEIN | AUDIO_STREAM_LINEIN_MIX | AUDIO_STREAM_SUBWOOFER
  | AUDIO_STREAM_ASR | AUDIO_STREAM_AI | AUDIO_STREAM_USOUND | AUDIO_STREAM_USOUND_MIX
  | AUDIO_STREAM_USPEAKER | AUDIO_STREAM_I2SRX_IN | AUDIO_STREAM_SPDIF_IN
  | AUDIO_STREAM_GENERATE_IN | AUDIO_STREAM_GENERATE_OUT | AUDIO_STREAM_LOCAL_RECORD
  | AUDIO_STREAM_GMA_RECORD | AUDIO_STREAM_BACKGROUND_RECORD | AUDIO_STREAM_MIC_IN
  | AUDIO_STREAM_FM | AUDIO_STREAM_TWS | AUDIO_STREAM_OKMIC | AUDIO_STREAM_OKMIC_FM
  | AUDIO_STREAM_OKMIC_LINE_IN | AUDIO_STREAM_LE_AUDIO | AUDIO_STREAM_SOUNDBAR
  | AUDIO_STREAM_BMR

record audio_track =
  stream_type :: audio_stream
  track_volume :: u16
  aout_mute :: bool     \<comment> \<open>mute control of the track's output channel\<close>
  aout_pa :: int        \<comment> \<open>last PA level written to the output channel\<close>

record audio_system_t =
  audio_track_pool :: "audio_track option list"
  master_volume :: u8
  tts_volume :: u8
  music_volume :: u8
  voice_volume :: u8
  linein_volume :: u8
  fm_volume :: u8
  i2srx_in_volume :: u8
  mic_in_volume :: u8
  spidf_in_volume :: u8
  usound_volume :: u8
  lcmusic_volume :: u8
  max_volume :: u8
  min_volume :: u8
  lea_volume :: u8
  bmr_volume :: u8

record audio_policy_t =
  tts_fixed_volume :: bool
  volume_saveto_nvram :: bool
  audio_out_volume_level :: u8
  music_pa_table :: "u8 list option"
  voice_pa_table :: "u8 list option"
  usound_pa_table :: "u8 list option"

datatype audio_call =
    PropertySet string u8               \<comment> \<open>property_set of the volume, printed in decimal\<close>
  | MediaPlayerSetVolume int int
  | MediaPlayerFadeOut int
  | MediaPlayerFadeIn int
  | MediaPlayerSmartControl int
  | SysEventMaxVolume
  | SysEventMinVolume
  | AmpSetVolume u8
  | BtVolumeBrMusic int
  | BtVolumeBrCall int
  | BtVolumeLeAudio int                 \<comment> \<open>argument of bt_manager_music_to_lea_volume\<close>
  | MsgVolumeChanged u32 bool
  | SmartControlGain int

text \<open>The globals: \<open>audio_system\<close> and \<open>user_policy\<close> are pointers that may be
  null, \<open>volume_timestampe\<close> is the static of \<open>system_volume_set\<close>.\<close>

record audio_state =
  audio_system :: "audio_system_t option"
  user_policy :: "audio_policy_t option"
  volume_timestampe :: u32
  calls :: "audio_call list"

text \<open>What the calls read from their surroundings: the cycle counter, the cycles per
  microsecond, and whether a main player and an amplifier device exist.\<close>

record audio_env =
  cycle_32 :: u32
  cycles_per_us :: u32
  main_player :: bool
  amp_device :: bool

definition MAX_VOLUME_VALUE :: int where "MAX_VOLUME_VALUE = 2"
definition MIN_VOLUME_VALUE :: int where "MIN_VOLUME_VALUE = 1"
definition FULL_RANGE_PA_VALUE :: int where "FULL_RANGE_PA_VALUE = 0x28"

definition log_call :: "audio_call \<Rightarrow> audio_state \<Rightarrow> audio_state" where
  "log_call c st = st\<lparr>calls := calls st @ [c]\<rparr>"

section \<open>The policy\<close>

definition audio_policy_get_volume_level :: "audio_state \<Rightarrow> int" where
  "audio_policy_get_volume_level st =
     (case user_policy st of Some p \<Rightarrow> uint (audio_out_volume_level p) | None \<Rightarrow> 16)"

definition audio_policy_check_tts_fixed_volume :: "audio_state \<Rightarrow> bool" where
  "audio_policy_check_tts_fixed_volume st =
     (case user_policy st of Some p \<Rightarrow> tts_fixed_volume p | None \<Rightarrow> True)"

definition audio_policy_check_save_volume_to_nvram :: "audio_state \<Rightarrow> bool" where
  "audio_policy_check_save_volume_to_nvram st =
     (case user_policy st of Some p \<Rightarrow> volume_saveto_nvram p | None \<Rightarrow> True)"

text \<open>A table read past its end is undefined in the source; it is \<open>None\<close> here.\<close>

definition pa_lookup :: "u8 list option \<Rightarrow> u8 \<Rightarrow> int option" where
  "pa_lookup tbl lvl =
     (case tbl of None \<Rightarrow> Some FULL_RANGE_PA_VALUE
      | Some t \<Rightarrow> if unat lvl < length t then Some (uint (t ! unat lvl)) else None)"

definition audio_policy_get_pa_volume :: "audio_state \<Rightarrow> audio_stream \<Rightarrow> u8 \<Rightarrow> int option" where
  "audio_policy_get_pa_volume st stream volume_level =
     (case user_policy st of None \<Rightarrow> Some FULL_RANGE_PA_VALUE
      | Some p \<Rightarrow>
          let lvl = (if volume_level > audio_out_volume_level p then audio_out_volume_level p
                     else volume_level)
          in (case stream of
                AUDIO_STREAM_VOICE \<Rightarrow> pa_lookup (voice_pa_table p) lvl
              | AUDIO_STREAM_USOUND \<Rightarrow> pa_lookup (usound_pa_table p) lvl
              | AUDIO_STREAM_SOUNDBAR \<Rightarrow> pa_lookup (music_pa_table p) lvl
              | AUDIO_STREAM_LE_AUDIO \<Rightarrow> pa_lookup (music_pa_table p) lvl
              | AUDIO_STREAM_LINEIN \<Rightarrow> pa_lookup (music_pa_table p) lvl
              | AUDIO_STREAM_FM \<Rightarrow> pa_lookup (music_pa_table p) lvl
              | AUDIO_STREAM_I2SRX_IN \<Rightarrow> pa_lookup (music_pa_table p) lvl
              | AUDIO_STREAM_MIC_IN \<Rightarrow> pa_lookup (music_pa_table p) lvl
              | AUDIO_STREAM_MUSIC \<Rightarrow> pa_lookup (music_pa_table p) lvl
              | AUDIO_STREAM_LOCAL_MUSIC \<Rightarrow> pa_lookup (music_pa_table p) lvl
              | AUDIO_STREAM_SPDIF_IN \<Rightarrow> pa_lookup (music_pa_table p) lvl
              | AUDIO_STREAM_TTS \<Rightarrow> pa_lookup (music_pa_table p) lvl
              | _ \<Rightarrow> Some FULL_RANGE_PA_VALUE))"

text \<open>Without the external music effect no stream mutes its digital gain.\<close>

definition audio_policy_is_da_mute :: "audio_stream \<Rightarrow> bool" where
  "audio_policy_is_da_mute stream = False"

section \<open>Tracks\<close>

definition audio_track_set_volume :: "audio_state \<Rightarrow> audio_track \<Rightarrow> int \<Rightarrow> audio_track" where
  "audio_track_set_volume st t volume =
     (if volume \<noteq> 0 then
        t\<lparr>aout_mute := False,
          aout_pa := (case audio_policy_get_pa_volume st (stream_type t) (word_of_int volume) of
                        Some pa \<Rightarrow> pa | None \<Rightarrow> aout_pa t),
          track_volume := word_of_int volume\<rparr>
      else t\<lparr>aout_mute := True, track_volume := word_of_int volume\<rparr>)"

definition audio_system_get_track :: "audio_state \<Rightarrow> audio_track option" where
  "audio_system_get_track st =
     (case audio_system st of None \<Rightarrow> None
      | Some a \<Rightarrow> (case find (\<lambda>t. t \<noteq> None) (audio_track_pool a) of
                      None \<Rightarrow> None | Some t \<Rightarrow> t))"

definition audio_system_get_audio_track_handle ::
    "audio_stream \<Rightarrow> audio_state \<Rightarrow> audio_track option" where
  "audio_system_get_audio_track_handle stream st =
     (case audio_system st of None \<Rightarrow> None
      | Some a \<Rightarrow> (case find (\<lambda>t. t \<noteq> None \<and> stream_type (the t) = stream) (audio_track_pool a) of
                      None \<Rightarrow> None | Some t \<Rightarrow> t))"

definition audio_system_set_tracks ::
    "audio_state \<Rightarrow> audio_stream \<Rightarrow> int \<Rightarrow> audio_system_t \<Rightarrow> audio_system_t" where
  "audio_system_set_tracks st stream volume a =
     a\<lparr>audio_track_pool :=
         map (map_option (\<lambda>t. if stream_type t = stream \<or> stream = AUDIO_STREAM_DEFAULT
                               then audio_track_set_volume st t volume else t))
             (audio_track_pool a)\<rparr>"

section \<open>Setting and reading a stream volume\<close>

definition clamp_stream_volume :: "int \<Rightarrow> audio_stream \<Rightarrow> int \<Rightarrow> int \<times> int" where
  "clamp_stream_volume level stream volume =
     (let (volume, ret) = (if volume \<ge> level then (level, MAX_VOLUME_VALUE) else (volume, 0));
          (volume, ret) = (if stream = AUDIO_STREAM_USOUND \<and> volume \<ge> 16
                           then (16, MAX_VOLUME_VALUE) else (volume, ret))
      in if volume \<le> 0 then (0, MIN_VOLUME_VALUE) else (volume, ret))"

definition save_volume :: "string \<Rightarrow> u8 \<Rightarrow> audio_state \<Rightarrow> audio_state" where
  "save_volume name volume st =
     (if audio_policy_check_save_volume_to_nvram st then log_call (PropertySet name volume) st else st)"

text \<open>The per-stream fields, in the order of the source, each with the property it is saved
  under; \<open>AUDIO_STREAM_DEFAULT\<close> writes all but voice, LE audio and BMR.\<close>

definition stream_fields ::
    "(audio_stream list \<times> string \<times> (u8 \<Rightarrow> audio_system_t \<Rightarrow> audio_system_t)) list" where
  "stream_fields =
    [([AUDIO_STREAM_VOICE], ''BTCALL_VOLUME'', \<lambda>v a. a\<lparr>voice_volume := v\<rparr>),
     ([AUDIO_STREAM_LE_AUDIO], ''LEA_VOLUME'', \<lambda>v a. a\<lparr>lea_volume := v\<rparr>),
     ([AUDIO_STREAM_BMR], ''LE_VOLUME'', \<lambda>v a. a\<lparr>bmr_volume := v\<rparr>),
     ([AUDIO_STREAM_MUSIC, AUDIO_STREAM_DEFAULT, AUDIO_STREAM_SOUNDBAR], ''BTPLAY_VOLUME'',
        \<lambda>v a. a\<lparr>music_volume := v\<rparr>),
     ([AUDIO_STREAM_LINEIN, AUDIO_STREAM_DEFAULT], ''LINEIN_VOLUME'', \<lambda>v a. a\<lparr>linein_volume := v\<rparr>),
     ([AUDIO_STREAM_USOUND, AUDIO_STREAM_DEFAULT], ''USOUND_VOLUME'', \<lambda>v a. a\<lparr>usound_volume := v\<rparr>),
     ([AUDIO_STREAM_LOCAL_MUSIC, AUDIO_STREAM_DEFAULT], ''LOCALPLAY_VOLUME'',
        \<lambda>v a. a\<lparr>lcmusic_volume := v\<rparr>),
     ([AUDIO_STREAM_FM, AUDIO_STREAM_DEFAULT], ''FM_VOLUME'', \<lambda>v a. a\<lparr>fm_volume := v\<rparr>),
     ([AUDIO_STREAM_I2SRX_IN, AUDIO_STREAM_DEFAULT], ''I2SRX_IN_VOLUME'',
        \<lambda>v a. a\<lparr>i2srx_in_volume := v\<rparr>),
     ([AUDIO_STREAM_MIC_IN, AUDIO_STREAM_DEFAULT], ''MIC_IN_VOLUME'', \<lambda>v a. a\<lparr>mic_in_volume := v\<rparr>),
     ([AUDIO_STREAM_SPDIF_IN, AUDIO_STREAM_DEFAULT], ''SPDIF_IN_VOLUME'',
        \<lambda>v a. a\<lparr>spidf_in_volume := v\<rparr>)]"

fun store_stream_fields ::
    "(audio_stream list \<times> string \<times> (u8 \<Rightarrow> audio_system_t \<Rightarrow> audio_system_t)) list \<Rightarrow>
     audio_stream \<Rightarrow> u8 \<Rightarrow> audio_system_t \<Rightarrow> audio_state \<Rightarrow> audio_system_t \<times> audio_state" where
  "store_stream_fields [] stream v a st = (a, st)"
| "store_stream_fields ((streams, name, upd) # rest) stream v a st =
     (if stream \<in> set streams
      then store_stream_fields rest stream v (upd v a) (save_volume name v st)
      else store_stream_fields rest stream v a st)"

definition audio_system_set_stream_volume ::
    "audio_stream \<Rightarrow> int \<Rightarrow> audio_state \<Rightarrow> int \<times> audio_state" where
  "audio_system_set_stream_volume stream volume st =
     (case audio_system st of None \<Rightarrow> (- ESRCH, st)
      | Some a \<Rightarrow>
          let (volume, ret) = clamp_stream_volume (audio_policy_get_volume_level st) stream volume;
              a = audio_system_set_tracks st stream volume a;
              (a, st) = store_stream_fields stream_fields stream (word_of_int volume) a st;
              (a, st) =
                (if stream \<noteq> AUDIO_STREAM_VOICE then
                   let a = a\<lparr>master_volume := word_of_int volume\<rparr>;
                       volume = (if volume < uint (min_volume a) then uint (min_volume a) else volume);
                       volume = (if volume > uint (max_volume a) then uint (max_volume a) else volume)
                   in if \<not> audio_policy_check_tts_fixed_volume st
                      then (a\<lparr>tts_volume := word_of_int volume\<rparr>,
                            save_volume ''TONE_VOLUME'' (word_of_int volume) st)
                      else (a, st)
                 else (a, st))
          in (ret, st\<lparr>audio_system := Some a\<rparr>))"

definition audio_system_get_stream_volume :: "audio_stream \<Rightarrow> audio_state \<Rightarrow> int" where
  "audio_system_get_stream_volume stream st =
     (case audio_system st of None \<Rightarrow> - ESRCH
      | Some a \<Rightarrow> uint
          (case stream of
             AUDIO_STREAM_MUSIC \<Rightarrow> music_volume a
           | AUDIO_STREAM_SOUNDBAR \<Rightarrow> music_volume a
           | AUDIO_STREAM_LE_AUDIO \<Rightarrow> lea_volume a
           | AUDIO_STREAM_BMR \<Rightarrow> bmr_volume a
           | AUDIO_STREAM_TTS \<Rightarrow> tts_volume a
           | AUDIO_STREAM_VOICE \<Rightarrow> voice_volume a
           | AUDIO_STREAM_LINEIN \<Rightarrow> linein_volume a
           | AUDIO_STREAM_USOUND \<Rightarrow> usound_volume a
           | AUDIO_STREAM_LOCAL_MUSIC \<Rightarrow> lcmusic_volume a
           | AUDIO_STREAM_FM \<Rightarrow> fm_volume a
           | AUDIO_STREAM_I2SRX_IN \<Rightarrow> i2srx_in_volume a
           | AUDIO_STREAM_SPDIF_IN \<Rightarrow> spidf_in_volume a
           | _ \<Rightarrow> master_volume a))"

section \<open>The volume manager\<close>

definition system_volume_get :: "audio_stream \<Rightarrow> audio_state \<Rightarrow> int" where
  "system_volume_get stream st = audio_system_get_stream_volume stream st"

definition system_volume_get_map_stream_type :: "audio_stream \<Rightarrow> audio_state \<Rightarrow> audio_stream" where
  "system_volume_get_map_stream_type stream st =
     (case audio_system_get_track st of None \<Rightarrow> stream
      | Some t \<Rightarrow> if stream = AUDIO_STREAM_MUSIC \<and> stream_type t = AUDIO_STREAM_SOUNDBAR
                   then stream_type t else stream)"

definition system_volume_fade_da_volume ::
    "audio_stream \<Rightarrow> int \<Rightarrow> int \<Rightarrow> audio_state \<Rightarrow> audio_state" where
  "system_volume_fade_da_volume stream old_volume volume st =
     (if audio_policy_is_da_mute stream \<and>
         (old_volume \<noteq> 0 \<and> volume = 0 \<or> old_volume = 0 \<and> volume = 0)
      then log_call (MediaPlayerFadeOut 30) (log_call (MediaPlayerSetVolume volume volume) st)
      else
        let st = (if audio_policy_is_da_mute stream \<and> old_volume = 0 \<and> volume \<noteq> 0
                  then log_call (MediaPlayerFadeIn 30) st else st)
        in log_call (MediaPlayerSetVolume volume volume) st)"

definition clamp_player_volume :: "int \<Rightarrow> int \<Rightarrow> int" where
  "clamp_player_volume level volume =
     (if volume \<le> 0 then 0 else if volume \<ge> level then level else volume)"

text \<open>The limit event is sent at most every 500 ms.\<close>

definition volume_limit_event :: "audio_env \<Rightarrow> audio_call \<Rightarrow> audio_state \<Rightarrow> audio_state" where
  "volume_limit_event env ev st =
     (if (cycle_32 env - volume_timestampe st) div cycles_per_us env > 500000
      then (log_call ev st)\<lparr>volume_timestampe := cycle_32 env\<rparr> else st)"

definition amp_streams :: "audio_stream list" where
  "amp_streams = [AUDIO_STREAM_MUSIC, AUDIO_STREAM_VOICE, AUDIO_STREAM_TTS, AUDIO_STREAM_LINEIN,
     AUDIO_STREAM_USOUND, AUDIO_STREAM_LE_AUDIO, AUDIO_STREAM_LOCAL_MUSIC]"

definition amp_sync :: "audio_env \<Rightarrow> audio_stream \<Rightarrow> int \<Rightarrow> audio_state \<Rightarrow> audio_state" where
  "amp_sync env stream volume st =
     (if stream \<in> set amp_streams \<and> amp_device env
      then log_call (AmpSetVolume (word_of_int volume)) st else st)"

definition bt_sync :: "audio_stream \<Rightarrow> int \<Rightarrow> audio_state \<Rightarrow> audio_state" where
  "bt_sync stream volume st =
     (if stream = AUDIO_STREAM_SOUNDBAR \<or> stream = AUDIO_STREAM_MUSIC
      then log_call (BtVolumeBrMusic volume) st
      else if stream = AUDIO_STREAM_VOICE then log_call (BtVolumeBrCall volume) st
      else if stream = AUDIO_STREAM_LE_AUDIO then log_call (BtVolumeLeAudio volume) st
      else st)"

text \<open>\<open>system_volume_set\<close> in its three parts: the digital gain of a running player, the
  stream volume itself, and the reports once it has changed.\<close>

definition volume_set_da ::
    "audio_env \<Rightarrow> audio_stream \<Rightarrow> int \<Rightarrow> int \<Rightarrow> audio_state \<Rightarrow> int \<times> audio_state" where
  "volume_set_da env stream old_volume volume st =
     (if main_player env \<and> audio_system_get_audio_track_handle stream st \<noteq> None then
        let volume = clamp_player_volume (audio_policy_get_volume_level st) volume
        in (volume, system_volume_fade_da_volume stream old_volume volume st)
      else (volume, st))"

definition volume_limit_report :: "audio_env \<Rightarrow> bool \<Rightarrow> int \<Rightarrow> audio_state \<Rightarrow> audio_state \<times> bool" where
  "volume_limit_report env display ret st =
     (if \<not> display then (st, False)
      else if ret = MAX_VOLUME_VALUE then (volume_limit_event env SysEventMaxVolume st, True)
      else if ret = MIN_VOLUME_VALUE then (volume_limit_event env SysEventMinVolume st, True)
      else (st, False))"

definition volume_set_report ::
    "audio_env \<Rightarrow> audio_stream \<Rightarrow> int \<Rightarrow> int \<Rightarrow> bool \<Rightarrow> int \<Rightarrow> audio_state \<Rightarrow> int \<times> audio_state" where
  "volume_set_report env stream old_volume volume display ret st =
     (let (st, is_limited) = volume_limit_report env display ret st;
          (ret, st, is_limited) =
            (if old_volume = audio_system_get_stream_volume stream st
             then (old_volume, st, True)
             else (volume, bt_sync stream volume (amp_sync env stream volume st), is_limited))
      in (ret, if display then log_call (MsgVolumeChanged (word_of_int ret) is_limited) st else st))"

definition system_volume_set ::
    "audio_env \<Rightarrow> audio_stream \<Rightarrow> int \<Rightarrow> bool \<Rightarrow> audio_state \<Rightarrow> int \<times> audio_state" where
  "system_volume_set env stream volume display st =
     (let old_volume = audio_system_get_stream_volume stream st;
          stream = system_volume_get_map_stream_type stream st;
          (volume, st) = volume_set_da env stream old_volume volume st;
          (ret, st) = audio_system_set_stream_volume stream volume st
      in volume_set_report env stream old_volume volume display ret st)"

definition system_volume_down :: "audio_env \<Rightarrow> audio_stream \<Rightarrow> int \<Rightarrow> audio_state \<Rightarrow> int \<times> audio_state" where
  "system_volume_down env stream decrement st =
     system_volume_set env stream (system_volume_get stream st - decrement) True st"

definition system_volume_up :: "audio_env \<Rightarrow> audio_stream \<Rightarrow> int \<Rightarrow> audio_state \<Rightarrow> int \<times> audio_state" where
  "system_volume_up env stream increment st =
     system_volume_set env stream (system_volume_get stream st + increment) True st"

definition system_player_volume_set ::
    "audio_env \<Rightarrow> audio_stream \<Rightarrow> int \<Rightarrow> audio_state \<Rightarrow> int \<times> audio_state" where
  "system_player_volume_set env stream volume st =
     (let old_volume = audio_system_get_stream_volume stream st;
          stream = system_volume_get_map_stream_type stream st;
          st = (if main_player env \<and> audio_system_get_audio_track_handle stream st \<noteq> None
                then system_volume_fade_da_volume stream old_volume volume st else st);
          (ret, st) = audio_system_set_stream_volume stream volume st
      in if old_volume = audio_system_get_stream_volume stream st then (old_volume, st)
         else (volume, amp_sync env stream volume st))"

definition system_player_smart_control_volume_set ::
    "audio_env \<Rightarrow> int \<Rightarrow> audio_state \<Rightarrow> int \<times> audio_state" where
  "system_player_smart_control_volume_set env volume st =
     (let st = log_call (SmartControlGain volume) st
      in (0, if main_player env then log_call (MediaPlayerSmartControl volume) st else st))"

section \<open>What the volume operations guarantee\<close>

text \<open>The highest level a stream can have.\<close>

definition stream_limit :: "audio_state \<Rightarrow> audio_stream \<Rightarrow> int" where
  "stream_limit st stream =
     (if stream = AUDIO_STREAM_USOUND then min 16 (audio_policy_get_volume_level st)
      else audio_policy_get_volume_level st)"

lemma volume_level_range: "0 \<le> audio_policy_get_volume_level st" "audio_policy_get_volume_level st < 256"
  using unsigned_less [of "audio_out_volume_level (the (user_policy st))", where 'a = int]
  by (auto simp: audio_policy_get_volume_level_def split: option.splits)

lemma log_call_simps [simp]:
  "audio_system (log_call c st) = audio_system st"
  "user_policy (log_call c st) = user_policy st"
  by (simp_all add: log_call_def)

lemma save_volume_simps [simp]:
  "audio_system (save_volume n v st) = audio_system st"
  "user_policy (save_volume n v st) = user_policy st"
  by (simp_all add: save_volume_def)

lemma clamp_stream_volume_fst:
  "fst (clamp_stream_volume level s v) =
     max 0 (min (if s = AUDIO_STREAM_USOUND then min 16 level else level) v)"
  by (auto simp: clamp_stream_volume_def Let_def)

lemma store_stream_fields_policy:
  "user_policy (snd (store_stream_fields fs s v a st)) = user_policy st"
  by (induction fs s v a st rule: store_stream_fields.induct) auto

lemma store_stream_fields_fst:
  "fst (store_stream_fields fs s v a st) =
     foldl (\<lambda>a (ss, n, upd). if s \<in> set ss then upd v a else a) a fs"
  by (induction fs s v a st rule: store_stream_fields.induct) auto

text \<open>The stored fields alone, without the log.\<close>

definition apply_fields :: "audio_stream \<Rightarrow> u8 \<Rightarrow> audio_system_t \<Rightarrow> audio_system_t" where
  "apply_fields s v a = foldl (\<lambda>a (ss, n, upd). if s \<in> set ss then upd v a else a) a stream_fields"

lemma apply_fields_sel:
  "voice_volume (apply_fields s v a) = (if s = AUDIO_STREAM_VOICE then v else voice_volume a)"
  "lea_volume (apply_fields s v a) = (if s = AUDIO_STREAM_LE_AUDIO then v else lea_volume a)"
  "bmr_volume (apply_fields s v a) = (if s = AUDIO_STREAM_BMR then v else bmr_volume a)"
  "music_volume (apply_fields s v a) =
     (if s = AUDIO_STREAM_MUSIC \<or> s = AUDIO_STREAM_DEFAULT \<or> s = AUDIO_STREAM_SOUNDBAR
      then v else music_volume a)"
  "linein_volume (apply_fields s v a) =
     (if s = AUDIO_STREAM_LINEIN \<or> s = AUDIO_STREAM_DEFAULT then v else linein_volume a)"
  "usound_volume (apply_fields s v a) =
     (if s = AUDIO_STREAM_USOUND \<or> s = AUDIO_STREAM_DEFAULT then v else usound_volume a)"
  "lcmusic_volume (apply_fields s v a) =
     (if s = AUDIO_STREAM_LOCAL_MUSIC \<or> s = AUDIO_STREAM_DEFAULT then v else lcmusic_volume a)"
  "fm_volume (apply_fields s v a) =
     (if s = AUDIO_STREAM_FM \<or> s = AUDIO_STREAM_DEFAULT then v else fm_volume a)"
  "i2srx_in_volume (apply_fields s v a) =
     (if s = AUDIO_STREAM_I2SRX_IN \<or> s = AUDIO_STREAM_DEFAULT then v else i2srx_in_volume a)"
  "mic_in_volume (apply_fields s v a) =
     (if s = AUDIO_STREAM_MIC_IN \<or> s = AUDIO_STREAM_DEFAULT then v else mic_in_volume a)"
  "spidf_in_volume (apply_fields s v a) =
     (if s = AUDIO_STREAM_SPDIF_IN \<or> s = AUDIO_STREAM_DEFAULT then v else spidf_in_volume a)"
  "master_volume (apply_fields s v a) = master_volume a"
  "tts_volume (apply_fields s v a) = tts_volume a"
  "min_volume (apply_fields s v a) = min_volume a"
  "max_volume (apply_fields s v a) = max_volume a"
  by (cases s; simp add: apply_fields_def stream_fields_def)+

lemma uint_word_of_int_clamp: "0 \<le> v \<Longrightarrow> v < 256 \<Longrightarrow> uint (word_of_int v :: u8) = v"
  by (simp add: uint_word_of_int)

lemma set_stream_volume_system:
  assumes "audio_system st = Some a"
  shows "audio_system (snd (audio_system_set_stream_volume s v st)) = Some (
    let vol = max 0 (min (stream_limit st s) v);
        a = apply_fields s (word_of_int vol) (audio_system_set_tracks st s vol a)
    in if s = AUDIO_STREAM_VOICE then a
       else if audio_policy_check_tts_fixed_volume st then a\<lparr>master_volume := word_of_int vol\<rparr>
       else a\<lparr>master_volume := word_of_int vol,
              tts_volume := word_of_int (min (uint (max_volume a)) (max (uint (min_volume a)) vol))\<rparr>)"
proof -
  obtain vol ret where c: "clamp_stream_volume (audio_policy_get_volume_level st) s v = (vol, ret)"
    by fastforce
  have vol: "vol = max 0 (min (stream_limit st s) v)"
    using clamp_stream_volume_fst [of "audio_policy_get_volume_level st" s v] c
    by (simp add: stream_limit_def)
  obtain a' st' where f: "store_stream_fields stream_fields s (word_of_int vol) (audio_system_set_tracks st s vol a) st = (a', st')"
    by fastforce
  have pol: "audio_policy_check_tts_fixed_volume st' = audio_policy_check_tts_fixed_volume st"
    using store_stream_fields_policy [of stream_fields s "word_of_int vol" "audio_system_set_tracks st s vol a" st] f
    by (simp add: audio_policy_check_tts_fixed_volume_def)
  have a': "a' = apply_fields s (word_of_int vol) (audio_system_set_tracks st s vol a)"
    using store_stream_fields_fst [of stream_fields s "word_of_int vol" "audio_system_set_tracks st s vol a" st] f
    by (simp add: apply_fields_def)
  show ?thesis
    unfolding audio_system_set_stream_volume_def assms
    by (simp add: c f pol Let_def vol [symmetric] a' [symmetric])
       (auto simp: min_def max_def a')
qed

lemma get_after_set:
  assumes "audio_system st = Some a" "s \<noteq> AUDIO_STREAM_TTS"
  shows "audio_system_get_stream_volume s (snd (audio_system_set_stream_volume s v st))
     = max 0 (min (stream_limit st s) v)"
proof -
  have r: "uint (word_of_int (max 0 (min (stream_limit st s) v)) :: u8) = max 0 (min (stream_limit st s) v)"
    using volume_level_range [of st] by (intro uint_word_of_int_clamp) (auto simp: stream_limit_def)
  show ?thesis
    using assms(2) r unfolding audio_system_get_stream_volume_def set_stream_volume_system [OF assms(1)]
    by (cases s) (simp_all add: Let_def apply_fields_sel)
qed

text \<open>The streams that are read from a field which only their own setting writes (and that of the
  default stream, which is written to set them all, and for music that of the soundbar, which shares
  its field). Two streams with a field are not among them: the tone stream, whose field follows the
  setting of every stream but voice unless the policy fixes it, and the microphone input, whose
  field is written but never read.\<close>

definition separate_streams :: "audio_stream list" where
  "separate_streams = [AUDIO_STREAM_MUSIC, AUDIO_STREAM_LE_AUDIO, AUDIO_STREAM_BMR,
     AUDIO_STREAM_VOICE, AUDIO_STREAM_LINEIN, AUDIO_STREAM_USOUND, AUDIO_STREAM_LOCAL_MUSIC,
     AUDIO_STREAM_FM, AUDIO_STREAM_I2SRX_IN, AUDIO_STREAM_SPDIF_IN]"

lemma get_other_after_set:
  assumes a: "audio_system st = Some a" and t: "t \<in> set separate_streams"
    and s: "s \<noteq> t" "s \<noteq> AUDIO_STREAM_DEFAULT" "s = AUDIO_STREAM_SOUNDBAR \<longrightarrow> t \<noteq> AUDIO_STREAM_MUSIC"
  shows "audio_system_get_stream_volume t (snd (audio_system_set_stream_volume s v st))
     = audio_system_get_stream_volume t st"
  using s t unfolding audio_system_get_stream_volume_def set_stream_volume_system [OF a] a
  by (cases t) (simp_all add: separate_streams_def Let_def apply_fields_sel audio_system_set_tracks_def)

text \<open>The tone volume and the two volumes of the microphone input, the one written and the one read.\<close>

lemma get_unshared_after_set:
  fixes s :: audio_stream and v :: int
  assumes a: "audio_system st = Some a"
  defines "st' \<equiv> snd (audio_system_set_stream_volume s v st)" and "vol \<equiv> max 0 (min (stream_limit st s) v)"
  shows "audio_system_get_stream_volume AUDIO_STREAM_TTS st' =
      (if s = AUDIO_STREAM_VOICE \<or> audio_policy_check_tts_fixed_volume st then audio_system_get_stream_volume AUDIO_STREAM_TTS st
       else min (uint (max_volume a)) (max (uint (min_volume a)) vol)) \<and>
    (\<exists>a'. audio_system st' = Some a' \<and>
      mic_in_volume a' = (if s = AUDIO_STREAM_MIC_IN \<or> s = AUDIO_STREAM_DEFAULT then word_of_int vol else mic_in_volume a)) \<and>
    audio_system_get_stream_volume AUDIO_STREAM_MIC_IN st' =
      (if s = AUDIO_STREAM_VOICE then audio_system_get_stream_volume AUDIO_STREAM_MIC_IN st else vol)"
proof -
  have vol: "0 \<le> vol" "vol < 256" using volume_level_range [of st] by (auto simp: vol_def stream_limit_def)
  have lim: "0 \<le> uint (max_volume a)" "uint (max_volume a) < 256" "0 \<le> uint (min_volume a)" "uint (min_volume a) < 256"
    using unsigned_less [of "max_volume a", where 'a = int] unsigned_less [of "min_volume a", where 'a = int] by simp_all
  have r: "uint (word_of_int vol :: u8) = vol"
    "uint (word_of_int (min (uint (max_volume a)) (max (uint (min_volume a)) vol)) :: u8) = min (uint (max_volume a)) (max (uint (min_volume a)) vol)"
    using vol lim by (auto intro!: uint_word_of_int_clamp)
  show ?thesis
    unfolding st'_def audio_system_get_stream_volume_def set_stream_volume_system [OF a] vol_def [symmetric]
    by (simp add: r a Let_def apply_fields_sel audio_system_set_tracks_def)
qed

lemma clamp_player_then_stream:
  "fst (clamp_stream_volume level s (clamp_player_volume level v)) = fst (clamp_stream_volume level s v)"
  by (auto simp: clamp_stream_volume_fst clamp_player_volume_def)

lemma fade_simps [simp]:
  "audio_system (system_volume_fade_da_volume s old v st) = audio_system st"
  "user_policy (system_volume_fade_da_volume s old v st) = user_policy st"
  by (simp_all add: system_volume_fade_da_volume_def Let_def)

lemma volume_limit_event_simps [simp]:
  "audio_system (volume_limit_event env ev st) = audio_system st"
  by (simp add: volume_limit_event_def)

lemma sync_simps [simp]:
  "audio_system (amp_sync env s v st) = audio_system st"
  "audio_system (bt_sync s v st) = audio_system st"
  by (simp_all add: amp_sync_def bt_sync_def)

lemma get_stream_volume_cong:
  "audio_system st = audio_system st' \<Longrightarrow>
   audio_system_get_stream_volume s st = audio_system_get_stream_volume s st'"
  by (simp add: audio_system_get_stream_volume_def)

lemma volume_limit_report_system [simp]:
  "audio_system (fst (volume_limit_report env d ret st)) = audio_system st"
  by (simp add: volume_limit_report_def)

lemma volume_set_report_system [simp]:
  "audio_system (snd (volume_set_report env s old v d ret st)) = audio_system st"
  using volume_limit_report_system [of env d ret st]
  by (cases "volume_limit_report env d ret st") (simp add: volume_set_report_def)

lemma system_volume_set_system:
  "audio_system (snd (system_volume_set env s v d st)) =
     (let s' = system_volume_get_map_stream_type s st;
          (v', st') = volume_set_da env s' (audio_system_get_stream_volume s st) v st
      in audio_system (snd (audio_system_set_stream_volume s' v' st')))"
  by (simp add: system_volume_set_def Let_def case_prod_unfold)

lemma volume_level_fade [simp]:
  "audio_policy_get_volume_level (system_volume_fade_da_volume s' old v st) = audio_policy_get_volume_level st"
  by (simp add: audio_policy_get_volume_level_def)

lemma map_stream_type_cases:
  "system_volume_get_map_stream_type s st = s \<or>
   s = AUDIO_STREAM_MUSIC \<and> system_volume_get_map_stream_type s st = AUDIO_STREAM_SOUNDBAR"
  by (auto simp: system_volume_get_map_stream_type_def split: option.splits)

lemma get_music_soundbar:
  "audio_system_get_stream_volume AUDIO_STREAM_SOUNDBAR st = audio_system_get_stream_volume AUDIO_STREAM_MUSIC st"
  by (cases "audio_system st") (simp_all add: audio_system_get_stream_volume_def)

lemma volume_set_da_spec:
  assumes "volume_set_da env s old v st = (v', st')"
  shows "audio_system st' = audio_system st \<and> stream_limit st' t = stream_limit st t \<and>
     max 0 (min (stream_limit st t) v') = max 0 (min (stream_limit st t) v)"
  using assms
  by (auto simp: volume_set_da_def Let_def stream_limit_def clamp_player_volume_def split: if_splits)

lemma system_volume_get_set:
  assumes "audio_system st = Some a" "s \<noteq> AUDIO_STREAM_TTS"
  shows "system_volume_get s (snd (system_volume_set env s v d st)) = max 0 (min (stream_limit st s) v)"
proof -
  let ?s = "system_volume_get_map_stream_type s st"
  obtain v' st' where da: "volume_set_da env ?s (audio_system_get_stream_volume s st) v st = (v', st')"
    by fastforce
  note spec = volume_set_da_spec [OF da, of s]
  have "audio_system (snd (system_volume_set env s v d st)) =
      audio_system (snd (audio_system_set_stream_volume ?s v' st'))"
    by (simp add: system_volume_set_system da)
  then have "system_volume_get s (snd (system_volume_set env s v d st)) =
      audio_system_get_stream_volume s (snd (audio_system_set_stream_volume ?s v' st'))"
    unfolding system_volume_get_def by (rule get_stream_volume_cong)
  also have "\<dots> = audio_system_get_stream_volume ?s (snd (audio_system_set_stream_volume ?s v' st'))"
    using map_stream_type_cases [of s st] by (auto simp: get_music_soundbar)
  also have "\<dots> = max 0 (min (stream_limit st' ?s) v')"
    using assms spec map_stream_type_cases [of s st] by (intro get_after_set) auto
  also have "stream_limit st' ?s = stream_limit st s"
    using spec map_stream_type_cases [of s st] by (auto simp: stream_limit_def)
  also have "max 0 (min (stream_limit st s) v') = max 0 (min (stream_limit st s) v)"
    using spec by simp
  finally show ?thesis .
qed

lemma get_policy_simps [simp]:
  "user_policy (volume_limit_event env ev st) = user_policy st"
  "user_policy (amp_sync env s v st) = user_policy st"
  "user_policy (bt_sync s v st) = user_policy st"
  by (simp_all add: volume_limit_event_def amp_sync_def bt_sync_def)

lemma set_stream_volume_policy [simp]:
  "user_policy (snd (audio_system_set_stream_volume s v st)) = user_policy st"
proof (cases "audio_system st")
  case (Some a)
  then show ?thesis
    by (simp add: audio_system_set_stream_volume_def Let_def case_prod_unfold store_stream_fields_policy)
qed (simp add: audio_system_set_stream_volume_def)

lemma volume_set_report_policy [simp]:
  "user_policy (snd (volume_set_report env s old v d ret st)) = user_policy st"
  by (simp add: volume_set_report_def volume_limit_report_def Let_def)

lemma system_volume_set_policy [simp]:
  "user_policy (snd (system_volume_set env s v d st)) = user_policy st"
  by (simp add: system_volume_set_def volume_set_da_def Let_def case_prod_unfold)

lemma system_volume_set_live:
  "audio_system st \<noteq> None \<Longrightarrow> audio_system (snd (system_volume_set env s v d st)) \<noteq> None"
  by (auto simp: system_volume_set_system volume_set_da_def set_stream_volume_system case_prod_unfold Let_def)

section \<open>The volume service seen by its clients\<close>

text \<open>A client of the volume manager sets a level and reads it back. The laws are those of one
  stream; \<open>live\<close> says that the audio system has been initialised.\<close>

locale volume_service =
  fixes get :: "'s \<Rightarrow> int" and set :: "int \<Rightarrow> 's \<Rightarrow> 's"
    and limit :: "'s \<Rightarrow> int" and live :: "'s \<Rightarrow> bool"
  assumes get_set: "live s \<Longrightarrow> get (set v s) = max 0 (min (limit s) v)"
    and live_set: "live s \<Longrightarrow> live (set v s)"
    and limit_set: "limit (set v s) = limit s"
    and limit_nonneg: "0 \<le> limit s"
begin

lemma get_set_in_range: "live s \<Longrightarrow> 0 \<le> v \<Longrightarrow> v \<le> limit s \<Longrightarrow> get (set v s) = v"
  by (simp add: get_set)

lemma get_set_bounded: "live s \<Longrightarrow> 0 \<le> get (set v s) \<and> get (set v s) \<le> limit (set v s)"
  using limit_nonneg [of s] by (simp add: get_set limit_set)

lemma set_last_wins: "live s \<Longrightarrow> get (set w (set v s)) = get (set w s)"
  by (simp add: get_set live_set limit_set)

end

interpretation music: volume_service
  "system_volume_get AUDIO_STREAM_MUSIC"
  "\<lambda>v st. snd (system_volume_set env AUDIO_STREAM_MUSIC v display st)"
  audio_policy_get_volume_level "\<lambda>st. audio_system st \<noteq> None" for env display
proof unfold_locales
  fix st :: audio_state and v
  show "0 \<le> audio_policy_get_volume_level st"
    by (rule volume_level_range)
  show "audio_policy_get_volume_level (snd (system_volume_set env AUDIO_STREAM_MUSIC v display st))
      = audio_policy_get_volume_level st"
    by (simp add: audio_policy_get_volume_level_def)
  assume "audio_system st \<noteq> None"
  then show "audio_system (snd (system_volume_set env AUDIO_STREAM_MUSIC v display st)) \<noteq> None"
    by (rule system_volume_set_live)
  show "system_volume_get AUDIO_STREAM_MUSIC (snd (system_volume_set env AUDIO_STREAM_MUSIC v display st))
      = max 0 (min (audio_policy_get_volume_level st) v)"
    using \<open>audio_system st \<noteq> None\<close> system_volume_get_set [of st _ AUDIO_STREAM_MUSIC]
    by (auto simp: stream_limit_def)
qed

section \<open>Properties\<close>

text \<open>A state and surroundings at which the properties below are instantiated.\<close>

definition demo_audio_state :: audio_state where
  "demo_audio_state =
     \<lparr>audio_system = Some \<lparr>audio_track_pool = [None, None], master_volume = 5, tts_volume = 5,
          music_volume = 5, voice_volume = 5, linein_volume = 7, fm_volume = 5, i2srx_in_volume = 5,
          mic_in_volume = 0, spidf_in_volume = 5, usound_volume = 5, lcmusic_volume = 5,
          max_volume = 5, min_volume = 5, lea_volume = 5, bmr_volume = 5\<rparr>,
       user_policy = None, volume_timestampe = 0, calls = []\<rparr>"

definition demo_audio_env :: audio_env where
  "demo_audio_env = \<lparr>cycle_32 = 0, cycles_per_us = 24, main_player = False, amp_device = True\<rparr>"

text \<open>(C4) Setting the volume of any stream but the tone stream and reading it back gives the
  requested value clamped to what the policy (and, for USB sound, its sixteen levels) allows,
  whether or not a player is running, whichever track type is mapped, with or without display.\<close>

theorem system_volume_get_after_set:
  assumes "audio_system st = Some a" "s \<noteq> AUDIO_STREAM_TTS"
  shows "system_volume_get s (snd (system_volume_set env s v d st)) = max 0 (min (stream_limit st s) v)"
  using assms by (rule system_volume_get_set)

theorem system_volume_get_after_set_witness:
  "system_volume_get AUDIO_STREAM_MUSIC (snd (system_volume_set
      demo_audio_env AUDIO_STREAM_MUSIC 20 True demo_audio_state)) = 16"
  by (subst system_volume_get_after_set)
     (simp_all add: stream_limit_def audio_policy_get_volume_level_def demo_audio_state_def)



text \<open>(C14) Without a running player nothing clamps the request before it is passed on: the
  amplifier and the Bluetooth peer are given the raw value, and it is returned to the caller,
  while the stored level is the policy's maximum.\<close>

theorem system_volume_set_raw_value_sent:
  assumes "audio_system st = Some a" "\<not> main_player env" "amp_device env"
    and "audio_track_pool a = [None, None]"
    and "audio_policy_get_volume_level st < v"
    and "system_volume_get AUDIO_STREAM_MUSIC st \<noteq> audio_policy_get_volume_level st"
  shows "fst (system_volume_set env AUDIO_STREAM_MUSIC v display st) = v \<and>
     AmpSetVolume (word_of_int v) \<in> set (calls (snd (system_volume_set env AUDIO_STREAM_MUSIC v display st))) \<and>
     BtVolumeBrMusic v \<in> set (calls (snd (system_volume_set env AUDIO_STREAM_MUSIC v display st))) \<and>
     system_volume_get AUDIO_STREAM_MUSIC (snd (system_volume_set env AUDIO_STREAM_MUSIC v display st))
       = audio_policy_get_volume_level st"
proof -
  obtain ret st2 where set: "audio_system_set_stream_volume AUDIO_STREAM_MUSIC v st = (ret, st2)"
    by fastforce
  have map: "system_volume_get_map_stream_type AUDIO_STREAM_MUSIC st = AUDIO_STREAM_MUSIC"
    using assms(1,4) by (simp add: system_volume_get_map_stream_type_def audio_system_get_track_def)
  have new: "audio_system_get_stream_volume AUDIO_STREAM_MUSIC st2 = audio_policy_get_volume_level st"
    using get_after_set [OF assms(1), of AUDIO_STREAM_MUSIC v] set assms(5) volume_level_range [of st]
    by (simp add: stream_limit_def)
  obtain st3 l where lim: "volume_limit_report env display ret st2 = (st3, l)" by fastforce
  have st3: "audio_system st3 = audio_system st2"
    using volume_limit_report_system [of env display ret st2] lim by simp
  have n3: "audio_system_get_stream_volume AUDIO_STREAM_MUSIC st3 = audio_policy_get_volume_level st"
    using new get_stream_volume_cong [OF st3] by simp
  have "system_volume_get AUDIO_STREAM_MUSIC (snd (system_volume_set env AUDIO_STREAM_MUSIC v display st))
       = audio_policy_get_volume_level st"
    using music.get_set [of st env v display] assms(1,5) volume_level_range [of st] by simp
  then show ?thesis
    using assms(2,3,6) n3 map set lim
    by (simp add: system_volume_set_def volume_set_da_def volume_set_report_def system_volume_get_def
          amp_sync_def amp_streams_def bt_sync_def log_call_def Let_def)
qed
theorem system_volume_set_raw_value_sent_witness:
  "fst (system_volume_set demo_audio_env AUDIO_STREAM_MUSIC 200 True demo_audio_state) = 200"
  using system_volume_set_raw_value_sent [of demo_audio_state "the (audio_system demo_audio_state)"
      demo_audio_env 200 True]
  by (simp add: demo_audio_state_def demo_audio_env_def audio_policy_get_volume_level_def
        system_volume_get_def audio_system_get_stream_volume_def)

end
