(* ===== verification/Py32_Ring.thy ===== *)
theory Py32_Ring
  imports Byte_Fifo
begin

text \<open>
  The receive ring of \<^verbatim>\<open>system_app_py32_uart.c\<close>: a 256-byte array with 16-bit head and
  tail indices, filled with interrupts locked by the DMA half/full-transfer and idle-timeout
  handlers and emptied byte by byte by the protocol thread. It holds at most 255 bytes; what
  does not fit is dropped. \<open>py32_rx_wake\<close> is the counting semaphore (limit 32) that wakes
  the thread.
\<close>

record rx_ring =
  py32_rx_ring :: bytes
  py32_rx_head :: u16
  py32_rx_tail :: u16
  py32_rx_wake :: nat

definition PY32_RX_RING_SIZE :: nat where "PY32_RX_RING_SIZE = 256"
definition PY32_RX_WAKE_LIMIT :: nat where "PY32_RX_WAKE_LIMIT = 32"

definition ring_next :: "u16 \<Rightarrow> u16" where
  "ring_next i = word_of_nat ((unat i + 1) mod PY32_RX_RING_SIZE)"

text \<open>The loop of \<open>py32_rx_ring_push\<close>: the number of bytes pushed and the ring.\<close>

fun rx_ring_push_loop :: "bytes \<Rightarrow> rx_ring \<Rightarrow> nat \<times> rx_ring" where
  "rx_ring_push_loop [] r = (0, r)"
| "rx_ring_push_loop (c # cs) r =
     (let nxt = ring_next (py32_rx_head r)
      in if nxt = py32_rx_tail r then (0, r)
         else let (pushed, r) = rx_ring_push_loop cs
                    (r\<lparr>py32_rx_ring := (py32_rx_ring r)[unat (py32_rx_head r) := c],
                       py32_rx_head := nxt\<rparr>)
              in (pushed + 1, r))"

definition k_sem_give :: "rx_ring \<Rightarrow> rx_ring" where
  "k_sem_give r =
     (if py32_rx_wake r < PY32_RX_WAKE_LIMIT then r\<lparr>py32_rx_wake := py32_rx_wake r + 1\<rparr> else r)"

definition py32_rx_ring_push :: "bytes \<Rightarrow> rx_ring \<Rightarrow> nat \<times> rx_ring" where
  "py32_rx_ring_push data r =
     (let (pushed, r) = rx_ring_push_loop data r in (pushed, if pushed > 0 then k_sem_give r else r))"

text \<open>The DMA buffer is handed over half by half; the idle timeout hands over what arrived.\<close>

datatype dma_reason = DMA_IRQ_HF | DMA_IRQ_TC

definition PY32_DMA_RX_BUF_SIZE :: nat where "PY32_DMA_RX_BUF_SIZE = 256"

definition py32_dma_rx_isr :: "bytes \<Rightarrow> dma_reason \<Rightarrow> rx_ring \<Rightarrow> rx_ring" where
  "py32_dma_rx_isr dma_buf reason r =
     (let half = PY32_DMA_RX_BUF_SIZE div 2;
          data = (if reason = DMA_IRQ_HF then dma_buf else drop half dma_buf)
      in snd (py32_rx_ring_push (take half data) r))"

definition py32_dma_rx_timeout_handle :: "bytes \<Rightarrow> rx_ring \<Rightarrow> rx_ring" where
  "py32_dma_rx_timeout_handle data r = snd (py32_rx_ring_push data r)"

text \<open>One locked section of the drain loop: the oldest byte, if any.\<close>

definition rx_ring_pop :: "rx_ring \<Rightarrow> (u8 \<times> rx_ring) option" where
  "rx_ring_pop r =
     (if py32_rx_tail r = py32_rx_head r then None
      else Some (py32_rx_ring r ! unat (py32_rx_tail r),
                 r\<lparr>py32_rx_tail := ring_next (py32_rx_tail r)\<rparr>))"

section \<open>The ring is a bounded queue\<close>

definition rx_ring_inv :: "rx_ring \<Rightarrow> bool" where
  "rx_ring_inv r \<longleftrightarrow> length (py32_rx_ring r) = PY32_RX_RING_SIZE \<and>
     unat (py32_rx_head r) < PY32_RX_RING_SIZE \<and> unat (py32_rx_tail r) < PY32_RX_RING_SIZE \<and>
     py32_rx_wake r \<le> PY32_RX_WAKE_LIMIT"

definition rx_ring_used :: "rx_ring \<Rightarrow> nat" where
  "rx_ring_used r = (unat (py32_rx_head r) + PY32_RX_RING_SIZE - unat (py32_rx_tail r)) mod PY32_RX_RING_SIZE"

definition rx_ring_abs :: "rx_ring \<Rightarrow> bytes" where
  "rx_ring_abs r =
     map (\<lambda>i. py32_rx_ring r ! ((unat (py32_rx_tail r) + i) mod PY32_RX_RING_SIZE)) [0..<rx_ring_used r]"

text \<open>The thread's side as a consumer of up to \<open>n\<close> bytes.\<close>

fun rx_ring_get :: "nat \<Rightarrow> rx_ring \<Rightarrow> bytes \<times> rx_ring" where
  "rx_ring_get 0 r = ([], r)"
| "rx_ring_get (Suc n) r =
     (case rx_ring_pop r of None \<Rightarrow> ([], r)
      | Some (c, r) \<Rightarrow> let (cs, r) = rx_ring_get n r in (c # cs, r))"

lemma unat_ring_next [simp]: "unat (ring_next i) = (unat i + 1) mod PY32_RX_RING_SIZE"
  by (simp add: ring_next_def PY32_RX_RING_SIZE_def unsigned_of_nat take_bit_eq_mod)

lemma rx_ring_used_less: "rx_ring_used r < PY32_RX_RING_SIZE"
  by (simp add: rx_ring_used_def PY32_RX_RING_SIZE_def)

lemma length_rx_ring_abs [simp]: "length (rx_ring_abs r) = rx_ring_used r"
  by (simp add: rx_ring_abs_def)

lemma nth_rx_ring_abs:
  "i < rx_ring_used r \<Longrightarrow>
   rx_ring_abs r ! i = py32_rx_ring r ! ((unat (py32_rx_tail r) + i) mod PY32_RX_RING_SIZE)"
  by (simp add: rx_ring_abs_def)

text \<open>The full test of the source holds exactly at 255 queued bytes.\<close>

lemma rx_ring_full_iff:
  assumes "rx_ring_inv r"
  shows "ring_next (py32_rx_head r) = py32_rx_tail r \<longleftrightarrow> rx_ring_used r = PY32_RX_RING_SIZE - 1"
  using assms mod_ring_full [of "unat (py32_rx_head r)" PY32_RX_RING_SIZE "unat (py32_rx_tail r)"]
  unfolding word_unat_eq_iff unat_ring_next by (simp add: rx_ring_inv_def rx_ring_used_def)

lemma rx_ring_empty_iff:
  assumes "rx_ring_inv r"
  shows "py32_rx_tail r = py32_rx_head r \<longleftrightarrow> rx_ring_used r = 0"
  using assms mod_ring_diff [of "unat (py32_rx_head r)" PY32_RX_RING_SIZE "unat (py32_rx_tail r)"]
  unfolding word_unat_eq_iff rx_ring_inv_def rx_ring_used_def by (simp split: if_splits) linarith

definition ring_store :: "u8 \<Rightarrow> rx_ring \<Rightarrow> rx_ring" where
  "ring_store c r = r\<lparr>py32_rx_ring := (py32_rx_ring r)[unat (py32_rx_head r) := c],
                     py32_rx_head := ring_next (py32_rx_head r)\<rparr>"

lemma ring_store_inv: "rx_ring_inv r \<Longrightarrow> rx_ring_inv (ring_store c r)"
  by (simp add: rx_ring_inv_def ring_store_def PY32_RX_RING_SIZE_def)

lemma ring_store_used:
  assumes "rx_ring_inv r" "rx_ring_used r \<noteq> PY32_RX_RING_SIZE - 1"
  shows "rx_ring_used (ring_store c r) = rx_ring_used r + 1"
  using assms mod_ring_grow [of "unat (py32_rx_head r)" PY32_RX_RING_SIZE "unat (py32_rx_tail r)"]
  by (simp add: rx_ring_inv_def ring_store_def rx_ring_used_def)

lemma ring_store_abs:
  assumes inv: "rx_ring_inv r" and room: "rx_ring_used r \<noteq> PY32_RX_RING_SIZE - 1"
  shows "rx_ring_abs (ring_store c r) = rx_ring_abs r @ [c]"
proof (rule nth_equalityI)
  show "length (rx_ring_abs (ring_store c r)) = length (rx_ring_abs r @ [c])"
    using ring_store_used [OF assms] by simp
next
  fix i assume "i < length (rx_ring_abs (ring_store c r))"
  then have i: "i \<le> rx_ring_used r" using ring_store_used [OF assms, of c] by simp
  have pos: "(unat (py32_rx_tail r) + i) mod PY32_RX_RING_SIZE = unat (py32_rx_head r) \<longleftrightarrow> i = rx_ring_used r"
    using inv i unfolding rx_ring_used_def by (intro mod_ring_pos) (simp_all add: rx_ring_inv_def)
  have "rx_ring_abs (ring_store c r) ! i =
      (py32_rx_ring r)[unat (py32_rx_head r) := c] ! ((unat (py32_rx_tail r) + i) mod PY32_RX_RING_SIZE)"
    using i ring_store_used [OF assms, of c] by (subst nth_rx_ring_abs) (simp_all add: ring_store_def)
  also have "\<dots> = (rx_ring_abs r @ [c]) ! i"
  proof (cases "i = rx_ring_used r")
    case True
    then have "(unat (py32_rx_tail r) + i) mod PY32_RX_RING_SIZE = unat (py32_rx_head r)" using pos by simp
    then show ?thesis using inv True by (simp add: rx_ring_inv_def nth_append)
  next
    case False
    then have "unat (py32_rx_head r) \<noteq> (unat (py32_rx_tail r) + i) mod PY32_RX_RING_SIZE" using pos by auto
    then show ?thesis using i False by (simp add: nth_rx_ring_abs nth_append)
  qed
  finally show "rx_ring_abs (ring_store c r) ! i = (rx_ring_abs r @ [c]) ! i" .
qed

lemma push_loop_spec:
  "rx_ring_inv r \<Longrightarrow> rx_ring_push_loop cs r = (n, r') \<Longrightarrow>
   rx_ring_inv r' \<and> n = min (length cs) (PY32_RX_RING_SIZE - 1 - rx_ring_used r) \<and>
   rx_ring_abs r' = rx_ring_abs r @ take n cs"
proof (induction cs arbitrary: r n)
  case (Cons c cs)
  show ?case
  proof (cases "rx_ring_used r = PY32_RX_RING_SIZE - 1")
    case True
    then show ?thesis using Cons.prems rx_ring_full_iff [of r] by (auto simp: Let_def)
  next
    case False
    obtain k where k: "rx_ring_push_loop cs (ring_store c r) = (k, r')" "n = k + 1"
      using Cons.prems False rx_ring_full_iff [of r]
      by (auto simp: ring_store_def Let_def split: prod.splits)
    have "rx_ring_used r < PY32_RX_RING_SIZE - 1"
      using False rx_ring_used_less [of r] by (simp add: PY32_RX_RING_SIZE_def)
    then show ?thesis
      using Cons.IH [OF ring_store_inv k(1)] Cons.prems(1) k(2) False ring_store_used [of r c]
        ring_store_abs [of r c] by (auto simp: min_def)
  qed
qed simp

lemma sem_give_simps [simp]:
  "rx_ring_inv (k_sem_give r) = rx_ring_inv r"
  "rx_ring_abs (k_sem_give r) = rx_ring_abs r"
  by (auto simp: k_sem_give_def rx_ring_inv_def rx_ring_abs_def rx_ring_used_def)

lemma py32_rx_ring_push_spec:
  assumes "rx_ring_inv r" "py32_rx_ring_push cs r = (n, r')"
  shows "rx_ring_inv r' \<and> n = min (length cs) (PY32_RX_RING_SIZE - 1 - rx_ring_used r) \<and>
     rx_ring_abs r' = rx_ring_abs r @ take n cs"
proof -
  obtain r1 where r1: "rx_ring_push_loop cs r = (n, r1)" "r' = (if n > 0 then k_sem_give r1 else r1)"
    using assms(2) by (auto simp: py32_rx_ring_push_def split: prod.splits)
  show ?thesis using push_loop_spec [OF assms(1) r1(1)] r1(2) by simp
qed

lemma rx_ring_pop_spec:
  assumes inv: "rx_ring_inv r"
  shows "rx_ring_pop r = (case rx_ring_abs r of [] \<Rightarrow> None
    | c # cs \<Rightarrow> Some (c, r\<lparr>py32_rx_tail := ring_next (py32_rx_tail r)\<rparr>))"
    and "rx_ring_abs r = c # cs \<Longrightarrow>
      rx_ring_abs (r\<lparr>py32_rx_tail := ring_next (py32_rx_tail r)\<rparr>) = cs \<and>
      rx_ring_inv (r\<lparr>py32_rx_tail := ring_next (py32_rx_tail r)\<rparr>)"
proof -
  let ?r' = "r\<lparr>py32_rx_tail := ring_next (py32_rx_tail r)\<rparr>"
  have t: "unat (py32_rx_tail r) < PY32_RX_RING_SIZE" using inv by (simp add: rx_ring_inv_def)
  have used: "rx_ring_used ?r' = rx_ring_used r - 1" if "rx_ring_used r \<noteq> 0"
    using inv that mod_ring_shrink [of "unat (py32_rx_head r)" PY32_RX_RING_SIZE "unat (py32_rx_tail r)"]
    by (simp add: rx_ring_inv_def rx_ring_used_def)
  have abs: "rx_ring_abs r = py32_rx_ring r ! unat (py32_rx_tail r) # rx_ring_abs ?r'"
    if u: "rx_ring_used r \<noteq> 0"
  proof -
    have "[0..<rx_ring_used r] = 0 # map Suc [0..<rx_ring_used ?r']"
      unfolding used [OF u] using u by (simp add: map_Suc_upt upt_conv_Cons)
    moreover have "(unat (py32_rx_tail r) + Suc i) mod PY32_RX_RING_SIZE =
        ((unat (py32_rx_tail r) + 1) mod PY32_RX_RING_SIZE + i) mod PY32_RX_RING_SIZE" for i
      by (simp add: mod_add_left_eq)
    ultimately show ?thesis using t by (simp add: rx_ring_abs_def comp_def)
  qed
  show "rx_ring_pop r = (case rx_ring_abs r of [] \<Rightarrow> None | c # cs \<Rightarrow> Some (c, ?r'))"
    using abs rx_ring_empty_iff [OF inv]
    by (cases "rx_ring_used r = 0") (simp_all add: rx_ring_pop_def rx_ring_abs_def)
  assume a: "rx_ring_abs r = c # cs"
  then have "rx_ring_used r \<noteq> 0" by (metis length_rx_ring_abs list.distinct(1) length_0_conv)
  then show "rx_ring_abs ?r' = cs \<and> rx_ring_inv ?r'"
    using abs a inv by (simp add: rx_ring_inv_def PY32_RX_RING_SIZE_def)
qed

lemma rx_ring_get_spec:
  "rx_ring_inv r \<Longrightarrow> rx_ring_get n r = (ys, r') \<Longrightarrow>
   rx_ring_inv r' \<and> ys = take n (rx_ring_abs r) \<and> rx_ring_abs r' = drop n (rx_ring_abs r)"
proof (induction n arbitrary: r ys)
  case (Suc n)
  show ?case
  proof (cases "rx_ring_abs r")
    case Nil
    then show ?thesis using Suc.prems rx_ring_pop_spec(1) [of r] by simp
  next
    case (Cons c cs)
    obtain zs where "rx_ring_get n (r\<lparr>py32_rx_tail := ring_next (py32_rx_tail r)\<rparr>) = (zs, r')" "ys = c # zs"
      using Suc.prems rx_ring_pop_spec(1) [of r] Cons by (auto split: prod.splits)
    then show ?thesis
      using Suc.IH [of "r\<lparr>py32_rx_tail := ring_next (py32_rx_tail r)\<rparr>" zs]
        rx_ring_pop_spec(2) [OF Suc.prems(1) Cons] Cons by simp
  qed
qed simp

interpretation rxq: byte_fifo rx_ring_abs rx_ring_inv "\<lambda>_. PY32_RX_RING_SIZE - 1"
  py32_rx_ring_push rx_ring_get "\<lambda>cap used. as_many (cap - used)" as_many
proof unfold_locales
  fix r xs n r' m ys
  assume inv: "rx_ring_inv r"
  show "length (rx_ring_abs r) \<le> PY32_RX_RING_SIZE - 1"
    using rx_ring_used_less [of r] by simp
  show "length (rx_ring_abs r) + n \<le> PY32_RX_RING_SIZE - 1 \<Longrightarrow>
      as_many (PY32_RX_RING_SIZE - 1 - length (rx_ring_abs r)) n = n" for n
    by (simp add: as_many_def)
  { assume p: "py32_rx_ring_push xs r = (n, r')"
    note s = py32_rx_ring_push_spec [OF inv p]
    show "rx_ring_inv r' \<and> PY32_RX_RING_SIZE - 1 = PY32_RX_RING_SIZE - 1" using s by simp
    show "n = as_many (PY32_RX_RING_SIZE - 1 - length (rx_ring_abs r)) (length xs) \<and>
        rx_ring_abs r' = rx_ring_abs r @ take n xs" using s by (simp add: as_many_def) }
  { assume g: "rx_ring_get m r = (ys, r')"
    note s = rx_ring_get_spec [OF inv g]
    show "rx_ring_inv r' \<and> PY32_RX_RING_SIZE - 1 = PY32_RX_RING_SIZE - 1" using s by simp
    show "ys = take (as_many (length (rx_ring_abs r)) m) (rx_ring_abs r) \<and>
        rx_ring_abs r' = drop (as_many (length (rx_ring_abs r)) m) (rx_ring_abs r)"
      using s by (cases "m \<le> length (rx_ring_abs r)") (auto simp: as_many_def min_def) }
qed

text \<open>(C3) The receive ring is a lossless FIFO of 255 bytes between the interrupt handlers and the
  thread. For every interleaving of pushes and pops, the bytes accepted, the bytes popped and the
  bytes left are those of a queue that takes the front of each push as far as its 255 places allow,
  and hands out as many of the oldest bytes as are asked for and there. So the bytes popped,
  followed by those still in the ring, are the bytes it held followed by the accepted prefixes in
  order; the indices stay in the array; and when the offered bytes fit the 255 places together
  nothing is dropped.\<close>

theorem rx_ring_fifo:
  assumes "rx_ring_inv r" "fifo_run py32_rx_ring_push rx_ring_get ops r = (ins, outs, r')"
  shows "queue_run (\<lambda>used. as_many (255 - used)) as_many ops (rx_ring_abs r) = (ins, outs, rx_ring_abs r') \<and>
     rx_ring_abs r @ ins = outs @ rx_ring_abs r' \<and> rx_ring_inv r' \<and>
     (length (rx_ring_abs r) + length (put_only ops) \<le> 255 \<longrightarrow> ins = put_only ops)"
  using rxq.run_queue [OF assms] rxq.run_fifo [OF assms] rxq.run_inv [OF assms] rxq.run_lossless [OF assms]
  by (simp add: PY32_RX_RING_SIZE_def)

theorem rx_ring_fifo_witness:
  "\<exists>r'. fifo_run py32_rx_ring_push rx_ring_get [Put [7, 8], Get 1, Put [9]]
      \<lparr>py32_rx_ring = replicate 256 0, py32_rx_head = 255, py32_rx_tail = 255, py32_rx_wake = 0\<rparr>
      = ([7, 8, 9], [7], r') \<and> rx_ring_abs r' = [8, 9]"
proof -
  let ?r = "\<lparr>py32_rx_ring = replicate 256 0, py32_rx_head = 255, py32_rx_tail = 255, py32_rx_wake = 0\<rparr> :: rx_ring"
  obtain ins outs r' where run: "fifo_run py32_rx_ring_push rx_ring_get [Put [7, 8], Get 1, Put [9]] ?r = (ins, outs, r')"
    by (metis prod_cases3)
  have "rx_ring_inv ?r" "rx_ring_abs ?r = []"
    by (simp_all add: rx_ring_inv_def rx_ring_abs_def rx_ring_used_def PY32_RX_RING_SIZE_def)
  with rx_ring_fifo [OF _ run] have "ins = [7, 8, 9]" "outs = [7]" "rx_ring_abs r' = [8, 9]"
    by (simp_all add: as_many_def Let_def)
  with run show ?thesis by blast
qed

end
