(* ===== verification/Py32_Volume.thy ===== *)
theory Py32_Volume
  imports Audio_Volume
begin

text \<open>
  The mapping between the host's volume wheel (0 to 100 percent) and the system's volume
  levels (0 to the policy's maximum): \<^verbatim>\<open>py32_volume_pct_to_level\<close>,
  \<^verbatim>\<open>py32_volume_level_to_pct\<close> and \<^verbatim>\<open>py32_apply_volume\<close> of
  \<^verbatim>\<open>system_app_py32_uart.c\<close>. Both directions interpolate the same two tables; every operand
  of the source's unsigned arithmetic stays non-negative, so it is written over \<open>int\<close>.
\<close>

definition pct_anchor :: "int list" where
  "pct_anchor = [0, 10, 20, 30, 40, 50, 60, 70, 80, 90, 100]"

definition level_anchor :: "int list" where
  "level_anchor = [0, 3, 6, 8, 10, 11, 12, 13, 14, 15, 16]"

text \<open>The search loop both functions start with, and the interpolation both end with.\<close>

function anchor_search :: "int list \<Rightarrow> int \<Rightarrow> nat \<Rightarrow> nat" where
  "anchor_search tbl x i =
     (if i < length tbl then if x \<le> tbl ! i then i else anchor_search tbl x (i + 1) else i)"
  by pat_completeness auto

termination
  by (relation "measure (\<lambda>(tbl, x, i). length tbl - i)") auto

declare anchor_search.simps [simp del]

definition anchor_interpolate :: "int list \<Rightarrow> int list \<Rightarrow> int \<Rightarrow> int" where
  "anchor_interpolate from_tbl to_tbl x =
     (let i = anchor_search from_tbl x 1;
          i = (if i \<ge> length from_tbl then length from_tbl - 1 else i);
          lo = from_tbl ! (i - 1); hi = from_tbl ! i;
          lo' = to_tbl ! (i - 1); hi' = to_tbl ! i
      in if hi = lo then lo' else lo' + ((x - lo) * (hi' - lo') + (hi - lo) div 2) div (hi - lo))"

definition py32_volume_pct_to_level :: "audio_state \<Rightarrow> u8 \<Rightarrow> int" where
  "py32_volume_pct_to_level st pct =
     (let max = audio_policy_get_volume_level st
      in if max \<le> 0 then 0
         else
           let p = (if pct > 100 then 100 else uint pct);
               level = anchor_interpolate pct_anchor level_anchor p;
               level = (if max \<noteq> 16 then (level * max + 8) div 16 else level);
               level = (if level < 0 then 0 else level)
           in if level > max then max else level)"

definition py32_volume_level_to_pct :: "audio_state \<Rightarrow> int \<Rightarrow> u8" where
  "py32_volume_level_to_pct st level =
     (let max = audio_policy_get_volume_level st;
          level = (if level < 0 then 0 else level)
      in if max \<le> 0 then 0
         else
           let level = (if level > max then max else level);
               mapped = (if max \<noteq> 16 then (level * 16 + max div 2) div max else level);
               mapped = (if mapped > 16 then 16 else mapped)
           in word_of_int (anchor_interpolate level_anchor pct_anchor mapped))"

section \<open>The tables\<close>

text \<open>Both tables are small: the facts about the interpolation are checked at every argument.\<close>

lemma wheel_table:
  "\<forall>p \<in> set (upto 0 100).
     0 \<le> anchor_interpolate pct_anchor level_anchor p \<and>
     anchor_interpolate pct_anchor level_anchor p \<le> 16 \<and>
     (p < 100 \<longrightarrow> anchor_interpolate pct_anchor level_anchor p
        \<le> anchor_interpolate pct_anchor level_anchor (p + 1))"
  by code_simp

lemma level_table:
  "\<forall>l \<in> set (upto 0 16).
     0 \<le> anchor_interpolate level_anchor pct_anchor l \<and>
     anchor_interpolate level_anchor pct_anchor l \<le> 100 \<and>
     anchor_interpolate pct_anchor level_anchor (anchor_interpolate level_anchor pct_anchor l) = l"
  by code_simp

lemma wheel_ends:
  "anchor_interpolate pct_anchor level_anchor 0 = 0"
  "anchor_interpolate pct_anchor level_anchor 100 = 16"
  by code_simp+

lemma wheel_range:
  "0 \<le> p \<Longrightarrow> p \<le> 100 \<Longrightarrow>
   0 \<le> anchor_interpolate pct_anchor level_anchor p \<and> anchor_interpolate pct_anchor level_anchor p \<le> 16"
  using wheel_table by simp

lemma wheel_mono:
  assumes "0 \<le> p" "p \<le> q" "q \<le> 100"
  shows "anchor_interpolate pct_anchor level_anchor p \<le> anchor_interpolate pct_anchor level_anchor q"
  using assms(2,1,3)
proof (induction rule: int_ge_induct)
  case (step i)
  then have "anchor_interpolate pct_anchor level_anchor i \<le> anchor_interpolate pct_anchor level_anchor (i + 1)"
    using wheel_table by simp
  then show ?case using step by simp
qed simp

section \<open>The mapping for every maximum\<close>

text \<open>The scaling to the policy's maximum, and the clamped percentage.\<close>

definition wheel_scale :: "int \<Rightarrow> int \<Rightarrow> int" where
  "wheel_scale m l = (l * m + 8) div 16"

definition wheel_pct :: "u8 \<Rightarrow> int" where
  "wheel_pct pct = min 100 (uint pct)"

lemma wheel_pct_range: "0 \<le> wheel_pct pct \<and> wheel_pct pct \<le> 100"
  by (simp add: wheel_pct_def)

lemma wheel_scale_mono: "0 \<le> m \<Longrightarrow> l \<le> l' \<Longrightarrow> wheel_scale m l \<le> wheel_scale m l'"
  unfolding wheel_scale_def by (intro zdiv_mono1 add_right_mono mult_right_mono) simp_all

lemma wheel_scale_ends: "wheel_scale m 0 = 0" "wheel_scale m 16 = m" "wheel_scale 16 l = l"
  by (simp_all add: wheel_scale_def)

lemma wheel_scale_range: "0 \<le> m \<Longrightarrow> 0 \<le> l \<Longrightarrow> l \<le> 16 \<Longrightarrow> 0 \<le> wheel_scale m l \<and> wheel_scale m l \<le> m"
  using wheel_scale_mono [of m 0 l] wheel_scale_mono [of m l 16] by (simp add: wheel_scale_ends)

lemma pct_to_level_eq:
  assumes "0 < audio_policy_get_volume_level st"
  shows "py32_volume_pct_to_level st pct =
     wheel_scale (audio_policy_get_volume_level st) (anchor_interpolate pct_anchor level_anchor (wheel_pct pct))"
proof -
  let ?m = "audio_policy_get_volume_level st"
  let ?l = "anchor_interpolate pct_anchor level_anchor (wheel_pct pct)"
  have r: "0 \<le> wheel_scale ?m ?l" "wheel_scale ?m ?l \<le> ?m"
    using wheel_scale_range [of ?m ?l] wheel_range [of "wheel_pct pct"] wheel_pct_range [of pct] assms
    by auto
  have p: "(if pct > 100 then 100 else uint pct) = wheel_pct pct"
    by (auto simp: wheel_pct_def word_less_def)
  have s: "(if ?m \<noteq> 16 then (?l * ?m + 8) div 16 else ?l) = wheel_scale ?m ?l"
    by (simp add: wheel_scale_def)
  show ?thesis
    using assms r unfolding py32_volume_pct_to_level_def Let_def p s by simp
qed

lemma level_to_pct_eq:
  assumes "0 < audio_policy_get_volume_level st" "0 \<le> l" "l \<le> audio_policy_get_volume_level st"
    and "audio_policy_get_volume_level st \<le> 16"
  obtains k where "0 \<le> k" "k \<le> 16"
    "py32_volume_level_to_pct st l = word_of_int (anchor_interpolate level_anchor pct_anchor k)"
    "wheel_scale (audio_policy_get_volume_level st) k = l"
proof
  let ?m = "audio_policy_get_volume_level st"
  define k where "k = (l * 16 + ?m div 2) div ?m"
  have m: "0 < ?m" using assms by simp
  have split: "?m * k + (l * 16 + ?m div 2) mod ?m = l * 16 + ?m div 2"
    unfolding k_def by (rule mult_div_mod_eq)
  have r: "0 \<le> (l * 16 + ?m div 2) mod ?m" "(l * 16 + ?m div 2) mod ?m < ?m"
    using m by simp_all
  have half: "2 * (?m div 2) \<le> ?m" "?m \<le> 2 * (?m div 2) + 1" by presburger+
  show "0 \<le> k" unfolding k_def using assms by (intro pos_imp_zdiv_nonneg_iff [THEN iffD2]) auto
  have "?m * k \<le> l * 16 + ?m div 2" using split r by linarith
  also have "\<dots> < 16 * ?m + ?m" using assms half by linarith
  finally have "?m * k < ?m * 17" by simp
  then show "k \<le> 16" using m by (simp add: mult_less_cancel_left_pos)
  have "wheel_scale ?m k = (?m * k + 8) div 16" by (simp add: wheel_scale_def mult.commute)
  also have "\<dots> = l"
  proof (cases "?m = 16")
    case False
    then show ?thesis
      using split r half assms by (intro int_div_pos_eq [of _ _ _ "?m * k + 8 - 16 * l"]) linarith+
  qed (simp add: k_def)
  finally show "wheel_scale ?m k = l" .
  have e: "(if ?m \<noteq> 16 then (l * 16 + ?m div 2) div ?m else l) = k"
    using split r by (simp add: k_def)
  show "py32_volume_level_to_pct st l = word_of_int (anchor_interpolate level_anchor pct_anchor k)"
    unfolding py32_volume_level_to_pct_def Let_def
    using assms e \<open>k \<le> 16\<close> by (simp split: if_splits)
qed

text \<open>(C11) Turning the wheel up never turns the volume down, for every maximum the policy can
  set; the level always lies between silence and that maximum, and the wheel's ends reach both.\<close>

theorem volume_wheel_monotone:
  assumes "pct \<le> pct'"
  shows "0 \<le> py32_volume_pct_to_level st pct \<and>
     py32_volume_pct_to_level st pct \<le> py32_volume_pct_to_level st pct' \<and>
     py32_volume_pct_to_level st pct' \<le> audio_policy_get_volume_level st \<and>
     py32_volume_pct_to_level st 0 = 0 \<and>
     py32_volume_pct_to_level st 100 = audio_policy_get_volume_level st"
proof (cases "0 < audio_policy_get_volume_level st")
  case True
  let ?m = "audio_policy_get_volume_level st"
  let ?b = "\<lambda>p. anchor_interpolate pct_anchor level_anchor (wheel_pct p)"
  have "wheel_pct pct \<le> wheel_pct pct'" using assms by (simp add: wheel_pct_def word_le_def)
  then have "?b pct \<le> ?b pct'" using wheel_pct_range by (intro wheel_mono) auto
  moreover have "0 \<le> ?b pct" "?b pct' \<le> 16" "?b 0 = 0" "?b 100 = 16"
    using wheel_pct_range wheel_range by (simp_all add: wheel_pct_def wheel_ends)
  ultimately show ?thesis
    unfolding pct_to_level_eq [OF True]
    using True wheel_scale_mono [of ?m "?b pct" "?b pct'"] wheel_scale_range [of ?m "?b pct"]
      wheel_scale_range [of ?m "?b pct'"] by (simp add: wheel_scale_ends)
next
  case False
  then show ?thesis
    using volume_level_range(1) [of st] by (simp add: py32_volume_pct_to_level_def)
qed

theorem volume_wheel_monotone_witness:
  "py32_volume_pct_to_level demo_audio_state 10 \<le> py32_volume_pct_to_level demo_audio_state 90"
  using volume_wheel_monotone [of 10 90 demo_audio_state] by simp

text \<open>(C12) With at most sixteen levels the percentage reported for a level leads back to that
  level, so reporting the volume to the host and being sent it back changes nothing.\<close>

theorem volume_level_round_trip:
  assumes "0 < audio_policy_get_volume_level st" "audio_policy_get_volume_level st \<le> 16"
    and "0 \<le> l" "l \<le> audio_policy_get_volume_level st"
  shows "py32_volume_pct_to_level st (py32_volume_level_to_pct st l) = l \<and>
     py32_volume_level_to_pct st l \<le> 100"
proof -
  obtain k where k: "0 \<le> k" "k \<le> 16"
    "py32_volume_level_to_pct st l = word_of_int (anchor_interpolate level_anchor pct_anchor k)"
    "wheel_scale (audio_policy_get_volume_level st) k = l"
    using level_to_pct_eq assms by metis
  have t: "0 \<le> anchor_interpolate level_anchor pct_anchor k"
    "anchor_interpolate level_anchor pct_anchor k \<le> 100"
    "anchor_interpolate pct_anchor level_anchor (anchor_interpolate level_anchor pct_anchor k) = k"
    using level_table k(1,2) by simp_all
  then have u: "uint (py32_volume_level_to_pct st l) = anchor_interpolate level_anchor pct_anchor k"
    using k(3) by (simp add: uint_word_of_int_clamp)
  then have "wheel_pct (py32_volume_level_to_pct st l) = anchor_interpolate level_anchor pct_anchor k"
    using t by (simp add: wheel_pct_def)
  then show ?thesis
    using k t u by (simp add: pct_to_level_eq [OF assms(1)] word_le_def)
qed

theorem volume_level_round_trip_witness:
  "py32_volume_pct_to_level demo_audio_state (py32_volume_level_to_pct demo_audio_state 7) = 7"
  using volume_level_round_trip [of demo_audio_state 7]
  by (simp add: demo_audio_state_def audio_policy_get_volume_level_def)

end
