(* ===== verification/Py32_Uart.thy ===== *)
theory Py32_Uart
  imports Crc Py32_Volume
begin

text \<open>
  The host protocol of \<^verbatim>\<open>system_app_py32_uart.c\<close> (PY32 microcontroller to Bluetooth chip):
  the byte parser, the frame handlers, the status frames sent back, and the host on/off
  bookkeeping, as built for \<^verbatim>\<open>285l2_mc_bt\<close> (Bluetooth manager, dynamic PEQ, no receive
  debugging). A frame is address, command, length, data, CRC-16 low byte first. The state is
  the file's statics; bytes written to the UART and calls into the Bluetooth manager, the user
  interface and the equaliser are ordered logs. Console output and the polling of the transmit
  register are not modelled.
\<close>

section \<open>State\<close>

record py32_params =
  p_volume :: u8
  p_treble :: u8
  p_bass :: u8
  p_vibration :: u8
  p_last_error :: u8

record rx_log =
  log_addr :: u8
  log_cmd :: u8
  log_len :: u8
  log_data :: bytes
  log_crc :: u16

record eq_band =
  eq_cutoff :: int
  eq_q :: int
  eq_gain :: int
  eq_type :: int

datatype py32_call =
    SetUserVisual bool
  | StartWaitConnect
  | PowonAutoReconnect
  | AutoReconnectStop
  | EndPairMode
  | DisconnectAllPhones
  | EndWaitConnect
  | UiPowerOn
  | UiEnterBtmusic
  | SetPeqBand nat eq_band
  | UpdatePeq

record py32 =
  py32_host_alive :: bool
  py32_host_idle_work :: "nat option"   \<comment> \<open>time in ms at which the pending work runs\<close>
  py32_state :: py32_params
  py32_rhythm_bands :: bytes
  py32_rhythm_playing :: u8
  py32_rhythm_dirty :: u8
  py32_parse_state :: u8
  py32_frame_addr :: u8
  py32_frame_cmd :: u8
  py32_frame_len :: u8
  py32_frame_data :: bytes
  py32_frame_got :: u8
  py32_crc_rx :: u16
  py32_init_banner_done :: bool
  py32_tx_frame_count :: u32
  py32_tx_byte_count :: u32
  py32_last_rx_log :: rx_log
  py32_last_tx_log :: bytes
  py32_last_tx_len :: nat
  last_rhythm_tx_ms :: u32
  uart1_tx :: bytes                     \<comment> \<open>every byte written to the transmit register\<close>
  py32_audio :: audio_state
  py32_calls :: "py32_call list"

text \<open>What an operation reads from the rest of the firmware while it runs.\<close>

record py32_env =
  env_audio :: audio_env
  bt_inited :: bool
  bt_power_on_setup :: bool
  br_music_plugin :: bool
  connected_dev_num :: int
  media_status_playing :: bool
  dumpable_player :: bool
  uptime_ms :: nat

abbreviation (input) PY32_ADDR_HOST :: u8 where "PY32_ADDR_HOST \<equiv> 0x01"
abbreviation (input) PY32_ADDR_SLAVE :: u8 where "PY32_ADDR_SLAVE \<equiv> 0x02"
abbreviation (input) PY32_CMD_COMMON :: u8 where "PY32_CMD_COMMON \<equiv> 0x10"
abbreviation (input) PY32_SET_DATA_LEN :: u8 where "PY32_SET_DATA_LEN \<equiv> 4"
abbreviation (input) PY32_RSP_DATA_LEN :: nat where "PY32_RSP_DATA_LEN \<equiv> 17"
abbreviation (input) PY32_FRAME_MAX :: nat where "PY32_FRAME_MAX \<equiv> 128"
abbreviation (input) PY32_HOST_IDLE_TIMEOUT_MS :: nat where "PY32_HOST_IDLE_TIMEOUT_MS \<equiv> 10000"

abbreviation (input) PY32_ERR_NONE :: u8 where "PY32_ERR_NONE \<equiv> 0"
abbreviation (input) PY32_ERR_UNSUPPORTED :: u8 where "PY32_ERR_UNSUPPORTED \<equiv> 1"
abbreviation (input) PY32_ERR_BAD_LEN :: u8 where "PY32_ERR_BAD_LEN \<equiv> 2"
abbreviation (input) PY32_ERR_BAD_VALUE :: u8 where "PY32_ERR_BAD_VALUE \<equiv> 3"
abbreviation (input) PY32_ERR_CRC :: u8 where "PY32_ERR_CRC \<equiv> 4"

abbreviation (input) PY32_RX_ADDR :: u8 where "PY32_RX_ADDR \<equiv> 0"
abbreviation (input) PY32_RX_CMD :: u8 where "PY32_RX_CMD \<equiv> 1"
abbreviation (input) PY32_RX_LEN :: u8 where "PY32_RX_LEN \<equiv> 2"
abbreviation (input) PY32_RX_DATA :: u8 where "PY32_RX_DATA \<equiv> 3"
abbreviation (input) PY32_RX_CRC_L :: u8 where "PY32_RX_CRC_L \<equiv> 4"
abbreviation (input) PY32_RX_CRC_H :: u8 where "PY32_RX_CRC_H \<equiv> 5"

text \<open>The statics as the program is loaded.\<close>

definition py32_statics :: "audio_state \<Rightarrow> py32" where
  "py32_statics audio =
     \<lparr>py32_host_alive = False, py32_host_idle_work = None,
      py32_state = \<lparr>p_volume = 0, p_treble = 12, p_bass = 12, p_vibration = 0, p_last_error = 0\<rparr>,
      py32_rhythm_bands = replicate 10 0, py32_rhythm_playing = 0, py32_rhythm_dirty = 0,
      py32_parse_state = 0, py32_frame_addr = 0, py32_frame_cmd = 0, py32_frame_len = 0,
      py32_frame_data = replicate PY32_FRAME_MAX 0, py32_frame_got = 0, py32_crc_rx = 0,
      py32_init_banner_done = False, py32_tx_frame_count = 0, py32_tx_byte_count = 0,
      py32_last_rx_log = \<lparr>log_addr = 0, log_cmd = 0, log_len = 0,
        log_data = replicate PY32_FRAME_MAX 0, log_crc = 0\<rparr>,
      py32_last_tx_log = replicate PY32_FRAME_MAX 0, py32_last_tx_len = 0, last_rhythm_tx_ms = 0,
      uart1_tx = [], py32_audio = audio, py32_calls = []\<rparr>"

definition host_call :: "py32_call \<Rightarrow> py32 \<Rightarrow> py32" where
  "host_call c st = st\<lparr>py32_calls := py32_calls st @ [c]\<rparr>"

section \<open>Host on and off\<close>

definition py32_host_bt_enable :: "py32_env \<Rightarrow> py32 \<Rightarrow> py32" where
  "py32_host_bt_enable env st =
     (if \<not> bt_inited env then st
      else let st = host_call StartWaitConnect (host_call (SetUserVisual False) st)
           in if bt_power_on_setup env then host_call PowonAutoReconnect st else st)"

definition py32_host_bt_disable :: "py32_env \<Rightarrow> py32 \<Rightarrow> py32" where
  "py32_host_bt_disable env st =
     (if \<not> bt_inited env then st
      else host_call (SetUserVisual True) (host_call EndWaitConnect
             (host_call DisconnectAllPhones (host_call EndPairMode (host_call AutoReconnectStop st)))))"

definition py32_host_power_on :: "py32_env \<Rightarrow> py32 \<Rightarrow> py32" where
  "py32_host_power_on env st =
     (let st = st\<lparr>py32_host_alive := True\<rparr>;
          st = host_call UiPowerOn (py32_host_bt_enable env st)
      in if br_music_plugin env then host_call UiEnterBtmusic st else st)"

definition py32_host_power_off :: "py32_env \<Rightarrow> py32 \<Rightarrow> py32" where
  "py32_host_power_off env st = py32_host_bt_disable env (st\<lparr>py32_host_alive := False\<rparr>)"

text \<open>The work runs once; by then it is no longer pending.\<close>

definition py32_host_idle_work_handler :: "py32_env \<Rightarrow> py32 \<Rightarrow> py32" where
  "py32_host_idle_work_handler env st =
     (let st = st\<lparr>py32_host_idle_work := None\<rparr>
      in if py32_host_alive st then py32_host_power_off env st else st)"

definition py32_host_on_rx_activity :: "py32_env \<Rightarrow> py32 \<Rightarrow> py32" where
  "py32_host_on_rx_activity env st =
     (let st = (if \<not> py32_host_alive st then py32_host_power_on env st else st)
      in st\<lparr>py32_host_idle_work := Some (uptime_ms env + PY32_HOST_IDLE_TIMEOUT_MS)\<rparr>)"

section \<open>Transmission\<close>

definition py32_print_tx_frame :: "bytes \<Rightarrow> py32 \<Rightarrow> py32" where
  "py32_print_tx_frame data st =
     (let len = length data
      in if len = 0 \<or> len > PY32_FRAME_MAX then st
         else if len = py32_last_tx_len st \<and> take len (py32_last_tx_log st) = data then st
         else st\<lparr>py32_last_tx_log := blit (py32_last_tx_log st) 0 data, py32_last_tx_len := len\<rparr>)"

definition py32_uart_tx_bytes :: "bytes \<Rightarrow> py32 \<Rightarrow> py32" where
  "py32_uart_tx_bytes data st =
     (if length data = 0 \<or> length data > PY32_FRAME_MAX then st
      else let st = py32_print_tx_frame data st;
               st = st\<lparr>uart1_tx := uart1_tx st @ data\<rparr>
           in st\<lparr>py32_tx_frame_count := py32_tx_frame_count st + 1,
                 py32_tx_byte_count := py32_tx_byte_count st + word_of_nat (length data)\<rparr>)"

definition py32_get_bt_connected :: "py32_env \<Rightarrow> u8" where
  "py32_get_bt_connected env = (if connected_dev_num env > 0 then 1 else 0)"

definition py32_sync_status_for_response :: "py32 \<Rightarrow> py32" where
  "py32_sync_status_for_response st =
     (let level = system_volume_get AUDIO_STREAM_MUSIC (py32_audio st)
      in if level \<ge> 0
         then st\<lparr>py32_state := (py32_state st)\<lparr>p_volume := py32_volume_level_to_pct (py32_audio st) level\<rparr>\<rparr>
         else st)"

definition py32_tx_status_frame :: "py32_env \<Rightarrow> u8 \<Rightarrow> py32 \<Rightarrow> py32" where
  "py32_tx_status_frame env err_code st =
     (let st = (if err_code = PY32_ERR_NONE then py32_sync_status_for_response st else st);
          p = py32_state st;
          media_playing = (if media_status_playing env then 1 else 0 :: u8);
          rhythm = (if media_playing \<noteq> 0 then take 10 (py32_rhythm_bands st) else replicate 10 0);
          st = st\<lparr>py32_rhythm_playing := media_playing, py32_rhythm_dirty := 0\<rparr>;
          data = [p_volume p, p_treble p, p_bass p, p_vibration p, py32_get_bt_connected env, err_code]
                 @ rhythm @ [media_playing];
          frame = [PY32_ADDR_SLAVE, PY32_CMD_COMMON, word_of_nat PY32_RSP_DATA_LEN] @ data;
          crc = py32_crc16 frame (word_of_nat (3 + PY32_RSP_DATA_LEN))
      in py32_uart_tx_bytes (frame @ [lo8 crc, hi8 crc]) st)"

definition py32_send_status_response :: "py32_env \<Rightarrow> u8 \<Rightarrow> py32 \<Rightarrow> py32" where
  "py32_send_status_response env err_code st = py32_tx_status_frame env err_code st"

definition system_app_py32_uart_push_now :: "py32_env \<Rightarrow> py32 \<Rightarrow> py32" where
  "system_app_py32_uart_push_now env st = py32_send_status_response env PY32_ERR_NONE st"

definition py32_rhythm_set_data :: "bytes option \<Rightarrow> u8 \<Rightarrow> py32 \<Rightarrow> py32" where
  "py32_rhythm_set_data bands playing st =
     (case bands of None \<Rightarrow> st
      | Some bs \<Rightarrow> st\<lparr>py32_rhythm_bands := blit (py32_rhythm_bands st) 0 (take 10 bs),
                      py32_rhythm_playing := (if playing \<noteq> 0 then 1 else 0),
                      py32_rhythm_dirty := 1\<rparr>)"

section \<open>Volume, treble and bass\<close>

definition py32_apply_volume :: "py32_env \<Rightarrow> u8 \<Rightarrow> py32 \<Rightarrow> py32" where
  "py32_apply_volume env volume_pct st =
     (let level = py32_volume_pct_to_level (py32_audio st) volume_pct;
          st = st\<lparr>py32_state := (py32_state st)\<lparr>p_volume := volume_pct\<rparr>\<rparr>
      in st\<lparr>py32_audio := snd (system_volume_set (env_audio env) AUDIO_STREAM_MUSIC level True (py32_audio st))\<rparr>)"

definition py32_push_dynamic_peq :: "py32_env \<Rightarrow> py32 \<Rightarrow> py32" where
  "py32_push_dynamic_peq env st = (if dumpable_player env then host_call UpdatePeq st else st)"

definition py32_apply_treble_bass :: "py32_env \<Rightarrow> u8 \<Rightarrow> u8 \<Rightarrow> py32 \<Rightarrow> py32" where
  "py32_apply_treble_bass env treble bass st =
     (if treble > 24 \<or> bass > 24
      then st\<lparr>py32_state := (py32_state st)\<lparr>p_last_error := PY32_ERR_BAD_VALUE\<rparr>\<rparr>
      else
        let st = st\<lparr>py32_state := (py32_state st)\<lparr>p_treble := treble, p_bass := bass\<rparr>\<rparr>;
            st = host_call (SetPeqBand 15 \<lparr>eq_cutoff = 200, eq_q = 70,
                   eq_gain = (uint bass - 12) * 10, eq_type = 1\<rparr>) st;
            st = host_call (SetPeqBand 16 \<lparr>eq_cutoff = 8000, eq_q = 70,
                   eq_gain = (uint treble - 12) * 10, eq_type = 1\<rparr>) st
        in py32_push_dynamic_peq env st)"

definition system_app_py32_reapply_eq :: "py32_env \<Rightarrow> py32 \<Rightarrow> py32" where
  "system_app_py32_reapply_eq env st =
     py32_apply_treble_bass env (p_treble (py32_state st)) (p_bass (py32_state st)) st"

section \<open>Frames\<close>

definition py32_rx_frame_same :: "u8 \<Rightarrow> u8 \<Rightarrow> bytes \<Rightarrow> u8 \<Rightarrow> u16 \<Rightarrow> py32 \<Rightarrow> bool" where
  "py32_rx_frame_same addr cmd data len crc st =
     (let l = py32_last_rx_log st
      in if log_addr l \<noteq> addr \<or> log_cmd l \<noteq> cmd \<or> log_len l \<noteq> len \<or> log_crc l \<noteq> crc then False
         else if len = 0 then True
         else take (unat len) (log_data l) = take (unat len) data)"

definition py32_save_rx_log :: "u8 \<Rightarrow> u8 \<Rightarrow> bytes \<Rightarrow> u8 \<Rightarrow> u16 \<Rightarrow> py32 \<Rightarrow> py32" where
  "py32_save_rx_log addr cmd data len crc st =
     (let l = (py32_last_rx_log st)\<lparr>log_addr := addr, log_cmd := cmd, log_len := len, log_crc := crc\<rparr>;
          l = (if len > 0 then l\<lparr>log_data := blit (log_data l) 0 (take (unat len) data)\<rparr> else l)
      in st\<lparr>py32_last_rx_log := l\<rparr>)"

definition set_last_error :: "u8 \<Rightarrow> py32 \<Rightarrow> py32" where
  "set_last_error err st = st\<lparr>py32_state := (py32_state st)\<lparr>p_last_error := err\<rparr>\<rparr>"

definition py32_handle_set_params :: "py32_env \<Rightarrow> bytes \<Rightarrow> u8 \<Rightarrow> py32 \<Rightarrow> py32" where
  "py32_handle_set_params env data len st =
     (if len \<noteq> PY32_SET_DATA_LEN
      then py32_send_status_response env PY32_ERR_BAD_LEN (set_last_error PY32_ERR_BAD_LEN st)
      else
        let (err, st) =
          (if data ! 0 > 100 \<or> data ! 1 > 24 \<or> data ! 2 > 24 \<or> data ! 3 > 100
           then (PY32_ERR_BAD_VALUE, st)
           else
             let st = py32_apply_volume env (data ! 0) st;
                 st = py32_apply_treble_bass env (data ! 1) (data ! 2) st
             in (PY32_ERR_NONE, st\<lparr>py32_state := (py32_state st)\<lparr>p_vibration := data ! 3\<rparr>\<rparr>))
        in py32_send_status_response env err (set_last_error err st))"

definition py32_handle_frame :: "py32_env \<Rightarrow> u8 \<Rightarrow> u8 \<Rightarrow> bytes \<Rightarrow> u8 \<Rightarrow> py32 \<Rightarrow> py32" where
  "py32_handle_frame env addr cmd data len st =
     (if addr \<noteq> PY32_ADDR_HOST then st
      else if cmd = PY32_CMD_COMMON then py32_handle_set_params env data len st
      else py32_send_status_response env PY32_ERR_UNSUPPORTED (set_last_error PY32_ERR_UNSUPPORTED st))"

definition py32_parse_reset :: "py32 \<Rightarrow> py32" where
  "py32_parse_reset st = st\<lparr>py32_parse_state := PY32_RX_ADDR, py32_frame_addr := 0, py32_frame_cmd := 0,
     py32_frame_len := 0, py32_frame_got := 0, py32_crc_rx := 0\<rparr>"

definition py32_process_complete_frame :: "py32_env \<Rightarrow> py32 \<Rightarrow> py32" where
  "py32_process_complete_frame env st =
     (let addr = py32_frame_addr st; cmd = py32_frame_cmd st; len = py32_frame_len st;
          data = py32_frame_data st; crc = py32_crc_rx st
      in if unat len > PY32_FRAME_MAX - 5
         then py32_parse_reset (py32_send_status_response env PY32_ERR_BAD_LEN st)
         else if py32_crc16 ([addr, cmd, len] @ take (unat len) data) (word_of_nat (3 + unat len)) \<noteq> crc
         then py32_parse_reset (py32_send_status_response env PY32_ERR_CRC (set_last_error PY32_ERR_CRC st))
         else if py32_rx_frame_same addr cmd data len crc st then py32_parse_reset st
         else py32_parse_reset (py32_handle_frame env addr cmd data len
                (py32_save_rx_log addr cmd data len crc st)))"

text \<open>The parser. Its only recursive call follows a reset, which leaves the state at
  \<open>PY32_RX_ADDR\<close>.\<close>

function py32_rx_feed_byte :: "py32_env \<Rightarrow> u8 \<Rightarrow> py32 \<Rightarrow> py32" where
  "py32_rx_feed_byte env c st =
     (if py32_parse_state st = PY32_RX_ADDR then
        if c \<noteq> PY32_ADDR_HOST then st
        else st\<lparr>py32_frame_addr := c, py32_parse_state := PY32_RX_CMD\<rparr>
      else if py32_parse_state st = PY32_RX_CMD then
        st\<lparr>py32_frame_cmd := c, py32_parse_state := PY32_RX_LEN\<rparr>
      else if py32_parse_state st = PY32_RX_LEN then
        let st = st\<lparr>py32_frame_len := c, py32_frame_got := 0\<rparr>
        in if c = 0 then st\<lparr>py32_parse_state := PY32_RX_CRC_L\<rparr>
           else if unat c > PY32_FRAME_MAX - 5 then py32_parse_reset st
           else st\<lparr>py32_parse_state := PY32_RX_DATA\<rparr>
      else if py32_parse_state st = PY32_RX_DATA then
        if c = PY32_ADDR_HOST \<and> py32_frame_got st < py32_frame_len st
        then py32_rx_feed_byte env c (py32_parse_reset st)
        else let st = st\<lparr>py32_frame_data := (py32_frame_data st)[unat (py32_frame_got st) := c],
                        py32_frame_got := py32_frame_got st + 1\<rparr>
             in if py32_frame_got st \<ge> py32_frame_len st
                then st\<lparr>py32_parse_state := PY32_RX_CRC_L\<rparr> else st
      else if py32_parse_state st = PY32_RX_CRC_L then
        st\<lparr>py32_crc_rx := ucast c, py32_parse_state := PY32_RX_CRC_H\<rparr>
      else if py32_parse_state st = PY32_RX_CRC_H then
        py32_process_complete_frame env (st\<lparr>py32_crc_rx := py32_crc_rx st OR push_bit 8 (ucast c)\<rparr>)
      else py32_parse_reset st)"
  by pat_completeness auto

termination
  by (relation "measure (\<lambda>(env, c, st). if py32_parse_state st = PY32_RX_DATA then 1 else 0)")
     (auto simp: py32_parse_reset_def)

declare py32_rx_feed_byte.simps [simp del]

definition feed_bytes :: "py32_env \<Rightarrow> bytes \<Rightarrow> py32 \<Rightarrow> py32" where
  "feed_bytes env cs st = foldl (\<lambda>st c. py32_rx_feed_byte env c st) st cs"

end
