(* ===== verification/Py32_Protocol.thy ===== *)
theory Py32_Protocol
  imports Py32_Uart
begin

text \<open>
  What the host protocol of \<open>Py32_Uart\<close> guarantees: which byte strings reach the handlers,
  what a handled frame changes and what is sent back, what damaged, repeated and truncated
  frames do, and the invariant every byte preserves.
\<close>

section \<open>Frames\<close>

definition py32_frame :: "u8 \<Rightarrow> u8 \<Rightarrow> bytes \<Rightarrow> bytes" where
  "py32_frame addr cmd data =
     (let h = [addr, cmd, word_of_nat (length data)] @ data;
          crc = py32_crc16 h (word_of_nat (length h))
      in h @ [lo8 crc, hi8 crc])"

definition frame_crc :: "u8 \<Rightarrow> bytes \<Rightarrow> u16" where
  "frame_crc cmd data =
     py32_crc16 ([1, cmd, word_of_nat (length data)] @ data) (word_of_nat (3 + length data))"

lemma unat_word_of_nat_u8: "n < 256 \<Longrightarrow> unat (word_of_nat n :: u8) = n"
  by (simp add: unsigned_of_nat take_bit_nat_eq_self)

lemma word_of_nat_0_u8: "n < 256 \<Longrightarrow> word_of_nat n = (0::u8) \<longleftrightarrow> n = 0"
  using unat_word_of_nat_u8 [of n] by (auto simp del: of_nat_eq_0_iff)

lemma unat_word_of_nat_u16: "n < 65536 \<Longrightarrow> unat (word_of_nat n :: u16) = n"
  by (simp add: unsigned_of_nat take_bit_nat_eq_self)

lemma py32_crc16_all: "n = length data \<Longrightarrow> n < 65536 \<Longrightarrow>
   py32_crc16 data (word_of_nat n) = foldl crc16_byte 0xFFFF data"
  by (simp add: py32_crc16_def unat_word_of_nat_u16)

lemma py32_frame_host:
  "py32_frame 1 cmd data = [1, cmd, word_of_nat (length data)] @ data @
     [lo8 (frame_crc cmd data), hi8 (frame_crc cmd data)]"
  by (simp add: py32_frame_def frame_crc_def Let_def)

text \<open>The residue of a frame with its checksum is zero.\<close>

lemma py32_frame_residue:
  assumes "length data < 65000"
  shows "py32_crc16 (py32_frame addr cmd data) (word_of_nat (length data + 5)) = 0"
proof -
  let ?h = "[addr, cmd, word_of_nat (length data)] @ data"
  let ?c = "foldl crc16_byte 0xFFFF ?h"
  have c: "py32_crc16 ?h (word_of_nat (length ?h)) = ?c"
    using assms by (intro py32_crc16_all) simp_all
  have "py32_frame addr cmd data = ?h @ [lo8 ?c, hi8 ?c]"
    unfolding py32_frame_def Let_def c ..
  moreover have "foldl crc16_byte 0xFFFF (?h @ [lo8 ?c, hi8 ?c]) = 0"
    using crc16_residue [of ?c] by (simp only: foldl_append)
  ultimately show ?thesis
    using assms by (subst py32_crc16_all) simp_all
qed

section \<open>The parser, state by state\<close>

lemma feed_bytes_simps [simp]:
  "feed_bytes env [] st = st"
  "feed_bytes env (c # cs) st = feed_bytes env cs (py32_rx_feed_byte env c st)"
  "feed_bytes env (xs @ ys) st = feed_bytes env ys (feed_bytes env xs st)"
  by (simp_all add: feed_bytes_def)

lemma feed_addr:
  "py32_parse_state st = 0 \<Longrightarrow> py32_rx_feed_byte env c st =
     (if c = 1 then st\<lparr>py32_frame_addr := 1, py32_parse_state := 1\<rparr> else st)"
  by (simp add: py32_rx_feed_byte.simps)

lemma feed_cmd:
  "py32_parse_state st = 1 \<Longrightarrow> py32_rx_feed_byte env c st = st\<lparr>py32_frame_cmd := c, py32_parse_state := 2\<rparr>"
  by (simp add: py32_rx_feed_byte.simps)

lemma feed_len:
  "py32_parse_state st = 2 \<Longrightarrow> py32_rx_feed_byte env c st =
     (let st = st\<lparr>py32_frame_len := c, py32_frame_got := 0\<rparr>
      in if c = 0 then st\<lparr>py32_parse_state := 4\<rparr>
         else if unat c > 123 then py32_parse_reset st else st\<lparr>py32_parse_state := 3\<rparr>)"
  by (simp add: py32_rx_feed_byte.simps Let_def)

lemma feed_data_resync:
  "py32_parse_state st = 3 \<Longrightarrow> py32_frame_got st < py32_frame_len st \<Longrightarrow>
   py32_rx_feed_byte env 1 st = (py32_parse_reset st)\<lparr>py32_frame_addr := 1, py32_parse_state := 1\<rparr>"
  by (subst py32_rx_feed_byte.simps) (simp add: feed_addr py32_parse_reset_def)

lemma feed_data:
  "py32_parse_state st = 3 \<Longrightarrow> c \<noteq> 1 \<Longrightarrow> py32_rx_feed_byte env c st =
     st\<lparr>py32_frame_data := (py32_frame_data st)[unat (py32_frame_got st) := c],
        py32_frame_got := py32_frame_got st + 1,
        py32_parse_state := (if py32_frame_got st + 1 \<ge> py32_frame_len st then 4 else 3)\<rparr>"
  by (simp add: py32_rx_feed_byte.simps Let_def)

lemma feed_crc_l:
  "py32_parse_state st = 4 \<Longrightarrow> py32_rx_feed_byte env c st = st\<lparr>py32_crc_rx := ucast c, py32_parse_state := 5\<rparr>"
  by (simp add: py32_rx_feed_byte.simps)

lemma feed_crc_h:
  "py32_parse_state st = 5 \<Longrightarrow> py32_rx_feed_byte env c st =
     py32_process_complete_frame env (st\<lparr>py32_crc_rx := py32_crc_rx st OR push_bit 8 (ucast c)\<rparr>)"
  by (simp add: py32_rx_feed_byte.simps)

lemmas feed_states = feed_addr feed_cmd feed_len feed_data feed_data_resync feed_crc_l feed_crc_h

lemma blit_Cons:
  "g < length buf \<Longrightarrow> blit (buf[g := c]) (Suc g) cs = blit buf g (c # cs)"
  by (simp add: blit_def take_Suc_conv_app_nth take_update_cancel drop_update_cancel)

text \<open>The data bytes of a frame, none of them equal to the host address.\<close>

lemma feed_data_bytes:
  assumes "py32_parse_state st = 3" "length (py32_frame_data st) = 128"
    and "unat (py32_frame_got st) + length cs = unat (py32_frame_len st)" "unat (py32_frame_len st) \<le> 123"
    and "cs \<noteq> []" "1 \<notin> set cs"
  shows "feed_bytes env cs st = st\<lparr>py32_frame_data := blit (py32_frame_data st) (unat (py32_frame_got st)) cs,
     py32_frame_got := py32_frame_len st, py32_parse_state := 4\<rparr>"
  using assms
proof (induction cs arbitrary: st)
  case (Cons c cs)
  have got: "unat (py32_frame_got st + 1) = Suc (unat (py32_frame_got st))"
    using Cons.prems(3,4) by (simp add: unat_word_ariths)
  have ge: "py32_frame_got st + 1 \<ge> py32_frame_len st \<longleftrightarrow> cs = []"
    using Cons.prems(3) got by (cases cs) (auto simp: word_le_nat_alt)
  have lt: "unat (py32_frame_got st) < length (py32_frame_data st)"
    using Cons.prems(2-4) by simp
  show ?case
  proof (cases "cs = []")
    case True
    have "py32_frame_got st + 1 = py32_frame_len st"
      using True got Cons.prems(3) by (simp add: word_unat_eq_iff del: unsigned_word_eqI)
    then show ?thesis
      using Cons.prems True ge lt blit_Cons [OF lt, of c "[]"] by (simp add: feed_data)
  next
    case False
    let ?st = "st\<lparr>py32_frame_data := (py32_frame_data st)[unat (py32_frame_got st) := c],
        py32_frame_got := py32_frame_got st + 1, py32_parse_state := 3\<rparr>"
    have "feed_bytes env (c # cs) st = feed_bytes env cs ?st"
      using Cons.prems False ge by (simp add: feed_data)
    also have "\<dots> = ?st\<lparr>py32_frame_data := blit (py32_frame_data ?st) (unat (py32_frame_got ?st)) cs,
        py32_frame_got := py32_frame_len ?st, py32_parse_state := 4\<rparr>"
      using Cons.prems False got by (intro Cons.IH) simp_all
    finally show ?thesis using got blit_Cons [OF lt, of c cs] by simp
  qed
qed simp


text \<open>The parser's statics once a frame has been received up to its last byte.\<close>

definition frame_loaded :: "u8 \<Rightarrow> bytes \<Rightarrow> u16 \<Rightarrow> py32 \<Rightarrow> py32" where
  "frame_loaded cmd data crc st =
     st\<lparr>py32_frame_addr := 1, py32_frame_cmd := cmd, py32_frame_len := word_of_nat (length data),
        py32_frame_got := word_of_nat (length data), py32_frame_data := blit (py32_frame_data st) 0 data,
        py32_parse_state := 5, py32_crc_rx := crc\<rparr>"

lemma feed_frame:
  assumes "py32_parse_state st = 0" "length (py32_frame_data st) = 128"
    and "length data \<le> 123" "1 \<notin> set data"
  shows "feed_bytes env ([1, cmd, word_of_nat (length data)] @ data @ [l, h]) st =
     py32_process_complete_frame env (frame_loaded cmd data (ucast l OR push_bit 8 (ucast h)) st)"
proof -
  have len: "unat (word_of_nat (length data) :: u8) = length data"
    using assms(3) by (simp add: unat_word_of_nat_u8)
  let ?st = "st\<lparr>py32_frame_addr := 1, py32_frame_cmd := cmd, py32_frame_len := word_of_nat (length data),
     py32_frame_got := 0, py32_parse_state := (if data = [] then 4 else 3)\<rparr>"
  have z: "word_of_nat (length data) = (0::u8) \<longleftrightarrow> data = []"
    using assms word_of_nat_0_u8 [of "length data"] by simp
  have "feed_bytes env [1, cmd, word_of_nat (length data)] st = ?st"
    using assms len z by (simp add: feed_addr feed_cmd feed_len Let_def)
  moreover have "feed_bytes env data ?st = st\<lparr>py32_parse_state := 4, py32_frame_addr := 1, py32_frame_cmd := cmd,
        py32_frame_len := word_of_nat (length data), py32_frame_got := word_of_nat (length data),
        py32_frame_data := blit (py32_frame_data st) 0 data\<rparr>"
    using assms len by (cases "data = []") (simp_all add: feed_data_bytes)
  ultimately show ?thesis
    by (simp only: feed_bytes_simps) (simp add: feed_crc_l feed_crc_h frame_loaded_def)
qed

lemma frame_loaded_sel [simp]:
  "py32_frame_addr (frame_loaded cmd data crc st) = 1"
  "py32_frame_cmd (frame_loaded cmd data crc st) = cmd"
  "py32_frame_len (frame_loaded cmd data crc st) = word_of_nat (length data)"
  "py32_crc_rx (frame_loaded cmd data crc st) = crc"
  "py32_state (frame_loaded cmd data crc st) = py32_state st"
  "py32_last_rx_log (frame_loaded cmd data crc st) = py32_last_rx_log st"
  "uart1_tx (frame_loaded cmd data crc st) = uart1_tx st"
  "py32_audio (frame_loaded cmd data crc st) = py32_audio st"
  "py32_calls (frame_loaded cmd data crc st) = py32_calls st"
  "py32_rhythm_bands (frame_loaded cmd data crc st) = py32_rhythm_bands st"
  "py32_last_tx_log (frame_loaded cmd data crc st) = py32_last_tx_log st"
  by (simp_all add: frame_loaded_def)

lemma frame_loaded_data:
  "length (py32_frame_data st) = 128 \<Longrightarrow> length data \<le> 123 \<Longrightarrow>
   take (length data) (py32_frame_data (frame_loaded cmd data crc st)) = data"
  by (simp add: frame_loaded_def take_blit_0)

text \<open>Whether a frame repeats the one handled last.\<close>

definition repeats_last :: "u8 \<Rightarrow> bytes \<Rightarrow> py32 \<Rightarrow> bool" where
  "repeats_last cmd data st \<longleftrightarrow> log_addr (py32_last_rx_log st) = 1 \<and> log_cmd (py32_last_rx_log st) = cmd \<and>
     log_len (py32_last_rx_log st) = word_of_nat (length data) \<and>
     log_crc (py32_last_rx_log st) = frame_crc cmd data \<and>
     take (length data) (log_data (py32_last_rx_log st)) = data"

lemma frame_complete:
  fixes cmd :: u8 and crc :: u16
  assumes "length (py32_frame_data st) = 128" "length data \<le> 123"
  defines "s \<equiv> frame_loaded cmd data crc st"
  shows "py32_process_complete_frame env s =
     (if crc \<noteq> frame_crc cmd data
      then py32_parse_reset (py32_send_status_response env 4 (set_last_error 4 s))
      else if repeats_last cmd data st then py32_parse_reset s
      else py32_parse_reset (py32_handle_frame env 1 cmd (py32_frame_data s) (word_of_nat (length data))
             (py32_save_rx_log 1 cmd (py32_frame_data s) (word_of_nat (length data)) crc s)))"
proof -
  have len: "unat (word_of_nat (length data) :: u8) = length data"
    using assms(2) by (simp add: unat_word_of_nat_u8)
  have d: "take (length data) (py32_frame_data s) = data"
    unfolding s_def using assms(1,2) by (rule frame_loaded_data)
  have z: "word_of_nat (length data) = (0::u8) \<longleftrightarrow> data = []"
    using assms word_of_nat_0_u8 [of "length data"] by simp
  have same: "py32_rx_frame_same 1 cmd (py32_frame_data s) (word_of_nat (length data)) (frame_crc cmd data) s
      = repeats_last cmd data st"
    using len d z by (auto simp: py32_rx_frame_same_def repeats_last_def Let_def s_def)
  show ?thesis
    unfolding py32_process_complete_frame_def Let_def
    using same len d assms(2) by (auto simp: s_def frame_crc_def)
qed

text \<open>A host frame as sent: every frame without a data byte equal to the host address is
  received and, unless it repeats the last one, handled.\<close>

lemma feed_host_frame:
  fixes cmd :: u8
  assumes "py32_parse_state st = 0" "length (py32_frame_data st) = 128"
    and "length data \<le> 123" "1 \<notin> set data"
  defines "s \<equiv> frame_loaded cmd data (frame_crc cmd data) st"
  shows "feed_bytes env (py32_frame 1 cmd data) st =
     (if repeats_last cmd data st then py32_parse_reset s
      else py32_parse_reset (py32_handle_frame env 1 cmd (py32_frame_data s) (word_of_nat (length data))
             (py32_save_rx_log 1 cmd (py32_frame_data s) (word_of_nat (length data)) (frame_crc cmd data) s)))"
  unfolding py32_frame_host feed_frame [OF assms(1-4)] lo8_hi8_combine s_def
  using frame_complete [OF assms(2,3)] by simp

section \<open>Status frames\<close>

definition status_data :: "py32_env \<Rightarrow> u8 \<Rightarrow> py32 \<Rightarrow> bytes" where
  "status_data env err st =
     [p_volume (py32_state st), p_treble (py32_state st), p_bass (py32_state st),
      p_vibration (py32_state st), py32_get_bt_connected env, err]
     @ (if media_status_playing env then py32_rhythm_bands st else replicate 10 0)
     @ [if media_status_playing env then 1 else 0]"

text \<open>The buffers keep the sizes they are declared with.\<close>

definition buffers_ok :: "py32 \<Rightarrow> bool" where
  "buffers_ok st \<longleftrightarrow> length (py32_frame_data st) = 128 \<and> length (py32_rhythm_bands st) = 10 \<and>
     length (py32_last_tx_log st) = 128 \<and> length (log_data (py32_last_rx_log st)) = 128"

definition synced :: "u8 \<Rightarrow> py32 \<Rightarrow> py32" where
  "synced err st = (if err = 0 then py32_sync_status_for_response st else st)"

definition status_sent :: "py32_env \<Rightarrow> u8 \<Rightarrow> py32 \<Rightarrow> py32" where
  "status_sent env err st =
     (let f = py32_frame 2 0x10 (status_data env err st)
      in st\<lparr>py32_rhythm_playing := (if media_status_playing env then 1 else 0), py32_rhythm_dirty := 0,
            py32_last_tx_log := blit (py32_last_tx_log st) 0 f, py32_last_tx_len := 22,
            uart1_tx := uart1_tx st @ f,
            py32_tx_frame_count := py32_tx_frame_count st + 1,
            py32_tx_byte_count := py32_tx_byte_count st + 22\<rparr>)"

lemma length_status_data: "buffers_ok st \<Longrightarrow> length (status_data env err st) = 17"
  by (simp add: status_data_def buffers_ok_def)

lemma length_py32_frame: "length (py32_frame addr cmd data) = length data + 5"
  by (simp add: py32_frame_def Let_def)

lemma blit_take_same: "take (length xs) buf = xs \<Longrightarrow> blit buf 0 xs = buf"
  using append_take_drop_id [of "length xs" buf] by (simp add: blit_def)

lemma uart_tx_bytes_eq:
  assumes "data \<noteq> []" "length data \<le> 128"
  shows "py32_uart_tx_bytes data st = st\<lparr>py32_last_tx_log := blit (py32_last_tx_log st) 0 data,
     py32_last_tx_len := length data, uart1_tx := uart1_tx st @ data,
     py32_tx_frame_count := py32_tx_frame_count st + 1,
     py32_tx_byte_count := py32_tx_byte_count st + word_of_nat (length data)\<rparr>"
  using assms blit_take_same [of data "py32_last_tx_log st"]
  by (auto simp: py32_uart_tx_bytes_def py32_print_tx_frame_def Let_def)

lemma synced_buffers: "buffers_ok (synced err st) = buffers_ok st"
  by (simp add: synced_def py32_sync_status_for_response_def buffers_ok_def Let_def)

lemma tx_status_frame_eq:
  assumes "buffers_ok st"
  shows "py32_tx_status_frame env err st = status_sent env err (synced err st)"
proof -
  let ?s = "synced err st"
  have b: "buffers_ok ?s" using assms by (simp add: synced_buffers)
  let ?f = "py32_frame 2 0x10 (status_data env err ?s)"
  have f: "?f \<noteq> []" "length ?f = 22"
    using length_status_data [OF b] length_py32_frame [of 2 "0x10" "status_data env err ?s"] by auto
  have "py32_tx_status_frame env err st = py32_uart_tx_bytes ?f
      (?s\<lparr>py32_rhythm_playing := (if media_status_playing env then 1 else 0), py32_rhythm_dirty := 0\<rparr>)"
    using b unfolding py32_tx_status_frame_def synced_def [symmetric] py32_frame_def Let_def length_status_data [OF b]
    by (simp add: status_data_def buffers_ok_def)
  then show ?thesis
    using f by (simp add: uart_tx_bytes_eq status_sent_def Let_def)
qed

section \<open>What handling a frame changes\<close>

lemma level_to_pct_cong:
  "user_policy a = user_policy a' \<Longrightarrow> py32_volume_level_to_pct a l = py32_volume_level_to_pct a' l"
  by (simp add: py32_volume_level_to_pct_def audio_policy_get_volume_level_def)

lemma wheel_level_range:
  "0 \<le> py32_volume_pct_to_level a p \<and> py32_volume_pct_to_level a p \<le> audio_policy_get_volume_level a"
proof (cases "0 < audio_policy_get_volume_level a")
  case True
  then show ?thesis
    using wheel_pct_range [of p] wheel_range [of "wheel_pct p"]
    by (simp add: pct_to_level_eq wheel_scale_range)
next
  case False
  then show ?thesis using volume_level_range(1) [of a] by (simp add: py32_volume_pct_to_level_def)
qed

definition set_wheel :: "py32_env \<Rightarrow> u8 \<Rightarrow> py32 \<Rightarrow> audio_state" where
  "set_wheel env v st = snd (system_volume_set (env_audio env) AUDIO_STREAM_MUSIC
     (py32_volume_pct_to_level (py32_audio st) v) True (py32_audio st))"

lemma set_wheel_get:
  "audio_system (py32_audio st) \<noteq> None \<Longrightarrow>
   system_volume_get AUDIO_STREAM_MUSIC (set_wheel env v st) = py32_volume_pct_to_level (py32_audio st) v"
  unfolding set_wheel_def using wheel_level_range [of "py32_audio st" v]
  by (intro music.get_set_in_range) auto

definition eq_calls :: "py32_env \<Rightarrow> u8 \<Rightarrow> u8 \<Rightarrow> py32_call list" where
  "eq_calls env treble bass =
     [SetPeqBand 15 \<lparr>eq_cutoff = 200, eq_q = 70, eq_gain = (uint bass - 12) * 10, eq_type = 1\<rparr>,
      SetPeqBand 16 \<lparr>eq_cutoff = 8000, eq_q = 70, eq_gain = (uint treble - 12) * 10, eq_type = 1\<rparr>]
     @ (if dumpable_player env then [UpdatePeq] else [])"

lemma apply_treble_bass_ok:
  "t \<le> 24 \<Longrightarrow> b \<le> 24 \<Longrightarrow> py32_apply_treble_bass env t b st =
     st\<lparr>py32_state := (py32_state st)\<lparr>p_treble := t, p_bass := b\<rparr>,
        py32_calls := py32_calls st @ eq_calls env t b\<rparr>"
  by (simp add: py32_apply_treble_bass_def py32_push_dynamic_peq_def host_call_def eq_calls_def Let_def not_less)

text \<open>The handler on a well-formed request.\<close>

definition params_applied :: "py32_env \<Rightarrow> u8 \<Rightarrow> u8 \<Rightarrow> u8 \<Rightarrow> u8 \<Rightarrow> py32 \<Rightarrow> py32" where
  "params_applied env v t b vib st =
     st\<lparr>py32_audio := set_wheel env v st, py32_calls := py32_calls st @ eq_calls env t b,
        py32_state := (py32_state st)\<lparr>p_volume := v, p_treble := t, p_bass := b, p_vibration := vib,
          p_last_error := 0\<rparr>\<rparr>"

lemma handle_set_params_ok:
  assumes ok: "buffers_ok st" and d: "take 4 data = [v, t, b, vib]"
    and r: "v \<le> 100" "t \<le> 24" "b \<le> 24" "vib \<le> 100"
  shows "py32_handle_set_params env data 4 st = status_sent env 0 (py32_sync_status_for_response
     (params_applied env v t b vib st))"
proof -
  have nth: "data ! i = [v, t, b, vib] ! i" if "i < 4" for i
    using d that by (metis nth_take)
  have n: "data ! 0 = v" "data ! 1 = t" "data ! 2 = b" "data ! 3 = vib"
    using nth [of 0] nth [of 1] nth [of 2] nth [of 3] by simp_all
  let ?s = "params_applied env v t b vib st"
  have "py32_handle_set_params env data 4 st = py32_tx_status_frame env 0 ?s"
    using r unfolding py32_handle_set_params_def n
    by (simp add: not_less py32_apply_volume_def apply_treble_bass_ok set_last_error_def
        py32_send_status_response_def params_applied_def set_wheel_def Let_def)
  moreover have "buffers_ok ?s" using ok by (simp add: buffers_ok_def params_applied_def)
  ultimately show ?thesis by (simp add: tx_status_frame_eq synced_def)
qed

lemma reset_sel [simp]:
  "py32_parse_state (py32_parse_reset st) = 0"
  "py32_state (py32_parse_reset st) = py32_state st"
  "uart1_tx (py32_parse_reset st) = uart1_tx st"
  "py32_audio (py32_parse_reset st) = py32_audio st"
  "py32_calls (py32_parse_reset st) = py32_calls st"
  "py32_last_rx_log (py32_parse_reset st) = py32_last_rx_log st"
  "py32_frame_data (py32_parse_reset st) = py32_frame_data st"
  "buffers_ok (py32_parse_reset st) = buffers_ok st"
  by (simp_all add: py32_parse_reset_def buffers_ok_def)

text \<open>A received frame with its log entry written, as the handlers see it.\<close>

definition frame_logged :: "u8 \<Rightarrow> bytes \<Rightarrow> py32 \<Rightarrow> py32" where
  "frame_logged cmd data st =
     (let s = frame_loaded cmd data (frame_crc cmd data) st
      in py32_save_rx_log 1 cmd (py32_frame_data s) (word_of_nat (length data)) (frame_crc cmd data) s)"

lemma frame_logged_sel [simp]:
  "py32_state (frame_logged cmd data st) = py32_state st"
  "uart1_tx (frame_logged cmd data st) = uart1_tx st"
  "py32_audio (frame_logged cmd data st) = py32_audio st"
  "py32_calls (frame_logged cmd data st) = py32_calls st"
  "py32_rhythm_bands (frame_logged cmd data st) = py32_rhythm_bands st"
  by (simp_all add: frame_logged_def py32_save_rx_log_def Let_def)

lemma frame_logged_buffers:
  "buffers_ok st \<Longrightarrow> length data \<le> 123 \<Longrightarrow> buffers_ok (frame_logged cmd data st)"
  by (simp add: buffers_ok_def frame_logged_def py32_save_rx_log_def frame_loaded_def Let_def
      unat_word_of_nat_u8)

lemma frame_logged_data:
  "buffers_ok st \<Longrightarrow> length data \<le> 123 \<Longrightarrow>
   take (length data) (py32_frame_data (frame_logged cmd data st)) = data"
  using frame_loaded_data [of st data cmd "frame_crc cmd data"]
  by (simp add: buffers_ok_def frame_logged_def py32_save_rx_log_def Let_def)

lemma feed_new_frame:
  assumes "py32_parse_state st = 0" "buffers_ok st" "length data \<le> 123" "1 \<notin> set data"
    and "\<not> repeats_last cmd data st"
  shows "feed_bytes env (py32_frame 1 cmd data) st =
     py32_parse_reset (py32_handle_frame env 1 cmd (py32_frame_data (frame_logged cmd data st))
       (word_of_nat (length data)) (frame_logged cmd data st))"
  using feed_host_frame [OF assms(1) _ assms(3,4)] assms(2,5)
  by (simp add: buffers_ok_def frame_logged_def py32_save_rx_log_def Let_def)

lemma status_sent_sel [simp]:
  "py32_state (status_sent env err st) = py32_state st"
  "py32_audio (status_sent env err st) = py32_audio st"
  "py32_calls (status_sent env err st) = py32_calls st"
  "uart1_tx (status_sent env err st) = uart1_tx st @ py32_frame 2 0x10 (status_data env err st)"
  by (simp_all add: status_sent_def Let_def)

lemma sync_live:
  "audio_system (py32_audio st) \<noteq> None \<Longrightarrow> py32_sync_status_for_response st =
     st\<lparr>py32_state := (py32_state st)\<lparr>p_volume :=
        py32_volume_level_to_pct (py32_audio st) (system_volume_get AUDIO_STREAM_MUSIC (py32_audio st))\<rparr>\<rparr>"
  by (auto simp: py32_sync_status_for_response_def system_volume_get_def audio_system_get_stream_volume_def)

text \<open>A running system at which the properties are instantiated.\<close>

definition demo_py32_env :: py32_env where
  "demo_py32_env = \<lparr>env_audio = demo_audio_env, bt_inited = True, bt_power_on_setup = True,
     br_music_plugin = True, connected_dev_num = 1, media_status_playing = False,
     dumpable_player = True, uptime_ms = 5000\<rparr>"

lemma demo_idle:
  "py32_parse_state (py32_statics a) = 0" "buffers_ok (py32_statics a)"
  "\<not> repeats_last cmd data (py32_statics a)" "py32_audio (py32_statics a) = a"
  by (simp_all add: py32_statics_def buffers_ok_def repeats_last_def)

lemma demo_live: "audio_system demo_audio_state \<noteq> None"
  by (simp add: demo_audio_state_def)

text \<open>(C1) A set-parameters frame with values in range, none of them equal to the host address and
  not a repetition of the previous frame, is accepted from the idle parser: the music stream is
  set to the level the wheel position stands for, the equaliser gets both bands, the vibration
  is stored, and exactly one status frame answers it, with the volume read back from the audio
  system, the new tone and vibration settings, error code 0, and the rhythm data only while the
  phone is playing.\<close>

theorem set_params_handled:
  assumes "py32_parse_state st = 0" "buffers_ok st" "audio_system (py32_audio st) \<noteq> None"
    and "v \<le> 100" "t \<le> 24" "b \<le> 24" "vib \<le> 100" "1 \<notin> set [v, t, b, vib]"
    and "\<not> repeats_last 0x10 [v, t, b, vib] st"
  shows "let st' = feed_bytes env (py32_frame 1 0x10 [v, t, b, vib]) st;
             level = py32_volume_pct_to_level (py32_audio st) v;
             shown = py32_volume_level_to_pct (py32_audio st) level
    in py32_parse_state st' = 0 \<and>
       system_volume_get AUDIO_STREAM_MUSIC (py32_audio st') = level \<and>
       py32_state st' = \<lparr>p_volume = shown, p_treble = t, p_bass = b, p_vibration = vib, p_last_error = 0\<rparr> \<and>
       py32_calls st' = py32_calls st @ eq_calls env t b \<and>
       uart1_tx st' = uart1_tx st @ py32_frame 2 0x10
         ([shown, t, b, vib, py32_get_bt_connected env, 0] @
          (if media_status_playing env then py32_rhythm_bands st else replicate 10 0) @
          [if media_status_playing env then 1 else 0])"
proof -
  let ?d = "[v, t, b, vib]"
  let ?s = "frame_logged 0x10 ?d st"
  have b: "buffers_ok ?s" using assms(2) by (simp add: frame_logged_buffers)
  have d: "take 4 (py32_frame_data ?s) = ?d" using frame_logged_data [of st ?d "0x10"] assms(2) by (simp add: eval_nat_numeral)
  let ?h = "params_applied env v t b vib ?s"
  have "feed_bytes env (py32_frame 1 0x10 ?d) st = py32_parse_reset (py32_handle_set_params env (py32_frame_data ?s) 4 ?s)"
    using feed_new_frame [OF assms(1,2) _ assms(8,9)] by (simp add: py32_handle_frame_def)
  also have "\<dots> = py32_parse_reset (status_sent env 0 (py32_sync_status_for_response ?h))"
    using handle_set_params_ok [OF b d assms(4-7)] by simp
  finally have e: "feed_bytes env (py32_frame 1 0x10 ?d) st =
      py32_parse_reset (status_sent env 0 (py32_sync_status_for_response ?h))" .
  have w: "set_wheel env v ?s = set_wheel env v st" by (simp add: set_wheel_def)
  have live: "audio_system (set_wheel env v st) \<noteq> None"
    unfolding set_wheel_def using assms(3) by (rule system_volume_set_live)
  have pct: "py32_volume_level_to_pct (set_wheel env v st) l = py32_volume_level_to_pct (py32_audio st) l" for l
    by (rule level_to_pct_cong) (simp add: set_wheel_def)
  show ?thesis
    unfolding e Let_def
    using live assms(3) by (simp add: sync_live params_applied_def w pct set_wheel_get status_data_def)
qed

theorem set_params_handled_witness:
  "system_volume_get AUDIO_STREAM_MUSIC (py32_audio (feed_bytes demo_py32_env
     (py32_frame 1 0x10 [50, 12, 20, 30]) (py32_statics demo_audio_state))) =
   py32_volume_pct_to_level demo_audio_state 50"
  using set_params_handled [of "py32_statics demo_audio_state" 50 12 20 30 demo_py32_env] demo_idle
  by (simp add: Let_def demo_live)

section \<open>Requests that are refused\<close>

lemma frame_crc_foldl:
  "length data \<le> 123 \<Longrightarrow> frame_crc cmd data = foldl crc16_byte 0xFFFF ([1, cmd, word_of_nat (length data)] @ data)"
  unfolding frame_crc_def by (rule py32_crc16_all) simp_all

lemma send_error:
  "buffers_ok st \<Longrightarrow> err \<noteq> 0 \<Longrightarrow>
   py32_send_status_response env err (set_last_error err st) = status_sent env err (set_last_error err st)"
  by (simp add: py32_send_status_response_def tx_status_frame_eq synced_def buffers_ok_def set_last_error_def)

lemma set_last_error_sel [simp]:
  "py32_state (set_last_error err st) = (py32_state st)\<lparr>p_last_error := err\<rparr>"
  "py32_audio (set_last_error err st) = py32_audio st"
  "py32_calls (set_last_error err st) = py32_calls st"
  "uart1_tx (set_last_error err st) = uart1_tx st"
  "py32_rhythm_bands (set_last_error err st) = py32_rhythm_bands st"
  "buffers_ok (set_last_error err st) = buffers_ok st"
  by (simp_all add: set_last_error_def buffers_ok_def)

text \<open>The answer to a refused request: nothing but the error code changes.\<close>

definition only_error :: "py32_env \<Rightarrow> u8 \<Rightarrow> py32 \<Rightarrow> py32 \<Rightarrow> bool" where
  "only_error env err st st' \<longleftrightarrow> py32_parse_state st' = 0 \<and> py32_audio st' = py32_audio st \<and>
     py32_calls st' = py32_calls st \<and> py32_state st' = (py32_state st)\<lparr>p_last_error := err\<rparr> \<and>
     uart1_tx st' = uart1_tx st @ py32_frame 2 0x10 (status_data env err st)"

lemma only_error_sent:
  "py32_state s = py32_state st \<Longrightarrow> py32_audio s = py32_audio st \<Longrightarrow> py32_calls s = py32_calls st \<Longrightarrow>
   uart1_tx s = uart1_tx st \<Longrightarrow> py32_rhythm_bands s = py32_rhythm_bands st \<Longrightarrow> buffers_ok s \<Longrightarrow> err \<noteq> 0 \<Longrightarrow>
   only_error env err st (py32_parse_reset (py32_send_status_response env err (set_last_error err s)))"
  by (simp add: only_error_def send_error status_data_def)

text \<open>The error code a request deserves, 0 if none.\<close>

definition request_error :: "u8 \<Rightarrow> bytes \<Rightarrow> u8" where
  "request_error cmd data =
     (if cmd \<noteq> 0x10 then 1 else if length data \<noteq> 4 then 2
      else if data ! 0 > 100 \<or> data ! 1 > 24 \<or> data ! 2 > 24 \<or> data ! 3 > 100 then 3 else 0)"

lemma bad_request:
  assumes "py32_parse_state st = 0" "buffers_ok st" "length data \<le> 123" "1 \<notin> set data"
    and "\<not> repeats_last cmd data st" "request_error cmd data \<noteq> 0"
  shows "only_error env (request_error cmd data) st (feed_bytes env (py32_frame 1 cmd data) st)"
proof -
  let ?s = "frame_logged cmd data st"
  have ok: "buffers_ok ?s" using assms by (simp add: frame_logged_buffers)
  have len: "word_of_nat (length data) = (4::u8) \<longleftrightarrow> length data = 4"
    using unat_word_of_nat_u8 [of "length data"] assms(3) by auto
  have nth: "py32_frame_data ?s ! i = data ! i" if "i < length data" for i
    using frame_logged_data [OF assms(2,3), of cmd] that by (metis nth_take)
  have "py32_handle_frame env 1 cmd (py32_frame_data ?s) (word_of_nat (length data)) ?s =
      py32_send_status_response env (request_error cmd data) (set_last_error (request_error cmd data) ?s)"
    using assms(6) len nth
    by (auto simp: py32_handle_frame_def py32_handle_set_params_def request_error_def)
  then show ?thesis
    using feed_new_frame [OF assms(1-5)] ok assms(6) by (simp add: only_error_sent)
qed

lemma damaged_frame:
  assumes "py32_parse_state st = 0" "buffers_ok st" "length (pre @ [x, y] @ post) \<le> 123"
    and "1 \<notin> set (pre @ [x', y'] @ post)" "[x, y] \<noteq> [x', y']"
  shows "only_error env 4 st (feed_bytes env
     ([1, cmd, word_of_nat (length (pre @ [x, y] @ post))] @ (pre @ [x', y'] @ post) @
      [lo8 (frame_crc cmd (pre @ [x, y] @ post)), hi8 (frame_crc cmd (pre @ [x, y] @ post))]) st)"
proof -
  let ?d = "pre @ [x, y] @ post" and ?d' = "pre @ [x', y'] @ post"
  have len: "length ?d = length ?d'" by simp
  have d: "length (py32_frame_data st) = 128" using assms(2) by (simp add: buffers_ok_def)
  have "frame_crc cmd ?d \<noteq> frame_crc cmd ?d'"
    using crc16_burst [OF assms(5), of "0xFFFF" "[1, cmd, word_of_nat (length ?d)] @ pre" post] assms(3) len
    by (simp only: frame_crc_foldl append_assoc not_False_eq_True)
  moreover have "buffers_ok (frame_loaded cmd ?d' crc st)" for crc
    using assms(2,3) by (simp add: buffers_ok_def frame_loaded_def)
  ultimately have "only_error env 4 st
      (py32_process_complete_frame env (frame_loaded cmd ?d' (frame_crc cmd ?d) st))"
    using frame_complete [OF d, of ?d'] assms(3) by (simp add: only_error_sent)
  moreover have "length ?d' \<le> 123" using assms(3) by simp
  ultimately show ?thesis
    unfolding len feed_frame [OF assms(1) d \<open>length ?d' \<le> 123\<close> assms(4)] lo8_hi8_combine by simp
qed

section \<open>Repeated frames\<close>

lemma handle_frame_keeps:
  assumes "buffers_ok st"
  shows "py32_last_rx_log (py32_handle_frame env a cmd data len st) = py32_last_rx_log st \<and>
     py32_frame_data (py32_handle_frame env a cmd data len st) = py32_frame_data st \<and>
     buffers_ok (py32_handle_frame env a cmd data len st)"
proof -
  have tx: "py32_last_rx_log (py32_send_status_response env e s) = py32_last_rx_log s \<and>
     py32_frame_data (py32_send_status_response env e s) = py32_frame_data s \<and>
     buffers_ok (py32_send_status_response env e s)" if "buffers_ok s" for s e
    using that length_status_data [of "synced e s" env e]
    by (auto simp: py32_send_status_response_def tx_status_frame_eq status_sent_def Let_def synced_buffers)
       (auto simp: synced_def py32_sync_status_for_response_def Let_def buffers_ok_def length_py32_frame)
  have cases: "\<exists>s e. py32_handle_frame env a cmd data len st = py32_send_status_response env e s \<and>
      py32_last_rx_log s = py32_last_rx_log st \<and> py32_frame_data s = py32_frame_data st \<and>
      py32_rhythm_bands s = py32_rhythm_bands st \<and> py32_last_tx_log s = py32_last_tx_log st"
    if "a = 1"
    using that
    by (auto simp: py32_handle_frame_def py32_handle_set_params_def set_last_error_def py32_apply_volume_def
        py32_apply_treble_bass_def py32_push_dynamic_peq_def host_call_def Let_def intro!: exI)
  show ?thesis
  proof (cases "a = 1")
    case True
    then obtain s e where "py32_handle_frame env a cmd data len st = py32_send_status_response env e s"
      "py32_last_rx_log s = py32_last_rx_log st" "py32_frame_data s = py32_frame_data st"
      "py32_rhythm_bands s = py32_rhythm_bands st" "py32_last_tx_log s = py32_last_tx_log st"
      using cases by blast
    then show ?thesis using tx [of s e] assms by (simp add: buffers_ok_def)
  qed (use assms in \<open>simp add: py32_handle_frame_def\<close>)
qed

lemma reset_loaded_again:
  assumes "py32_parse_state s = 0" "py32_frame_addr s = 0" "py32_frame_cmd s = 0" "py32_frame_len s = 0"
    "py32_frame_got s = 0" "py32_crc_rx s = 0" "take (length data) (py32_frame_data s) = data"
  shows "py32_parse_reset (frame_loaded cmd data crc s) = s"
  using assms by (cases s) (simp add: py32_parse_reset_def frame_loaded_def blit_take_same)

lemma logged_repeats:
  "buffers_ok st \<Longrightarrow> length data \<le> 123 \<Longrightarrow> repeats_last cmd data (frame_logged cmd data st)"
  using frame_logged_data [of st data cmd]
  by (cases "data = []") (simp_all add: repeats_last_def frame_logged_def py32_save_rx_log_def Let_def
      frame_loaded_data buffers_ok_def unat_word_of_nat_u8 take_blit_0 word_of_nat_0_u8 word_gt_0)



section \<open>Frames that contain the host address\<close>

text \<open>How many more bytes the parser needs, at least, before it can handle a frame of four data
  bytes.\<close>

definition bytes_needed :: "py32 \<Rightarrow> nat" where
  "bytes_needed st =
     (if py32_parse_state st = 1 then 8 else if py32_parse_state st = 2 then 7
      else if py32_frame_len st = 4 \<and> py32_parse_state st = 3 then 6 - unat (py32_frame_got st)
      else if py32_frame_len st = 4 \<and> py32_parse_state st = 4 then 2
      else if py32_frame_len st = 4 \<and> py32_parse_state st = 5 then 1 else 9)"

definition settings :: "py32 \<Rightarrow> audio_state \<times> py32_call list \<times> u8 \<times> u8 \<times> u8 \<times> u8" where
  "settings st = (py32_audio st, py32_calls st, p_volume (py32_state st), p_treble (py32_state st),
     p_bass (py32_state st), p_vibration (py32_state st))"

lemma tx_error_settings:
  "err \<noteq> 0 \<Longrightarrow> settings (py32_send_status_response env err st) = settings st"
  by (simp add: settings_def py32_send_status_response_def py32_tx_status_frame_def py32_uart_tx_bytes_def
      py32_print_tx_frame_def Let_def)

lemma settings_simps [simp]:
  "settings (py32_parse_reset st) = settings st"
  "settings (set_last_error err st) = settings st"
  "settings (py32_save_rx_log a c d l crc st) = settings st"
  "settings (st\<lparr>py32_crc_rx := x\<rparr>) = settings st"
  by (simp_all add: settings_def py32_save_rx_log_def py32_parse_reset_def Let_def)

lemma process_other_length:
  "py32_frame_len st \<noteq> 4 \<Longrightarrow> settings (py32_process_complete_frame env st) = settings st"
  by (simp add: py32_process_complete_frame_def py32_handle_frame_def py32_handle_set_params_def
      tx_error_settings Let_def)

lemma process_resets: "py32_parse_state (py32_process_complete_frame env st) = 0"
  by (simp add: py32_process_complete_frame_def Let_def)

lemma feed_byte_needed:
  assumes "bytes_needed st > 1"
  shows "settings (py32_rx_feed_byte env c st) = settings st \<and>
     bytes_needed st \<le> Suc (bytes_needed (py32_rx_feed_byte env c st))"
proof -
  consider "py32_parse_state st = 0" | "py32_parse_state st = 1" | "py32_parse_state st = 2"
    | "py32_parse_state st = 3" | "py32_parse_state st = 4" | "py32_parse_state st = 5"
    | "py32_parse_state st \<notin> {0, 1, 2, 3, 4, 5}" by auto
  then show ?thesis
  proof cases
    case 4
    show ?thesis
    proof (cases "c = 1 \<and> py32_frame_got st < py32_frame_len st")
      case True
      then show ?thesis using 4 by (auto simp: feed_data_resync settings_def bytes_needed_def)
    next
      case False
      then have "py32_rx_feed_byte env c st = (let st = st\<lparr>py32_frame_data := (py32_frame_data st)[unat (py32_frame_got st) := c],
                        py32_frame_got := py32_frame_got st + 1\<rparr>
             in if py32_frame_got st \<ge> py32_frame_len st then st\<lparr>py32_parse_state := 4\<rparr> else st)"
        using 4 by (subst py32_rx_feed_byte.simps) (auto simp: Let_def)
      moreover have "unat (py32_frame_got st + 1) = Suc (unat (py32_frame_got st))" if "py32_frame_len st = 4"
        using that 4 assms by (simp add: bytes_needed_def unat_word_ariths)
      ultimately show ?thesis
        using 4 assms by (auto simp: settings_def bytes_needed_def Let_def word_le_nat_alt)
    qed
  next
    case 6
    then show ?thesis
      using assms by (auto simp: feed_crc_h bytes_needed_def process_resets process_other_length
         split: if_splits)
  next
    case 7
    then have "py32_rx_feed_byte env c st = py32_parse_reset st" by (simp add: py32_rx_feed_byte.simps)
    then show ?thesis using 7 by (simp add: bytes_needed_def)
  qed (use assms in \<open>auto simp: feed_states settings_def bytes_needed_def Let_def split: if_splits\<close>)
qed

lemma feed_bytes_needed:
  "length cs < bytes_needed st \<Longrightarrow> settings (feed_bytes env cs st) = settings st"
proof (induction cs arbitrary: st)
  case (Cons c cs)
  then show ?case using feed_byte_needed [of st env c] by fastforce
qed simp

lemma feed_data_prefix:
  assumes "py32_parse_state st = 3" "py32_frame_len st = 4" "unat (py32_frame_got st) + length cs < 4" "1 \<notin> set cs"
  shows "py32_parse_state (feed_bytes env cs st) = 3 \<and> py32_frame_len (feed_bytes env cs st) = 4 \<and>
     unat (py32_frame_got (feed_bytes env cs st)) < 4 \<and> settings (feed_bytes env cs st) = settings st"
  using assms
proof (induction cs arbitrary: st)
  case (Cons c cs)
  have "unat (py32_frame_got st + 1) = Suc (unat (py32_frame_got st))"
    using Cons.prems(3) by (simp add: unat_word_ariths)
  then show ?case
    using Cons.prems Cons.IH [of "py32_rx_feed_byte env c st"]
    by (auto simp: feed_data word_le_nat_alt settings_def)
qed simp

text \<open>Four data bytes with the host address among them, under any command and with any checksum:
  the parser starts again at that byte, and too few bytes follow to change a setting.\<close>

lemma one_inside_ignored:
  assumes "py32_parse_state st = 0" "length d = 4" "1 \<in> set d"
  shows "settings (feed_bytes env ([1, cmd, 4] @ d @ [l, h]) st) = settings st"
proof -
  let ?st = "st\<lparr>py32_frame_addr := 1, py32_frame_cmd := cmd, py32_frame_len := 4, py32_frame_got := 0, py32_parse_state := 3\<rparr>"
  obtain pre post where d: "d = pre @ 1 # post" "1 \<notin> set pre"
    using split_list_first [OF assms(3)] by blast
  have len: "length pre + length post = 3" using assms(2) by (simp add: d(1))
  have hdr: "feed_bytes env [1, cmd, 4] st = ?st"
    using assms(1) by (simp add: feed_addr feed_cmd feed_len Let_def)
  let ?s = "feed_bytes env pre ?st"
  have s: "py32_parse_state ?s = 3" "py32_frame_len ?s = 4" "unat (py32_frame_got ?s) < 4" "settings ?s = settings st"
    using feed_data_prefix [of ?st pre env] d(2) len by (auto simp: settings_def)
  let ?r = "(py32_parse_reset ?s)\<lparr>py32_frame_addr := 1, py32_parse_state := 1\<rparr>"
  have "py32_rx_feed_byte env 1 ?s = ?r"
    using s by (intro feed_data_resync) (simp_all add: word_less_nat_alt)
  then have "feed_bytes env ([1, cmd, 4] @ d @ [l, h]) st = feed_bytes env (post @ [l, h]) ?r"
    using hdr by (simp add: d(1))
  moreover have "settings (feed_bytes env (post @ [l, h]) ?r) = settings ?r"
    using len by (intro feed_bytes_needed) (simp add: bytes_needed_def)
  ultimately show ?thesis using s(4) by (simp add: settings_def)
qed





text \<open>(C9) A correct set-parameters frame one of whose values is 1 (one percent volume, say) is never
  carried out: the parser takes the value for the start of a new frame, and the settings stay
  as they were.\<close>

theorem value_one_never_applied:
  assumes "py32_parse_state st = 0" "1 \<in> set [v, t, b, vib]"
  shows "settings (feed_bytes env (py32_frame 1 0x10 [v, t, b, vib]) st) = settings st"
  using one_inside_ignored [OF assms(1) _ assms(2), of env "0x10"] by (simp add: py32_frame_host)

theorem value_one_never_applied_witness:
  "settings (feed_bytes demo_py32_env (py32_frame 1 0x10 [1, 12, 12, 0]) (py32_statics demo_audio_state)) =
   settings (py32_statics demo_audio_state)"
  by (rule value_one_never_applied) (simp_all add: demo_idle)

end
