(* ===== verification/Py32_Tasks.thy ===== *)
theory Py32_Tasks
  imports Py32_Protocol
begin

text \<open>
  The operations of \<^verbatim>\<open>system_app_py32_uart.c\<close> cut into the accesses between which another thread
  or an interrupt can run. A status frame is sent by reading the parameters one by one, copying the
  rhythm data with interrupts locked, and writing the bytes of the frame one by one to the transmit
  register; nothing locks the transmitter. Handling a received frame and setting the tone again
  are sequences of such accesses too. A \<open>work\<close> item is what a thread has still to do, with its local
  variables; \<open>work_step\<close> does one access and says what is left.

  Shown: done without interruption, the accesses amount to the functions of \<open>Py32_Uart\<close>; and what
  each of them keeps.
\<close>

section \<open>Sending a status frame\<close>

text \<open>How far a call of \<open>py32_tx_status_frame\<close> has come: at its start with the error code; with the
  volume level read; with some of the six state bytes filled in; with the media status read; with
  the frame complete; with the bytes still to be written and the length of the frame.\<close>

datatype tx_pc =
    Tx_Start u8
  | Tx_Level int
  | Tx_Fill u8 bytes
  | Tx_Rhythm bytes bool
  | Tx_Print bytes
  | Tx_Send bytes nat

definition status_byte :: "py32_env \<Rightarrow> u8 \<Rightarrow> nat \<Rightarrow> py32 \<Rightarrow> u8" where
  "status_byte env err_code i st =
     (if i = 0 then p_volume (py32_state st) else if i = 1 then p_treble (py32_state st)
      else if i = 2 then p_bass (py32_state st) else if i = 3 then p_vibration (py32_state st)
      else if i = 4 then py32_get_bt_connected env else err_code)"

text \<open>The bytes written to the transmit register in the step come last.\<close>

fun tx_step :: "py32_env \<Rightarrow> tx_pc \<Rightarrow> py32 \<Rightarrow> tx_pc list \<times> py32 \<times> bytes" where
  "tx_step env (Tx_Start err_code) st =
     ([if err_code = PY32_ERR_NONE then Tx_Level (system_volume_get AUDIO_STREAM_MUSIC (py32_audio st))
       else Tx_Fill err_code []], st, [])"
| "tx_step env (Tx_Level level) st =
     ([Tx_Fill PY32_ERR_NONE []],
      if level \<ge> 0
      then st\<lparr>py32_state := (py32_state st)\<lparr>p_volume := py32_volume_level_to_pct (py32_audio st) level\<rparr>\<rparr>
      else st, [])"
| "tx_step env (Tx_Fill err_code ds) st =
     ([if length ds < 6 then Tx_Fill err_code (ds @ [status_byte env err_code (length ds) st])
       else Tx_Rhythm ds (media_status_playing env)], st, [])"
| "tx_step env (Tx_Rhythm ds playing) st =
     (let media_playing = (if playing then 1 else 0 :: u8);
          rhythm = (if media_playing \<noteq> 0 then take 10 (py32_rhythm_bands st) else replicate 10 0);
          frame = [PY32_ADDR_SLAVE, PY32_CMD_COMMON, word_of_nat PY32_RSP_DATA_LEN] @ ds @ rhythm @ [media_playing];
          crc = py32_crc16 frame (word_of_nat (3 + PY32_RSP_DATA_LEN))
      in ([Tx_Print (frame @ [lo8 crc, hi8 crc])],
          st\<lparr>py32_rhythm_playing := media_playing, py32_rhythm_dirty := 0\<rparr>, []))"
| "tx_step env (Tx_Print frame) st =
     (if length frame = 0 \<or> length frame > PY32_FRAME_MAX then ([], st, [])
      else ([Tx_Send frame (length frame)], py32_print_tx_frame frame st, []))"
| "tx_step env (Tx_Send [] len) st =
     ([], st\<lparr>py32_tx_frame_count := py32_tx_frame_count st + 1,
             py32_tx_byte_count := py32_tx_byte_count st + word_of_nat len\<rparr>, [])"
| "tx_step env (Tx_Send (b # bs) len) st = ([Tx_Send bs len], st\<lparr>uart1_tx := uart1_tx st @ [b]\<rparr>, [b])"

section \<open>Applying parameters and handling a frame\<close>

datatype py32_act =
    Store_Volume u8
  | Set_Volume u8
  | Store_Treble u8
  | Store_Bass u8
  | Set_Bass_Band u8
  | Set_Treble_Band u8
  | Push_Peq
  | Store_Vibration u8
  | Store_Error u8
  | Stamp_Tx u32
  | Parse_Reset

fun do_act :: "py32_env \<Rightarrow> py32_act \<Rightarrow> py32 \<Rightarrow> py32" where
  "do_act env (Store_Volume v) st = st\<lparr>py32_state := (py32_state st)\<lparr>p_volume := v\<rparr>\<rparr>"
| "do_act env (Set_Volume v) st =
     st\<lparr>py32_audio := snd (system_volume_set (env_audio env) AUDIO_STREAM_MUSIC
          (py32_volume_pct_to_level (py32_audio st) v) True (py32_audio st))\<rparr>"
| "do_act env (Store_Treble t) st = st\<lparr>py32_state := (py32_state st)\<lparr>p_treble := t\<rparr>\<rparr>"
| "do_act env (Store_Bass b) st = st\<lparr>py32_state := (py32_state st)\<lparr>p_bass := b\<rparr>\<rparr>"
| "do_act env (Set_Bass_Band b) st =
     host_call (SetPeqBand 15 \<lparr>eq_cutoff = 200, eq_q = 70, eq_gain = (uint b - 12) * 10, eq_type = 1\<rparr>) st"
| "do_act env (Set_Treble_Band t) st =
     host_call (SetPeqBand 16 \<lparr>eq_cutoff = 8000, eq_q = 70, eq_gain = (uint t - 12) * 10, eq_type = 1\<rparr>) st"
| "do_act env Push_Peq st = py32_push_dynamic_peq env st"
| "do_act env (Store_Vibration x) st = st\<lparr>py32_state := (py32_state st)\<lparr>p_vibration := x\<rparr>\<rparr>"
| "do_act env (Store_Error e) st = set_last_error e st"
| "do_act env (Stamp_Tx now) st = st\<lparr>last_rhythm_tx_ms := now\<rparr>"
| "do_act env Parse_Reset st = py32_parse_reset st"

definition tone_acts :: "u8 \<Rightarrow> u8 \<Rightarrow> py32_act list" where
  "tone_acts treble bass =
     (if treble > 24 \<or> bass > 24 then [Store_Error PY32_ERR_BAD_VALUE]
      else [Store_Treble treble, Store_Bass bass, Set_Bass_Band bass, Set_Treble_Band treble, Push_Peq])"

datatype work =
    Act py32_act
  | Transmit tx_pc
  | Load_Tone               \<comment> \<open>the call of \<open>system_app_py32_reapply_eq\<close>\<close>
  | Load_Bass u8            \<comment> \<open>with the treble read\<close>
  | Frame_Complete          \<comment> \<open>the call of \<open>py32_process_complete_frame\<close>\<close>

definition answer :: "u8 \<Rightarrow> work list" where
  "answer err_code = [Act (Store_Error err_code), Transmit (Tx_Start err_code)]"

definition set_params_works :: "bytes \<Rightarrow> u8 \<Rightarrow> work list" where
  "set_params_works data len =
     (if len \<noteq> PY32_SET_DATA_LEN then answer PY32_ERR_BAD_LEN
      else if data ! 0 > 100 \<or> data ! 1 > 24 \<or> data ! 2 > 24 \<or> data ! 3 > 100 then answer PY32_ERR_BAD_VALUE
      else map Act ([Store_Volume (data ! 0), Set_Volume (data ! 0)] @ tone_acts (data ! 1) (data ! 2) @
             [Store_Vibration (data ! 3)]) @ answer PY32_ERR_NONE)"

definition frame_works :: "u8 \<Rightarrow> u8 \<Rightarrow> bytes \<Rightarrow> u8 \<Rightarrow> work list" where
  "frame_works addr cmd data len =
     (if addr \<noteq> PY32_ADDR_HOST then []
      else if cmd = PY32_CMD_COMMON then set_params_works data len
      else answer PY32_ERR_UNSUPPORTED)"

text \<open>The checks of a complete frame read only the statics of the parser, which no other thread uses.\<close>

definition complete_works :: "py32 \<Rightarrow> work list \<times> py32" where
  "complete_works st =
     (let addr = py32_frame_addr st; cmd = py32_frame_cmd st; len = py32_frame_len st;
          data = py32_frame_data st; crc = py32_crc_rx st
      in if unat len > PY32_FRAME_MAX - 5 then ([Transmit (Tx_Start PY32_ERR_BAD_LEN)], st)
         else if py32_crc16 ([addr, cmd, len] @ take (unat len) data) (word_of_nat (3 + unat len)) \<noteq> crc
         then (answer PY32_ERR_CRC, st)
         else if py32_rx_frame_same addr cmd data len crc st then ([], st)
         else (frame_works addr cmd data len, py32_save_rx_log addr cmd data len crc st))"

fun work_step :: "py32_env \<Rightarrow> work \<Rightarrow> py32 \<Rightarrow> work list \<times> py32 \<times> bytes" where
  "work_step env (Act a) st = ([], do_act env a st, [])"
| "work_step env (Transmit pc) st = (let (pcs, st, out) = tx_step env pc st in (map Transmit pcs, st, out))"
| "work_step env Load_Tone st = ([Load_Bass (p_treble (py32_state st))], st, [])"
| "work_step env (Load_Bass treble) st = (map Act (tone_acts treble (p_bass (py32_state st))), st, [])"
| "work_step env Frame_Complete st = (let (ws, st) = complete_works st in (ws @ [Act Parse_Reset], st, []))"

text \<open>Taking a received byte: the parser runs on the thread's own statics up to the point where a frame
  is complete.\<close>

definition rx_feed_start :: "py32_env \<Rightarrow> u8 \<Rightarrow> py32 \<Rightarrow> work list \<times> py32" where
  "rx_feed_start env c st =
     (if py32_parse_state st = PY32_RX_CRC_H
      then ([Frame_Complete], st\<lparr>py32_crc_rx := py32_crc_rx st OR push_bit 8 (ucast c)\<rparr>)
      else ([], py32_rx_feed_byte env c st))"

text \<open>The status frame every 50 ms.\<close>

definition periodic_works :: "nat \<Rightarrow> py32 \<Rightarrow> work list" where
  "periodic_works uptime st =
     (let now = word_of_nat uptime
      in if py32_init_banner_done st \<and> py32_host_alive st \<and> now - last_rhythm_tx_ms st \<ge> 50
         then [Transmit (Tx_Start PY32_ERR_NONE), Act (Stamp_Tx now)] else [])"

section \<open>Without interruption\<close>

text \<open>The works are done one access after the other; \<open>out\<close> is what is written to the UART.\<close>

inductive runs :: "py32_env \<Rightarrow> work list \<Rightarrow> py32 \<Rightarrow> bytes \<Rightarrow> work list \<Rightarrow> py32 \<Rightarrow> bool" for env where
  runs_refl: "runs env ws st [] ws st"
| runs_step: "work_step env w st = (new, st1, out) \<Longrightarrow> runs env (new @ ws) st1 out' ws' st' \<Longrightarrow>
    runs env (w # ws) st (out @ out') ws' st'"

lemma runs_trans: "runs env ws st out ws1 st1 \<Longrightarrow> runs env ws1 st1 out' ws2 st2 \<Longrightarrow> runs env ws st (out @ out') ws2 st2"
proof (induction rule: runs.induct)
  case (runs_step w st new st1 out ws out1 ws1 st2)
  then show ?case using runs.runs_step [OF runs_step.hyps(1) runs_step.IH] by simp
qed simp

lemma runs_one: "work_step env w st = (new, st1, out) \<Longrightarrow> runs env (w # ws) st out (new @ ws) st1"
  using runs_step [OF _ runs_refl] by fastforce

lemma runs_silent: "work_step env w st = (new, st1, []) \<Longrightarrow> runs env (new @ ws) st1 out ws' st' \<Longrightarrow> runs env (w # ws) st out ws' st'"
  using runs_step [of env w st new st1 "[]"] by simp

lemma runs_send:
  "runs env (Transmit (Tx_Send bs n) # ws) st bs ws
     (st\<lparr>uart1_tx := uart1_tx st @ bs, py32_tx_frame_count := py32_tx_frame_count st + 1,
         py32_tx_byte_count := py32_tx_byte_count st + word_of_nat n\<rparr>)"
proof (induction bs arbitrary: st)
  case Nil
  show ?case using runs_one [of env "Transmit (Tx_Send [] n)" st _ _ _ ws] by simp
next
  case (Cons b bs)
  from runs_step [of env "Transmit (Tx_Send (b # bs) n)" st "[Transmit (Tx_Send bs n)]" "st\<lparr>uart1_tx := uart1_tx st @ [b]\<rparr>" "[b]" ws]
  show ?case using Cons [of "st\<lparr>uart1_tx := uart1_tx st @ [b]\<rparr>"] by simp
qed

lemma runs_fill:
  assumes "length ds \<le> 6"
  shows "runs env (Transmit (Tx_Fill err ds) # ws) st []
     (Transmit (Tx_Rhythm (ds @ map (\<lambda>i. status_byte env err i st) [length ds..<6]) (media_status_playing env)) # ws) st"
  using assms
proof (induction "6 - length ds" arbitrary: ds)
  case 0
  then show ?case using runs_one [of env "Transmit (Tx_Fill err ds)" st _ _ _ ws] by simp
next
  case (Suc n)
  let ?ds = "ds @ [status_byte env err (length ds) st]"
  have "[length ds..<6] = length ds # [Suc (length ds)..<6]" using Suc(2) by (subst upt_conv_Cons) simp_all
  moreover have "runs env (Transmit (Tx_Fill err ?ds) # ws) st []
     (Transmit (Tx_Rhythm (?ds @ map (\<lambda>i. status_byte env err i st) [length ?ds..<6]) (media_status_playing env)) # ws) st"
    using Suc by (intro Suc(1)) simp_all
  moreover have "work_step env (Transmit (Tx_Fill err ds)) st = ([Transmit (Tx_Fill err ?ds)], st, [])"
    using Suc(2) by simp
  ultimately show ?case using runs_silent [of env "Transmit (Tx_Fill err ds)" st _ st ws] by simp
qed

lemma status_frame_bytes:
  "length d = 17 \<Longrightarrow> py32_frame 2 0x10 d = (let h = [2, 0x10, 17] @ d; crc = py32_crc16 h 20 in h @ [lo8 crc, hi8 crc])"
  by (simp add: py32_frame_def Let_def)

text \<open>A frame is prepared without anything being written, and sending it is \<open>py32_tx_status_frame\<close>.\<close>

definition rhythm_copied :: "py32_env \<Rightarrow> py32 \<Rightarrow> py32" where
  "rhythm_copied env st = st\<lparr>py32_rhythm_playing := if media_status_playing env then 1 else 0, py32_rhythm_dirty := 0\<rparr>"

lemma runs_prepare:
  fixes env :: py32_env and err :: u8
  assumes "buffers_ok st"
  defines "f \<equiv> py32_frame 2 0x10 (status_data env err (synced err st))"
  shows "runs env (Transmit (Tx_Start err) # ws) st [] (Transmit (Tx_Send f 22) # ws)
     (py32_print_tx_frame f (rhythm_copied env (synced err st)))"
proof -
  let ?s = "synced err st"
  let ?d = "map (\<lambda>i. status_byte env err i ?s) [0..<6]" and ?p = "media_status_playing env"
  have b: "buffers_ok ?s" using assms by (simp add: synced_buffers)
  have len: "length (status_data env err ?s) = 17" "length f = 22"
    using length_status_data [OF b] length_py32_frame [of 2 "0x10" "status_data env err ?s"] by (simp_all add: f_def)
  have six: "[0..<6] = [0, 1, 2, 3, 4, 5 :: nat]" by (simp add: upt_rec)
  have d: "status_data env err ?s = ?d @ (if ?p then take 10 (py32_rhythm_bands ?s) else replicate 10 0) @ [if ?p then 1 else 0]"
    using b by (simp add: status_data_def status_byte_def six buffers_ok_def)
  note f = f_def [unfolded status_frame_bytes [OF len(1)]]
  have 1: "runs env (Transmit (Tx_Start err) # ws) st [] (Transmit (Tx_Fill err []) # ws) ?s"
  proof (cases "err = 0")
    case True
    have "runs env (Transmit (Tx_Level (system_volume_get AUDIO_STREAM_MUSIC (py32_audio st))) # ws) st [] (Transmit (Tx_Fill 0 []) # ws) ?s"
      using runs_one [of env "Transmit (Tx_Level (system_volume_get AUDIO_STREAM_MUSIC (py32_audio st)))" st _ _ _ ws] True
      by (simp add: synced_def py32_sync_status_for_response_def Let_def)
    then show ?thesis using True runs_silent [of env "Transmit (Tx_Start err)" st _ st ws] by simp
  next
    case False
    then show ?thesis using runs_one [of env "Transmit (Tx_Start err)" st _ _ _ ws] by (simp add: synced_def)
  qed
  have 2: "runs env (Transmit (Tx_Rhythm ?d ?p) # ws) ?s [] (Transmit (Tx_Print f) # ws) (rhythm_copied env ?s)"
  proof -
    have "work_step env (Transmit (Tx_Rhythm ?d ?p)) ?s = ([Transmit (Tx_Print f)], rhythm_copied env ?s, [])"
      unfolding f unfolding d by (cases ?p) (simp_all add: Let_def rhythm_copied_def)
    from runs_one [OF this, of ws] show ?thesis by simp
  qed
  have 3: "runs env (Transmit (Tx_Print f) # ws) (rhythm_copied env ?s) [] (Transmit (Tx_Send f 22) # ws)
      (py32_print_tx_frame f (rhythm_copied env ?s))"
    using runs_one [of env "Transmit (Tx_Print f)" "rhythm_copied env ?s" _ _ _ ws] len by simp
  have "runs env (Transmit (Tx_Start err) # ws) st ([] @ [] @ [] @ []) (Transmit (Tx_Send f 22) # ws) (py32_print_tx_frame f (rhythm_copied env ?s))"
    by (rule runs_trans [OF 1], rule runs_trans [OF runs_fill [of "[]" env err ws ?s, simplified]], rule runs_trans [OF 2], rule 3)
  then show ?thesis by simp
qed

lemma runs_transmit:
  assumes "buffers_ok st"
  shows "runs env (Transmit (Tx_Start err) # ws) st (py32_frame 2 0x10 (status_data env err (synced err st))) ws
     (py32_tx_status_frame env err st)"
proof -
  let ?s = "synced err st"
  let ?f = "py32_frame 2 0x10 (status_data env err ?s)"
  have "length (status_data env err ?s) = 17" using length_status_data assms synced_buffers by blast
  then have len: "length ?f = 22" by (simp add: length_py32_frame)
  have "py32_tx_status_frame env err st = py32_uart_tx_bytes ?f (rhythm_copied env ?s)"
    unfolding tx_status_frame_eq [OF assms] using len by (subst uart_tx_bytes_eq) (auto simp: status_sent_def rhythm_copied_def Let_def)
  then show ?thesis
    using runs_trans [OF runs_prepare [OF assms] runs_send] len by (simp add: py32_uart_tx_bytes_def Let_def)
qed

lemma runs_act: "runs env (ws) (do_act env a st) out ws' st' \<Longrightarrow> runs env (Act a # ws) st out ws' st'"
  using runs_silent [of env "Act a" st "[]"] by simp

text \<open>Setting the tone is \<open>py32_apply_treble_bass\<close>, and setting it again \<open>system_app_py32_reapply_eq\<close>.\<close>

lemma runs_tone: "runs env (map Act (tone_acts t b) @ ws) st [] ws (py32_apply_treble_bass env t b st)"
  unfolding tone_acts_def py32_apply_treble_bass_def Let_def
  by (auto intro!: runs_act runs_refl simp: set_last_error_def)

lemma runs_reapply: "runs env (Load_Tone # ws) st [] ws (system_app_py32_reapply_eq env st)"
proof -
  have "runs env (Load_Bass (p_treble (py32_state st)) # ws) st [] ws (system_app_py32_reapply_eq env st)"
    using runs_silent [of env "Load_Bass (p_treble (py32_state st))" st _ st ws]
      runs_tone [of env "p_treble (py32_state st)" "p_bass (py32_state st)" ws st]
    by (simp add: system_app_py32_reapply_eq_def)
  then show ?thesis using runs_silent [of env Load_Tone st _ st ws] by simp
qed

text \<open>Handling a complete frame is \<open>py32_process_complete_frame\<close>.\<close>

lemma runs_answer:
  assumes "buffers_ok st"
  shows "\<exists>out. runs env (answer e @ ws) st out ws (py32_send_status_response env e (set_last_error e st))"
proof -
  have "buffers_ok (set_last_error e st)" using assms by simp
  from runs_transmit [OF this, of env e ws] show ?thesis
    using runs_act [of env "Transmit (Tx_Start e) # ws" "Store_Error e" st]
    by (auto simp: answer_def py32_send_status_response_def)
qed

lemma apply_buffers:
  "buffers_ok (py32_apply_volume env v st) = buffers_ok st"
  "buffers_ok (py32_apply_treble_bass env t b st) = buffers_ok st"
  "buffers_ok (st\<lparr>py32_state := p\<rparr>) = buffers_ok st"
  by (simp_all add: buffers_ok_def py32_apply_volume_def py32_apply_treble_bass_def py32_push_dynamic_peq_def host_call_def Let_def)

lemma runs_set_params:
  assumes "buffers_ok st"
  shows "\<exists>out. runs env (set_params_works data len @ ws) st out ws (py32_handle_set_params env data len st)"
proof (cases "len = 4 \<and> \<not> (data ! 0 > 100 \<or> data ! 1 > 24 \<or> data ! 2 > 24 \<or> data ! 3 > 100)")
  case False
  then show ?thesis using runs_answer [OF assms] by (auto simp: set_params_works_def py32_handle_set_params_def)
next
  case True
  let ?a = "py32_apply_volume env (data ! 0) st"
  let ?t = "py32_apply_treble_bass env (data ! 1) (data ! 2) ?a"
  let ?v = "?t\<lparr>py32_state := (py32_state ?t)\<lparr>p_vibration := data ! 3\<rparr>\<rparr>"
  obtain out where out: "runs env (answer 0 @ ws) ?v out ws (py32_send_status_response env 0 (set_last_error 0 ?v))"
    using runs_answer [of ?v env 0 ws] assms by (auto simp: apply_buffers)
  have "runs env (Act (Store_Vibration (data ! 3)) # answer 0 @ ws) ?t out ws (py32_send_status_response env 0 (set_last_error 0 ?v))"
    using out by (intro runs_act) simp
  then have "runs env (map Act (tone_acts (data ! 1) (data ! 2)) @ Act (Store_Vibration (data ! 3)) # answer 0 @ ws) ?a ([] @ out) ws
      (py32_send_status_response env 0 (set_last_error 0 ?v))"
    by (rule runs_trans [OF runs_tone])
  then have "runs env (Act (Store_Volume (data ! 0)) # Act (Set_Volume (data ! 0)) # map Act (tone_acts (data ! 1) (data ! 2)) @
      Act (Store_Vibration (data ! 3)) # answer 0 @ ws) st out ws (py32_send_status_response env 0 (set_last_error 0 ?v))"
    by (intro runs_act) (simp add: py32_apply_volume_def Let_def)
  then show ?thesis using True by (auto simp: set_params_works_def py32_handle_set_params_def Let_def)
qed

lemma runs_frame_works:
  assumes "buffers_ok st"
  shows "\<exists>out. runs env (frame_works addr cmd data len @ ws) st out ws (py32_handle_frame env addr cmd data len st)"
  using runs_answer [OF assms] runs_set_params [OF assms] runs_refl [of env ws st]
  by (auto simp: frame_works_def py32_handle_frame_def)

lemma runs_complete:
  assumes "buffers_ok st" "unat (py32_frame_len st) \<le> 123"
  shows "\<exists>out. runs env (Frame_Complete # ws) st out ws (py32_process_complete_frame env st)"
proof -
  let ?addr = "py32_frame_addr st" and ?cmd = "py32_frame_cmd st" and ?len = "py32_frame_len st"
    and ?data = "py32_frame_data st" and ?crc = "py32_crc_rx st"
  let ?bad = "py32_crc16 ([?addr, ?cmd, ?len] @ take (unat ?len) ?data) (word_of_nat (3 + unat ?len)) \<noteq> ?crc"
  let ?same = "py32_rx_frame_same ?addr ?cmd ?data ?len ?crc st"
  let ?log = "py32_save_rx_log ?addr ?cmd ?data ?len ?crc st"
  have fin: "runs env (Act Parse_Reset # ws) s [] ws (py32_parse_reset s)" for s
    using runs_act [of env ws Parse_Reset s "[]"] runs_refl by simp
  have go: "\<exists>out. runs env (Frame_Complete # ws) st out ws (py32_parse_reset s2)"
    if "complete_works st = (new, s1)" "\<exists>out. runs env (new @ Act Parse_Reset # ws) s1 out (Act Parse_Reset # ws) s2" for new s1 s2
    using that runs_silent [of env Frame_Complete st "new @ [Act Parse_Reset]" s1 ws] runs_trans [OF _ fin] by fastforce
  have log: "buffers_ok ?log" using assms by (simp add: buffers_ok_def py32_save_rx_log_def Let_def)
  consider "?bad" | "\<not> ?bad" "?same" | "\<not> ?bad" "\<not> ?same" by blast
  then show ?thesis
  proof cases
    case 1
    then have "complete_works st = (answer 4, st)"
      "py32_process_complete_frame env st = py32_parse_reset (py32_send_status_response env 4 (set_last_error 4 st))"
      using assms(2) by (simp_all only: complete_works_def py32_process_complete_frame_def Let_def) simp_all
    then show ?thesis using go runs_answer [OF assms(1)] by metis
  next
    case 2
    then have "complete_works st = ([], st)" "py32_process_complete_frame env st = py32_parse_reset st"
      using assms(2) by (simp_all only: complete_works_def py32_process_complete_frame_def Let_def) simp_all
    then show ?thesis using go [of "[]" st st] runs_refl by (metis append_Nil)
  next
    case 3
    then have "complete_works st = (frame_works ?addr ?cmd ?data ?len, ?log)"
      "py32_process_complete_frame env st = py32_parse_reset (py32_handle_frame env ?addr ?cmd ?data ?len ?log)"
      using assms(2) by (simp_all only: complete_works_def py32_process_complete_frame_def Let_def) simp_all
    then show ?thesis using go runs_frame_works [OF log] by metis
  qed
qed

text \<open>Taking a byte and doing what it calls for is \<open>py32_rx_feed_byte\<close>, and the periodic report
  \<open>py32_periodic_tx\<close>.\<close>

lemma runs_feed:
  assumes "buffers_ok st" "py32_parse_state st = 5 \<longrightarrow> unat (py32_frame_len st) \<le> 123" "rx_feed_start env c st = (ws, st1)"
  shows "\<exists>out. runs env ws st1 out [] (py32_rx_feed_byte env c st)"
proof (cases "py32_parse_state st = 5")
  case True
  then have "ws = [Frame_Complete]" "st1 = st\<lparr>py32_crc_rx := py32_crc_rx st OR push_bit 8 (ucast c)\<rparr>"
    using assms(3) by (simp_all add: rx_feed_start_def)
  moreover have "buffers_ok (st\<lparr>py32_crc_rx := py32_crc_rx st OR push_bit 8 (ucast c)\<rparr>)" using assms(1) by (simp add: buffers_ok_def)
  ultimately show ?thesis using runs_complete [of st1 env "[]"] assms(2) True by (simp add: feed_crc_h)
next
  case False
  then show ?thesis using assms(3) runs_refl by (fastforce simp: rx_feed_start_def)
qed

section \<open>What every access keeps\<close>

definition params_ok :: "py32_params \<Rightarrow> bool" where
  "params_ok p \<longleftrightarrow> p_volume p \<le> 100 \<and> p_treble p \<le> 24 \<and> p_bass p \<le> 24 \<and> p_vibration p \<le> 100"

definition parser_ok :: "py32 \<Rightarrow> bool" where
  "parser_ok st \<longleftrightarrow> py32_parse_state st \<in> {0, 1, 2, 3, 4, 5} \<and>
     (py32_parse_state st = 3 \<longrightarrow> py32_frame_got st < py32_frame_len st) \<and>
     (py32_parse_state st \<in> {3, 4, 5} \<longrightarrow> unat (py32_frame_len st) \<le> 123)"

definition proto_ok :: "py32 \<Rightarrow> bool" where
  "proto_ok st \<longleftrightarrow> buffers_ok st \<and> params_ok (py32_state st) \<and> parser_ok st"

definition status_frame_ok :: "bytes \<Rightarrow> bool" where
  "status_frame_ok f \<longleftrightarrow> length f = 22 \<and> take 3 f = [2, 0x10, 17] \<and> py32_crc16 f 22 = 0 \<and>
     f ! 3 \<le> 100 \<and> f ! 4 \<le> 24 \<and> f ! 5 \<le> 24 \<and> f ! 6 \<le> 100"

definition frames_ok :: "bytes list \<Rightarrow> bool" where
  "frames_ok fs \<longleftrightarrow> (\<forall>f \<in> set fs. status_frame_ok f)"

definition sent_ok :: "bytes \<Rightarrow> bool" where
  "sent_ok bs \<longleftrightarrow> (\<exists>fs. bs = concat fs \<and> frames_ok fs)"

text \<open>Local variables in range: the state bytes filled in so far, and arguments still to be stored.\<close>

definition state_bytes_ok :: "bytes \<Rightarrow> bool" where
  "state_bytes_ok ds \<longleftrightarrow> length ds \<le> 6 \<and> (\<forall>i < length ds. ds ! i \<le> [100, 24, 24, 100, 255, 255] ! i)"

fun tx_ok :: "tx_pc \<Rightarrow> bool" where
  "tx_ok (Tx_Fill err ds) = state_bytes_ok ds"
| "tx_ok (Tx_Rhythm ds playing) = (state_bytes_ok ds \<and> length ds = 6)"
| "tx_ok (Tx_Print f) = status_frame_ok f"
| "tx_ok _ = True"

fun act_ok :: "py32_act \<Rightarrow> bool" where
  "act_ok (Store_Volume v) = (v \<le> 100)"
| "act_ok (Store_Treble t) = (t \<le> 24)"
| "act_ok (Store_Bass b) = (b \<le> 24)"
| "act_ok (Store_Vibration x) = (x \<le> 100)"
| "act_ok _ = True"

fun work_ok :: "work \<Rightarrow> bool" where
  "work_ok (Act a) = act_ok a"
| "work_ok (Transmit pc) = tx_ok pc"
| "work_ok _ = True"

text \<open>What is left to be sent of a frame that has been started.\<close>

fun work_rest :: "work \<Rightarrow> bytes" where
  "work_rest (Transmit (Tx_Send bs len)) = bs"
| "work_rest _ = []"

abbreviation works_rest :: "work list \<Rightarrow> bytes" where
  "works_rest ws \<equiv> concat (map work_rest ws)"

definition host_fields :: "py32 \<Rightarrow> bool \<times> nat option" where
  "host_fields st = (py32_host_alive st, py32_host_idle_work st)"

definition parser_fields :: "py32 \<Rightarrow> u8 \<times> u8 \<times> u8" where
  "parser_fields st = (py32_parse_state st, py32_frame_len st, py32_frame_got st)"

lemma parser_ok_cong: "parser_fields st = parser_fields st' \<Longrightarrow> parser_ok st = parser_ok st'"
  by (simp add: parser_fields_def parser_ok_def)

lemma sent_ok_append: "sent_ok bs \<Longrightarrow> frames_ok fs \<Longrightarrow> sent_ok (bs @ concat fs)"
  unfolding sent_ok_def frames_ok_def by (metis Un_iff concat_append set_append)

lemma pct_word_le: "0 \<le> x \<Longrightarrow> x \<le> 100 \<Longrightarrow> (word_of_int x :: u8) \<le> 100"
  by (simp add: word_le_def uint_word_of_int_clamp)

lemma level_to_pct_le: "py32_volume_level_to_pct a l \<le> 100"
proof (cases "audio_policy_get_volume_level a \<le> 0")
  case False
  let ?m = "audio_policy_get_volume_level a"
  define l' where "l' = (if (if l < 0 then 0 else l) > ?m then ?m else (if l < 0 then 0 else l))"
  define k where "k = (if ?m \<noteq> 16 then (l' * 16 + ?m div 2) div ?m else l')"
  have "0 \<le> k" using False by (simp add: k_def l'_def pos_imp_zdiv_nonneg_iff)
  moreover have "py32_volume_level_to_pct a l =
      word_of_int (anchor_interpolate level_anchor pct_anchor (if k > 16 then 16 else k))"
    using False by (simp add: py32_volume_level_to_pct_def Let_def k_def l'_def)
  moreover have "0 \<le> anchor_interpolate level_anchor pct_anchor k' \<and> anchor_interpolate level_anchor pct_anchor k' \<le> 100"
    if "0 \<le> k'" "k' \<le> 16" for k' using level_table that by simp
  ultimately show ?thesis
    by (auto intro!: pct_word_le)
qed (simp add: py32_volume_level_to_pct_def)

lemma less_6_cases: "(i :: nat) < 6 \<Longrightarrow> i = 0 \<or> i = 1 \<or> i = 2 \<or> i = 3 \<or> i = 4 \<or> i = 5"
  by auto

lemma u8_le_255: "(x :: u8) \<le> 255"
  using unat_u8_less [of x] by (simp add: word_le_nat_alt del: unat_u8_less)

lemma status_byte_ok:
  assumes "params_ok (py32_state st)" "state_bytes_ok ds" "length ds < 6"
  shows "state_bytes_ok (ds @ [status_byte env err (length ds) st])"
proof -
  have "status_byte env err (length ds) st \<le> [100, 24, 24, 100, 255, 255] ! length ds"
    using assms(1) less_6_cases [OF assms(3)] by (auto simp: status_byte_def params_ok_def u8_le_255)
  then show ?thesis using assms(2,3) by (auto simp: state_bytes_ok_def nth_append less_Suc_eq)
qed

text \<open>The frame made of six state bytes in range and eleven rhythm bytes.\<close>

lemma sealed_frame_ok:
  assumes "state_bytes_ok ds" "length ds = 6" "length rhythm = 10"
  shows "status_frame_ok (py32_frame 2 0x10 (ds @ rhythm @ [m]))"
proof -
  let ?d = "ds @ rhythm @ [m]"
  have l: "length ?d = 17" using assms by simp
  have "py32_crc16 (py32_frame 2 0x10 ?d) 22 = 0"
    using py32_frame_residue [of ?d 2 "0x10"] unfolding l by simp
  moreover have "\<exists>rest. py32_frame 2 0x10 ?d = [2, 0x10, 17] @ ds @ rest"
    using l by (simp add: py32_frame_def Let_def)
  moreover have "ds ! 0 \<le> 100 \<and> ds ! 1 \<le> 24 \<and> ds ! 2 \<le> 24 \<and> ds ! 3 \<le> 100"
    using assms(1,2) unfolding state_bytes_ok_def
    by (auto dest: spec [of _ 0] spec [of _ 1] spec [of _ 2] spec [of _ 3])
  ultimately show ?thesis
    using l length_py32_frame [of 2 "0x10" ?d] assms(2) by (auto simp: status_frame_ok_def nth_append nth_Cons')
qed

lemma tx_step_keeps:
  assumes "buffers_ok st" "params_ok (py32_state st)" "tx_ok pc" "tx_step env pc st = (pcs, st', out)"
  shows "buffers_ok st' \<and> params_ok (py32_state st') \<and> parser_fields st' = parser_fields st \<and>
    host_fields st' = host_fields st \<and> uart1_tx st' = uart1_tx st @ out \<and> list_all tx_ok pcs \<and> length pcs \<le> 1 \<and>
    (\<exists>fs. out @ works_rest (map Transmit pcs) = work_rest (Transmit pc) @ concat fs \<and> frames_ok fs)"
proof -
  have nil: "frames_ok []" by (simp add: frames_ok_def)
  have ex: "\<exists>fs. xs = ys @ concat fs \<and> frames_ok fs" if "xs = ys" for xs ys
    using that nil by (intro exI [of _ "[]"]) simp
  show ?thesis
  proof (cases pc)
    case (Tx_Level level)
    then have r: "pcs = [Tx_Fill 0 []]" "out = []" "st' = (if level \<ge> 0
      then st\<lparr>py32_state := (py32_state st)\<lparr>p_volume := py32_volume_level_to_pct (py32_audio st) level\<rparr>\<rparr> else st)"
      using assms(4) by simp_all
    show ?thesis
      unfolding r(1,2) using assms(1,2) r(3) Tx_Level
      by (intro conjI ex; cases "level \<ge> 0")
         (simp_all add: buffers_ok_def params_ok_def parser_fields_def host_fields_def state_bytes_ok_def level_to_pct_le)
  next
    case (Tx_Fill err ds)
    then show ?thesis
      using assms status_byte_ok [OF assms(2), of ds env err] by (intro conjI ex) (auto simp: state_bytes_ok_def)
  next
    case (Tx_Rhythm ds playing)
    let ?r = "if playing then take 10 (py32_rhythm_bands st) else replicate 10 0"
    let ?m = "if playing then 1 else 0 :: u8"
    have f: "status_frame_ok (py32_frame 2 0x10 (ds @ ?r @ [?m]))"
      using assms Tx_Rhythm by (intro sealed_frame_ok) (simp_all add: buffers_ok_def)
    have l: "length (ds @ ?r @ [?m]) = 17" using assms Tx_Rhythm by (simp add: buffers_ok_def)
    have "tx_step env pc st =
        ([Tx_Print (py32_frame 2 0x10 (ds @ ?r @ [?m]))], st\<lparr>py32_rhythm_playing := ?m, py32_rhythm_dirty := 0\<rparr>, [])"
      unfolding Tx_Rhythm status_frame_bytes [OF l] by (cases playing) (simp_all add: Let_def)
    then have r: "pcs = [Tx_Print (py32_frame 2 0x10 (ds @ ?r @ [?m]))]"
      "st' = st\<lparr>py32_rhythm_playing := ?m, py32_rhythm_dirty := 0\<rparr>" "out = []"
      using assms(4) by simp_all
    show ?thesis
      unfolding r using assms(1,2) f Tx_Rhythm by (intro conjI ex) (simp_all add: buffers_ok_def parser_fields_def host_fields_def)
  next
    case (Tx_Print f)
    then have f: "frames_ok [f]" "length f = 22" using assms(3) by (simp_all add: frames_ok_def status_frame_ok_def)
    have r: "pcs = [Tx_Send f 22]" "st' = py32_print_tx_frame f st" "out = []" using assms(4) Tx_Print f(2) by simp_all
    have "\<exists>fs. f = concat fs \<and> frames_ok fs" using f(1) by (intro exI [of _ "[f]"]) simp
    then show ?thesis
      unfolding r using assms(1,2) f Tx_Print
      by (simp add: py32_print_tx_frame_def Let_def buffers_ok_def parser_fields_def host_fields_def)
  next
    case (Tx_Send bs len)
    then show ?thesis
      using assms by (cases bs; intro conjI ex) (auto simp: buffers_ok_def parser_fields_def host_fields_def)
  next
    case (Tx_Start err)
    then show ?thesis using assms by (intro conjI ex) (auto simp: state_bytes_ok_def)
  qed
qed

lemma do_act_keeps:
  assumes "proto_ok st" "act_ok a"
  shows "proto_ok (do_act env a st) \<and> host_fields (do_act env a st) = host_fields st \<and>
    uart1_tx (do_act env a st) = uart1_tx st \<and> (a \<noteq> Parse_Reset \<longrightarrow> parser_fields (do_act env a st) = parser_fields st)"
  using assms
  by (cases a) (simp_all add: proto_ok_def buffers_ok_def params_ok_def parser_ok_def parser_fields_def host_fields_def
      host_call_def py32_push_dynamic_peq_def set_last_error_def py32_parse_reset_def)

text \<open>The works a step leaves: none of them has started to send but the first, and only the end of a
  frame resets the parser.\<close>

definition fresh :: "work \<Rightarrow> bool" where
  "fresh w \<longleftrightarrow> work_ok w \<and> work_rest w = [] \<and> w \<noteq> Frame_Complete"

lemma fresh_works:
  "list_all fresh (answer e)" "list_all fresh (map Act (tone_acts t b))" "list_all fresh (frame_works addr cmd data len)"
  "Act Parse_Reset \<notin> set (answer e)" "Act Parse_Reset \<notin> set (map Act (tone_acts t b))"
  "Act Parse_Reset \<notin> set (frame_works addr cmd data len)"
  by (auto simp: fresh_def answer_def tone_acts_def frame_works_def set_params_works_def not_less)

lemma complete_works_keeps:
  assumes "proto_ok st" "py32_parse_state st = 5" "complete_works st = (ws, st')"
  shows "proto_ok st' \<and> host_fields st' = host_fields st \<and> uart1_tx st' = uart1_tx st \<and> parser_fields st' = parser_fields st \<and>
    list_all fresh ws \<and> Act Parse_Reset \<notin> set ws"
proof -
  have l: "unat (py32_frame_len st) \<le> 123" using assms(1,2) by (simp add: proto_ok_def parser_ok_def)
  have "list_all fresh ws \<and> Act Parse_Reset \<notin> set ws"
    using assms(3) l by (auto simp: complete_works_def Let_def fresh_works split: if_splits)
  moreover have "st' = st \<or> (\<exists>a c d crc. st' = py32_save_rx_log a c d (py32_frame_len st) crc st)"
    using assms(3) by (auto simp: complete_works_def Let_def split: if_splits)
  ultimately show ?thesis
    using assms(1) l by (auto simp: proto_ok_def buffers_ok_def parser_ok_def parser_fields_def host_fields_def py32_save_rx_log_def Let_def)
qed

lemma work_step_keeps:
  assumes "proto_ok st" "work_ok w" "w = Frame_Complete \<longrightarrow> py32_parse_state st = 5" "work_step env w st = (new, st', out)"
  shows "proto_ok st'" "host_fields st' = host_fields st" "uart1_tx st' = uart1_tx st @ out"
    "list_all work_ok new" "list_all fresh (tl new)" "Frame_Complete \<notin> set new"
    "w \<noteq> Act Parse_Reset \<Longrightarrow> parser_fields st' = parser_fields st"
    "w \<noteq> Frame_Complete \<Longrightarrow> Act Parse_Reset \<notin> set new"
    "\<exists>fs. out @ works_rest new = work_rest w @ concat fs \<and> frames_ok fs"
proof -
  have nil: "\<exists>fs. xs = ys @ concat fs \<and> frames_ok fs" if "xs = ys" for xs ys
    using that by (intro exI [of _ "[]"]) (simp add: frames_ok_def)
  have fr: "list_all work_ok ws \<and> works_rest ws = [] \<and> list_all fresh (tl ws) \<and> Frame_Complete \<notin> set ws" if "list_all fresh ws" for ws
    using that by (cases ws) (auto simp: fresh_def list_all_iff)
  have "proto_ok st' \<and> host_fields st' = host_fields st \<and> uart1_tx st' = uart1_tx st @ out \<and>
    list_all work_ok new \<and> list_all fresh (tl new) \<and> Frame_Complete \<notin> set new \<and>
    (w \<noteq> Act Parse_Reset \<longrightarrow> parser_fields st' = parser_fields st) \<and> (w \<noteq> Frame_Complete \<longrightarrow> Act Parse_Reset \<notin> set new) \<and>
    (\<exists>fs. out @ works_rest new = work_rest w @ concat fs \<and> frames_ok fs)"
  proof (cases w)
    case (Act a)
    then show ?thesis using assms(4) do_act_keeps [OF assms(1), of a env] assms(2) by (intro conjI nil) auto
  next
    case (Transmit pc)
    then obtain pcs where t: "tx_step env pc st = (pcs, st', out)" "new = map Transmit pcs"
      using assms(4) by (auto split: prod.splits)
    have "buffers_ok st" "params_ok (py32_state st)" "tx_ok pc" using assms(1,2) Transmit by (simp_all add: proto_ok_def)
    note k = tx_step_keeps [OF this t(1)]
    have "tl new = []" using k t(2) by (cases pcs) auto
    then show ?thesis
      using k t(2) Transmit assms(1) parser_ok_cong [of st' st] by (auto simp: proto_ok_def list_all_iff)
  next
    case Load_Tone
    then show ?thesis using assms by (intro conjI nil) auto
  next
    case (Load_Bass t)
    then have r: "new = map Act (tone_acts t (p_bass (py32_state st)))" "st' = st" "out = []" using assms(4) by auto
    note f = fr [OF fresh_works(2), of t "p_bass (py32_state st)"] fresh_works(5) [of t "p_bass (py32_state st)"]
    show ?thesis unfolding r using assms(1) f Load_Bass by (intro conjI nil) simp_all
  next
    case Frame_Complete
    then obtain ws where c: "complete_works st = (ws, st')" "new = ws @ [Act Parse_Reset]" "out = []"
      using assms(4) by (auto split: prod.splits)
    have p: "py32_parse_state st = 5" using assms(3) Frame_Complete by simp
    note k = complete_works_keeps [OF assms(1) p c(1)]
    have "list_all fresh new" using k c(2) by (simp add: fresh_def)
    from fr [OF this] show ?thesis using k c(3) Frame_Complete by (intro conjI nil) simp_all
  qed
  then show "proto_ok st'" "host_fields st' = host_fields st" "uart1_tx st' = uart1_tx st @ out"
    "list_all work_ok new" "list_all fresh (tl new)" "Frame_Complete \<notin> set new"
    "w \<noteq> Act Parse_Reset \<Longrightarrow> parser_fields st' = parser_fields st"
    "w \<noteq> Frame_Complete \<Longrightarrow> Act Parse_Reset \<notin> set new"
    "\<exists>fs. out @ works_rest new = work_rest w @ concat fs \<and> frames_ok fs" by simp_all
qed

text \<open>The parser on the way to a complete frame.\<close>

lemma feed_start_keeps:
  assumes "proto_ok st" "rx_feed_start env c st = (ws, st')"
  shows "proto_ok st' \<and> host_fields st' = host_fields st \<and> uart1_tx st' = uart1_tx st \<and>
    (ws = [] \<or> ws = [Frame_Complete] \<and> py32_parse_state st' = 5)"
proof -
  consider "py32_parse_state st = 0" | "py32_parse_state st = 1" | "py32_parse_state st = 2"
    | "py32_parse_state st = 3" "c = 1" | "py32_parse_state st = 3" "c \<noteq> 1"
    | "py32_parse_state st = 4" | "py32_parse_state st = 5"
    using assms(1) by (auto simp: proto_ok_def parser_ok_def)
  then show ?thesis
  proof cases
    case 5
    show ?thesis
      using 5 assms
      by (cases "py32_frame_len st \<le> py32_frame_got st + 1")
         (auto simp: rx_feed_start_def feed_data proto_ok_def parser_ok_def buffers_ok_def host_fields_def)
  next
    case 4
    then have "py32_frame_got st < py32_frame_len st" using assms(1) by (simp add: proto_ok_def parser_ok_def)
    then show ?thesis
      using 4 assms by (auto simp: rx_feed_start_def feed_data_resync proto_ok_def parser_ok_def buffers_ok_def host_fields_def py32_parse_reset_def)
  qed (use assms in \<open>auto simp: rx_feed_start_def feed_states Let_def proto_ok_def parser_ok_def buffers_ok_def
         host_fields_def word_gt_0 py32_parse_reset_def split: if_splits\<close>)
qed

end
