(* ===== verification/Py32_System.thy ===== *)
theory Py32_System
  imports Py32_Tasks Py32_Ring
begin

text \<open>
  The host link as a whole: initialisation, the protocol thread of
  \<^verbatim>\<open>system_app_py32_uart.c\<close> on top of the receive ring, and the step relation in which the
  thread, the DMA interrupts, the idle timer and the callers from other threads interleave, access
  by access (\<open>Py32_Tasks\<close>): other threads run between any two bytes written to the UART, and
  interrupts between any two checks of the ring.
\<close>

section \<open>Initialisation and the thread\<close>

text \<open>\<open>bound\<close> says whether the UART device was found; the two integers are what
  \<open>uart_dma_recv_init\<close> and \<open>uart_dma_recv_start\<close> return.\<close>

definition py32_uart_dma_setup :: "int \<Rightarrow> int \<Rightarrow> int" where
  "py32_uart_dma_setup recv_init_ret recv_start_ret =
     (if recv_init_ret \<noteq> 0 then recv_init_ret else if recv_start_ret \<noteq> 0 then recv_start_ret else 0)"

definition py32_uart_do_init ::
    "bool \<Rightarrow> int \<Rightarrow> int \<Rightarrow> py32 \<Rightarrow> rx_ring \<Rightarrow> bool \<times> py32 \<times> rx_ring" where
  "py32_uart_do_init bound recv_init_ret recv_start_ret st r =
     (let st = py32_parse_reset (st\<lparr>py32_state :=
                 \<lparr>p_volume = 0, p_treble = 12, p_bass = 12, p_vibration = 0, p_last_error = 0\<rparr>\<rparr>)
      in if \<not> bound then (False, st, r)
         else let r = r\<lparr>py32_rx_head := 0, py32_rx_tail := 0\<rparr>
              in (py32_uart_dma_setup recv_init_ret recv_start_ret = 0, st, r))"

definition py32_log_init_banner :: "py32 \<Rightarrow> py32" where
  "py32_log_init_banner st = st\<lparr>py32_init_banner_done := True\<rparr>"

text \<open>\<open>k_sem_take\<close> with a timeout: a token if there is one, otherwise it returns anyway.\<close>

definition k_sem_take :: "rx_ring \<Rightarrow> rx_ring" where
  "k_sem_take r = r\<lparr>py32_rx_wake := py32_rx_wake r - 1\<rparr>"

text \<open>The drain loop, which runs until it finds the ring empty. \<open>arrive n\<close> is what the interrupt handlers
  push between the check before and the one that follows \<open>n\<close> bytes, \<open>others n\<close> what other threads do to
  the state meanwhile, and \<open>envs n\<close> the surroundings in which byte \<open>n\<close> is handled.\<close>

definition rx_arrivals :: "bytes list \<Rightarrow> rx_ring \<Rightarrow> rx_ring" where
  "rx_arrivals ds r = fold (\<lambda>d r. snd (py32_rx_ring_push d r)) ds r"

partial_function (option) py32_uart_ring_drain ::
    "(nat \<Rightarrow> bytes list) \<Rightarrow> (nat \<Rightarrow> py32 \<Rightarrow> py32) \<Rightarrow> (nat \<Rightarrow> py32_env) \<Rightarrow> nat \<Rightarrow> py32 \<Rightarrow> rx_ring \<Rightarrow>
     (nat \<times> py32 \<times> rx_ring) option" where
  "py32_uart_ring_drain arrive others envs n st r =
     (let r = rx_arrivals (arrive n) r
      in case rx_ring_pop r of None \<Rightarrow> Some (n, st, r)
         | Some (c, r) \<Rightarrow>
             py32_uart_ring_drain arrive others envs (n + 1) (py32_rx_feed_byte (envs n) c (others n st)) r)"

definition py32_periodic_tx :: "py32_env \<Rightarrow> py32 \<Rightarrow> py32" where
  "py32_periodic_tx env st =
     (let now = word_of_nat (uptime_ms env)
      in if py32_init_banner_done st \<and> py32_host_alive st \<and> now - last_rhythm_tx_ms st \<ge> 50
         then (py32_tx_status_frame env PY32_ERR_NONE st)\<lparr>last_rhythm_tx_ms := now\<rparr> else st)"

text \<open>What one turn of the loop does after the drain.\<close>

definition py32_after_drain :: "py32_env \<Rightarrow> nat \<Rightarrow> py32 \<Rightarrow> py32" where
  "py32_after_drain env n st =
     py32_periodic_tx env (if n > 0 then py32_host_on_rx_activity env st else st)"

definition py32_uart_thread_turn ::
    "(nat \<Rightarrow> bytes list) \<Rightarrow> (nat \<Rightarrow> py32 \<Rightarrow> py32) \<Rightarrow> (nat \<Rightarrow> py32_env) \<Rightarrow> py32_env \<Rightarrow> py32 \<Rightarrow> rx_ring \<Rightarrow>
     (py32 \<times> rx_ring) option" where
  "py32_uart_thread_turn arrive others envs env st r =
     (case py32_uart_ring_drain arrive others envs 0 st (k_sem_take r) of None \<Rightarrow> None
      | Some (n, st, r) \<Rightarrow> Some (py32_after_drain env n st, r))"

text \<open>What the producers and the loop do to the ring from check \<open>i\<close> on, for \<open>m\<close> checks; and the bytes
  \<open>bs\<close> handled from number \<open>n\<close> on.\<close>

fun drain_ops :: "(nat \<Rightarrow> bytes list) \<Rightarrow> nat \<Rightarrow> nat \<Rightarrow> u8 fifo_op list" where
  "drain_ops arrive i 0 = []"
| "drain_ops arrive i (Suc m) = map Put (arrive i) @ Get 1 # drain_ops arrive (Suc i) m"

fun feed_among :: "(nat \<Rightarrow> py32 \<Rightarrow> py32) \<Rightarrow> (nat \<Rightarrow> py32_env) \<Rightarrow> nat \<Rightarrow> bytes \<Rightarrow> py32 \<Rightarrow> py32" where
  "feed_among others envs n [] st = st"
| "feed_among others envs n (c # bs) st =
     feed_among others envs (Suc n) bs (py32_rx_feed_byte (envs n) c (others n st))"

lemma put_only_append [simp]: "put_only (xs @ ys) = put_only xs @ put_only ys"
  by (induction xs rule: put_only.induct) simp_all

lemma put_only_puts [simp]: "put_only (map Put ds) = concat ds"
  by (induction ds) simp_all

lemma arrivals_spec:
  assumes "rx_ring_inv r"
  shows "rx_ring_inv (rx_arrivals ds r) \<and> length (rx_ring_abs (rx_arrivals ds r)) \<le> length (rx_ring_abs r) + length (concat ds) \<and>
    (\<exists>acc. \<forall>ops ins outs r'. fifo_run py32_rx_ring_push rx_ring_get ops (rx_arrivals ds r) = (ins, outs, r') \<longrightarrow>
      fifo_run py32_rx_ring_push rx_ring_get (map Put ds @ ops) r = (acc @ ins, outs, r'))"
  using assms
proof (induction ds arbitrary: r)
  case Nil
  then show ?case by (auto simp: rx_arrivals_def intro!: exI [of _ "[]"])
next
  case (Cons d ds)
  obtain n r1 where p: "py32_rx_ring_push d r = (n, r1)" by fastforce
  note s = py32_rx_ring_push_spec [OF Cons.prems p]
  have a: "rx_arrivals (d # ds) r = rx_arrivals ds r1" by (simp add: rx_arrivals_def p)
  have len: "length (rx_ring_abs r1) \<le> length (rx_ring_abs r) + length d"
    using s arg_cong [of "rx_ring_abs r1" "rx_ring_abs r @ take n d" length] by simp
  note IH = Cons.IH [of r1]
  obtain acc where "\<And>ops ins outs r'. fifo_run py32_rx_ring_push rx_ring_get ops (rx_arrivals ds r1) = (ins, outs, r') \<Longrightarrow>
      fifo_run py32_rx_ring_push rx_ring_get (map Put ds @ ops) r1 = (acc @ ins, outs, r')"
    using IH s by blast
  then have "\<forall>ops ins outs r'. fifo_run py32_rx_ring_push rx_ring_get ops (rx_arrivals (d # ds) r) = (ins, outs, r') \<longrightarrow>
      fifo_run py32_rx_ring_push rx_ring_get (map Put (d # ds) @ ops) r = ((take n d @ acc) @ ins, outs, r')"
    by (simp add: a p)
  then show ?case using IH s len unfolding a by auto
qed

lemma get_one:
  assumes "rx_ring_inv r"
  shows "rx_ring_abs r = [] \<Longrightarrow> rx_ring_get 1 r = ([], r) \<and> rx_ring_pop r = None"
    and "rx_ring_abs r = c # cs \<Longrightarrow> \<exists>r'. rx_ring_get 1 r = ([c], r') \<and> rx_ring_pop r = Some (c, r') \<and>
      rx_ring_abs r' = cs \<and> rx_ring_inv r'"
  using rx_ring_pop_spec [OF assms] by auto

text \<open>If at some check all that was offered so far can have been taken, the loop ends there at the latest.\<close>

lemma ring_drain_spec:
  assumes "rx_ring_inv r" "length (rx_ring_abs r) + length (put_only (drain_ops arrive i (Suc k))) \<le> k"
  shows "\<exists>m acc bs r'. m \<le> k \<and> length bs = m \<and>
    fifo_run py32_rx_ring_push rx_ring_get (drain_ops arrive i (Suc m)) r = (acc, bs, r') \<and> rx_ring_abs r' = [] \<and> rx_ring_inv r' \<and>
    py32_uart_ring_drain arrive others envs i st r = Some (i + m, feed_among others envs i bs st, r')"
  using assms
proof (induction k arbitrary: i st r)
  case (0 i st r)
  note a = arrivals_spec [OF "0.prems"(1), of "arrive i"]
  let ?r = "rx_arrivals (arrive i) r"
  obtain acc where acc: "\<And>ops ins outs r'. fifo_run py32_rx_ring_push rx_ring_get ops ?r = (ins, outs, r') \<Longrightarrow>
      fifo_run py32_rx_ring_push rx_ring_get (map Put (arrive i) @ ops) r = (acc @ ins, outs, r')" using a by blast
  have e: "length (concat (arrive i)) = 0" "length (rx_ring_abs r) = 0" using "0.prems"(2) by simp_all
  have "length (rx_ring_abs ?r) = 0" using a by (simp only: e add_0 le_zero_eq)
  then have "rx_ring_abs ?r = []" by (simp only: length_0_conv)
  note g = get_one(1) [OF _ this]
  have "fifo_run py32_rx_ring_push rx_ring_get (drain_ops arrive i (Suc 0)) r = (acc, [], ?r)"
    using acc [of "[Get 1]"] g a by simp
  then show ?case
    using g a \<open>rx_ring_abs ?r = []\<close> by (intro exI [of _ 0] exI [of _ acc] exI [of _ "[]"] exI [of _ ?r])
      (simp add: py32_uart_ring_drain.simps)
next
  case (Suc k i st r)
  note a = arrivals_spec [OF Suc.prems(1), of "arrive i"]
  let ?r = "rx_arrivals (arrive i) r"
  obtain acc where acc: "\<And>ops ins outs r'. fifo_run py32_rx_ring_push rx_ring_get ops ?r = (ins, outs, r') \<Longrightarrow>
      fifo_run py32_rx_ring_push rx_ring_get (map Put (arrive i) @ ops) r = (acc @ ins, outs, r')" using a by blast
  show ?case
  proof (cases "rx_ring_abs ?r")
    case Nil
    note g = get_one(1) [OF _ Nil]
    have "fifo_run py32_rx_ring_push rx_ring_get (drain_ops arrive i (Suc 0)) r = (acc, [], ?r)"
      using acc [of "[Get 1]"] g a by simp
    then show ?thesis
      using g a Nil by (intro exI [of _ 0] exI [of _ acc] exI [of _ "[]"] exI [of _ ?r])
        (simp add: py32_uart_ring_drain.simps)
  next
    case (Cons c cs)
    obtain r2 where g: "rx_ring_get 1 ?r = ([c], r2)" "rx_ring_pop ?r = Some (c, r2)" "rx_ring_abs r2 = cs" "rx_ring_inv r2"
      using get_one(2) [OF _ Cons] a by blast
    have "length (rx_ring_abs r2) + length (put_only (drain_ops arrive (Suc i) (Suc k))) \<le> k"
      using Suc.prems(2) a Cons g(3) by simp
    from Suc.IH [OF g(4) this, of "py32_rx_feed_byte (envs i) c (others i st)"] obtain m acc2 bs r' where
      r': "m \<le> k" "length bs = m" "fifo_run py32_rx_ring_push rx_ring_get (drain_ops arrive (Suc i) (Suc m)) r2 = (acc2, bs, r')"
        "rx_ring_abs r' = []" "rx_ring_inv r'" "py32_uart_ring_drain arrive others envs (Suc i) (py32_rx_feed_byte (envs i) c (others i st)) r2 =
          Some (Suc i + m, feed_among others envs (Suc i) bs (py32_rx_feed_byte (envs i) c (others i st)), r')" by blast
    have "fifo_run py32_rx_ring_push rx_ring_get (Get 1 # drain_ops arrive (Suc i) (Suc m)) ?r = (acc2, c # bs, r')"
      using g(1) r'(3) by simp
    from acc [OF this] have "fifo_run py32_rx_ring_push rx_ring_get (drain_ops arrive i (Suc (Suc m))) r = (acc @ acc2, c # bs, r')"
      by simp
    moreover have "py32_uart_ring_drain arrive others envs i st r = Some (i + Suc m, feed_among others envs i (c # bs) st, r')"
      using g(2) r'(6) by (subst py32_uart_ring_drain.simps) simp
    ultimately show ?thesis
      using r'(1,2,4,5) by (intro exI [of _ "Suc m"] exI [of _ "acc @ acc2"] exI [of _ "c # bs"] exI [of _ r']) simp
  qed
qed

lemma sem_take_simps [simp]:
  "rx_ring_inv r \<Longrightarrow> rx_ring_inv (k_sem_take r)"
  "rx_ring_abs (k_sem_take r) = rx_ring_abs r"
  by (auto simp: k_sem_take_def rx_ring_inv_def rx_ring_abs_def rx_ring_used_def)

text \<open>(C7) One turn of the protocol thread, with interrupts filling the ring and other threads at work all
  the while. If at some check, after \<open>k\<close> bytes, no more than \<open>k\<close> bytes were in the ring at the start or
  have been offered since (with nothing arriving, this is after the bytes in the ring), the drain
  loop ends there at the latest. It has then handed to the parser, one by one and in order, exactly
  the bytes that were in the ring followed by those the handlers could place in it; none of the
  bytes offered is missing if all together fit 255 places; the ring is empty; and the turn goes on
  with the host and status work for that number of bytes.\<close>

theorem thread_turn_drains:
  assumes "rx_ring_inv r" "length (rx_ring_abs r) + length (put_only (drain_ops arrive 0 (Suc k))) \<le> k"
  shows "\<exists>n acc bs r'. n \<le> k \<and> length bs = n \<and>
    fifo_run py32_rx_ring_push rx_ring_get (drain_ops arrive 0 (Suc n)) (k_sem_take r) = (acc, bs, r') \<and>
    bs = rx_ring_abs r @ acc \<and> rx_ring_abs r' = [] \<and> rx_ring_inv r' \<and>
    (length (rx_ring_abs r) + length (put_only (drain_ops arrive 0 (Suc n))) \<le> 255 \<longrightarrow> acc = put_only (drain_ops arrive 0 (Suc n))) \<and>
    py32_uart_thread_turn arrive others envs env st r = Some (py32_after_drain env n (feed_among others envs 0 bs st), r')"
proof -
  have inv: "rx_ring_inv (k_sem_take r)" using assms(1) by simp
  obtain n acc bs r' where d: "n \<le> k" "length bs = n"
      "fifo_run py32_rx_ring_push rx_ring_get (drain_ops arrive 0 (Suc n)) (k_sem_take r) = (acc, bs, r')"
      "rx_ring_abs r' = []" "rx_ring_inv r'"
      "py32_uart_ring_drain arrive others envs 0 st (k_sem_take r) = Some (0 + n, feed_among others envs 0 bs st, r')"
    using ring_drain_spec [OF inv, of arrive 0 k others envs st] assms(2) by auto
  have "rx_ring_abs r @ acc = bs" using rxq.run_fifo [OF inv d(3)] d(4) by simp
  moreover have "length (rx_ring_abs r) + length (put_only (drain_ops arrive 0 (Suc n))) \<le> 255 \<longrightarrow> acc = put_only (drain_ops arrive 0 (Suc n))"
    using rxq.run_lossless [OF inv d(3)] unfolding sem_take_simps(2) by (simp add: PY32_RX_RING_SIZE_def)
  moreover have "py32_uart_thread_turn arrive others envs env st r = Some (py32_after_drain env n (feed_among others envs 0 bs st), r')"
    using d(6) by (simp add: py32_uart_thread_turn_def)
  ultimately show ?thesis using d(1-5) by blast
qed

text \<open>At the witness: a ring with a frame header in it, and the rest of the frame arriving while it is
  taken out.\<close>

theorem thread_turn_drains_witness:
  "\<exists>r r'. rx_ring_inv r \<and> rx_ring_abs r = [1, 0x10] \<and>
    py32_uart_thread_turn (\<lambda>n. if n = 1 then [[0, 0xFC]] else []) (\<lambda>_. id) (\<lambda>_. demo_py32_env) demo_py32_env (py32_statics demo_audio_state) r =
      Some (py32_after_drain demo_py32_env 4 (feed_bytes demo_py32_env [1, 0x10, 0, 0xFC] (py32_statics demo_audio_state)), r') \<and>
    rx_ring_abs r' = []"
proof -
  define r :: rx_ring where "r = \<lparr>py32_rx_ring = [1, 0x10] @ replicate 254 0, py32_rx_head = 2, py32_rx_tail = 0, py32_rx_wake = 1\<rparr>"
  define arrive :: "nat \<Rightarrow> bytes list" where "arrive = (\<lambda>n. if n = 1 then [[0, 0xFC]] else [])"
  let ?st = "py32_statics demo_audio_state"
  have r: "rx_ring_inv r" "rx_ring_abs r = [1, 0x10]"
    by (simp_all add: r_def rx_ring_inv_def rx_ring_abs_def rx_ring_used_def PY32_RX_RING_SIZE_def PY32_RX_WAKE_LIMIT_def upt_rec)
  have ops: "put_only (drain_ops arrive 0 (Suc n)) = (if n = 0 then [] else [0, 0xFC])" for n
  proof -
    have "put_only (drain_ops arrive (Suc (Suc i)) m) = []" for i m by (induction m arbitrary: i) (simp_all add: arrive_def)
    then show ?thesis by (cases n) (simp_all add: arrive_def)
  qed
  have feed: "feed_among (\<lambda>_. id) (\<lambda>_. demo_py32_env) n bs st = feed_bytes demo_py32_env bs st" for n bs st
    by (induction bs arbitrary: n st) simp_all
  have "length (rx_ring_abs r) + length (put_only (drain_ops arrive 0 (Suc 4))) \<le> 4" unfolding r(2) ops by simp
  from thread_turn_drains [OF r(1) this, of "\<lambda>_. id" "\<lambda>_. demo_py32_env" demo_py32_env ?st] obtain n acc bs r' where
      t: "length bs = n" "bs = [1, 0x10] @ acc" "rx_ring_abs r' = []"
      "acc = (if n = 0 then [] else [0, 0xFC])"
      "py32_uart_thread_turn arrive (\<lambda>_. id) (\<lambda>_. demo_py32_env) demo_py32_env ?st r =
        Some (py32_after_drain demo_py32_env n (feed_bytes demo_py32_env bs ?st), r')"
    unfolding r(2) ops feed by (elim exE conjE) (auto split: if_splits)
  then have n: "n = 4" "bs = [1, 0x10, 0, 0xFC]" by (auto split: if_splits)
  show ?thesis using t(3) t(5) [unfolded arrive_def n] r by blast
qed

section \<open>The interleaved system\<close>

datatype thread_pc = NotStarted | Waiting | Draining nat | Reporting

text \<open>The thread's place in its loop and what it has to do there; the calls from other threads in the
  order they were made, each with what it has to do; and every byte written to the UART with its
  writer (0 for the protocol thread, then the calls). The writers are not part of the program's state.\<close>

record py32_sys =
  sys_proto :: py32
  sys_ring :: rx_ring
  sys_pc :: thread_pc
  sys_work :: "work list"
  sys_callers :: "work list list"
  sys_wire :: "(nat \<times> u8) list"
  sys_now :: nat

text \<open>Every operation runs at some surroundings whose clock is the current time. The steps are the
  thread's locked sections, the single accesses of its work and of the calls, and the interrupt
  handlers. Switching the host on and off is one step each.\<close>

inductive py32_step :: "py32_sys \<Rightarrow> py32_sys \<Rightarrow> bool" where
  time_passes: "py32_step s (s\<lparr>sys_now := sys_now s + d\<rparr>)"
| init: "sys_pc s = NotStarted \<Longrightarrow> py32_uart_do_init bound i j (sys_proto s) (sys_ring s) = (started, st, r) \<Longrightarrow>
    py32_step s (s\<lparr>sys_proto := (if started then py32_log_init_banner st else st), sys_ring := r,
      sys_pc := (if started then Waiting else NotStarted)\<rparr>)"
| dma_rx: "py32_step s (s\<lparr>sys_ring := py32_dma_rx_isr buf reason (sys_ring s)\<rparr>)"
| dma_timeout: "py32_step s (s\<lparr>sys_ring := py32_dma_rx_timeout_handle data (sys_ring s)\<rparr>)"
| wake: "sys_pc s = Waiting \<Longrightarrow> sys_work s = [] \<Longrightarrow>
    py32_step s (s\<lparr>sys_ring := k_sem_take (sys_ring s), sys_pc := Draining 0\<rparr>)"
| take_byte: "sys_pc s = Draining n \<Longrightarrow> sys_work s = [] \<Longrightarrow> rx_ring_pop (sys_ring s) = Some (c, r) \<Longrightarrow>
    uptime_ms env = sys_now s \<Longrightarrow> rx_feed_start env c (sys_proto s) = (ws, st) \<Longrightarrow>
    py32_step s (s\<lparr>sys_proto := st, sys_ring := r, sys_pc := Draining (n + 1), sys_work := ws\<rparr>)"
| thread_work: "sys_work s = w # ws \<Longrightarrow> uptime_ms env = sys_now s \<Longrightarrow> work_step env w (sys_proto s) = (new, st, out) \<Longrightarrow>
    py32_step s (s\<lparr>sys_proto := st, sys_work := new @ ws, sys_wire := sys_wire s @ map (Pair 0) out\<rparr>)"
| drained: "sys_pc s = Draining n \<Longrightarrow> sys_work s = [] \<Longrightarrow> rx_ring_pop (sys_ring s) = None \<Longrightarrow> uptime_ms env = sys_now s \<Longrightarrow>
    py32_step s (s\<lparr>sys_proto := (if n > 0 then py32_host_on_rx_activity env (sys_proto s) else sys_proto s), sys_pc := Reporting\<rparr>)"
| report: "sys_pc s = Reporting \<Longrightarrow> sys_work s = [] \<Longrightarrow>
    py32_step s (s\<lparr>sys_pc := Waiting, sys_work := periodic_works (sys_now s) (sys_proto s)\<rparr>)"
| idle: "py32_host_idle_work (sys_proto s) = Some t \<Longrightarrow> t \<le> sys_now s \<Longrightarrow> uptime_ms env = sys_now s \<Longrightarrow>
    py32_step s (s\<lparr>sys_proto := py32_host_idle_work_handler env (sys_proto s)\<rparr>)"
| push_now: "py32_step s (s\<lparr>sys_callers := sys_callers s @ [[Transmit (Tx_Start PY32_ERR_NONE)]]\<rparr>)"
| reapply: "py32_step s (s\<lparr>sys_callers := sys_callers s @ [[Load_Tone]]\<rparr>)"
| caller_work: "i < length (sys_callers s) \<Longrightarrow> sys_callers s ! i = w # ws \<Longrightarrow> uptime_ms env = sys_now s \<Longrightarrow>
    work_step env w (sys_proto s) = (new, st, out) \<Longrightarrow>
    py32_step s (s\<lparr>sys_proto := st, sys_callers := (sys_callers s)[i := new @ ws],
      sys_wire := sys_wire s @ map (Pair (Suc i)) out\<rparr>)"
| rhythm: "bands = None \<or> length (the bands) = 10 \<Longrightarrow>
    py32_step s (s\<lparr>sys_proto := py32_rhythm_set_data bands playing (sys_proto s)\<rparr>)"
| volume: "py32_step s (s\<lparr>sys_proto := (sys_proto s)\<lparr>py32_audio :=
      snd (system_volume_set env stream v display (py32_audio (sys_proto s)))\<rparr>\<rparr>)"

definition py32_boot :: "audio_state \<Rightarrow> py32_sys" where
  "py32_boot audio = \<lparr>sys_proto = py32_statics audio,
     sys_ring = \<lparr>py32_rx_ring = replicate 256 0, py32_rx_head = 0, py32_rx_tail = 0, py32_rx_wake = 0\<rparr>,
     sys_pc = NotStarted, sys_work = [], sys_callers = [], sys_wire = [], sys_now = 0\<rparr>"

inductive_cases py32_stepE: "py32_step s s'"

text \<open>A host that is on always has its idle timer running, due within ten seconds.\<close>

definition host_ok :: "nat \<Rightarrow> py32 \<Rightarrow> bool" where
  "host_ok now st \<longleftrightarrow> (\<forall>t. py32_host_idle_work st = Some t \<longrightarrow> t \<le> now + 10000) \<and>
     (py32_host_alive st \<longrightarrow> py32_host_idle_work st \<noteq> None)"

text \<open>The bytes a writer has sent, and those it has still to send of the frame it has started.\<close>

definition sent_by :: "nat \<Rightarrow> py32_sys \<Rightarrow> bytes" where
  "sent_by i s = map snd (filter (\<lambda>x. fst x = i) (sys_wire s))"

definition unsent :: "nat \<Rightarrow> py32_sys \<Rightarrow> bytes" where
  "unsent i s = (if i = 0 then works_rest (sys_work s)
     else if i \<le> length (sys_callers s) then works_rest (sys_callers s ! (i - 1)) else [])"

definition works_ok :: "work list \<Rightarrow> bool" where
  "works_ok ws \<longleftrightarrow> list_all work_ok ws \<and> list_all fresh (tl ws)"

definition caller_ok :: "work list \<Rightarrow> bool" where
  "caller_ok ws \<longleftrightarrow> works_ok ws \<and> Frame_Complete \<notin> set ws \<and> Act Parse_Reset \<notin> set ws"

definition sys_inv :: "py32_sys \<Rightarrow> bool" where
  "sys_inv s \<longleftrightarrow> proto_ok (sys_proto s) \<and> rx_ring_inv (sys_ring s) \<and> host_ok (sys_now s) (sys_proto s) \<and>
     works_ok (sys_work s) \<and> (Frame_Complete \<in> set (sys_work s) \<longrightarrow> py32_parse_state (sys_proto s) = 5) \<and>
     list_all caller_ok (sys_callers s) \<and> uart1_tx (sys_proto s) = map snd (sys_wire s) \<and>
     (\<forall>x \<in> set (sys_wire s). fst x \<le> length (sys_callers s)) \<and> (\<forall>i. sent_ok (sent_by i s @ unsent i s)) \<and>
     (sys_pc s = NotStarted \<longrightarrow> sys_work s = [])"

lemma host_ok_cong: "host_fields st = host_fields st' \<Longrightarrow> host_ok now st = host_ok now st'"
  by (simp add: host_fields_def host_ok_def)

lemma on_rx_activity_host:
  "uptime_ms env = now \<Longrightarrow> host_ok now (py32_host_on_rx_activity env st)"
  by (simp add: host_ok_def py32_host_on_rx_activity_def)

lemma proto_ok_cong:
  assumes "proto_ok st" "py32_frame_data s = py32_frame_data st" "py32_rhythm_bands s = py32_rhythm_bands st"
    "py32_last_tx_log s = py32_last_tx_log st" "py32_last_rx_log s = py32_last_rx_log st"
    "parser_fields s = parser_fields st" "params_ok (py32_state s)"
  shows "proto_ok s"
  using assms parser_ok_cong [OF assms(6)] by (simp add: proto_ok_def buffers_ok_def)

text \<open>Switching the host on and off touches neither the parser nor what was sent.\<close>

lemma host_calls_keep:
  "proto_ok st \<Longrightarrow> proto_ok (py32_host_on_rx_activity env st)" "proto_ok st \<Longrightarrow> proto_ok (py32_host_idle_work_handler env st)"
  by (rule proto_ok_cong, assumption; simp add: py32_host_on_rx_activity_def py32_host_idle_work_handler_def parser_fields_def
      py32_host_power_on_def py32_host_power_off_def py32_host_bt_enable_def py32_host_bt_disable_def
      host_call_def proto_ok_def Let_def)+

lemma host_calls_sel [simp]:
  "uart1_tx (py32_host_on_rx_activity env st) = uart1_tx st" "uart1_tx (py32_host_idle_work_handler env st) = uart1_tx st"
  "py32_parse_state (py32_host_on_rx_activity env st) = py32_parse_state st"
  "py32_parse_state (py32_host_idle_work_handler env st) = py32_parse_state st"
  by (simp_all add: py32_host_on_rx_activity_def py32_host_idle_work_handler_def py32_host_power_on_def
      py32_host_power_off_def py32_host_bt_enable_def py32_host_bt_disable_def host_call_def Let_def)

lemma do_init_keeps:
  assumes "py32_uart_do_init bound i j st r = (started, st', r')" "proto_ok st" "rx_ring_inv r"
  defines "st'' \<equiv> (if started then py32_log_init_banner st' else st')"
  shows "proto_ok st'' \<and> rx_ring_inv r' \<and> host_fields st'' = host_fields st \<and> uart1_tx st'' = uart1_tx st"
proof -
  let ?s = "py32_parse_reset (st\<lparr>py32_state := \<lparr>p_volume = 0, p_treble = 12, p_bass = 12, p_vibration = 0, p_last_error = 0\<rparr>\<rparr>)"
  have s: "st' = ?s" using assms(1) by (auto simp: py32_uart_do_init_def Let_def split: if_splits)
  have "rx_ring_inv r'"
    using assms(1,3) by (auto simp: py32_uart_do_init_def Let_def rx_ring_inv_def PY32_RX_RING_SIZE_def split: if_splits)
  then show ?thesis
    using assms(2) unfolding st''_def s
    by (cases started) (simp_all add: proto_ok_def buffers_ok_def params_ok_def parser_ok_def host_fields_def py32_parse_reset_def py32_log_init_banner_def)
qed

lemma isr_inv:
  assumes "rx_ring_inv r"
  shows "rx_ring_inv (py32_dma_rx_isr buf reason r)" "rx_ring_inv (py32_dma_rx_timeout_handle data r)"
  using py32_rx_ring_push_spec [OF assms]
  by (simp_all add: py32_dma_rx_isr_def py32_dma_rx_timeout_handle_def Let_def) (metis prod.collapse)+

lemma pop_inv: "rx_ring_inv r \<Longrightarrow> rx_ring_pop r = Some (c, r') \<Longrightarrow> rx_ring_inv r'"
  using rx_ring_pop_spec [of r] by (auto split: list.splits)

text \<open>One access by one writer: what it has sent and has to send grows by whole frames at most.\<close>

lemma works_step:
  assumes "works_ok (w # ws)" "proto_ok st" "w = Frame_Complete \<longrightarrow> py32_parse_state st = 5" "work_step env w st = (new, st', out)"
  shows "works_ok (new @ ws)" "Frame_Complete \<notin> set (new @ ws)"
    "sent_ok (bs @ works_rest (w # ws)) \<Longrightarrow> sent_ok ((bs @ out) @ works_rest (new @ ws))"
proof -
  note k = work_step_keeps [OF assms(2) _ assms(3,4)]
  have w: "work_ok w" "list_all fresh ws" using assms(1) by (simp_all add: works_ok_def)
  have ws: "list_all work_ok ws" "works_rest ws = []" "Frame_Complete \<notin> set ws"
    using w(2) by (auto simp: fresh_def list_all_iff)
  have tl: "list_all fresh (tl ws)" using w(2) by (cases ws) simp_all
  show "works_ok (new @ ws)" using k(4,5) [OF w(1)] ws tl w(2) by (cases new) (auto simp: works_ok_def)
  show "Frame_Complete \<notin> set (new @ ws)" using k(6) [OF w(1)] ws(3) by simp
  obtain fs where f: "out @ works_rest new = work_rest w @ concat fs" "frames_ok fs" using k(9) [OF w(1)] by blast
  assume "sent_ok (bs @ works_rest (w # ws))"
  then have "sent_ok (bs @ work_rest w)" using ws(2) by simp
  from sent_ok_append [OF this f(2)] show "sent_ok ((bs @ out) @ works_rest (new @ ws))"
    by (simp only: map_append concat_append ws(2) append_Nil2 append_assoc f(1))
qed

lemma sent_by_wire:
  "sys_wire s' = sys_wire s @ map (Pair j) out \<Longrightarrow> sent_by i s' = sent_by i s @ (if i = j then out else [])"
  by (auto simp: sent_by_def filter_map o_def)

lemma sys_invD:
  assumes "sys_inv s"
  shows "proto_ok (sys_proto s)" "rx_ring_inv (sys_ring s)" "host_ok (sys_now s) (sys_proto s)" "works_ok (sys_work s)"
    "Frame_Complete \<in> set (sys_work s) \<Longrightarrow> py32_parse_state (sys_proto s) = 5" "list_all caller_ok (sys_callers s)"
    "uart1_tx (sys_proto s) = map snd (sys_wire s)" "\<forall>x \<in> set (sys_wire s). fst x \<le> length (sys_callers s)"
    "sent_ok (sent_by i s @ unsent i s)" "sys_pc s = NotStarted \<Longrightarrow> sys_work s = []"
  using assms by (auto simp: sys_inv_def)

lemma thread_work_inv:
  assumes "sys_inv s" "sys_work s = w # ws" "work_step env w (sys_proto s) = (new, st, out)"
  shows "sys_inv (s\<lparr>sys_proto := st, sys_work := new @ ws, sys_wire := sys_wire s @ map (Pair 0) out\<rparr>)" (is "sys_inv ?s")
proof -
  note I = sys_invD [OF assms(1)]
  have wok: "work_ok w" "works_ok (w # ws)" using I(4) assms(2) by (simp_all add: works_ok_def)
  have fc: "w = Frame_Complete \<longrightarrow> py32_parse_state (sys_proto s) = 5" using I(5) assms(2) by simp
  note k = work_step_keeps [OF I(1) wok(1) fc assms(3)] and ws = works_step [OF wok(2) I(1) fc assms(3)]
  have "sent_ok (sent_by i ?s @ unsent i ?s)" for i
  proof (cases "i = 0")
    case True
    then show ?thesis using ws(3) [of "sent_by 0 s"] I(9) [of 0] assms(2) by (simp add: sent_by_wire [of ?s s 0 out] unsent_def)
  next
    case False
    then have "unsent i ?s = unsent i s" by (simp add: unsent_def)
    then show ?thesis using I(9) [of i] False by (simp add: sent_by_wire [of ?s s 0 out])
  qed
  moreover have "fst x \<le> length (sys_callers s)" if "x \<in> set (sys_wire s @ map (Pair 0) out)" for x using I(8) that by auto
  ultimately show ?thesis
    unfolding sys_inv_def using k(1-3) ws(1,2) I(2,3,6,7,10) assms(2) host_ok_cong [OF k(2)] by (auto simp: o_def)
qed

lemma caller_work_inv:
  assumes "sys_inv s" "i < length (sys_callers s)" "sys_callers s ! i = w # ws" "work_step env w (sys_proto s) = (new, st, out)"
  shows "sys_inv (s\<lparr>sys_proto := st, sys_callers := (sys_callers s)[i := new @ ws], sys_wire := sys_wire s @ map (Pair (Suc i)) out\<rparr>)" (is "sys_inv ?s")
proof -
  note I = sys_invD [OF assms(1)]
  have c: "caller_ok (w # ws)" using I(6) assms(2,3) by (metis list_all_length)
  have wok: "work_ok w" "works_ok (w # ws)" "w \<noteq> Frame_Complete" "w \<noteq> Act Parse_Reset" using c by (auto simp: caller_ok_def works_ok_def)
  then have fc: "w = Frame_Complete \<longrightarrow> py32_parse_state (sys_proto s) = 5" by simp
  note k = work_step_keeps [OF I(1) wok(1) fc assms(4)] and ws = works_step [OF wok(2) I(1) fc assms(4)]
  have "caller_ok (new @ ws)" using c ws(1,2) k(8) [OF wok(3)] by (simp add: caller_ok_def)
  then have "list_all caller_ok ((sys_callers s)[i := new @ ws])" using I(6) by (simp add: list_all_iff) (metis insert_iff set_update_subset_insert subset_iff)
  moreover have "sent_ok (sent_by j ?s @ unsent j ?s)" for j
  proof (cases "j = Suc i")
    case True
    then show ?thesis
      using ws(3) [of "sent_by j s"] I(9) [of j] assms(2,3) by (simp add: sent_by_wire [of ?s s "Suc i" out] unsent_def)
  next
    case False
    then have "unsent j ?s = unsent j s" by (auto simp: unsent_def nth_list_update)
    then show ?thesis using I(9) [of j] False by (simp add: sent_by_wire [of ?s s "Suc i" out])
  qed
  moreover have "fst x \<le> length (sys_callers s)" if "x \<in> set (sys_wire s @ map (Pair (Suc i)) out)" for x using I(8) that assms(2) by auto
  moreover have "py32_parse_state st = py32_parse_state (sys_proto s)" using k(7) [OF wok(4)] by (simp add: parser_fields_def)
  ultimately show ?thesis
    unfolding sys_inv_def using k(1-3) I(2-5,7,10) host_ok_cong [OF k(2)] by (simp add: o_def)
qed

lemma sent_ok_Nil [simp]: "sent_ok []"
  unfolding sent_ok_def by (intro exI [of _ "[]"]) (simp add: frames_ok_def)

text \<open>Steps of the other kinds change neither the works nor the wire, or start with works that have sent nothing.\<close>

lemma quiet_inv:
  assumes "sys_inv s" "proto_ok st" "rx_ring_inv r" "host_ok now st" "uart1_tx st = uart1_tx (sys_proto s)"
    and "py32_parse_state st = py32_parse_state (sys_proto s) \<or> sys_work s = []" "pc = NotStarted \<longrightarrow> sys_pc s = NotStarted"
  shows "sys_inv (s\<lparr>sys_proto := st, sys_ring := r, sys_pc := pc, sys_now := now\<rparr>)" (is "sys_inv ?s")
proof -
  have "unsent i ?s = unsent i s" "sent_by i ?s = sent_by i s" for i by (simp_all add: unsent_def sent_by_def)
  then show ?thesis using assms by (auto simp: sys_inv_def)
qed

lemma new_work_inv:
  assumes "sys_inv s" "sys_work s = []" "works_ok ws" "works_rest ws = []" "Frame_Complete \<in> set ws \<longrightarrow> py32_parse_state (sys_proto s) = 5"
    and "sys_pc s \<noteq> NotStarted"
  shows "sys_inv (s\<lparr>sys_work := ws\<rparr>)"
proof -
  have "unsent i (s\<lparr>sys_work := ws\<rparr>) = unsent i s" "sent_by i (s\<lparr>sys_work := ws\<rparr>) = sent_by i s" for i
    using assms(2,4) by (simp_all add: unsent_def sent_by_def)
  then show ?thesis using assms by (simp add: sys_inv_def)
qed

lemma call_inv:
  assumes "sys_inv s" "caller_ok ws" "works_rest ws = []"
  shows "sys_inv (s\<lparr>sys_callers := sys_callers s @ [ws]\<rparr>)" (is "sys_inv ?s")
proof -
  note I = sys_invD [OF assms(1)]
  have "sent_ok (sent_by i ?s @ unsent i ?s)" for i
  proof (cases "i \<le> length (sys_callers s)")
    case True
    then have "unsent i ?s = unsent i s" by (auto simp: unsent_def nth_append)
    then show ?thesis using I(9) [of i] by (simp add: sent_by_def)
  next
    case False
    then have "sent_by i ?s = []" using I(8) by (auto simp: sent_by_def filter_empty_conv)
    moreover have "unsent i ?s = []" using False assms(3) by (auto simp: unsent_def nth_append)
    ultimately show ?thesis by simp
  qed
  then show ?thesis using I assms(2) by (auto simp: sys_inv_def)
qed

lemma rhythm_keeps:
  assumes "bands = None \<or> length (the bands) = 10" "proto_ok st"
  shows "proto_ok (py32_rhythm_set_data bands playing st)" "host_fields (py32_rhythm_set_data bands playing st) = host_fields st"
    "uart1_tx (py32_rhythm_set_data bands playing st) = uart1_tx st"
    "py32_parse_state (py32_rhythm_set_data bands playing st) = py32_parse_state st"
  using assms by (auto simp: py32_rhythm_set_data_def proto_ok_def buffers_ok_def parser_ok_def host_fields_def split: option.split)

lemma periodic_works_ok:
  "works_ok (periodic_works now st)" "works_rest (periodic_works now st) = []" "Frame_Complete \<notin> set (periodic_works now st)"
  by (auto simp: periodic_works_def works_ok_def fresh_def Let_def)

lemma step_inv: "py32_step s s' \<Longrightarrow> sys_inv s \<Longrightarrow> sys_inv s'"
proof (induction rule: py32_step.induct)
  case (time_passes s d)
  note I = sys_invD [OF time_passes]
  have "host_ok (sys_now s + d) (sys_proto s)" using I(3) by (fastforce simp: host_ok_def)
  then show ?case using quiet_inv [OF time_passes I(1,2), of "sys_now s + d" "sys_pc s"] by simp
next
  case (init s bound i j started st r)
  note I = sys_invD [OF init(3)] and k = do_init_keeps [OF init(2)]
  have "host_ok (sys_now s) (if started then py32_log_init_banner st else st) = host_ok (sys_now s) (sys_proto s)"
    using k [OF I(1,2)] by (intro host_ok_cong) simp
  then show ?case
    using quiet_inv [OF init(3), of "if started then py32_log_init_banner st else st" r "sys_now s" "if started then Waiting else NotStarted"]
      k [OF I(1,2)] I(3) I(10) [OF init(1)] init(1) by simp
next
  case (dma_rx s buf reason)
  note I = sys_invD [OF dma_rx]
  show ?case using quiet_inv [OF dma_rx I(1) isr_inv(1) [OF I(2)] I(3), of "sys_pc s"] by simp
next
  case (dma_timeout s data)
  note I = sys_invD [OF dma_timeout]
  show ?case using quiet_inv [OF dma_timeout I(1) isr_inv(2) [OF I(2)] I(3), of "sys_pc s"] by simp
next
  case (wake s)
  note I = sys_invD [OF wake(3)]
  show ?case using quiet_inv [OF wake(3) I(1) sem_take_simps(1) [OF I(2)] I(3)] by simp
next
  case (take_byte s n c r env ws st)
  note I = sys_invD [OF take_byte(6)] and k = feed_start_keeps [OF I(1) take_byte(5)]
  have "host_ok (sys_now s) st" using host_ok_cong [of st "sys_proto s"] k I(3) by simp
  then have "sys_inv (s\<lparr>sys_proto := st, sys_ring := r, sys_pc := Draining (n + 1), sys_now := sys_now s\<rparr>)"
    using k take_byte(2) pop_inv [OF I(2) take_byte(3)] by (intro quiet_inv [OF take_byte(6)]) simp_all
  from new_work_inv [OF this, of ws] show ?case using k take_byte(2) by (auto simp: works_ok_def)
next
  case (thread_work s w ws env new st out)
  then show ?case by (intro thread_work_inv)
next
  case (drained s n env)
  note I = sys_invD [OF drained(5)]
  show ?case
    using quiet_inv [OF drained(5) _ I(2), of "if n > 0 then py32_host_on_rx_activity env (sys_proto s) else sys_proto s" "sys_now s" Reporting]
      host_calls_keep(1) [OF I(1), of env] on_rx_activity_host [OF drained(4)] I(1,3) by simp
next
  case (report s)
  note I = sys_invD [OF report(3)]
  have "sys_inv (s\<lparr>sys_proto := sys_proto s, sys_ring := sys_ring s, sys_pc := Waiting, sys_now := sys_now s\<rparr>)"
    using I(1-3) by (intro quiet_inv [OF report(3)]) simp_all
  from new_work_inv [OF this, of "periodic_works (sys_now s) (sys_proto s)"] show ?case
    using report(2) periodic_works_ok [of "sys_now s" "sys_proto s"] by simp
next
  case (idle s t env)
  note I = sys_invD [OF idle(4)]
  have "host_ok (sys_now s) (py32_host_idle_work_handler env (sys_proto s))"
    by (simp add: host_ok_def py32_host_idle_work_handler_def py32_host_power_off_def py32_host_bt_disable_def host_call_def Let_def)
  then show ?case using quiet_inv [OF idle(4) host_calls_keep(2) [OF I(1)] I(2), of "sys_now s" env "sys_pc s"] by simp
next
  case (push_now s)
  then show ?case by (rule call_inv) (simp_all add: caller_ok_def works_ok_def)
next
  case (reapply s)
  then show ?case by (rule call_inv) (simp_all add: caller_ok_def works_ok_def)
next
  case (caller_work i s w ws env new st out)
  then show ?case by (intro caller_work_inv)
next
  case (rhythm bands s playing)
  note I = sys_invD [OF rhythm(2)] and k = rhythm_keeps [OF rhythm(1), of "sys_proto s" playing]
  show ?case using quiet_inv [OF rhythm(2) k(1) I(2), of "sys_now s" "sys_pc s"] k(2-4) I(1,3) host_ok_cong [OF k(2)] by simp
next
  case (volume s env stream v display)
  note I = sys_invD [OF volume]
  let ?st = "(sys_proto s)\<lparr>py32_audio := snd (system_volume_set env stream v display (py32_audio (sys_proto s)))\<rparr>"
  have "proto_ok ?st" "host_ok (sys_now s) ?st" using I(1,3) by (auto simp: proto_ok_def buffers_ok_def parser_ok_def host_ok_def)
  then show ?case using quiet_inv [OF volume _ I(2), of ?st "sys_now s" "sys_pc s"] by simp
qed

lemma boot_inv: "sys_inv (py32_boot audio)"
  by (auto simp: sys_inv_def py32_boot_def py32_statics_def proto_ok_def buffers_ok_def params_ok_def parser_ok_def
      host_ok_def rx_ring_inv_def works_ok_def sent_by_def unsent_def PY32_RX_RING_SIZE_def PY32_RX_WAKE_LIMIT_def)

lemma reachable_inv: "py32_step\<^sup>*\<^sup>* (py32_boot audio) s \<Longrightarrow> sys_inv s"
  by (induction rule: rtranclp_induct) (auto intro: boot_inv step_inv)

section \<open>Uninterrupted runs\<close>

text \<open>What a thread does without interruption it can do in the system.\<close>

lemma runs_thread:
  assumes "runs env ws st out ws' st'" "sys_work s = ws" "sys_proto s = st" "uptime_ms env = sys_now s"
  shows "py32_step\<^sup>*\<^sup>* s (s\<lparr>sys_proto := st', sys_work := ws', sys_wire := sys_wire s @ map (Pair 0) out\<rparr>)"
  using assms
proof (induction arbitrary: s rule: runs.induct)
  case (runs_refl ws st)
  then have "s\<lparr>sys_proto := st, sys_work := ws, sys_wire := sys_wire s @ map (Pair 0) []\<rparr> = s" by auto
  then show ?case by simp
next
  case (runs_step w st new st1 out ws out' ws' st')
  let ?s = "s\<lparr>sys_proto := st1, sys_work := new @ ws, sys_wire := sys_wire s @ map (Pair 0) out\<rparr>"
  have "py32_step s ?s" using py32_step.thread_work [of s w ws env new st1 out] runs_step by simp
  moreover have "py32_step\<^sup>*\<^sup>* ?s (s\<lparr>sys_proto := st', sys_work := ws', sys_wire := sys_wire s @ map (Pair 0) (out @ out')\<rparr>)"
    using runs_step.IH [of ?s] runs_step.prems by simp
  ultimately show ?case by (rule converse_rtranclp_into_rtranclp)
qed

lemma runs_caller:
  assumes "runs env ws st out ws' st'" "i < length (sys_callers s)" "sys_callers s ! i = ws" "sys_proto s = st" "uptime_ms env = sys_now s"
  shows "py32_step\<^sup>*\<^sup>* s (s\<lparr>sys_proto := st', sys_callers := (sys_callers s)[i := ws'], sys_wire := sys_wire s @ map (Pair (Suc i)) out\<rparr>)"
  using assms
proof (induction arbitrary: s rule: runs.induct)
  case (runs_refl ws st)
  then have "s\<lparr>sys_proto := st, sys_callers := (sys_callers s)[i := ws], sys_wire := sys_wire s @ map (Pair (Suc i)) []\<rparr> = s" by auto
  then show ?case by simp
next
  case (runs_step w st new st1 out ws out' ws' st')
  let ?s = "s\<lparr>sys_proto := st1, sys_callers := (sys_callers s)[i := new @ ws], sys_wire := sys_wire s @ map (Pair (Suc i)) out\<rparr>"
  have "py32_step s ?s" using py32_step.caller_work [of i s w ws env new st1 out] runs_step by simp
  moreover have "py32_step\<^sup>*\<^sup>* ?s (s\<lparr>sys_proto := st', sys_callers := (sys_callers s)[i := ws'], sys_wire := sys_wire s @ map (Pair (Suc i)) (out @ out')\<rparr>)"
    using runs_step.IH [of ?s] runs_step.prems by simp
  ultimately show ?case by (rule converse_rtranclp_into_rtranclp)
qed

lemma runs_periodic:
  assumes "buffers_ok st" "py32_init_banner_done st" "py32_host_alive st" "word_of_nat (uptime_ms env) - last_rhythm_tx_ms st \<ge> (50 :: u32)"
  shows "runs env (periodic_works (uptime_ms env) st) st (py32_frame 2 0x10 (status_data env 0 (synced 0 st))) [] (py32_periodic_tx env st)"
proof -
  have "runs env [Act (Stamp_Tx now)] s [] [] (s\<lparr>last_rhythm_tx_ms := now\<rparr>)" for now s
    using runs_act [of env "[]" "Stamp_Tx now" s] runs_refl [of env "[]"] by simp
  from runs_trans [OF runs_transmit [OF assms(1)] this] show ?thesis
    using assms(2-4) by (simp add: periodic_works_def py32_periodic_tx_def Let_def)
qed

text \<open>The host comes on: a byte arrives, and the thread takes it.\<close>

lemma host_comes_on:
  "\<exists>s. py32_step\<^sup>*\<^sup>* (py32_boot audio) s \<and> py32_host_alive (sys_proto s) \<and> sys_now s = 0 \<and>
     sys_pc s = Waiting \<and> sys_work s = [] \<and> sys_callers s = [] \<and> sys_wire s = [] \<and> rx_ring_abs (sys_ring s) = [] \<and>
     py32_init_banner_done (sys_proto s) \<and> last_rhythm_tx_ms (sys_proto s) = 0"
proof -
  let ?s0 = "py32_boot audio" and ?env = "demo_py32_env\<lparr>uptime_ms := 0\<rparr>"
  obtain st r where i: "py32_uart_do_init True 0 0 (sys_proto ?s0) (sys_ring ?s0) = (True, st, r)"
    by (simp add: py32_uart_do_init_def py32_uart_dma_setup_def)
  define r2 where "r2 = k_sem_take (py32_dma_rx_timeout_handle [0x55] r)"
  have r: "rx_ring_inv r" "rx_ring_abs r = []"
    using i by (auto simp: py32_uart_do_init_def py32_boot_def rx_ring_inv_def rx_ring_abs_def
        rx_ring_used_def PY32_RX_RING_SIZE_def)
  obtain n r1 where p: "py32_rx_ring_push [0x55] r = (n, r1)" by fastforce
  have "rx_ring_inv r1" "rx_ring_abs r1 = [0x55]"
    using py32_rx_ring_push_spec [OF r(1) p] r(2) length_rx_ring_abs [of r]
    by (auto simp: PY32_RX_RING_SIZE_def)
  then have r2: "rx_ring_inv r2" "rx_ring_abs r2 = [0x55]"
    by (simp_all add: r2_def py32_dma_rx_timeout_handle_def p)
  obtain r3 where q: "rx_ring_pop r2 = Some (0x55, r3)" "rx_ring_abs r3 = []" "rx_ring_inv r3"
    using get_one(2) [OF r2] by blast
  have st: "st = py32_parse_reset ((py32_statics audio)\<lparr>py32_state := \<lparr>p_volume = 0, p_treble = 12, p_bass = 12, p_vibration = 0, p_last_error = 0\<rparr>\<rparr>)"
    using i by (simp add: py32_uart_do_init_def py32_boot_def Let_def)
  let ?b = "py32_log_init_banner st"
  have f: "rx_feed_start ?env 0x55 ?b = ([], ?b)"
    by (simp add: st rx_feed_start_def feed_addr py32_parse_reset_def py32_log_init_banner_def)
  let ?s1 = "?s0\<lparr>sys_proto := ?b, sys_ring := r, sys_pc := Waiting\<rparr>"
  let ?s2 = "?s1\<lparr>sys_ring := py32_dma_rx_timeout_handle [0x55] r\<rparr>"
  let ?s3 = "?s2\<lparr>sys_ring := r2, sys_pc := Draining 0\<rparr>"
  let ?s4 = "?s3\<lparr>sys_proto := ?b, sys_ring := r3, sys_pc := Draining 1, sys_work := []\<rparr>"
  let ?s5 = "?s4\<lparr>sys_proto := py32_host_on_rx_activity ?env ?b, sys_pc := Reporting\<rparr>"
  let ?s6 = "?s5\<lparr>sys_pc := Waiting, sys_work := []\<rparr>"
  have s1: "py32_step ?s0 ?s1" using py32_step.init [OF _ i] by (simp add: py32_boot_def)
  have s2: "py32_step ?s1 ?s2" using py32_step.dma_timeout [of ?s1 "[0x55]"] by simp
  have s3: "py32_step ?s2 ?s3" using py32_step.wake [of ?s2] by (simp add: r2_def py32_boot_def)
  have s4: "py32_step ?s3 ?s4"
    using py32_step.take_byte [of ?s3 0 "0x55" r3 ?env "[]" ?b] q f by (simp add: py32_boot_def)
  have s5: "py32_step ?s4 ?s5"
    using py32_step.drained [of ?s4 1 ?env] rx_ring_pop_spec(1) [OF q(3)] q(2) by (simp add: py32_boot_def)
  have w: "last_rhythm_tx_ms (sys_proto ?s5) = 0" "py32_host_alive (sys_proto ?s5)" "py32_init_banner_done (sys_proto ?s5)"
    by (simp_all add: st py32_host_on_rx_activity_def py32_host_power_on_def py32_host_bt_enable_def host_call_def
        py32_log_init_banner_def py32_parse_reset_def py32_statics_def Let_def)
  have s6: "py32_step ?s5 ?s6"
    using py32_step.report [of ?s5] w(1) by (simp add: periodic_works_def py32_boot_def)
  have "py32_step\<^sup>*\<^sup>* ?s0 ?s6"
    using s1 s2 s3 s4 s5 s6 by (meson converse_rtranclp_into_rtranclp rtranclp.rtrancl_refl)
  then show ?thesis using w q(2) by (intro exI [of _ ?s6]) (simp add: py32_boot_def)
qed

text \<open>And 50 ms later the thread sends it a status frame.\<close>

lemma status_frame_sent:
  "\<exists>s. py32_step\<^sup>*\<^sup>* (py32_boot audio) s \<and> sys_work s = [] \<and> sys_callers s = [] \<and>
     (\<forall>x \<in> set (sys_wire s). fst x = 0) \<and> (\<exists>d. length d = 17 \<and> uart1_tx (sys_proto s) = py32_frame 2 0x10 d)"
proof -
  obtain s where s: "py32_step\<^sup>*\<^sup>* (py32_boot audio) s" "py32_host_alive (sys_proto s)" "sys_now s = 0"
      "sys_pc s = Waiting" "sys_work s = []" "sys_callers s = []" "sys_wire s = []" "rx_ring_abs (sys_ring s) = []"
      "py32_init_banner_done (sys_proto s)" "last_rhythm_tx_ms (sys_proto s) = 0"
    using host_comes_on by blast
  note I = sys_invD [OF reachable_inv [OF s(1)]]
  let ?env = "demo_py32_env\<lparr>uptime_ms := 50\<rparr>" and ?st = "sys_proto s"
  have b: "buffers_ok ?st" using I(1) by (simp add: proto_ok_def)
  let ?f = "py32_frame 2 0x10 (status_data ?env 0 (synced 0 ?st))"
  let ?s1 = "s\<lparr>sys_now := 50\<rparr>"
  let ?s2 = "?s1\<lparr>sys_ring := k_sem_take (sys_ring s), sys_pc := Draining 0\<rparr>"
  let ?s3 = "?s2\<lparr>sys_proto := ?st, sys_pc := Reporting\<rparr>"
  let ?s4 = "?s3\<lparr>sys_pc := Waiting, sys_work := periodic_works 50 ?st\<rparr>"
  let ?s5 = "?s4\<lparr>sys_proto := py32_periodic_tx ?env ?st, sys_work := [], sys_wire := map (Pair 0) ?f\<rparr>"
  have 1: "py32_step s ?s1" using py32_step.time_passes [of s 50] s(3) by simp
  have 2: "py32_step ?s1 ?s2" using py32_step.wake [of ?s1] s(4,5) by simp
  have e: "rx_ring_pop (k_sem_take (sys_ring s)) = None" using get_one(1) [of "k_sem_take (sys_ring s)"] I(2) s(8) by simp
  have 3: "py32_step ?s2 ?s3" using py32_step.drained [of ?s2 0 ?env] s(5) e by simp
  have 4: "py32_step ?s3 ?s4" using py32_step.report [of ?s3] s(5) by simp
  have r: "runs ?env (periodic_works 50 ?st) ?st ?f [] (py32_periodic_tx ?env ?st)"
    using runs_periodic [OF b s(9,2), of ?env] s(10) by simp
  have 5: "py32_step\<^sup>*\<^sup>* ?s4 ?s5" using runs_thread [OF r, of ?s4] s(7) by simp
  have reach: "py32_step\<^sup>*\<^sup>* (py32_boot audio) ?s5"
    using s(1) 1 2 3 4 5 by (meson rtranclp.rtrancl_into_rtrancl rtranclp_trans)
  have "map snd (sys_wire ?s5) = ?f" by (simp add: o_def)
  then have "uart1_tx (sys_proto ?s5) = ?f" using sys_invD(7) [OF reachable_inv [OF reach]] by simp
  moreover have "length (status_data ?env 0 (synced 0 ?st)) = 17" using length_status_data b synced_buffers by blast
  ultimately show ?thesis using reach s(6) by (intro exI [of _ ?s5]) auto
qed

text \<open>Two calls of \<open>system_app_py32_push_status_now\<close> can tear their frames apart: when both have written
  their first byte, no continuation makes what is on the wire a sequence of status frames.\<close>

lemma started_frame_rest: "sent_ok (a # b # bs) \<Longrightarrow> a = 2 \<and> b = 0x10"
proof -
  assume "sent_ok (a # b # bs)"
  then obtain fs where fs: "a # b # bs = concat fs" "\<forall>f \<in> set fs. status_frame_ok f" by (auto simp: sent_ok_def frames_ok_def)
  then obtain f gs where f: "fs = f # gs" by (cases fs) simp_all
  then have "length f = 22" "take 3 f = [2, 0x10, 17]" using fs(2) by (simp_all add: status_frame_ok_def)
  moreover from this(2) have "take 2 f = [2, 0x10]" by (cases f rule: list.exhaust; cases "tl f") (auto simp: numeral_eq_Suc)
  ultimately have "take 2 (concat fs) = [2, 0x10]" using f by simp
  then show ?thesis using fs(1) [symmetric] by simp
qed

lemma frame_two_begins: "\<exists>bs. py32_frame 2 0x10 d = 2 # bs"
  by (simp add: py32_frame_def Let_def)

lemma runs_first_byte:
  assumes "buffers_ok st"
  shows "\<exists>ws' st'. runs env [Transmit (Tx_Start 0)] st [2] ws' st'"
proof -
  obtain bs where f: "py32_frame 2 0x10 (status_data env 0 (synced 0 st)) = 2 # bs" using frame_two_begins by blast
  from runs_trans [OF runs_prepare [OF assms, of env 0 "[]", unfolded f] runs_one [of env "Transmit (Tx_Send (2 # bs) 22)"]]
  show ?thesis by fastforce
qed

lemma caller_starts:
  assumes "py32_step\<^sup>*\<^sup>* (py32_boot audio) s"
  shows "\<exists>s'. py32_step\<^sup>*\<^sup>* (py32_boot audio) s' \<and> map snd (sys_wire s') = map snd (sys_wire s) @ [2]"
proof -
  let ?s1 = "s\<lparr>sys_callers := sys_callers s @ [[Transmit (Tx_Start 0)]]\<rparr>" and ?env = "demo_py32_env\<lparr>uptime_ms := sys_now s\<rparr>"
  have "buffers_ok (sys_proto s)" using sys_invD(1) [OF reachable_inv [OF assms]] by (simp add: proto_ok_def)
  then obtain ws' st' where r: "runs ?env [Transmit (Tx_Start 0)] (sys_proto s) [2] ws' st'" using runs_first_byte by blast
  have "py32_step s ?s1" using py32_step.push_now [of s] by simp
  then have "py32_step\<^sup>*\<^sup>* (py32_boot audio) ?s1" using assms by simp
  from rtranclp_trans [OF this runs_caller [OF r, of "length (sys_callers s)" ?s1]] show ?thesis by fastforce
qed

lemma frames_can_be_torn:
  "\<exists>s. py32_step\<^sup>*\<^sup>* (py32_boot audio) s \<and> (\<forall>bs. \<not> sent_ok (uart1_tx (sys_proto s) @ bs))"
proof -
  obtain s1 where s1: "py32_step\<^sup>*\<^sup>* (py32_boot audio) s1" "map snd (sys_wire s1) = [2]"
    using caller_starts [OF rtranclp.rtrancl_refl, of audio] by (auto simp: py32_boot_def [THEN arg_cong [where f = sys_wire]])
  obtain s2 where s2: "py32_step\<^sup>*\<^sup>* (py32_boot audio) s2" "map snd (sys_wire s2) = [2, 2]"
    using caller_starts [OF s1(1)] s1(2) by auto
  then have "uart1_tx (sys_proto s2) = [2, 2]" using sys_invD(7) [OF reachable_inv [OF s2(1)]] by simp
  then show ?thesis using s2(1) started_frame_rest [of 2 2] by fastforce
qed



text \<open>(C8) The host is switched off when it falls silent: in every reachable state in which it counts
  as on, once ten seconds have passed the idle work can run, and running it marks the host off,
  leaves no work pending and, with Bluetooth up, stops reconnecting and pairing, drops the
  phones, and hides the device, in this order.\<close>

theorem silent_host_switched_off:
  assumes "py32_step\<^sup>*\<^sup>* (py32_boot audio) s" "py32_host_alive (sys_proto s)"
    and "now = sys_now s + 10000" "uptime_ms env = now"
  shows "py32_step (s\<lparr>sys_now := now\<rparr>)
      (s\<lparr>sys_now := now, sys_proto := py32_host_idle_work_handler env (sys_proto s)\<rparr>) \<and>
    host_fields (py32_host_idle_work_handler env (sys_proto s)) = (False, None) \<and>
    py32_calls (py32_host_idle_work_handler env (sys_proto s)) = py32_calls (sys_proto s) @
      (if bt_inited env then [AutoReconnectStop, EndPairMode, DisconnectAllPhones, EndWaitConnect, SetUserVisual True]
       else [])"
proof -
  have "sys_inv s" using assms(1) by (rule reachable_inv)
  then obtain t where t: "py32_host_idle_work (sys_proto s) = Some t" "t \<le> now"
    using assms(2,3) by (auto simp: sys_inv_def host_ok_def)
  have "py32_step (s\<lparr>sys_now := now\<rparr>)
      (s\<lparr>sys_now := now, sys_proto := py32_host_idle_work_handler env (sys_proto s)\<rparr>)"
    using py32_step.idle [of "s\<lparr>sys_now := now\<rparr>" t env] t assms(4) by simp
  then show ?thesis
    using assms(2) by (simp add: host_fields_def py32_host_idle_work_handler_def py32_host_power_off_def
        py32_host_bt_disable_def host_call_def Let_def)
qed

theorem silent_host_switched_off_witness:
  "\<exists>s :: py32_sys. py32_host_alive (sys_proto s) \<and>
     \<not> py32_host_alive (py32_host_idle_work_handler (demo_py32_env\<lparr>uptime_ms := 10000\<rparr>) (sys_proto s))"
proof -
  obtain s where s: "py32_step\<^sup>*\<^sup>* (py32_boot demo_audio_state) s" "py32_host_alive (sys_proto s)" "sys_now s = 0"
    using host_comes_on by blast
  then have "\<not> py32_host_alive (py32_host_idle_work_handler (demo_py32_env\<lparr>uptime_ms := 10000\<rparr>) (sys_proto s))"
    using silent_host_switched_off [OF s(1,2), of 10000 "demo_py32_env\<lparr>uptime_ms := 10000\<rparr>"]
    by (simp add: host_fields_def)
  with s(2) show ?thesis by blast
qed

end
