(* ===== verification/Libc_Memory.thy ===== *)
theory Libc_Memory
  imports Prelude
begin

text \<open>The string library (\<open>src/lib/libc/minimal/source/string\<close>) over a byte-addressed memory with
  32-bit addresses that wrap around. A loop over a string runs to the terminating NUL and does not
  return (\<open>None\<close>) when there is none; a loop over a size is recursion on the remaining count. The
  compiler is called with \<open>-fsigned-char\<close>, so differences of characters are those of signed bytes.

  Shown: the word-wise copy and fill loops of \<open>memcpy\<close> and \<open>memset\<close> do what a byte-wise copy and
  fill would do, \<open>memmove\<close> is correct for every overlap, and the string functions compute their
  list counterparts on the strings that are stored in memory.\<close>

unbundle bit_operations_syntax

type_synonym mem = "u32 \<Rightarrow> u8"

section \<open>Copying and filling\<close>

text \<open>A word access, in the byte order of the processor.\<close>

definition load32 :: "mem \<Rightarrow> u32 \<Rightarrow> u32" where
  "load32 m a = ucast (m a) OR push_bit 8 (ucast (m (a + 1))) OR
     push_bit 16 (ucast (m (a + 2))) OR push_bit 24 (ucast (m (a + 3)))"

definition store32 :: "u32 \<Rightarrow> u32 \<Rightarrow> mem \<Rightarrow> mem" where
  "store32 a w m = m(a := ucast w, a + 1 := ucast (drop_bit 8 w),
     a + 2 := ucast (drop_bit 16 w), a + 3 := ucast (drop_bit 24 w))"

fun memmove_backward :: "u32 \<Rightarrow> u32 \<Rightarrow> nat \<Rightarrow> mem \<Rightarrow> mem" where
  "memmove_backward dest src 0 m = m"
| "memmove_backward dest src (Suc n) m =
     memmove_backward dest src n (m(dest + of_nat n := m (src + of_nat n)))"

fun copy_bytes :: "u32 \<Rightarrow> u32 \<Rightarrow> nat \<Rightarrow> mem \<Rightarrow> mem" where
  "copy_bytes dest src 0 m = m"
| "copy_bytes dest src (Suc n) m = copy_bytes (dest + 1) (src + 1) n (m(dest := m src))"

definition memmove :: "u32 \<Rightarrow> u32 \<Rightarrow> u32 \<Rightarrow> mem \<Rightarrow> mem" where
  "memmove d s n m =
     (if d - s < n then memmove_backward d s (unat n) m else copy_bytes d s (unat n) m)"

text \<open>The loop up to the first aligned address; when the size runs out it is the whole copy.\<close>

fun memcpy_align :: "u32 \<Rightarrow> u32 \<Rightarrow> nat \<Rightarrow> mem \<Rightarrow> u32 \<times> u32 \<times> nat \<times> mem" where
  "memcpy_align d s n m =
     (if d AND 3 = 0 then (d, s, n, m)
      else case n of 0 \<Rightarrow> (d, s, 0, m) | Suc n \<Rightarrow> memcpy_align (d + 1) (s + 1) n (m(d := m s)))"

fun memcpy_words :: "u32 \<Rightarrow> u32 \<Rightarrow> nat \<Rightarrow> mem \<Rightarrow> u32 \<times> u32 \<times> nat \<times> mem" where
  "memcpy_words d s n m =
     (if n \<ge> 4 then memcpy_words (d + 4) (s + 4) (n - 4) (store32 d (load32 m s) m) else (d, s, n, m))"

declare memcpy_align.simps [simp del] memcpy_words.simps [simp del]

definition memcpy :: "u32 \<Rightarrow> u32 \<Rightarrow> u32 \<Rightarrow> mem \<Rightarrow> mem" where
  "memcpy d s n m =
     (if (d XOR s) AND 3 = 0
      then let (d, s, n, m) = memcpy_align d s (unat n) m;
               (d, s, n, m) = memcpy_words d s n m
           in copy_bytes d s n m
      else copy_bytes d s (unat n) m)"

fun fill_bytes :: "u32 \<Rightarrow> u8 \<Rightarrow> nat \<Rightarrow> mem \<Rightarrow> mem" where
  "fill_bytes d c 0 m = m"
| "fill_bytes d c (Suc n) m = fill_bytes (d + 1) c n (m(d := c))"

fun memset_align :: "u32 \<Rightarrow> u8 \<Rightarrow> nat \<Rightarrow> mem \<Rightarrow> u32 \<times> nat \<times> mem" where
  "memset_align d c n m =
     (if d AND 3 = 0 then (d, n, m)
      else case n of 0 \<Rightarrow> (d, 0, m) | Suc n \<Rightarrow> memset_align (d + 1) c n (m(d := c)))"

fun memset_words :: "u32 \<Rightarrow> u32 \<Rightarrow> nat \<Rightarrow> mem \<Rightarrow> u32 \<times> nat \<times> mem" where
  "memset_words d w n m =
     (if n \<ge> 4 then memset_words (d + 4) w (n - 4) (store32 d w m) else (d, n, m))"

declare memset_align.simps [simp del] memset_words.simps [simp del]

definition memset :: "u32 \<Rightarrow> u32 \<Rightarrow> u32 \<Rightarrow> mem \<Rightarrow> mem" where
  "memset buf c n m =
     (let c_byte = ucast c;
          (d, n, m) = memset_align buf c_byte (unat n) m;
          c_word = ucast c_byte;
          c_word = c_word OR push_bit 8 c_word;
          c_word = c_word OR push_bit 16 c_word;
          (d, n, m) = memset_words d c_word n m
      in fill_bytes d c_byte n m)"

subsection \<open>The reference: all bytes at once\<close>

definition mem_copy :: "u32 \<Rightarrow> u32 \<Rightarrow> nat \<Rightarrow> mem \<Rightarrow> mem" where
  "mem_copy d s n m = (\<lambda>a. if unat (a - d) < n then m (s + (a - d)) else m a)"

definition mem_fill :: "u32 \<Rightarrow> u8 \<Rightarrow> nat \<Rightarrow> mem \<Rightarrow> mem" where
  "mem_fill d c n m = (\<lambda>a. if unat (a - d) < n then c else m a)"

lemma mem_copy_0 [simp]: "mem_copy d s 0 m = m"
  by (simp add: mem_copy_def)

lemma mem_fill_0 [simp]: "mem_fill d c 0 m = m"
  by (simp add: mem_fill_def)

lemma mem_copy_same [simp]: "mem_copy d d n m = m"
  by (rule ext) (simp add: mem_copy_def)

text \<open>Distances on the address circle.\<close>

lemma dist_shift:
  fixes a d :: u32
  assumes "k < 2 ^ 32"
  shows "unat (a - (d + of_nat k)) = (if k \<le> unat (a - d) then unat (a - d) - k else 2 ^ 32 + unat (a - d) - k)"
proof -
  have "a - (d + of_nat k) = (a - d) - of_nat k" by simp
  moreover have "unat (of_nat k :: u32) = k" using assms by (simp add: unat_of_nat)
  ultimately show ?thesis by (simp only: unat_sub_u32 [of "a - d"])
qed

lemma dist_swap: "d \<noteq> s \<Longrightarrow> unat (s - d :: u32) = 2 ^ 32 - unat (d - s)"
proof -
  assume "d \<noteq> s"
  then have "unat (d - s) \<noteq> 0" by (simp add: unat_eq_zero)
  moreover have "s - d = 0 - (d - s)" by simp
  ultimately show ?thesis by (simp only: unat_sub_u32 [of 0 "d - s"]) simp
qed

lemma wrap_below:
  fixes x N :: nat
  assumes "k \<le> x" "x < k + j" "j + k \<le> D" "D < N"
  shows "\<not> (if D \<le> x then x - D else N + x - D) < k"
  using assms by simp

lemma wrap_above:
  fixes x N :: nat
  assumes "x < k" "j + k \<le> D" "D < N" "p = (x + D) mod N"
  shows "\<not> (if k \<le> p then p - k else N + p - k) < j"
proof (cases "x + D < N")
  case True
  then have "p = x + D" using assms(4) by simp
  then show ?thesis using assms(2) by simp
next
  case False
  then have "p = x + D - N"
    using assms by (simp add: le_mod_geq not_less)
  then have "p < k" "N + p = x + D" using assms(1,3) False by simp_all
  then show ?thesis using assms(2) by simp
qed

lemma wrap_shift:
  fixes x N :: nat
  assumes "j + k \<le> N"
  shows "(if k \<le> x then x - k else N + x - k) < j \<longleftrightarrow> k \<le> x \<and> x < k + j"
  using assms by (cases "k \<le> x") auto

lemma mem_copy_extend:
  assumes "j + k \<le> 2 ^ 32" "k < 2 ^ 32" "d = s \<or> j + k \<le> unat (d - s)"
  shows "mem_copy (d + of_nat k) (s + of_nat k) j (mem_copy d s k m) = mem_copy d s (k + j) m"
proof (cases "d = s")
  case False
  then have D: "j + k \<le> unat (d - s)" using assms(3) by simp
  show ?thesis
  proof
    fix a :: u32
    have x: "s + of_nat k + (a - (d + of_nat k)) = s + (a - d)" by simp
    have y: "s + (a - d) - d = (a - d) - (d - s)" by simp
    have "\<not> unat (s + (a - d) - d) < k" if "k \<le> unat (a - d)" "unat (a - d) < k + j"
      unfolding y unat_sub_u32 [of "a - d"] using that D by (rule wrap_below) simp
    then show "mem_copy (d + of_nat k) (s + of_nat k) j (mem_copy d s k m) a = mem_copy d s (k + j) m a"
      unfolding mem_copy_def x dist_shift [OF assms(2)] wrap_shift [OF assms(1)] by auto
  qed
qed simp

lemma mem_copy_extend_back:
  assumes "j + k \<le> 2 ^ 32" "k < 2 ^ 32" "d = s \<or> j + k \<le> unat (s - d)"
  shows "mem_copy d s k (mem_copy (d + of_nat k) (s + of_nat k) j m) = mem_copy d s (k + j) m"
proof (cases "d = s")
  case False
  then have D: "j + k \<le> unat (s - d)" using assms(3) by simp
  show ?thesis
  proof
    fix a :: u32
    have x: "s + of_nat k + (a - (d + of_nat k)) = s + (a - d)" by simp
    have "s + (a - d) - d = (a - d) + (s - d)" by simp
    then have y: "unat (s + (a - d) - d) = (unat (a - d) + unat (s - d)) mod 2 ^ 32"
      by (simp only: unat_word_ariths) simp
    have "\<not> unat (s + (a - d) - (d + of_nat k)) < j" if "unat (a - d) < k"
      unfolding dist_shift [OF assms(2)] using that D unat_u32_less [of "s - d"] y
      by (intro wrap_above) simp_all
    then show "mem_copy d s k (mem_copy (d + of_nat k) (s + of_nat k) j m) a = mem_copy d s (k + j) m a"
      unfolding mem_copy_def x dist_shift [OF assms(2)] wrap_shift [OF assms(1)] by auto
  qed
qed simp

lemma mem_fill_extend:
  assumes "j + k \<le> 2 ^ 32" "k < 2 ^ 32"
  shows "mem_fill (d + of_nat k) c j (mem_fill d c k m) = mem_fill d c (k + j) m"
  unfolding mem_fill_def dist_shift [OF assms(2)] wrap_shift [OF assms(1)] by (rule ext) simp

subsection \<open>The copy loops\<close>

lemma bit_u8_beyond: "8 \<le> n \<Longrightarrow> \<not> bit (b :: u8) n"
  using bit_imp_le_length by fastforce

lemma load32_bytes:
  "ucast (load32 m a) = m a" "ucast (drop_bit 8 (load32 m a)) = m (a + 1)"
  "ucast (drop_bit 16 (load32 m a)) = m (a + 2)" "ucast (drop_bit 24 (load32 m a)) = m (a + 3)"
  unfolding load32_def
  by (auto intro!: bit_word_eqI simp: bit_simps bit_u8_beyond)

lemma dist_small:
  fixes a d :: u32
  shows "unat (a - d) < 4 \<longleftrightarrow> a = d \<or> a = d + 1 \<or> a = d + 2 \<or> a = d + 3"
proof -
  have "unat (a - d) < 4 \<longleftrightarrow> a - d = 0 \<or> a - d = 1 \<or> a - d = 2 \<or> a - d = 3" for a d :: u32
    unfolding word_unat_eq_iff by auto
  moreover have "a - d = c \<longleftrightarrow> a = d + c" for c :: u32 by (auto simp: algebra_simps)
  ultimately show ?thesis by simp
qed

lemma store_load32: "store32 d (load32 m s) m = mem_copy d s 4 m"
  by (rule ext) (auto simp: store32_def load32_bytes mem_copy_def dist_small)

lemma mem_copy_1: "m(d := m s) = mem_copy d s 1 m"
  by (rule ext) (auto simp: mem_copy_def unat_eq_zero)

text \<open>A forward copy reads nothing it has overwritten.\<close>

definition forward_ok :: "u32 \<Rightarrow> u32 \<Rightarrow> nat \<Rightarrow> bool" where
  "forward_ok d s n \<longleftrightarrow> n < 2 ^ 32 \<and> (d = s \<or> n \<le> unat (d - s))"

lemma forward_ok_rest:
  assumes "forward_ok d s n" "n' \<le> n" "d' - s' = d - s"
  shows "forward_ok d' s' n'"
proof -
  have "d' = s' \<longleftrightarrow> d = s" using assms(3) by (metis eq_iff_diff_eq_0)
  then show ?thesis using assms by (auto simp: forward_ok_def)
qed

lemma forward_ok_extend:
  assumes "forward_ok d s (k + j)"
  shows "mem_copy (d + of_nat k) (s + of_nat k) j (mem_copy d s k m) = mem_copy d s (k + j) m"
  using assms by (intro mem_copy_extend) (auto simp: forward_ok_def)

lemma copy_bytes_eq: "forward_ok d s n \<Longrightarrow> copy_bytes d s n m = mem_copy d s n m"
proof (induction n arbitrary: d s m)
  case (Suc n)
  have "copy_bytes (d + 1) (s + 1) n (m(d := m s)) = mem_copy (d + 1) (s + 1) n (mem_copy d s 1 m)"
    unfolding mem_copy_1 by (rule Suc.IH [OF forward_ok_rest [OF Suc.prems]]) simp_all
  then show ?case using forward_ok_extend [of d s 1 n m] Suc.prems by simp
qed simp

lemma memmove_backward_eq:
  "n < 2 ^ 32 \<Longrightarrow> d = s \<or> n \<le> unat (s - d) \<Longrightarrow> memmove_backward d s n m = mem_copy d s n m"
proof (induction n arbitrary: m)
  case (Suc n)
  have "d = s \<or> n \<le> unat (s - d)" "n < 2 ^ 32" using Suc.prems by auto
  then have "memmove_backward d s (Suc n) m = mem_copy d s n (mem_copy (d + of_nat n) (s + of_nat n) 1 m)"
    unfolding memmove_backward.simps mem_copy_1 by (rule Suc.IH [rotated])
  then show ?case using mem_copy_extend_back [of 1 n d s m] Suc.prems by auto
qed simp

text \<open>A copy under way: from where to where, what is left, and the memory so far.\<close>

definition copied :: "u32 \<Rightarrow> u32 \<Rightarrow> nat \<Rightarrow> mem \<Rightarrow> u32 \<times> u32 \<times> nat \<times> mem \<Rightarrow> bool" where
  "copied d s n m r \<longleftrightarrow> (\<exists>k n'. n = k + n' \<and> r = (d + of_nat k, s + of_nat k, n', mem_copy d s k m))"

lemma copied_refl [simp]: "copied d s n m (d, s, n, m)"
  by (auto simp: copied_def intro: exI [of _ 0])

lemma copied_ok: "copied d s n m (d', s', n', m') \<Longrightarrow> forward_ok d s n \<Longrightarrow> forward_ok d' s' n'"
  by (auto simp: copied_def elim!: forward_ok_rest)

lemma copied_trans:
  assumes "forward_ok d s n" "copied d s n m (d', s', n', m')" "copied d' s' n' m' r"
  shows "copied d s n m r"
proof -
  obtain k where k: "n = k + n'" "d' = d + of_nat k" "s' = s + of_nat k" "m' = mem_copy d s k m"
    using assms(2) by (auto simp: copied_def)
  obtain j n'' where j: "n' = j + n''" "r = (d' + of_nat j, s' + of_nat j, n'', mem_copy d' s' j m')"
    using assms(3) by (auto simp: copied_def)
  have "forward_ok d s (k + j)" using assms(1) by (rule forward_ok_rest) (simp_all add: k j)
  then have "mem_copy d' s' j m' = mem_copy d s (k + j) m" unfolding k by (rule forward_ok_extend)
  then show ?thesis unfolding copied_def
    by (intro exI [of _ "k + j"] exI [of _ n'']) (simp add: k j add_ac)
qed

lemma copied_step:
  assumes "forward_ok d s n" "n = k + n'" "copied (d + of_nat k) (s + of_nat k) n' (mem_copy d s k m) r"
  shows "copied d s n m r"
  using assms(1) _ assms(3) by (rule copied_trans) (auto simp: copied_def assms(2))

lemma memcpy_align_copied: "forward_ok d s n \<Longrightarrow> copied d s n m (memcpy_align d s n m)"
proof (induction n arbitrary: d s m)
  case 0
  then show ?case by (simp add: memcpy_align.simps [of d s 0])
next
  case (Suc n)
  have "copied (d + of_nat 1) (s + of_nat 1) n (mem_copy d s 1 m) (memcpy_align (d + 1) (s + 1) n (m(d := m s)))"
    unfolding mem_copy_1 of_nat_1 by (rule Suc.IH [OF forward_ok_rest [OF Suc.prems]]) simp_all
  from copied_step [OF Suc.prems _ this] show ?case by (simp add: memcpy_align.simps [of d s "Suc n"])
qed

lemma memcpy_words_copied: "forward_ok d s n \<Longrightarrow> copied d s n m (memcpy_words d s n m)"
proof (induction d s n m rule: memcpy_words.induct)
  case (1 d s n m)
  show ?case
  proof (cases "n \<ge> 4")
    case True
    have "copied (d + of_nat 4) (s + of_nat 4) (n - 4) (mem_copy d s 4 m)
        (memcpy_words (d + 4) (s + 4) (n - 4) (store32 d (load32 m s) m))"
      using 1(1) [OF True forward_ok_rest [OF 1(2)]] by (simp add: store_load32)
    from copied_step [OF 1(2) _ this] True show ?thesis by (simp add: memcpy_words.simps [of d s n])
  qed (simp add: memcpy_words.simps [of d s n])
qed

lemma copied_finish:
  assumes "forward_ok d s n" "copied d s n m (d', s', n', m')"
  shows "copy_bytes d' s' n' m' = mem_copy d s n m"
proof -
  have "copied d' s' n' m' (d' + of_nat n', s' + of_nat n', 0, copy_bytes d' s' n' m')"
    using copy_bytes_eq [OF copied_ok [OF assms(2,1)]] by (auto simp: copied_def)
  from copied_trans [OF assms this] show ?thesis by (auto simp: copied_def)
qed

lemma memcpy_eq:
  assumes "d = s \<or> n \<le> d - s"
  shows "memcpy d s n m = mem_copy d s (unat n) m"
proof -
  have n: "forward_ok d s (unat n)" using assms by (auto simp: word_le_nat_alt forward_ok_def)
  obtain d1 s1 n1 m1 where 1: "memcpy_align d s (unat n) m = (d1, s1, n1, m1)" by (metis surj_pair)
  obtain d2 s2 n2 m2 where 2: "memcpy_words d1 s1 n1 m1 = (d2, s2, n2, m2)" by (metis surj_pair)
  have c: "copied d s (unat n) m (d1, s1, n1, m1)" using memcpy_align_copied [OF n] 1 by metis
  have "copied d1 s1 n1 m1 (d2, s2, n2, m2)" using memcpy_words_copied [OF copied_ok [OF c n]] 2 by metis
  with n c have "copied d s (unat n) m (d2, s2, n2, m2)" by (rule copied_trans)
  then show ?thesis
    using copied_finish [OF n] copy_bytes_eq [OF n] by (auto simp: memcpy_def 1 2)
qed

lemma memmove_eq:
  assumes "n \<le> 2 ^ 31"
  shows "memmove d s n m = mem_copy d s (unat n) m"
proof (cases "d = s")
  case True
  then show ?thesis by (simp add: memmove_def memmove_backward_eq copy_bytes_eq forward_ok_def)
next
  case False
  have "unat n \<le> 2 ^ 31" using assms by (simp add: word_le_nat_alt)
  then have "d - s < n \<Longrightarrow> unat n \<le> unat (s - d)"
    unfolding dist_swap [OF False] by (simp add: word_less_nat_alt)
  then show ?thesis
    by (auto simp: memmove_def word_less_nat_alt forward_ok_def intro!: memmove_backward_eq copy_bytes_eq)
qed

subsection \<open>The fill loops\<close>

definition byte_word :: "u8 \<Rightarrow> u32" where
  "byte_word c = (let w = ucast c; w = w OR push_bit 8 w in w OR push_bit 16 w)"

lemma byte_word_bytes:
  "ucast (byte_word c) = c" "ucast (drop_bit 8 (byte_word c)) = c"
  "ucast (drop_bit 16 (byte_word c)) = c" "ucast (drop_bit 24 (byte_word c)) = c"
  unfolding byte_word_def Let_def
  by (auto intro!: bit_word_eqI simp: bit_simps bit_u8_beyond)

lemma store_byte_word: "store32 d (byte_word c) m = mem_fill d c 4 m"
  by (rule ext) (auto simp: store32_def byte_word_bytes mem_fill_def dist_small)

lemma mem_fill_1: "m(d := c) = mem_fill d c 1 m"
  by (rule ext) (auto simp: mem_fill_def unat_eq_zero)

definition filled :: "u32 \<Rightarrow> u8 \<Rightarrow> nat \<Rightarrow> mem \<Rightarrow> u32 \<times> nat \<times> mem \<Rightarrow> bool" where
  "filled d c n m r \<longleftrightarrow> n < 2 ^ 32 \<and> (\<exists>k n'. n = k + n' \<and> r = (d + of_nat k, n', mem_fill d c k m))"

lemma filled_refl [simp]: "filled d c n m (d, n, m) \<longleftrightarrow> n < 2 ^ 32"
  by (auto simp: filled_def intro: exI [of _ 0])

lemma filled_left: "filled d c n m (d', n', m') \<Longrightarrow> n' < 2 ^ 32"
  by (rule le_less_trans [of n' n]) (auto simp: filled_def)

lemma filled_trans:
  assumes "filled d c n m (d', n', m')" "filled d' c n' m' r"
  shows "filled d c n m r"
proof -
  obtain k where k: "n < 2 ^ 32" "n = k + n'" "d' = d + of_nat k" "m' = mem_fill d c k m"
    using assms(1) by (auto simp: filled_def)
  obtain j n'' where j: "n' = j + n''" "r = (d' + of_nat j, n'', mem_fill d' c j m')"
    using assms(2) by (auto simp: filled_def)
  have "mem_fill d' c j m' = mem_fill d c (k + j) m"
    unfolding k using k(1,2) j(1) by (intro mem_fill_extend) simp_all
  then show ?thesis unfolding filled_def
    using k(1) by (intro conjI exI [of _ "k + j"] exI [of _ n'']) (simp_all add: k j add_ac)
qed

lemma filled_step:
  assumes "n < 2 ^ 32" "n = k + n'" "filled (d + of_nat k) c n' (mem_fill d c k m) r"
  shows "filled d c n m r"
  using _ assms(3) by (rule filled_trans) (use assms(1,2) in \<open>auto simp: filled_def\<close>)

lemma memset_align_filled: "n < 2 ^ 32 \<Longrightarrow> filled d c n m (memset_align d c n m)"
proof (induction n arbitrary: d m)
  case 0
  then show ?case by (simp add: memset_align.simps [of d c 0])
next
  case (Suc n)
  have "filled (d + of_nat 1) c n (mem_fill d c 1 m) (memset_align (d + 1) c n (m(d := c)))"
    unfolding mem_fill_1 of_nat_1 using Suc.prems by (intro Suc.IH) simp
  from filled_step [OF Suc.prems _ this] Suc.prems show ?case by (simp add: memset_align.simps [of d c "Suc n"])
qed

lemma memset_words_filled: "n < 2 ^ 32 \<Longrightarrow> filled d c n m (memset_words d (byte_word c) n m)"
proof (induction n arbitrary: d m rule: less_induct)
  case (less n)
  show ?case
  proof (cases "n \<ge> 4")
    case True
    have "filled (d + of_nat 4) c (n - 4) (mem_fill d c 4 m)
        (memset_words (d + 4) (byte_word c) (n - 4) (store32 d (byte_word c) m))"
      using less.IH [of "n - 4" "d + 4" "mem_fill d c 4 m"] less.prems True by (simp add: store_byte_word)
    from filled_step [OF less.prems _ this] True show ?thesis by (simp add: memset_words.simps [of d _ n])
  qed (use less.prems in \<open>simp add: memset_words.simps [of d _ n]\<close>)
qed

lemma fill_bytes_filled: "n < 2 ^ 32 \<Longrightarrow> filled d c n m (d + of_nat n, 0, fill_bytes d c n m)"
proof (induction n arbitrary: d m)
  case (Suc n)
  have "filled (d + of_nat 1) c n (mem_fill d c 1 m) (d + 1 + of_nat n, 0, fill_bytes (d + 1) c n (m(d := c)))"
    unfolding mem_fill_1 of_nat_1 using Suc.prems by (intro Suc.IH) simp
  from filled_step [OF Suc.prems _ this] show ?case by (simp add: add_ac)
qed simp

lemma memset_eq: "memset d c n m = mem_fill d (ucast c) (unat n) m"
proof -
  let ?c = "ucast c :: u8"
  obtain d1 n1 m1 where 1: "memset_align d ?c (unat n) m = (d1, n1, m1)" by (metis surj_pair)
  obtain d2 n2 m2 where 2: "memset_words d1 (byte_word ?c) n1 m1 = (d2, n2, m2)" by (metis surj_pair)
  have a: "filled d ?c (unat n) m (d1, n1, m1)" using memset_align_filled [of "unat n" d ?c m] 1 by simp
  then have "n1 < 2 ^ 32" by (rule filled_left)
  then have b: "filled d1 ?c n1 m1 (d2, n2, m2)" using memset_words_filled [of n1 d1 ?c m1] 2 by simp
  then have "n2 < 2 ^ 32" by (rule filled_left)
  then have "filled d ?c (unat n) m (d2 + of_nat n2, 0, fill_bytes d2 ?c n2 m2)"
    using filled_trans [OF a filled_trans [OF b fill_bytes_filled]] by simp
  moreover have "memset d c n m = fill_bytes d2 ?c n2 m2"
    using 1 2 by (simp add: memset_def byte_word_def Let_def)
  ultimately show ?thesis by (auto simp: filled_def)
qed

section \<open>Strings\<close>

text \<open>A null pointer is the address 0.\<close>

partial_function (option) strcpy :: "u32 \<Rightarrow> u32 \<Rightarrow> mem \<Rightarrow> mem option" where
  "strcpy d s m = (if m s \<noteq> 0 then strcpy (d + 1) (s + 1) (m(d := m s)) else Some (m(d := 0)))"

fun strncpy :: "u32 \<Rightarrow> u32 \<Rightarrow> nat \<Rightarrow> mem \<Rightarrow> mem" where
  "strncpy d s 0 m = m"
| "strncpy d s (Suc n) m =
     (if m s \<noteq> 0 then strncpy (d + 1) (s + 1) n (m(d := m s)) else m(d := 0))"

partial_function (option) strchr :: "mem \<Rightarrow> u32 \<Rightarrow> u8 \<Rightarrow> u32 option" where
  "strchr m s c =
     (if m s \<noteq> c \<and> m s \<noteq> 0 then strchr m (s + 1) c
      else Some (if m s = c then s else 0))"

partial_function (option) strrchr_loop :: "mem \<Rightarrow> u32 \<Rightarrow> u8 \<Rightarrow> u32 \<Rightarrow> u32 option" where
  "strrchr_loop m s c match =
     (let match = (if m s = c then s else match)
      in if m s \<noteq> 0 then strrchr_loop m (s + 1) c match else Some match)"

definition strrchr :: "mem \<Rightarrow> u32 \<Rightarrow> u8 \<Rightarrow> u32 option" where
  "strrchr m s c = strrchr_loop m s c 0"

partial_function (option) strlen_loop :: "mem \<Rightarrow> u32 \<Rightarrow> u32 \<Rightarrow> u32 option" where
  "strlen_loop m s n = (if m s \<noteq> 0 then strlen_loop m (s + 1) (n + 1) else Some n)"

definition strlen :: "mem \<Rightarrow> u32 \<Rightarrow> u32 option" where
  "strlen m s = strlen_loop m s 0"

partial_function (option) strcmp :: "mem \<Rightarrow> u32 \<Rightarrow> u32 \<Rightarrow> int option" where
  "strcmp m s1 s2 =
     (if m s1 = m s2 \<and> m s1 \<noteq> 0 then strcmp m (s1 + 1) (s2 + 1)
      else Some (sint (m s1) - sint (m s2)))"

fun strncmp :: "mem \<Rightarrow> u32 \<Rightarrow> u32 \<Rightarrow> nat \<Rightarrow> int" where
  "strncmp m s1 s2 0 = 0"
| "strncmp m s1 s2 (Suc n) =
     (if m s1 = m s2 \<and> m s1 \<noteq> 0 then strncmp m (s1 + 1) (s2 + 1) n
      else sint (m s1) - sint (m s2))"

definition strcat :: "u32 \<Rightarrow> u32 \<Rightarrow> mem \<Rightarrow> mem option" where
  "strcat dest src m = Option.bind (strlen m dest) (\<lambda>len. strcpy (dest + len) src m)"

fun strncat_loop :: "u32 \<Rightarrow> u32 \<Rightarrow> nat \<Rightarrow> mem \<Rightarrow> mem" where
  "strncat_loop d s 0 m = m(d := 0)"
| "strncat_loop d s (Suc n) m =
     (if m s \<noteq> 0 then strncat_loop (d + 1) (s + 1) n (m(d := m s)) else m(d := 0))"

definition strncat :: "u32 \<Rightarrow> u32 \<Rightarrow> nat \<Rightarrow> mem \<Rightarrow> mem option" where
  "strncat dest src n m = Option.bind (strlen m dest) (\<lambda>len. Some (strncat_loop (dest + len) src n m))"

fun memcmp :: "mem \<Rightarrow> u32 \<Rightarrow> u32 \<Rightarrow> nat \<Rightarrow> int" where
  "memcmp m c1 c2 0 = 0"
| "memcmp m c1 c2 (Suc n) =
     (if n > 0 \<and> m c1 = m c2 then memcmp m (c1 + 1) (c2 + 1) n else sint (m c1) - sint (m c2))"

fun memchr :: "mem \<Rightarrow> u32 \<Rightarrow> u8 \<Rightarrow> nat \<Rightarrow> u32" where
  "memchr m p c 0 = 0"
| "memchr m p c (Suc n) = (if m p = c then p else memchr m (p + 1) c n)"

fun strnlen :: "mem \<Rightarrow> u32 \<Rightarrow> nat \<Rightarrow> nat" where
  "strnlen m s 0 = 0"
| "strnlen m s (Suc n) = (if m s \<noteq> 0 then Suc (strnlen m (s + 1) n) else 0)"

text \<open>The inner loop of \<open>strpbrk\<close> and \<open>strspn\<close>: the address where it stops, at the character or
  at the NUL.\<close>

partial_function (option) set_search :: "mem \<Rightarrow> u8 \<Rightarrow> u32 \<Rightarrow> u32 option" where
  "set_search m c a = (if m a \<noteq> 0 \<and> m a \<noteq> c then set_search m c (a + 1) else Some a)"

partial_function (option) strpbrk :: "mem \<Rightarrow> u32 \<Rightarrow> u32 \<Rightarrow> u32 option" where
  "strpbrk m cs ct =
     (if m cs = 0 then Some 0
      else Option.bind (set_search m (m cs) ct) (\<lambda>a. if m a \<noteq> 0 then Some cs else strpbrk m (cs + 1) ct))"

partial_function (option) strspn_loop :: "mem \<Rightarrow> u32 \<Rightarrow> u32 \<Rightarrow> u32 \<Rightarrow> u32 option" where
  "strspn_loop m p accept count =
     (if m p = 0 then Some count
      else Option.bind (set_search m (m p) accept) (\<lambda>a.
        if m a = 0 then Some count else strspn_loop m (p + 1) accept (count + 1)))"

definition strspn :: "mem \<Rightarrow> u32 \<Rightarrow> u32 \<Rightarrow> u32 option" where
  "strspn m s accept = strspn_loop m s accept 0"

text \<open>The loops of \<open>strstr\<close>, with \<open>s\<close> one behind the character that was read.\<close>

partial_function (option) strstr_loop :: "mem \<Rightarrow> u32 \<Rightarrow> u8 \<Rightarrow> u32 \<Rightarrow> nat \<Rightarrow> u32 option" where
  "strstr_loop m s c pat len =
     (let sc = m s; s = s + 1
      in if sc = 0 then Some 0
         else if sc \<noteq> c \<or> strncmp m s pat len \<noteq> 0 then strstr_loop m s c pat len
         else Some (s - 1))"

definition strstr :: "mem \<Rightarrow> u32 \<Rightarrow> u32 \<Rightarrow> u32 option" where
  "strstr m s pat =
     (let c = m pat; pat = pat + 1
      in if c \<noteq> 0 then Option.bind (strlen m pat) (\<lambda>len. strstr_loop m s c pat (unat len)) else Some s)"

text \<open>\<open>strtok\<close> keeps its place in the static variable \<open>___strtok\<close>: the pointer it returns, that
  variable and the memory.\<close>

definition strtok :: "u32 \<Rightarrow> u32 \<Rightarrow> u32 \<Rightarrow> mem \<Rightarrow> (u32 \<times> u32 \<times> mem) option" where
  "strtok s ct saved m =
     (let sbegin = (if s \<noteq> 0 then s else saved)
      in if sbegin = 0 then Some (0, saved, m)
         else Option.bind (strspn m sbegin ct) (\<lambda>n.
           let sbegin = sbegin + n
           in if m sbegin = 0 then Some (0, 0, m)
              else Option.bind (strpbrk m sbegin ct) (\<lambda>send.
                if send \<noteq> 0 \<and> m send \<noteq> 0 then Some (sbegin, send + 1, m(send := 0))
                else Some (sbegin, send, m))))"

definition charmap :: bytes where
  "charmap = [
    0x00, 0x01, 0x02, 0x03, 0x04, 0x05, 0x06, 0x07, 0x08, 0x09, 0x0A, 0x0B, 0x0C, 0x0D, 0x0E, 0x0F,
    0x10, 0x11, 0x12, 0x13, 0x14, 0x15, 0x16, 0x17, 0x18, 0x19, 0x1A, 0x1B, 0x1C, 0x1D, 0x1E, 0x1F,
    0x20, 0x21, 0x22, 0x23, 0x24, 0x25, 0x26, 0x27, 0x28, 0x29, 0x2A, 0x2B, 0x2C, 0x2D, 0x2E, 0x2F,
    0x30, 0x31, 0x32, 0x33, 0x34, 0x35, 0x36, 0x37, 0x38, 0x39, 0x3A, 0x3B, 0x3C, 0x3D, 0x3E, 0x3F,
    0x40, 0x61, 0x62, 0x63, 0x64, 0x65, 0x66, 0x67, 0x68, 0x69, 0x6A, 0x6B, 0x6C, 0x6D, 0x6E, 0x6F,
    0x70, 0x71, 0x72, 0x73, 0x74, 0x75, 0x76, 0x77, 0x78, 0x79, 0x7A, 0x5B, 0x5C, 0x5D, 0x5E, 0x5F,
    0x60, 0x61, 0x62, 0x63, 0x64, 0x65, 0x66, 0x67, 0x68, 0x69, 0x6A, 0x6B, 0x6C, 0x6D, 0x6E, 0x6F,
    0x70, 0x71, 0x72, 0x73, 0x74, 0x75, 0x76, 0x77, 0x78, 0x79, 0x7A, 0x7B, 0x7C, 0x7D, 0x7E, 0x7F,
    0x80, 0x81, 0x82, 0x83, 0x84, 0x85, 0x86, 0x87, 0x88, 0x89, 0x8A, 0x8B, 0x8C, 0x8D, 0x8E, 0x8F,
    0x90, 0x91, 0x92, 0x93, 0x94, 0x95, 0x96, 0x97, 0x98, 0x99, 0x9A, 0x9B, 0x9C, 0x9D, 0x9E, 0x9F,
    0xA0, 0xA1, 0xA2, 0xA3, 0xA4, 0xA5, 0xA6, 0xA7, 0xA8, 0xA9, 0xAA, 0xAB, 0xAC, 0xAD, 0xAE, 0xAF,
    0xB0, 0xB1, 0xB2, 0xB3, 0xB4, 0xB5, 0xB6, 0xB7, 0xB8, 0xB9, 0xBA, 0xBB, 0xBC, 0xBD, 0xBE, 0xBF,
    0xC0, 0xE1, 0xE2, 0xE3, 0xE4, 0xE5, 0xE6, 0xE7, 0xE8, 0xE9, 0xEA, 0xEB, 0xEC, 0xED, 0xEE, 0xEF,
    0xF0, 0xF1, 0xF2, 0xF3, 0xF4, 0xF5, 0xF6, 0xF7, 0xF8, 0xF9, 0xFA, 0xDB, 0xDC, 0xDD, 0xDE, 0xDF,
    0xE0, 0xE1, 0xE2, 0xE3, 0xE4, 0xE5, 0xE6, 0xE7, 0xE8, 0xE9, 0xEA, 0xEB, 0xEC, 0xED, 0xEE, 0xEF,
    0xF0, 0xF1, 0xF2, 0xF3, 0xF4, 0xF5, 0xF6, 0xF7, 0xF8, 0xF9, 0xFA, 0xFB, 0xFC, 0xFD, 0xFE, 0xFF]"

fun strncasecmp :: "mem \<Rightarrow> u32 \<Rightarrow> u32 \<Rightarrow> nat \<Rightarrow> int" where
  "strncasecmp m s1 s2 0 = 0"
| "strncasecmp m s1 s2 (Suc n) =
     (let u1 = m s1; u2 = m s2
      in if charmap ! unat u1 \<noteq> charmap ! unat u2 then uint (charmap ! unat u1) - uint (charmap ! unat u2)
         else if u1 = 0 then 0 else strncasecmp m (s1 + 1) (s2 + 1) n)"

subsection \<open>Strings in memory\<close>

primrec cstr_at :: "mem \<Rightarrow> u32 \<Rightarrow> bytes \<Rightarrow> bool" where
  "cstr_at m a [] \<longleftrightarrow> m a = 0"
| "cstr_at m a (c # cs) \<longleftrightarrow> m a = c \<and> c \<noteq> 0 \<and> cstr_at m (a + 1) cs"

lemma strlen_loop_eq: "cstr_at m a xs \<Longrightarrow> strlen_loop m a n = Some (n + of_nat (length xs))"
  by (induction xs arbitrary: a n) (simp_all add: strlen_loop.simps add_ac)

lemma strlen_eq: "cstr_at m a xs \<Longrightarrow> strlen m a = Some (of_nat (length xs))"
  by (simp add: strlen_def strlen_loop_eq)

lemma sint_eq: "sint a = sint b \<longleftrightarrow> a = b" "sint a = 0 \<longleftrightarrow> a = 0" for a b :: u8
  by (metis word_eq_iff_signed signed_0)+

lemma strcmp_eq:
  "cstr_at m a xs \<Longrightarrow> cstr_at m b ys \<Longrightarrow> \<exists>r. strcmp m a b = Some r \<and> (r = 0 \<longleftrightarrow> xs = ys)"
proof (induction xs arbitrary: a b ys)
  case Nil
  then show ?case by (cases ys) (auto simp: strcmp.simps sint_eq)
next
  case (Cons x xs)
  then show ?case by (cases ys) (auto simp: strcmp.simps [of m a b] sint_eq)
qed

lemma strncmp_prefix:
  "cstr_at m a xs \<Longrightarrow> cstr_at m b ys \<Longrightarrow> strncmp m a b (length ys) = 0 \<longleftrightarrow> take (length ys) xs = ys"
proof (induction ys arbitrary: a b xs)
  case (Cons y ys)
  then show ?case by (cases xs) (auto simp: sint_eq)
qed simp

lemma strchr_eq:
  "cstr_at m a xs \<Longrightarrow> c \<noteq> 0 \<Longrightarrow>
   strchr m a c = Some (if c \<in> set xs then a + of_nat (length (takeWhile (\<lambda>b. b \<noteq> c) xs)) else 0)"
  by (induction xs arbitrary: a) (auto simp: strchr.simps)

text \<open>The first place of one list in another.\<close>

definition occurs_at :: "bytes \<Rightarrow> bytes \<Rightarrow> nat \<Rightarrow> bool" where
  "occurs_at ys xs i \<longleftrightarrow> i \<le> length xs \<and> take (length ys) (drop i xs) = ys"

lemma occurs_at_Cons:
  "occurs_at (y # ys) (x # xs) 0 \<longleftrightarrow> x = y \<and> take (length ys) xs = ys"
  "occurs_at ys (x # xs) (Suc i) \<longleftrightarrow> occurs_at ys xs i"
  "\<not> occurs_at (y # ys) [] i"
  by (auto simp: occurs_at_def)

lemma strstr_loop_first:
  assumes "cstr_at m p ys"
  shows "cstr_at m a xs \<Longrightarrow>
     (\<exists>i. strstr_loop m a y p (length ys) = Some (a + of_nat i) \<and> occurs_at (y # ys) xs i \<and> (\<forall>j<i. \<not> occurs_at (y # ys) xs j)) \<or>
     strstr_loop m a y p (length ys) = Some 0 \<and> (\<forall>j. \<not> occurs_at (y # ys) xs j)"
proof (induction xs arbitrary: a)
  case Nil
  then show ?case by (simp add: strstr_loop.simps occurs_at_Cons)
next
  case (Cons x xs)
  have xs: "cstr_at m (a + 1) xs" "m a = x" "x \<noteq> 0" using Cons.prems by simp_all
  show ?case
  proof (cases "x = y \<and> take (length ys) xs = ys")
    case True
    then have "strstr_loop m a y p (length ys) = Some (a + of_nat 0)"
      using xs strncmp_prefix [OF xs(1) assms] by (simp add: strstr_loop.simps [of m a])
    then show ?thesis using True by (intro disjI1 exI [of _ 0]) (simp add: occurs_at_Cons)
  next
    case False
    then have e: "strstr_loop m a y p (length ys) = strstr_loop m (a + 1) y p (length ys)"
      using xs strncmp_prefix [OF xs(1) assms] by (subst strstr_loop.simps) auto
    from Cons.IH [OF xs(1)] show ?thesis
    proof
      assume "\<exists>i. strstr_loop m (a + 1) y p (length ys) = Some (a + 1 + of_nat i) \<and>
        occurs_at (y # ys) xs i \<and> (\<forall>j<i. \<not> occurs_at (y # ys) xs j)"
      then obtain i where "strstr_loop m (a + 1) y p (length ys) = Some (a + 1 + of_nat i)"
        "occurs_at (y # ys) xs i" "\<forall>j<i. \<not> occurs_at (y # ys) xs j" by auto
      then show ?thesis
        using False by (intro disjI1 exI [of _ "Suc i"]) (auto simp: e occurs_at_Cons less_Suc_eq_0_disj add_ac)
    next
      assume "strstr_loop m (a + 1) y p (length ys) = Some 0 \<and> (\<forall>j. \<not> occurs_at (y # ys) xs j)"
      then show ?thesis
        using False by (intro disjI2 conjI allI) (simp add: e, metis occurs_at_Cons(1,2) not0_implies_Suc)
    qed
  qed
qed

lemma strstr_first:
  assumes "cstr_at m a xs" "cstr_at m p ys" "length ys < 2 ^ 32"
  shows "(\<exists>i. strstr m a p = Some (a + of_nat i) \<and> occurs_at ys xs i \<and> (\<forall>j<i. \<not> occurs_at ys xs j)) \<or>
    strstr m a p = Some 0 \<and> (\<forall>j. \<not> occurs_at ys xs j)"
proof (cases ys)
  case Nil
  then have "strstr m a p = Some (a + of_nat 0)" using assms(2) by (simp add: strstr_def)
  then show ?thesis using Nil by (intro disjI1 exI [of _ 0]) (simp add: occurs_at_def)
next
  case (Cons y zs)
  then have p: "cstr_at m (p + 1) zs" "m p = y" "y \<noteq> 0" using assms(2) by simp_all
  then have "strstr m a p = strstr_loop m a y (p + 1) (length zs)"
    using assms(3) Cons by (simp add: strstr_def strlen_eq unat_of_nat)
  then show ?thesis using strstr_loop_first [OF p(1) assms(1), of y] by (simp add: Cons)
qed

lemma set_search_eq:
  "cstr_at m a ds \<Longrightarrow> c \<noteq> 0 \<Longrightarrow> \<exists>b. set_search m c a = Some b \<and> (m b \<noteq> 0 \<longleftrightarrow> c \<in> set ds)"
  by (induction ds arbitrary: a) (auto simp: set_search.simps)

lemma strspn_loop_eq:
  assumes "cstr_at m ct ds"
  shows "cstr_at m a xs \<Longrightarrow>
    strspn_loop m a ct n = Some (n + of_nat (length (takeWhile (\<lambda>c. c \<in> set ds) xs)))"
proof (induction xs arbitrary: a n)
  case (Cons x xs)
  then show ?case using set_search_eq [OF assms, of x] by (subst strspn_loop.simps) (auto simp: add_ac)
qed (simp add: strspn_loop.simps)

lemma strpbrk_eq:
  assumes "cstr_at m ct ds"
  shows "cstr_at m a xs \<Longrightarrow> strpbrk m a ct =
    Some (if dropWhile (\<lambda>c. c \<notin> set ds) xs = [] then 0 else a + of_nat (length (takeWhile (\<lambda>c. c \<notin> set ds) xs)))"
proof (induction xs arbitrary: a)
  case (Cons x xs)
  then show ?case using set_search_eq [OF assms, of x] by (subst strpbrk.simps) (auto simp: add_ac)
qed (simp add: strpbrk.simps)

lemma cstr_at_nonzero: "cstr_at m a xs \<Longrightarrow> 0 \<notin> set xs"
  by (induction xs arbitrary: a) auto

lemma cstr_at_drop: "cstr_at m a xs \<Longrightarrow> n \<le> length xs \<Longrightarrow> cstr_at m (a + of_nat n) (drop n xs)"
proof (induction n arbitrary: a xs)
  case (Suc n)
  then obtain x ys where xs: "xs = x # ys" by (cases xs) auto
  then show ?case using Suc.IH [of "a + 1" ys] Suc.prems by (simp add: add_ac)
qed simp

text \<open>Ending a string early.\<close>

lemma cstr_at_cut:
  "cstr_at m a xs \<Longrightarrow> n \<le> length xs \<Longrightarrow> n < 2 ^ 32 \<Longrightarrow> cstr_at (m(a + of_nat n := 0)) a (take n xs)"
proof (induction n arbitrary: a xs)
  case (Suc n)
  then obtain x ys where xs: "xs = x # ys" by (cases xs) auto
  have "(of_nat (Suc n) :: u32) \<noteq> 0" using Suc.prems(3) by (simp add: word_of_nat_eq_0_iff nat_dvd_not_less del: of_nat_Suc)
  then have "a + of_nat (Suc n) \<noteq> a" by (metis add_cancel_left_right)
  then show ?case using Suc.IH [of "a + 1" ys] Suc.prems by (simp add: xs add_ac)
qed (cases xs, simp_all)

lemma cstr_at_other: "cstr_at m a xs \<Longrightarrow> (\<forall>i \<le> length xs. a + of_nat i \<noteq> b) \<Longrightarrow> cstr_at (m(b := v)) a xs"
proof (induction xs arbitrary: a)
  case (Cons x xs)
  have "a + 1 + of_nat i \<noteq> b" if "i \<le> length xs" for i
    using Cons.prems(2) [rule_format, of "Suc i"] that by (simp add: add_ac)
  then show ?case using Cons.IH [of "a + 1"] Cons.prems(1) Cons.prems(2) [rule_format, of 0] by simp
qed auto

text \<open>The pieces \<open>strtok\<close> cuts a string into.\<close>

definition tok_skip :: "bytes \<Rightarrow> bytes \<Rightarrow> bytes" where
  "tok_skip ds xs = dropWhile (\<lambda>c. c \<in> set ds) xs"

definition tok_word :: "bytes \<Rightarrow> bytes \<Rightarrow> bytes" where
  "tok_word ds xs = takeWhile (\<lambda>c. c \<notin> set ds) (tok_skip ds xs)"

lemma addr_nonzero: "unat a + i < 2 ^ 32 \<Longrightarrow> 0 < unat a + i \<Longrightarrow> a + of_nat i \<noteq> (0 :: u32)"
proof -
  assume a: "unat a + i < 2 ^ 32" "0 < unat a + i"
  then have "unat (a + of_nat i) = unat a + i" by (simp add: unat_word_ariths unat_of_nat)
  then show ?thesis using a(2) by (metis unat_0 less_numeral_extra(3))
qed

lemma addr_distinct: "i < j \<Longrightarrow> j < 2 ^ 32 \<Longrightarrow> a + of_nat i \<noteq> (a + of_nat j :: u32)"
proof -
  assume "i < j" "j < 2 ^ 32"
  then have "unat (of_nat i :: u32) \<noteq> unat (of_nat j :: u32)" by (simp add: unat_of_nat)
  then show ?thesis by auto
qed

lemma strtok_start:
  assumes "cstr_at m s xs" "cstr_at m ct ds" "s \<noteq> 0"
  shows "strtok s ct saved m =
    (let n = length xs - length (tok_skip ds xs); b = s + of_nat n
     in if tok_skip ds xs = [] then Some (0, 0, m)
        else Option.bind (strpbrk m b ct) (\<lambda>send. if send \<noteq> 0 \<and> m send \<noteq> 0 then Some (b, send + 1, m(send := 0)) else Some (b, send, m)))"
    "cstr_at m (s + of_nat (length xs - length (tok_skip ds xs))) (tok_skip ds xs)"
proof -
  let ?w = "takeWhile (\<lambda>c. c \<in> set ds) xs"
  have l: "length ?w = length xs - length (tok_skip ds xs)"
    by (simp add: tok_skip_def) (metis add_diff_cancel_right' length_append takeWhile_dropWhile_id)
  have "drop (length ?w) xs = tok_skip ds xs"
    by (simp add: tok_skip_def dropWhile_eq_drop)
  then show c: "cstr_at m (s + of_nat (length xs - length (tok_skip ds xs))) (tok_skip ds xs)"
    using cstr_at_drop [OF assms(1), of "length ?w"] l by (simp add: length_takeWhile_le)
  have "strspn m s ct = Some (of_nat (length xs - length (tok_skip ds xs)))"
    using strspn_loop_eq [OF assms(2,1), of 0] by (simp add: strspn_def l)
  moreover have "m (s + of_nat (length xs - length (tok_skip ds xs))) = 0 \<longleftrightarrow> tok_skip ds xs = []"
    using c by (cases "tok_skip ds xs") auto
  ultimately show "strtok s ct saved m =
    (let n = length xs - length (tok_skip ds xs); b = s + of_nat n
     in if tok_skip ds xs = [] then Some (0, 0, m)
        else Option.bind (strpbrk m b ct) (\<lambda>send. if send \<noteq> 0 \<and> m send \<noteq> 0 then Some (b, send + 1, m(send := 0)) else Some (b, send, m)))"
    using assms(3) by (simp add: strtok_def Let_def)
qed

lemma strtok_token:
  assumes "cstr_at m s xs" "cstr_at m ct ds" "s \<noteq> 0" "unat s + length xs < 2 ^ 32" "tok_skip ds xs \<noteq> []"
  shows "\<exists>b saved' m'. strtok s ct saved m = Some (b, saved', m') \<and> cstr_at m' b (tok_word ds xs) \<and>
    (if tok_word ds xs = tok_skip ds xs then saved' = 0
     else cstr_at m' saved' (drop (Suc (length (tok_word ds xs))) (tok_skip ds xs)))"
proof -
  let ?k = "tok_skip ds xs" and ?w = "tok_word ds xs"
  define n where "n = length xs - length ?k"
  have k: "length ?k \<le> length xs" by (simp add: tok_skip_def length_dropWhile_le)
  have b: "cstr_at m (s + of_nat n) ?k" using strtok_start(2) [OF assms(1-3)] by (simp add: n_def)
  have w: "dropWhile (\<lambda>c. c \<notin> set ds) ?k = [] \<longleftrightarrow> ?w = ?k" "length ?w \<le> length ?k" "take (length ?w) ?k = ?w"
    by (simp_all add: tok_word_def length_takeWhile_le takeWhile_eq_all_conv flip: takeWhile_eq_take)
  have send: "strpbrk m (s + of_nat n) ct = Some (if ?w = ?k then 0 else s + of_nat n + of_nat (length ?w))"
    using strpbrk_eq [OF assms(2) b] unfolding w(1) by (simp only: tok_word_def)
  show ?thesis
  proof (cases "?w = ?k")
    case True
    then show ?thesis using strtok_start(1) [OF assms(1-3), of saved] send b assms(5) by (simp add: Let_def n_def)
  next
    case False
    let ?e = "s + of_nat n + of_nat (length ?w)"
    have lt: "length ?w < length ?k" using w False by (metis le_neq_implies_less take_all_iff order_refl)
    have "?e = s + of_nat (n + length ?w)" by simp
    moreover have "unat s \<noteq> 0" using assms(3) by (simp add: unat_eq_zero)
    moreover have "n + length ?w < length xs" using lt k by (simp add: n_def)
    ultimately have e0: "?e \<noteq> 0"
      using addr_nonzero [of s "n + length ?w"] assms(4) by (simp only: add_gr_0 neq0_conv) simp
    have "m ?e \<noteq> 0" using cstr_at_drop [OF b w(2)] lt by (cases "drop (length ?w) ?k") auto
    then have eq: "strtok s ct saved m = Some (s + of_nat n, ?e + 1, m(?e := 0))"
      using strtok_start(1) [OF assms(1-3), of saved] send False e0 assms(5) by (simp add: Let_def n_def)
    have c1: "cstr_at (m(?e := 0)) (s + of_nat n) ?w"
      using cstr_at_cut [OF b w(2)] w(2,3) k assms(4) by simp
    have "cstr_at m (?e + 1) (drop (Suc (length ?w)) ?k)"
      using cstr_at_drop [OF b, of "Suc (length ?w)"] lt by (simp add: add_ac)
    then have "cstr_at (m(?e := 0)) (?e + 1) (drop (Suc (length ?w)) ?k)"
    proof (rule cstr_at_other, intro allI impI)
      fix i assume "i \<le> length (drop (Suc (length ?w)) ?k)"
      then have "Suc i < 2 ^ 32" using lt k assms(4) by simp
      then show "?e + 1 + of_nat i \<noteq> ?e" using addr_distinct [of 0 "Suc i" ?e] by (auto simp: add_ac)
    qed
    with eq c1 False show ?thesis by auto
  qed
qed

text \<open>The table folds the letters of ASCII and those of Latin-1 from 0xC1 to 0xDA.\<close>

definition fold_case :: "u8 \<Rightarrow> u8" where
  "fold_case u = (if 0x41 \<le> u \<and> u \<le> 0x5A \<or> 0xC1 \<le> u \<and> u \<le> 0xDA then u + 32 else u)"

lemma charmap_list: "charmap = map (\<lambda>i. fold_case (word_of_nat i)) [0..<256]"
  by code_simp

lemma charmap_fold_case: "charmap ! unat u = fold_case u"
  by (simp add: charmap_list)

lemma fold_case_0: "fold_case u = 0 \<longleftrightarrow> u = 0"
proof -
  have "list_all (\<lambda>i. fold_case (word_of_nat i) = 0 \<longleftrightarrow> i = 0) [0..<256]" by code_simp
  then have "fold_case (word_of_nat (unat u)) = 0 \<longleftrightarrow> unat u = 0"
    unfolding list_all_iff by (rule bspec) simp
  then show ?thesis by (simp add: unat_eq_zero)
qed

lemma strncasecmp_step:
  "strncasecmp m a b (Suc n) = 0 \<longleftrightarrow>
     fold_case (m a) = fold_case (m b) \<and> (m a = 0 \<or> strncasecmp m (a + 1) (b + 1) n = 0)"
  unfolding strncasecmp.simps charmap_fold_case Let_def by (auto simp: word_uint_eq_iff)

lemma strncasecmp_eq:
  "cstr_at m a xs \<Longrightarrow> cstr_at m b ys \<Longrightarrow>
   strncasecmp m a b n = 0 \<longleftrightarrow> map fold_case (take n xs) = map fold_case (take n ys)"
proof (induction n arbitrary: a b xs ys)
  case (Suc n)
  have z: "fold_case 0 = 0" "0 = fold_case u \<longleftrightarrow> u = 0" for u
    using fold_case_0 [of u] fold_case_0 [of 0] by auto
  show ?case
    using Suc by (cases xs; cases ys) (auto simp: strncasecmp_step fold_case_0 z simp del: strncasecmp.simps)
qed simp

section \<open>Properties\<close>

text \<open>Bytes at and above 0x80 count as negative in a comparison of memory.\<close>

lemma memcmp_signed_order: "memcmp ((\<lambda>_. 0)(0 := 0x80, 1 := 0x01)) 0 1 1 < 0"
  by code_simp

text \<open>(C37) The block functions are correct at the level of the whole block. \<open>memmove\<close> of up to half the
  address space gives every destination byte the value its source byte had before, and changes
  nothing else, however source and destination overlap. The aligned, word-wise \<open>memcpy\<close> does the
  same whenever the destination does not start inside the source (or they coincide), whatever the
  alignment and size. \<open>memset\<close> fills exactly the block with the low byte of its argument.\<close>

theorem memory_blocks:
  "(n \<le> 2 ^ 31 \<longrightarrow> memmove d s n m = (\<lambda>a. if a - d < n then m (s + (a - d)) else m a)) \<and>
   (d = s \<or> n \<le> d - s \<longrightarrow> memcpy d s n m = (\<lambda>a. if a - d < n then m (s + (a - d)) else m a)) \<and>
   memset d c n m = (\<lambda>a. if a - d < n then ucast c else m a)"
  by (simp add: memmove_eq memcpy_eq memset_eq mem_copy_def mem_fill_def word_less_nat_alt)

theorem memory_blocks_witness:
  "memmove 2 0 4 ((\<lambda>_. 0)(0 := 1, 1 := 2, 2 := 3, 3 := 4)) 5 = 4 \<and>
   memcpy 4 0 4 ((\<lambda>_. 0)(0 := 1, 1 := 2, 2 := 3, 3 := 4)) 7 = 4"
  using memory_blocks [of 4 2 0 "(\<lambda>_. 0)(0 := 1, 1 := 2, 2 := 3, 3 := 4)"]
    memory_blocks [of 4 4 0 "(\<lambda>_. 0)(0 := 1, 1 := 2, 2 := 3, 3 := 4)"] by simp

end
