(* ===== verification/Libc_Number.thy ===== *)
theory Libc_Number
  imports Prelude
begin

text \<open>Numbers and text in the C library: the character classes (\<open>src/lib/libc/minimal/include/ctype.h\<close>),
  the digit conversions of the formatter (\<open>prf.c\<close>) and the parsers \<open>strtol\<close>, \<open>strtoul\<close> and \<open>atoi\<close>.
  A string is the list of its characters without the terminating NUL; a pointer into it is the rest
  of the list, and reading at its end gives the NUL.

  Shown: what the formatter prints for an integer, the parsers read back; \<open>strtol\<close> saturates.\<close>

section \<open>Character classes\<close>

text \<open>The argument is the character after promotion to \<open>int\<close>; the functions compute on it as
  unsigned.\<close>

definition isupper :: "u32 \<Rightarrow> bool" where "isupper a \<longleftrightarrow> a - 0x41 < 26"

definition isalpha :: "u32 \<Rightarrow> bool" where "isalpha c \<longleftrightarrow> (c OR 32) - 0x61 < 26"

definition isspace :: "u32 \<Rightarrow> bool" where "isspace c \<longleftrightarrow> c = 0x20 \<or> c - 9 < 5"

definition isdigit :: "u32 \<Rightarrow> bool" where "isdigit a \<longleftrightarrow> a - 0x30 < 10"

definition isxdigit :: "u32 \<Rightarrow> bool" where
  "isxdigit ua \<longleftrightarrow> ua - 0x30 < 10 \<or> ua - 0x61 < 6 \<or> ua - 0x41 < 6"

definition isgraph :: "u32 \<Rightarrow> bool" where "isgraph c \<longleftrightarrow> c > 0x20 \<and> c \<le> 0x7E"

definition isprint :: "u32 \<Rightarrow> bool" where "isprint c \<longleftrightarrow> c \<ge> 0x20 \<and> c \<le> 0x7E"

definition isalnum :: "u32 \<Rightarrow> bool" where "isalnum chr \<longleftrightarrow> isalpha chr \<or> isdigit chr"

text \<open>The promotion of a \<open>char\<close>, which is signed.\<close>

definition promote :: "u8 \<Rightarrow> u32" where "promote c = scast c"

text \<open>\<open>*s\<close> at a pointer.\<close>

definition peek :: "bytes \<Rightarrow> u8" where "peek s = (case s of [] \<Rightarrow> 0 | c # _ \<Rightarrow> c)"

section \<open>Printing digits\<close>

text \<open>The loop of \<open>_to_x\<close>, least digit first.\<close>

definition digit_char :: "nat \<Rightarrow> u8" where
  "digit_char d = word_of_nat (0x30 + d + (if d > 9 then 0x61 - 0x30 - 10 else 0))"

function to_x_loop :: "nat \<Rightarrow> nat \<Rightarrow> bytes" where
  "to_x_loop n base =
     (if base < 2 then []
      else digit_char (n mod base) # (if n div base \<noteq> 0 then to_x_loop (n div base) base else []))"
  by auto
termination
  by (relation "measure fst") (auto intro!: div_less_dividend gr0I)

declare to_x_loop.simps [simp del]

definition reverse_and_pad :: "bytes \<Rightarrow> int \<Rightarrow> bytes" where
  "reverse_and_pad ds minlen = rev (ds @ replicate (nat minlen - length ds) 0x30)"

definition to_x :: "u32 \<Rightarrow> nat \<Rightarrow> int \<Rightarrow> bytes" where
  "to_x n base minlen = reverse_and_pad (to_x_loop (unat n) base) minlen"

definition uc :: "bytes \<Rightarrow> bytes" where
  "uc buf = map (\<lambda>c. if 0x61 \<le> c \<and> c \<le> 0x7A then c + (0x41 - 0x61) else c) buf"

definition to_hex :: "u32 \<Rightarrow> bool \<Rightarrow> int \<Rightarrow> u8 \<Rightarrow> bytes" where
  "to_hex value alt_form precision prefix =
     (let buf = (if alt_form then [0x30, 0x78] else []) @ to_x value 16 precision
      in if prefix = 0x58 then uc buf else buf)"

definition to_octal :: "u32 \<Rightarrow> bool \<Rightarrow> int \<Rightarrow> bytes" where
  "to_octal value alt_form precision =
     (if alt_form then if value = 0 then [0x30] else 0x30 # to_x value 8 precision
      else to_x value 8 precision)"

definition to_udec :: "u32 \<Rightarrow> int \<Rightarrow> bytes" where
  "to_udec value precision = to_x value 10 precision"

definition to_dec :: "u32 \<Rightarrow> bool \<Rightarrow> bool \<Rightarrow> int \<Rightarrow> bytes" where
  "to_dec value fplus fspace precision =
     (if sint value < 0
      then 0x2D # to_udec (if value \<noteq> 0x80000000 then - value else value) precision
      else (if fplus then [0x2B] else if fspace then [0x20] else []) @ to_udec value precision)"

section \<open>Parsing numbers\<close>

text \<open>A character as a digit, if it is one in any base.\<close>

definition digit_value :: "u32 \<Rightarrow> u32 option" where
  "digit_value c =
     (if isdigit c then Some (c - 0x30)
      else if isalpha c then Some (c - (if isupper c then 0x41 - 10 else 0x61 - 10))
      else None)"

fun strtol_loop :: "u32 \<Rightarrow> u32 \<Rightarrow> u32 \<Rightarrow> bytes \<Rightarrow> u32 \<Rightarrow> int \<Rightarrow> u32 \<times> int \<times> bytes" where
  "strtol_loop base cutoff cutlim [] acc any = (acc, any, [])"
| "strtol_loop base cutoff cutlim (c # s) acc any =
     (case digit_value (promote c) of None \<Rightarrow> (acc, any, c # s)
      | Some d \<Rightarrow>
          if d \<ge> base then (acc, any, c # s)
          else if any < 0 \<or> acc > cutoff \<or> acc = cutoff \<and> d > cutlim
          then strtol_loop base cutoff cutlim s acc (- 1)
          else strtol_loop base cutoff cutlim s (acc * base + d) 1)"

text \<open>White space, the sign and the prefix of a hexadecimal number: the sign, the base and the rest.\<close>

definition strtol_prefix :: "bytes \<Rightarrow> u32 \<Rightarrow> bool \<times> u32 \<times> bytes" where
  "strtol_prefix nptr base =
     (let s = dropWhile (\<lambda>c. isspace (promote c)) nptr;
          (neg, s) = (if peek s = 0x2D then (True, tl s) else if peek s = 0x2B then (False, tl s) else (False, s));
          (base, s) = (if (base = 0 \<or> base = 16) \<and> peek s = 0x30 \<and> (peek (tl s) = 0x78 \<or> peek (tl s) = 0x58)
                       then (16, drop 2 s) else (base, s));
          base = (if base = 0 then if peek s = 0x30 then 8 else 10 else base)
      in (neg, base, s))"

text \<open>The value, where the number ends, and whether \<open>errno\<close> was set to \<open>ERANGE\<close>.\<close>

definition strtol :: "bytes \<Rightarrow> u32 \<Rightarrow> u32 \<times> bytes \<times> bool" where
  "strtol nptr base =
     (let (neg, base, s) = strtol_prefix nptr base;
          cutoff = (if neg then 0x80000000 else 0x7FFFFFFF);
          cutlim = cutoff mod base;
          cutoff = cutoff div base;
          (acc, any, s) = strtol_loop base cutoff cutlim s 0 0;
          (acc, erange) = (if any < 0 then (if neg then 0x80000000 else 0x7FFFFFFF, True)
                           else if neg then (- acc, False) else (acc, False))
      in (acc, if any \<noteq> 0 then s else nptr, erange))"

definition strtoul :: "bytes \<Rightarrow> u32 \<Rightarrow> u32 \<times> bytes \<times> bool" where
  "strtoul nptr base =
     (let (neg, base, s) = strtol_prefix nptr base;
          cutoff = 0xFFFFFFFF div base;
          cutlim = 0xFFFFFFFF mod base;
          (acc, any, s) = strtol_loop base cutoff cutlim s 0 0;
          (acc, erange) = (if any < 0 then (0xFFFFFFFF, True)
                           else if neg then (- acc, False) else (acc, False))
      in (acc, if any \<noteq> 0 then s else nptr, erange))"

fun atoi_loop :: "bytes \<Rightarrow> u32 \<Rightarrow> u32" where
  "atoi_loop [] n = n"
| "atoi_loop (c # s) n = (if isdigit (promote c) then atoi_loop s (10 * n - (promote c - 0x30)) else n)"

definition atoi :: "bytes \<Rightarrow> u32" where
  "atoi s =
     (let s = dropWhile (\<lambda>c. isspace (promote c)) s;
          (neg, s) = (if peek s = 0x2D then (True, tl s) else if peek s = 0x2B then (False, tl s) else (False, s));
          n = atoi_loop s 0
      in if neg then n else - n)"

section \<open>Digit strings and their values\<close>

definition num_value :: "nat \<Rightarrow> nat \<Rightarrow> nat list \<Rightarrow> nat" where
  "num_value base acc ds = foldl (\<lambda>a d. a * base + d) acc ds"

lemma num_value_simps [simp]:
  "num_value base acc [] = acc" "num_value base acc (d # ds) = num_value base (acc * base + d) ds"
  "num_value base acc (ds @ es) = num_value base (num_value base acc ds) es"
  by (simp_all add: num_value_def)

lemma num_value_ge: "0 < base \<Longrightarrow> acc \<le> num_value base acc ds"
proof (induction ds arbitrary: acc)
  case (Cons d ds)
  then have "acc \<le> acc * base + d" by (simp add: trans_le_add1)
  also have "\<dots> \<le> num_value base (acc * base + d) ds" using Cons by simp
  finally show ?case by simp
qed simp

lemma num_value_linear: "num_value base acc ds = acc * base ^ length ds + num_value base 0 ds"
proof (induction ds arbitrary: acc)
  case (Cons d ds)
  show ?case using Cons.IH [of "acc * base + d"] Cons.IH [of d] by (simp add: algebra_simps)
qed simp

text \<open>The digits at the front of a string.\<close>

fun digits_of :: "nat \<Rightarrow> bytes \<Rightarrow> nat list" where
  "digits_of base [] = []"
| "digits_of base (c # s) =
     (case digit_value (promote c) of None \<Rightarrow> []
      | Some d \<Rightarrow> if unat d < base then unat d # digits_of base s else [])"

lemma cut_iff:
  fixes acc base L d :: nat
  assumes "d < base"
  shows "acc > L div base \<or> acc = L div base \<and> d > L mod base \<longleftrightarrow> acc * base + d > L"
proof -
  have L: "L = L div base * base + L mod base" by simp
  have m: "L mod base < base" using assms by simp
  show ?thesis
  proof (cases "acc = L div base")
    case True
    then show ?thesis using L by (metis add_less_cancel_left less_irrefl)
  next
    case False
    then consider "acc < L div base" | "acc > L div base" by linarith
    then show ?thesis
    proof cases
      case 1
      then have "(acc + 1) * base \<le> L div base * base" by (intro mult_le_mono1) simp
      also have "L div base * base \<le> L" by simp
      finally show ?thesis using assms 1 by (simp add: algebra_simps)
    next
      case 2
      then have "(L div base + 1) * base \<le> acc * base" by (intro mult_le_mono1) simp
      moreover have "L < (L div base + 1) * base" using m L by (metis add_less_cancel_left distrib_right mult_1)
      ultimately show ?thesis using 2 by linarith
    qed
  qed
qed

lemma strtol_loop_overflow:
  assumes "2 \<le> unat base"
  shows "\<exists>acc'. strtol_loop base cutoff cutlim s acc (- 1) = (acc', - 1, drop (length (digits_of (unat base) s)) s)"
  by (induction s arbitrary: acc) (auto split: option.split simp: word_less_nat_alt word_le_nat_alt)

lemma strtol_loop_spec:
  assumes "2 \<le> unat base" "unat acc \<le> unat L" "any \<ge> 0"
  shows "\<exists>acc'. strtol_loop base (L div base) (L mod base) s acc any =
    (acc', if num_value (unat base) (unat acc) (digits_of (unat base) s) \<le> unat L
           then if digits_of (unat base) s = [] then any else 1 else - 1,
     drop (length (digits_of (unat base) s)) s) \<and>
    (num_value (unat base) (unat acc) (digits_of (unat base) s) \<le> unat L \<longrightarrow>
     unat acc' = num_value (unat base) (unat acc) (digits_of (unat base) s))"
  using assms
proof (induction s arbitrary: acc any)
  case (Cons c s)
  let ?b = "unat base" and ?q = "L div base" and ?r = "L mod base"
  show ?case
  proof (cases "\<exists>d. digit_value (promote c) = Some d \<and> d < base")
    case True
    then obtain d where d: "digit_value (promote c) = Some d" "unat d < ?b" by (auto simp: word_less_nat_alt)
    then have db: "\<not> d \<ge> base" by (simp add: word_le_nat_alt)
    have ds: "digits_of ?b (c # s) = unat d # digits_of ?b s" using d by simp
    have cut: "acc > ?q \<or> acc = ?q \<and> d > ?r \<longleftrightarrow> unat acc * ?b + unat d > unat L"
      unfolding cut_iff [OF d(2), symmetric] by (simp add: word_less_nat_alt word_unat_eq_iff unat_div unat_mod)
    show ?thesis
    proof (cases "unat acc * ?b + unat d > unat L")
      case True
      moreover have "unat acc * ?b + unat d \<le> num_value ?b (unat acc * ?b + unat d) (digits_of ?b s)"
        using Cons.prems(1) by (intro num_value_ge) simp
      ultimately show ?thesis
        using strtol_loop_overflow [OF Cons.prems(1), of ?q ?r s acc] d(1) db cut Cons.prems(3) unfolding ds by auto
    next
      case False
      then have "unat acc * ?b + unat d < 2 ^ 32" using le_less_trans [OF _ unat_u32_less [of L]] by simp
      then have u: "unat (acc * base + d) = unat acc * ?b + unat d" by (simp add: unat_word_ariths)
      have e: "strtol_loop base ?q ?r (c # s) acc any = strtol_loop base ?q ?r s (acc * base + d) 1"
        using d(1) db cut False Cons.prems(3) by auto
      show ?thesis
        using Cons.IH [of "acc * base + d" 1] False Cons.prems(1) unfolding ds e u by auto
    qed
  next
    case False
    then show ?thesis using Cons.prems by (auto split: option.split simp: word_less_nat_alt word_le_nat_alt)
  qed
qed simp

subsection \<open>What the formatter prints\<close>

lemma digit_char_value:
  assumes "d < 36"
  shows "digit_value (promote (digit_char d)) = Some (word_of_nat d)"
proof -
  have "list_all (\<lambda>d. digit_value (promote (digit_char d)) = Some (word_of_nat d)) [0..<36]" by code_simp
  then show ?thesis using assms by (simp add: list_all_iff)
qed

lemma digits_of_digit_chars:
  assumes "base \<le> 36" "\<forall>d \<in> set ds. d < base" "\<forall>d. digit_value (promote (peek s)) = Some d \<longrightarrow> base \<le> unat d"
  shows "digits_of base (map digit_char ds @ s) = ds"
  using assms(2)
proof (induction ds)
  case Nil
  then show ?case using assms(3) by (cases s) (auto simp: peek_def split: option.split)
next
  case (Cons d ds)
  have "unat (word_of_nat d :: u32) = d" using Cons.prems assms(1) by (simp add: unat_of_nat)
  then show ?case using Cons assms(1) by (simp add: digit_char_value)
qed

text \<open>The digits of a number, most significant first.\<close>

function num_digits :: "nat \<Rightarrow> nat \<Rightarrow> nat list" where
  "num_digits base n = (if base < 2 then [] else (if n div base \<noteq> 0 then num_digits base (n div base) else []) @ [n mod base])"
  by auto
termination
  by (relation "measure snd") (auto intro!: div_less_dividend gr0I)

declare num_digits.simps [simp del]

lemma rev_to_x_loop: "rev (to_x_loop n base) = map digit_char (num_digits base n)"
  by (induction n base rule: to_x_loop.induct) (simp add: to_x_loop.simps num_digits.simps)

lemma num_digits_less: "2 \<le> base \<Longrightarrow> d \<in> set (num_digits base n) \<Longrightarrow> d < base"
proof (induction base n rule: num_digits.induct)
  case (1 base n)
  then have "n div base \<noteq> 0 \<and> d \<in> set (num_digits base (n div base)) \<or> d = n mod base"
    by (subst (asm) (2) num_digits.simps) (auto split: if_splits)
  then show ?case using 1 by auto
qed

lemma num_value_digits: "2 \<le> base \<Longrightarrow> num_value base 0 (num_digits base n) = n"
proof (induction base n rule: num_digits.induct)
  case (1 base n)
  then show ?case by (subst num_digits.simps) (auto simp: div_mult_mod_eq div_eq_0_iff)
qed

lemma num_digits_nonempty: "2 \<le> base \<Longrightarrow> num_digits base n \<noteq> []"
  by (subst num_digits.simps) simp

lemma length_num_digits: "2 \<le> base \<Longrightarrow> n < base ^ Suc k \<Longrightarrow> length (num_digits base n) \<le> Suc k"
proof (induction k arbitrary: n)
  case 0
  then show ?case by (subst num_digits.simps) simp
next
  case (Suc k)
  have "n div base < base ^ Suc k" using Suc.prems by (simp add: less_mult_imp_div_less mult.commute)
  then show ?case using Suc.IH [of "n div base"] Suc.prems(1) by (subst num_digits.simps) simp
qed

lemma to_x_eq: "to_x n base minlen =
   replicate (nat minlen - length (num_digits base (unat n))) 0x30 @ map digit_char (num_digits base (unat n))"
  by (simp add: to_x_def reverse_and_pad_def rev_to_x_loop flip: length_rev [of "to_x_loop _ _"])

subsection \<open>Decimal numbers\<close>

lemma digit_char_plain:
  assumes "d < 36"
  shows "\<not> isspace (promote (digit_char d))" "digit_char d \<noteq> 0x2D" "digit_char d \<noteq> 0x2B" "digit_char d \<noteq> 0"
proof -
  have "list_all (\<lambda>d. \<not> isspace (promote (digit_char d)) \<and> digit_char d \<noteq> 0x2D \<and> digit_char d \<noteq> 0x2B \<and> digit_char d \<noteq> 0) [0..<36]"
    by code_simp
  then show "\<not> isspace (promote (digit_char d))" "digit_char d \<noteq> 0x2D" "digit_char d \<noteq> 0x2B" "digit_char d \<noteq> 0"
    using assms by (simp_all add: list_all_iff)
qed

text \<open>Facts on all characters, by evaluation.\<close>

lemma all_chars:
  assumes "list_all (\<lambda>i. P (word_of_nat i)) [0..<256]"
  shows "P (c :: u8)"
proof -
  have "P (word_of_nat (unat c))" using assms unfolding list_all_iff by (rule bspec) simp
  then show ?thesis by simp
qed

lemma isdigit_iff: "isdigit (promote c) \<longleftrightarrow> (case digit_value (promote c) of None \<Rightarrow> False | Some d \<Rightarrow> unat d < 10)"
  by (rule all_chars [of "\<lambda>c. isdigit (promote c) \<longleftrightarrow> (case digit_value (promote c) of None \<Rightarrow> False | Some d \<Rightarrow> unat d < 10)"]) code_simp

lemma strtol_prefix_decimal:
  assumes "\<forall>c \<in> set ws. isspace (promote c)" "sign \<in> {[], [0x2B], [0x2D]}" "ds \<noteq> []" "\<forall>d \<in> set ds. d < 10"
  shows "strtol_prefix (ws @ sign @ map digit_char ds @ rest) 10 = (sign = [0x2D], 10, map digit_char ds @ rest)"
proof -
  obtain d ds' where ds: "ds = d # ds'" "d < 36" using assms(3,4) by (cases ds) auto
  have p: "\<not> isspace (promote 0x2B)" "\<not> isspace (promote 0x2D)" by code_simp+
  have "dropWhile (\<lambda>c. isspace (promote c)) (ws @ sign @ map digit_char ds @ rest) = sign @ map digit_char ds @ rest"
    using assms(1,2) digit_char_plain [OF ds(2)] p by (subst dropWhile_append2) (auto simp: ds(1))
  then show ?thesis
    using assms(2) digit_char_plain [OF ds(2)] by (auto simp: strtol_prefix_def peek_def ds(1))
qed

lemma digits_of_decimal:
  assumes "\<forall>d \<in> set ds. d < 10" "\<not> isdigit (promote (peek rest))"
  shows "digits_of 10 (map digit_char ds @ rest) = ds"
  using assms by (intro digits_of_digit_chars) (auto simp: isdigit_iff split: option.splits)

lemma strtol_decimal_eq:
  assumes "\<forall>c \<in> set ws. isspace (promote c)" "sign \<in> {[], [0x2B], [0x2D]}" "ds \<noteq> []" "\<forall>d \<in> set ds. d < 10"
    "\<not> isdigit (promote (peek rest))"
  shows "strtol (ws @ sign @ map digit_char ds @ rest) 10 =
    (let v = num_value 10 0 ds; neg = (sign = [0x2D]); L = (if neg then 2 ^ 31 else 2 ^ 31 - 1)
     in (if v > L then word_of_nat L else if neg then - word_of_nat v else word_of_nat v, rest, v > L))"
proof -
  let ?L = "if sign = [0x2D] then 0x80000000 else 0x7FFFFFFF :: u32"
  obtain acc where loop: "strtol_loop 10 (?L div 10) (?L mod 10) (map digit_char ds @ rest) 0 0 =
      (acc, if num_value 10 0 ds \<le> unat ?L then 1 else - 1, rest)"
    "num_value 10 0 ds \<le> unat ?L \<Longrightarrow> unat acc = num_value 10 0 ds"
    using strtol_loop_spec [of 10 0 ?L 0 "map digit_char ds @ rest"] digits_of_decimal [OF assms(4,5)] assms(3) by auto
  have "num_value 10 0 ds \<le> unat ?L \<Longrightarrow> acc = word_of_nat (num_value 10 0 ds)"
    using loop(2) [symmetric] by simp
  then show ?thesis
    using loop(1) unfolding strtol_def strtol_prefix_decimal [OF assms(1-4)] by (auto simp: Let_def)
qed

subsection \<open>Round trips\<close>

lemma to_x_decimal:
  "\<exists>ds. to_x n 10 p = map digit_char ds \<and> ds \<noteq> [] \<and> (\<forall>d \<in> set ds. d < 10) \<and> num_value 10 0 ds = unat n"
proof -
  let ?k = "nat p - length (num_digits 10 (unat n))"
  have z: "num_value 10 0 (replicate k 0) = 0" for k by (induction k) simp_all
  have "to_x n 10 p = map digit_char (replicate ?k 0 @ num_digits 10 (unat n))"
    by (simp add: to_x_eq digit_char_def)
  then show ?thesis
    by (intro exI [of _ "replicate ?k 0 @ num_digits 10 (unat n)"])
      (auto simp: z num_value_digits num_digits_nonempty dest: num_digits_less [rotated])
qed

text \<open>The absolute value as \<open>_to_dec\<close> prints it, and what becomes of it.\<close>

lemma dec_abs:
  fixes v :: u32
  assumes "sint v < 0" "a = (if v \<noteq> 0x80000000 then - v else v)"
  shows "unat a \<le> 2 ^ 31 \<and> - word_of_nat (unat a) = v"
proof -
  have "2 ^ 31 \<le> unat v" using assms(1) by (simp only: sint_u32_neg)
  then have "unat (- v) \<le> 2 ^ 31" using unat_sub_u32 [of 0 v] by simp
  then show ?thesis using assms(2) by auto
qed

lemma strtol_to_dec: "strtol (to_dec v fplus fspace p @ rest) 10 = (v, rest, False)"
  if "\<not> isdigit (promote (peek rest))"
proof (cases "sint v < 0")
  case True
  define a where "a = (if v \<noteq> 0x80000000 then - v else v)"
  obtain ds where ds: "to_x a 10 p = map digit_char ds" "ds \<noteq> []" "\<forall>d \<in> set ds. d < 10" "num_value 10 0 ds = unat a"
    using to_x_decimal by blast
  have "to_dec v fplus fspace p @ rest = [] @ [0x2D] @ map digit_char ds @ rest"
    using True by (simp add: to_dec_def to_udec_def a_def [symmetric] ds(1))
  then show ?thesis
    using strtol_decimal_eq [of "[]" "[0x2D]" ds rest] ds that dec_abs [OF True a_def] by (simp add: Let_def)
next
  case False
  obtain ds where ds: "to_x v 10 p = map digit_char ds" "ds \<noteq> []" "\<forall>d \<in> set ds. d < 10" "num_value 10 0 ds = unat v"
    using to_x_decimal by blast
  have u: "unat v \<le> 2 ^ 31 - 1" using False by (simp only: sint_u32_neg)
  have sp: "isspace (promote 0x20)" by code_simp
  define ws sign where "ws = (if \<not> fplus \<and> fspace then [0x20] else [] :: bytes)" and "sign = (if fplus then [0x2B] else [] :: bytes)"
  have "to_dec v fplus fspace p @ rest = ws @ sign @ map digit_char ds @ rest"
    using False by (simp add: to_dec_def to_udec_def ds(1) ws_def sign_def)
  then show ?thesis
    using strtol_decimal_eq [of ws sign ds rest] ds that u sp by (simp add: Let_def ws_def sign_def split: if_splits)
qed

lemma digit_char_decimal:
  assumes "d < 10"
  shows "isdigit (promote (digit_char d))" "promote (digit_char d) - 0x30 = word_of_nat d"
proof -
  have "list_all (\<lambda>d. isdigit (promote (digit_char d)) \<and> promote (digit_char d) - 0x30 = word_of_nat d) [0..<10]" by code_simp
  then show "isdigit (promote (digit_char d))" "promote (digit_char d) - 0x30 = word_of_nat d"
    using assms by (simp_all add: list_all_iff)
qed

lemma atoi_loop_eq:
  assumes "\<forall>d \<in> set ds. d < 10" "\<not> isdigit (promote (peek rest))"
  shows "atoi_loop (map digit_char ds @ rest) (- word_of_nat n) = - word_of_nat (num_value 10 n ds)"
  using assms(1)
proof (induction ds arbitrary: n)
  case Nil
  then show ?case using assms(2) by (cases rest) (auto simp: peek_def)
next
  case (Cons d ds)
  have e: "- word_of_nat (n * 10 + d) = (10 * - word_of_nat n - word_of_nat d :: u32)" by (simp add: algebra_simps)
  have "atoi_loop (map digit_char (d # ds) @ rest) (- word_of_nat n) = atoi_loop (map digit_char ds @ rest) (- word_of_nat (n * 10 + d))"
    unfolding e using Cons.prems by (simp add: digit_char_decimal)
  also have "\<dots> = - word_of_nat (num_value 10 n (d # ds))" using Cons by (simp del: of_nat_add)
  finally show ?case .
qed

lemma atoi_decimal:
  assumes "\<forall>c \<in> set ws. isspace (promote c)" "sign \<in> {[], [0x2B], [0x2D]}" "ds \<noteq> []" "\<forall>d \<in> set ds. d < 10"
    "\<not> isdigit (promote (peek rest))"
  shows "atoi (ws @ sign @ map digit_char ds @ rest) =
    (if sign = [0x2D] then - word_of_nat (num_value 10 0 ds) else word_of_nat (num_value 10 0 ds))"
proof -
  obtain d ds' where ds: "ds = d # ds'" "d < 36" using assms(3,4) by (cases ds) auto
  have p: "\<not> isspace (promote 0x2B)" "\<not> isspace (promote 0x2D)" by code_simp+
  have "dropWhile (\<lambda>c. isspace (promote c)) (ws @ sign @ map digit_char ds @ rest) = sign @ map digit_char ds @ rest"
    using assms(1,2) digit_char_plain [OF ds(2)] p by (subst dropWhile_append2) (auto simp: ds(1))
  moreover have "peek (map digit_char ds @ rest) \<notin> {0x2D, 0x2B}"
    using digit_char_plain [OF ds(2)] by (simp add: ds(1) peek_def)
  ultimately show ?thesis
    using assms(2) atoi_loop_eq [OF assms(4,5), of 0] by (auto simp: atoi_def peek_def)
qed

lemma sint_of_nat_u32: "n < 2 ^ 31 \<Longrightarrow> sint (word_of_nat n :: u32) = int n"
  by (simp only: sint_u32) (simp add: unat_of_nat)

lemma sint_minus_of_nat_u32: "n \<le> 2 ^ 31 \<Longrightarrow> sint (- word_of_nat n :: u32) = - int n"
proof (cases "n = 0")
  case False
  assume n: "n \<le> 2 ^ 31"
  then have u: "unat (word_of_nat n :: u32) = n" by (simp add: unat_of_nat)
  then have "unat (- word_of_nat n :: u32) = 2 ^ 32 - n" using unat_sub_u32 [of 0 "word_of_nat n"] False by simp
  then show ?thesis using n False by (simp only: sint_u32) (simp add: of_nat_diff)
qed simp

section \<open>Properties\<close>

text \<open>(C38) \<open>strtol\<close> in base 10 reads white space, an optional sign and a maximal run of decimal digits of
  any length. The result is the number written there when it fits a \<open>long\<close>; beyond that it is the
  nearest \<open>long\<close>, and exactly then \<open>ERANGE\<close> is reported. The end pointer is the first character that
  is not a digit.\<close>

theorem strtol_decimal_saturates:
  assumes "\<forall>c \<in> set ws. isspace (promote c)" "sign \<in> {[], [0x2B], [0x2D]}" "ds \<noteq> []" "\<forall>d \<in> set ds. d < 10"
    "\<not> isdigit (promote (peek rest))"
    and v: "v = (if sign = [0x2D] then - 1 else 1) * int (foldl (\<lambda>a d. a * 10 + d) 0 ds)"
  shows "\<exists>r. strtol (ws @ sign @ map digit_char ds @ rest) 10 = (r, rest, v < - (2 ^ 31) \<or> v > 2 ^ 31 - 1) \<and>
    sint r = max (- (2 ^ 31)) (min (2 ^ 31 - 1) v)"
proof -
  define n where "n = num_value 10 0 ds"
  have v': "v = (if sign = [0x2D] then - int n else int n)" using v by (simp add: n_def num_value_def)
  have e: "strtol (ws @ sign @ map digit_char ds @ rest) 10 =
    (let L = (if sign = [0x2D] then 2 ^ 31 else 2 ^ 31 - 1)
     in (if n > L then word_of_nat L else if sign = [0x2D] then - word_of_nat n else word_of_nat n, rest, n > L))"
    using strtol_decimal_eq [OF assms(1-5)] by (simp add: Let_def n_def)
  have m: "sint (0x80000000 :: u32) = - (2 ^ 31)" "sint (0x7FFFFFFF :: u32) = 2 ^ 31 - 1" by simp_all
  show ?thesis
  proof (cases "sign = [0x2D]")
    case True
    then show ?thesis
      unfolding e v' using sint_minus_of_nat_u32 [of n] m by (cases "n > 2 ^ 31") auto
  next
    case False
    then show ?thesis
      unfolding e v' using sint_of_nat_u32 [of n] m by (cases "n > 2 ^ 31 - 1") auto
  qed
qed

theorem strtol_decimal_saturates_witness:
  "\<exists>r. strtol ([0x20] @ [0x2D] @ map digit_char [2, 1, 4, 7, 4, 8, 3, 6, 4, 9] @ [0x78]) 10 = (r, [0x78], True) \<and> sint r = - (2 ^ 31)"
proof -
  have "isspace (promote 0x20)" "\<not> isdigit (promote (peek [0x78]))" by code_simp+
  then show ?thesis
    using strtol_decimal_saturates [of "[0x20]" "[0x2D]" "[2, 1, 4, 7, 4, 8, 3, 6, 4, 9]" "[0x78]" "- 2147483649"] by simp
qed

end
