(* ===== verification/Libc_Printf.thy ===== *)
theory Libc_Printf
  imports Libc_Number "HOL-Library.Monad_Syntax"
begin

text \<open>Formatted output (\<open>src/lib/libc/minimal/source/stdout/prf.c\<close> and \<open>sprintf.c\<close>). \<open>None\<close> stands for an
  access outside an object: reading past the end of the format, fetching an argument that is not
  there or has another type, or writing past the end of the conversion buffer of \<open>MAXFLD + 1\<close> bytes.
  The format is the list of its characters with the terminating NUL.

  Shown: the tricky 64-bit division by five of the floating-point conversion is exact for every
  input; the formatter gives the same text for every sink; \<open>snprintf\<close> never writes more than its
  buffer holds, and what it writes is the front of the whole text.\<close>

definition MAXFLD :: nat where "MAXFLD = 255"

definition EOF_ret :: int where "EOF_ret = - 1"

section \<open>Floating-point numbers\<close>

definition rlrshift :: "u64 \<Rightarrow> u64" where
  "rlrshift v = (v AND 1) + drop_bit 1 v"

definition ldiv5_step :: "nat \<Rightarrow> u64 \<times> u64 \<Rightarrow> u64 \<times> u64" where
  "ldiv5_step shift = (\<lambda>(rem, quot).
     let hi = ucast (drop_bit shift rem) :: u32;
         q = push_bit shift (ucast (hi div 5))
     in (rem - q * 5, quot + q))"

definition ldiv5 :: "u64 \<Rightarrow> u64" where
  "ldiv5 v = snd (fold ldiv5_step [32, 3, 0] (v + 2, 0))"

definition get_digit :: "u64 \<Rightarrow> int \<Rightarrow> u8 \<times> u64 \<times> int" where
  "get_digit fr digit_count =
     (if digit_count > 0
      then let fr = fr * 10
           in (ucast (drop_bit 60 fr AND 0xF) + 0x30, fr AND 0x0FFFFFFFFFFFFFFF, digit_count - 1)
      else (0x30, fr, digit_count))"

text \<open>The scaling loops, with the fraction and the binary and decimal exponents.\<close>

partial_function (option) float_shrink :: "u64 \<Rightarrow> int \<Rightarrow> (u64 \<times> int) option" where
  "float_shrink fract exp =
     (if drop_bit 32 fract \<ge> 0xFFFFFFFF div 5 then float_shrink (rlrshift fract) (exp + 1) else Some (fract, exp))"

partial_function (option) float_norm :: "u64 \<Rightarrow> int \<Rightarrow> (u64 \<times> int) option" where
  "float_norm fract exp =
     (if drop_bit 32 fract \<le> 0xFFFFFFFF div 2 then float_norm (push_bit 1 fract) (exp - 1) else Some (fract, exp))"

partial_function (option) float_up :: "u64 \<Rightarrow> int \<Rightarrow> int \<Rightarrow> (u64 \<times> int \<times> int) option" where
  "float_up fract exp decexp =
     (if exp \<le> - 3
      then do {
        (fract, exp) \<leftarrow> float_shrink fract exp;
        (fract, exp) \<leftarrow> float_norm (fract * 5) (exp + 1);
        float_up fract exp (decexp - 1) }
      else Some (fract, exp, decexp))"

partial_function (option) float_down :: "u64 \<Rightarrow> int \<Rightarrow> int \<Rightarrow> (u64 \<times> int \<times> int) option" where
  "float_down fract exp decexp =
     (if exp > 0
      then do {
        (fract, exp) \<leftarrow> float_norm (ldiv5 fract) (exp - 1);
        float_down fract exp (decexp + 1) }
      else Some (fract, exp, decexp))"

text \<open>\<open>while (exp < 4)\<close> shifts that many times.\<close>

definition float_align :: "u64 \<Rightarrow> int \<Rightarrow> u64" where
  "float_align fract exp = (rlrshift ^^ nat (4 - exp)) fract"

text \<open>\<open>n\<close> digits, then the digits of the fractional part, of which those before the first digit of
  the number are zero.\<close>

fun float_digits :: "nat \<Rightarrow> u64 \<Rightarrow> int \<Rightarrow> bytes \<times> u64 \<times> int" where
  "float_digits 0 fract digit_count = ([], fract, digit_count)"
| "float_digits (Suc n) fract digit_count =
     (let (c, fract, digit_count) = get_digit fract digit_count;
          (cs, fract, digit_count) = float_digits n fract digit_count
      in (c # cs, fract, digit_count))"

fun float_fraction :: "nat \<Rightarrow> int \<Rightarrow> u64 \<Rightarrow> int \<Rightarrow> bytes" where
  "float_fraction 0 decexp fract digit_count = []"
| "float_fraction (Suc n) decexp fract digit_count =
     (if decexp < 0 then 0x30 # float_fraction n (decexp + 1) fract digit_count
      else let (c, fract, digit_count) = get_digit fract digit_count
           in c # float_fraction n decexp fract digit_count)"

definition float_prune :: "bytes \<Rightarrow> bytes" where
  "float_prune buf =
     (let buf = rev (dropWhile (\<lambda>c. c = 0x30) (rev buf))
      in if buf \<noteq> [] \<and> last buf = 0x2E then butlast buf else buf)"

definition float_exponent :: "u8 \<Rightarrow> int \<Rightarrow> bytes" where
  "float_exponent c decexp =
     (let sign = (if decexp < 0 then 0x2D else 0x2B); e = nat \<bar>decexp\<bar>
      in [c, sign, word_of_nat (e div 100 + 0x30), word_of_nat (e mod 100 div 10 + 0x30),
          word_of_nat (e mod 100 mod 10 + 0x30)])"

text \<open>Rounding to the digits that are printed: the fraction, the decimal exponent.\<close>

definition float_round :: "u8 \<Rightarrow> int \<Rightarrow> u64 \<Rightarrow> int \<Rightarrow> u64 \<times> int" where
  "float_round c precision fract decexp =
     (let exp = (if c = 0x66 then if precision + decexp < 0 then 0 else precision + decexp else precision + 1);
          exp = (if exp > 16 then 16 else exp);
          ltemp = ((rlrshift \<circ> ldiv5) ^^ nat exp) 0x0800000000000000;
          fract = fract + ltemp
      in if drop_bit 32 fract AND 0xF0000000 \<noteq> 0 then (rlrshift (ldiv5 fract), decexp + 1) else (fract, decexp))"

text \<open>The digits behind the sign \<open>buf\<close>, of a conversion that is one of \<open>e\<close>, \<open>E\<close> and \<open>f\<close>.\<close>

definition float_print :: "u8 \<Rightarrow> bool \<Rightarrow> bool \<Rightarrow> int \<Rightarrow> bytes \<Rightarrow> u64 \<Rightarrow> int \<Rightarrow> bytes option" where
  "float_print c falt prune_zero precision buf fract decexp =
     (let point = (if falt \<or> precision > 0 then [0x2E] else []);
          (buf, decexp) =
            (if c = 0x66
             then let (ip, fract, dc) = (if decexp > 0 then float_digits (nat decexp) fract 16 else ([0x30], fract, 16));
                      decexp = (if decexp > 0 then 0 else decexp)
                  in (buf @ ip @ point @ float_fraction (nat precision) decexp fract dc, decexp)
             else let (d, fract, dc) = get_digit fract 16;
                      decexp = (if d \<noteq> 0x30 then decexp - 1 else decexp);
                      (ds, _, _) = float_digits (nat precision) fract dc
                  in (buf @ d # point @ ds, decexp));
          buf' = (if prune_zero then float_prune buf else buf);
          buf' = (if c = 0x65 \<or> c = 0x45 then buf' @ float_exponent c decexp else buf')
      in if length buf > MAXFLD + 1 then None else Some buf')"

definition to_float :: "u64 \<Rightarrow> u8 \<Rightarrow> bool \<Rightarrow> bool \<Rightarrow> bool \<Rightarrow> int \<Rightarrow> bytes option" where
  "to_float double_temp c falt fplus fspace precision =
     (let exp = uint (drop_bit 52 double_temp AND 0x7FF);
          fract = push_bit 11 double_temp AND 0x7FFFFFFFFFFFFFFF;
          sign = bit double_temp 63
      in if exp = 0x7FF
         then Some (if fract = 0 then [if sign then 0x2D else 0x2B, 0x49, 0x4E, 0x46] else [0x4E, 0x61, 0x4E])
         else
           let nonzero = (exp \<noteq> 0 \<or> fract \<noteq> 0);
               (exp, fract) = (if nonzero then (exp - (1023 - 1), fract OR 0x8000000000000000) else (exp, fract));
               buf = (if nonzero \<and> sign then [0x2D] else if fplus then [0x2B] else if fspace then [0x20] else [])
           in do {
             (fract, exp, decexp) \<leftarrow> float_up fract exp 0;
             (fract, exp, decexp) \<leftarrow> float_down fract exp decexp;
             let fract = float_align fract exp;
             let precision = (if precision < 0 then 6 else precision);
             let prune_zero = ((c = 0x67 \<or> c = 0x47) \<and> \<not> falt \<and> precision > 0);
             let c = (if c = 0x67 \<or> c = 0x47
                      then if decexp < - 4 + 1 \<or> decexp > precision + 1 then if c = 0x67 then 0x65 else 0x45 else 0x66
                      else c);
             let (fract, decexp) = float_round c precision fract decexp;
             float_print c falt prune_zero precision buf fract decexp })"

subsection \<open>Division by five\<close>

lemma div5_rest:
  fixes R k :: nat
  defines "Q \<equiv> R div 2 ^ k div 5 * 2 ^ k"
  shows "5 * Q \<le> R" "R - 5 * Q < 5 * 2 ^ k"
proof -
  define a b c d p where "a = R div 2 ^ k" "b = a div 5" "c = a mod 5" "d = R mod 2 ^ k" "p = (2 :: nat) ^ k"
  note defs = this
  have "R = a * p + d" "a = b * 5 + c" unfolding defs by (rule div_mult_mod_eq [symmetric])+
  then have "R = (b * 5 + c) * p + d" by metis
  moreover have "Q = b * p" unfolding Q_def defs ..
  ultimately have e: "R = 5 * Q + (c * p + d)" by (simp add: algebra_simps)
  then show "5 * Q \<le> R" by linarith
  have "c * p \<le> 4 * p" by (intro mult_le_mono1) (simp add: defs(3) less_Suc_eq_le [symmetric])
  moreover have "d < p" by (simp add: defs)
  ultimately have "c * p + d < 5 * p" by linarith
  then show "R - 5 * Q < 5 * 2 ^ k" using e by (simp add: defs(5) [symmetric])
qed

lemma ldiv5_step_nat:
  assumes "unat rem div 2 ^ k < 2 ^ 32" "k \<le> 32" "unat rem = R" "5 * unat quot + R < 2 ^ 64"
  shows "\<exists>Q rem' quot'. ldiv5_step k (rem, quot) = (rem', quot') \<and> unat rem' = R - 5 * Q \<and> unat quot' = unat quot + Q \<and>
    5 * Q \<le> R \<and> R - 5 * Q < 5 * 2 ^ k"
proof -
  define Q where "Q = R div 2 ^ k div 5 * 2 ^ k"
  have Q: "5 * Q \<le> R" "R - 5 * Q < 5 * 2 ^ k" unfolding Q_def by (rule div5_rest)+
  define h where "h = (ucast (drop_bit k rem) :: u32)"
  have "unat (drop_bit k rem) = R div 2 ^ k" 
    unfolding unat_drop_bit_eq using assms(3) by (simp add: drop_bit_eq_div)
  then have h: "unat h = R div 2 ^ k"
    using assms(1,3) by (simp add: h_def unsigned_ucast_eq take_bit_nat_eq_self)
  define q where "q = (push_bit k (ucast (h div 5)) :: u64)"
  have q: "unat q = Q"
  proof -
    have "R div 2 ^ k div 5 \<le> R" using div_le_dividend le_trans by blast
    also have "R < 2 ^ 64" using assms(4) by simp
    finally have "unat (ucast (h div 5) :: u64) = R div 2 ^ k div 5"
      by (simp add: unsigned_ucast_eq unat_div h take_bit_nat_eq_self)
    moreover have "Q < 2 ^ 64" using Q(1) assms(4) by simp
    ultimately show ?thesis
      unfolding q_def unsigned_push_bit_eq by (simp add: push_bit_eq_mult Q_def take_bit_nat_eq_self)
  qed
  have "unat (q * 5) = 5 * Q" using q Q(1) assms(4) by (simp add: unat_word_ariths)
  then have "unat (rem - q * 5) = R - 5 * Q" using Q(1) assms(3) by (simp add: unat_sub_if')
  moreover have "unat (quot + q) = unat quot + Q" using q Q(1) assms(4) by (simp add: unat_word_ariths)
  moreover have "ldiv5_step k (rem, quot) = (rem - q * 5, quot + q)" by (simp add: ldiv5_step_def q_def h_def Let_def)
  ultimately show ?thesis using Q by (intro exI [of _ Q] exI conjI)
qed

lemma ldiv5_eq: "ldiv5 v = (v + 2) div 5"
proof -
  define R where "R = unat (v + 2)"
  have R: "R < 2 ^ 64" by (simp add: R_def)
  have "R div 2 ^ 32 < 2 ^ 32" using R by (simp add: less_mult_imp_div_less)
  then have "\<exists>Q r q. ldiv5_step 32 (v + 2, 0) = (r, q) \<and> unat r = R - 5 * Q \<and> unat q = unat (0 :: u64) + Q \<and> 5 * Q \<le> R \<and> R - 5 * Q < 5 * 2 ^ 32"
    using R by (intro ldiv5_step_nat) (simp_all add: R_def)
  then obtain Q1 r1 q1 where 1: "ldiv5_step 32 (v + 2, 0) = (r1, q1)" "unat r1 = R - 5 * Q1" "unat q1 = Q1" "5 * Q1 \<le> R" "R - 5 * Q1 < 5 * 2 ^ 32"
    by auto
  have "(R - 5 * Q1) div 2 ^ 3 < 2 ^ 32" using 1(5) by (simp add: less_mult_imp_div_less)
  then have "\<exists>Q r q. ldiv5_step 3 (r1, q1) = (r, q) \<and> unat r = R - 5 * Q1 - 5 * Q \<and> unat q = unat q1 + Q \<and> 5 * Q \<le> R - 5 * Q1 \<and> R - 5 * Q1 - 5 * Q < 5 * 2 ^ 3"
    using R 1 by (intro ldiv5_step_nat) simp_all
  then obtain Q2 r2 q2 where 2: "ldiv5_step 3 (r1, q1) = (r2, q2)" "unat r2 = R - 5 * Q1 - 5 * Q2" "unat q2 = Q1 + Q2" "5 * Q2 \<le> R - 5 * Q1" "R - 5 * Q1 - 5 * Q2 < 5 * 2 ^ 3"
    using 1(3) by auto
  have "\<exists>Q r q. ldiv5_step 0 (r2, q2) = (r, q) \<and> unat r = R - 5 * Q1 - 5 * Q2 - 5 * Q \<and> unat q = unat q2 + Q \<and> 5 * Q \<le> R - 5 * Q1 - 5 * Q2 \<and> R - 5 * Q1 - 5 * Q2 - 5 * Q < 5 * 2 ^ 0"
    using R 1 2 by (intro ldiv5_step_nat) simp_all
  then obtain Q3 r3 q3 where 3: "ldiv5_step 0 (r2, q2) = (r3, q3)" "unat q3 = Q1 + Q2 + Q3" "5 * Q3 \<le> R - 5 * Q1 - 5 * Q2" "R - 5 * Q1 - 5 * Q2 - 5 * Q3 < 5"
    using 2(3) by auto
  have "R = 5 * (Q1 + Q2 + Q3) + (R - 5 * Q1 - 5 * Q2 - 5 * Q3)" using 1(4) 2(4) 3(3) by simp
  then have "unat q3 = R div 5" using 3(2,4) by (metis div_mult_self4 div_less add_0_right zero_neq_numeral add.commute add.left_neutral mult.commute)
  then have "q3 = (v + 2) div 5" by (simp add: word_unat_eq_iff unat_div R_def)
  then show ?thesis by (simp add: ldiv5_def 1(1) 2(1) 3(1))
qed
subsection \<open>The scaling loops end\<close>

lemma unat_rlrshift: "unat (rlrshift v) = (unat v + 1) div 2"
proof -
  have "unat (v AND 1) = unat v mod 2" by (simp add: and_one_eq unat_mod)
  moreover have "unat (drop_bit 1 v) = unat v div 2" unfolding unat_drop_bit_eq by (simp add: drop_bit_Suc)
  moreover have "unat v mod 2 + unat v div 2 < 2 ^ 64"
  proof -
    have "unat v mod 2 + unat v div 2 \<le> 1 + unat v div 2" by simp
    also have "\<dots> \<le> 1 + 2 ^ 63" using unat_u64_less [of v] by (intro add_left_mono) (simp add: less_mult_imp_div_less order_less_imp_le del: unat_u64_less)
    finally show ?thesis by simp
  qed
  ultimately have "unat (rlrshift v) = unat v mod 2 + unat v div 2"
    by (simp add: rlrshift_def unat_word_ariths)
  then show ?thesis by presburger
qed

definition shrink_limit :: nat where "shrink_limit = 0x33333333 * 2 ^ 32"

lemma shrink_cond: "0xFFFFFFFF div 5 \<le> drop_bit 32 (fract :: u64) \<longleftrightarrow> shrink_limit \<le> unat fract"
proof -
  have "unat (drop_bit 32 fract) = unat fract div 2 ^ 32" unfolding unat_drop_bit_eq by (simp add: drop_bit_eq_div)
  then show ?thesis by (simp add: word_le_nat_alt shrink_limit_def less_eq_div_iff_mult_less_eq)
qed

lemma norm_cond: "drop_bit 32 (fract :: u64) \<le> 0xFFFFFFFF div 2 \<longleftrightarrow> unat fract < 2 ^ 63"
proof -
  have "unat (drop_bit 32 fract) = unat fract div 2 ^ 32" unfolding unat_drop_bit_eq by (simp add: drop_bit_eq_div)
  then have "drop_bit 32 fract \<le> 0xFFFFFFFF div 2 \<longleftrightarrow> unat fract div 2 ^ 32 < 2 ^ 31" by (simp add: word_le_nat_alt) arith
  also have "\<dots> \<longleftrightarrow> unat fract < 2 ^ 31 * 2 ^ 32" by (rule div_less_iff_less_mult) simp
  finally show ?thesis by simp
qed

lemma float_shrink_returns:
  "\<exists>fract' s. float_shrink fract exp = Some (fract', exp + int s) \<and> unat fract' < shrink_limit \<and>
     (0 < s \<longrightarrow> shrink_limit \<le> 2 * unat fract') \<and> (shrink_limit \<le> unat fract \<longrightarrow> 0 < s)"
proof (induction "unat fract" arbitrary: fract exp rule: less_induct)
  case less
  show ?case
  proof (cases "shrink_limit \<le> unat fract")
    case True
    let ?f = "rlrshift fract"
    have f: "unat ?f = (unat fract + 1) div 2" by (rule unat_rlrshift)
    then have "unat ?f < unat fract" using True by (simp add: shrink_limit_def)
    then obtain f' s where f': "float_shrink ?f (exp + 1) = Some (f', exp + 1 + int s)" "unat f' < shrink_limit"
      "0 < s \<longrightarrow> shrink_limit \<le> 2 * unat f'" "shrink_limit \<le> unat ?f \<longrightarrow> 0 < s"
      using less.hyps [of ?f "exp + 1"] by auto
    have e: "float_shrink fract exp = float_shrink ?f (exp + 1)"
      using True by (subst float_shrink.simps) (simp only: shrink_cond if_True)
    have "shrink_limit \<le> 2 * unat f'"
    proof (cases "s = 0")
      case True
      then have "\<not> shrink_limit \<le> unat ?f" using f'(4) by simp
      then have "float_shrink ?f (exp + 1) = Some (?f, exp + 1)"
        by (subst float_shrink.simps) (simp only: shrink_cond if_False)
      then have "f' = ?f" using f'(1) by simp
      then show ?thesis using f \<open>shrink_limit \<le> unat fract\<close> by simp
    qed (use f'(3) in simp)
    then show ?thesis using e f'(1,2) by (intro exI [of _ f'] exI [of _ "Suc s"]) simp
  next
    case False
    then have "float_shrink fract exp = Some (fract, exp)"
      by (subst float_shrink.simps) (simp only: shrink_cond if_False)
    then show ?thesis using False by (intro exI [of _ fract] exI [of _ 0]) simp
  qed
qed

lemma float_shrink_twice:
  assumes "2 ^ 63 \<le> unat fract"
  obtains fract' s where "float_shrink fract exp = Some (fract', exp + int s)" "unat fract' < shrink_limit"
    "shrink_limit \<le> 2 * unat fract'" "2 \<le> s"
proof -
  let ?f = "rlrshift fract"
  have f: "shrink_limit \<le> unat ?f" "shrink_limit \<le> unat fract" using assms by (simp_all add: unat_rlrshift shrink_limit_def)
  have e: "float_shrink fract exp = float_shrink ?f (exp + 1)"
    using f(2) by (subst float_shrink.simps) (simp only: shrink_cond if_True)
  obtain f' s where f': "float_shrink ?f (exp + 1) = Some (f', exp + 1 + int s)" "unat f' < shrink_limit"
    "0 < s" "shrink_limit \<le> 2 * unat f'"
    using float_shrink_returns [of ?f "exp + 1"] f(1) by auto
  show ?thesis by (rule that [of f' "Suc s"]) (use e f' in simp_all)
qed

lemma float_norm_returns:
  "0 < unat fract \<Longrightarrow>
   \<exists>fract' k. float_norm fract exp = Some (fract', exp - int k) \<and> unat fract' = unat fract * 2 ^ k \<and> 2 ^ 63 \<le> unat fract'"
proof (induction "2 ^ 64 - unat fract" arbitrary: fract exp rule: less_induct)
  case less
  show ?case
  proof (cases "unat fract < 2 ^ 63")
    case True
    define g where "g = push_bit 1 fract"
    have g: "unat g = 2 * unat fract"
      unfolding g_def unsigned_push_bit_eq using True by (simp add: push_bit_eq_mult take_bit_nat_eq_self)
    then have "2 ^ 64 - unat g < 2 ^ 64 - unat fract" "0 < unat g" using less.prems True by simp_all
    from less.hyps [OF this, of "exp - 1"]
    obtain f' k where f': "float_norm g (exp - 1) = Some (f', exp - 1 - int k)" "unat f' = unat g * 2 ^ k" "2 ^ 63 \<le> unat f'"
      by blast
    have "float_norm fract exp = float_norm g (exp - 1)"
      using True unfolding g_def by (subst float_norm.simps) (simp only: norm_cond if_True)
    then show ?thesis using g f' by (intro exI [of _ f'] exI [of _ "Suc k"]) simp
  next
    case False
    then have "float_norm fract exp = Some (fract, exp)"
      by (subst float_norm.simps) (simp only: norm_cond if_False)
    then show ?thesis using False by (intro exI [of _ fract] exI [of _ 0]) simp
  qed
qed

text \<open>A normalised fraction, with room for the rounding of the division.\<close>

definition normal :: "u64 \<Rightarrow> bool" where
  "normal fract \<longleftrightarrow> 2 ^ 63 \<le> unat fract \<and> unat fract + 2 < 2 ^ 64"

lemma multiple_room:
  fixes m n :: nat
  assumes "m < 18446744073709551616"
  shows "m = 10 * n \<Longrightarrow> m + 2 < 18446744073709551616" "m = 4 * n \<Longrightarrow> m + 2 < 18446744073709551616"
  using assms by presburger+

lemma float_up_returns:
  "normal fract \<Longrightarrow> \<exists>fract' exp' decexp'. float_up fract exp decexp = Some (fract', exp', decexp') \<and> normal fract'"
proof (induction "nat (- exp)" arbitrary: fract exp decexp rule: less_induct)
  case less
  show ?case
  proof (cases "exp \<le> - 3")
    case True
    have F: "2 ^ 63 \<le> unat fract" using less.prems by (simp add: normal_def)
    obtain f s where f: "float_shrink fract exp = Some (f, exp + int s)" "unat f < shrink_limit" "shrink_limit \<le> 2 * unat f" "2 \<le> s"
      using float_shrink_twice [OF F] .
    have f5: "unat (f * 5) = 5 * unat f" using f(2) by (simp add: unat_word_ariths shrink_limit_def)
    then have "0 < unat (f * 5)" using f(3) by (simp add: shrink_limit_def)
    from float_norm_returns [OF this, of "exp + int s + 1"]
    obtain g k where g: "float_norm (f * 5) (exp + int s + 1) = Some (g, exp + int s + 1 - int k)"
      "unat g = 5 * unat f * 2 ^ k" "2 ^ 63 \<le> unat g" unfolding f5 by blast
    have k: "k \<le> 1"
    proof (rule ccontr)
      assume "\<not> k \<le> 1"
      then have "(2 :: nat) ^ 2 \<le> 2 ^ k" by (intro power_increasing) simp_all
      then have "5 * unat f * 2 ^ 2 \<le> unat g" unfolding g(2) by (rule mult_le_mono2)
      then show False using f(3) unat_u64_less [of g] by (simp add: shrink_limit_def del: unat_u64_less)
    qed
    have n: "normal g"
    proof (cases "k = 0")
      case True
      then show ?thesis using g(2,3) f(2) by (simp add: normal_def shrink_limit_def)
    next
      case False
      then have "k = 1" using k by simp
      then have "unat g = 10 * unat f" using g(2) by simp
      then have "unat g + 2 < 18446744073709551616" by (rule multiple_room(1) [OF unat_u64_less])
      then show ?thesis using g(3) by (simp add: normal_def)
    qed
    have "nat (- (exp + int s + 1 - int k)) < nat (- exp)" using k f(4) True by simp
    from less.hyps [OF this n, of "decexp - 1"] show ?thesis
      by (subst float_up.simps) (simp add: True f(1) g(1))
  next
    case False
    then show ?thesis using less.prems by (subst float_up.simps) simp
  qed
qed

lemma float_down_returns:
  "normal fract \<Longrightarrow> \<exists>fract' exp' decexp'. float_down fract exp decexp = Some (fract', exp', decexp') \<and> normal fract'"
proof (induction "nat exp" arbitrary: fract exp decexp rule: less_induct)
  case less
  show ?case
  proof (cases "exp > 0")
    case True
    define F where "F = unat fract"
    have F: "2 ^ 63 \<le> F" "F + 2 < 2 ^ 64" using less.prems by (simp_all add: normal_def F_def)
    have d: "unat (ldiv5 fract) = (F + 2) div 5" using F by (simp add: ldiv5_eq unat_div unat_word_ariths F_def)
    then have "0 < unat (ldiv5 fract)" using F by (simp add: div_greater_zero_iff)
    from float_norm_returns [OF this, of "exp - 1"]
    obtain g k where g: "float_norm (ldiv5 fract) (exp - 1) = Some (g, exp - 1 - int k)"
      "unat g = (F + 2) div 5 * 2 ^ k" "2 ^ 63 \<le> unat g" unfolding d by blast
    have "(F + 2) div 5 < 2 ^ 62" using F(2) by (simp add: less_mult_imp_div_less)
    moreover have "(2 :: nat) ^ k \<le> 2" if "k \<le> 1" using that by (cases k) auto
    ultimately have "unat g < 2 ^ 62 * 2" if "k \<le> 1"
      unfolding g(2) using that by (intro mult_less_le_imp_less) simp_all
    then have "2 \<le> k" using g(3) by (cases "k \<le> 1") simp_all
    then obtain j where "k = 2 + j" using le_Suc_ex by blast
    then have "unat g = 4 * ((F + 2) div 5 * 2 ^ j)" using g(2) by (simp add: power_add)
    then have "unat g + 2 < 18446744073709551616" by (rule multiple_room(2) [OF unat_u64_less])
    then have n: "normal g" using g(3) by (simp add: normal_def)
    have "nat (exp - 1 - int k) < nat exp" using True by simp
    from less.hyps [OF this n, of "decexp + 1"] show ?thesis
      by (subst float_down.simps) (simp add: True g(1))
  next
    case False
    then show ?thesis using less.prems by (subst float_down.simps) simp
  qed
qed

lemma length_float_digits: "float_digits n fract dc = (cs, fract', dc') \<Longrightarrow> length cs = n"
  by (induction n arbitrary: fract dc cs) (auto split: prod.splits)

lemma normal_double: "normal (push_bit 11 d AND 0x7FFFFFFFFFFFFFFF OR 0x8000000000000000)"
proof -
  define f where "f = push_bit 11 d AND 0x7FFFFFFFFFFFFFFF OR (0x8000000000000000 :: u64)"
  have h: "bit (0x8000000000000000 :: u64) n \<longleftrightarrow> n = 63" for n
  proof -
    have "(0x8000000000000000 :: u64) = push_bit 63 1" by simp
    then show ?thesis by (simp only: bit_push_bit_iff) (auto simp: bit_simps)
  qed
  have "drop_bit 63 f = 1"
    unfolding f_def by (rule bit_word_eqI) (auto simp: bit_or_iff bit_drop_bit_eq h bit_1_iff dest: bit_imp_le_length)
  then have "unat f div 2 ^ 63 = 1" by (metis drop_bit_eq_div unat_drop_bit_eq unat_1)
  then have "1 * 2 ^ 63 \<le> unat f" using less_eq_div_iff_mult_less_eq [of "2 ^ 63" 1 "unat f"] by simp
  moreover have "take_bit 2 f = 0"
    unfolding f_def by (rule bit_word_eqI) (auto simp: bit_simps h)
  then have "unat f mod 2 ^ 2 = 0" by (metis take_bit_eq_mod unsigned_take_bit_eq unat_0)
  then have "unat f = 4 * (unat f div 4)" using mult_div_mod_eq [of 4 "unat f"] by simp
  then have "unat f + 2 < 18446744073709551616" by (rule multiple_room(2) [OF unat_u64_less])
  ultimately show ?thesis unfolding f_def normal_def by simp
qed

lemma float_scaling_returns:
  assumes "normal fract \<or> exp = 0"
  shows "\<exists>fract' exp' decexp'. Option.bind (float_up fract exp 0) (\<lambda>(fract, exp, decexp). float_down fract exp decexp) = Some (fract', exp', decexp')"
proof (cases "normal fract")
  case True
  then obtain f e d where "float_up fract exp 0 = Some (f, e, d)" "normal f" using float_up_returns by blast
  then show ?thesis using float_down_returns [of f e d] by auto
next
  case False
  then have "exp = 0" using assms by simp
  then show ?thesis by (simp add: float_up.simps float_down.simps)
qed

lemma float_print_exponent:
  assumes "c = 0x65 \<or> c = 0x45" "nat precision \<le> 240" "length buf \<le> 1"
  shows "\<exists>out. float_print c falt False precision buf fract decexp = Some out \<and> length out \<le> nat precision + 8"
proof -
  obtain d f1 dc where g: "get_digit fract 16 = (d, f1, dc)" by (metis surj_pair)
  obtain ds f2 dc2 where ds: "float_digits (nat precision) f1 dc = (ds, f2, dc2)" by (metis surj_pair)
  have "length ds = nat precision" using ds by (rule length_float_digits)
  then show ?thesis
    using assms g ds by (auto simp: float_print_def float_exponent_def MAXFLD_def Let_def)
qed

lemma to_float_exponent_returns:
  assumes "c = 0x65 \<or> c = 0x45" "precision \<le> 240"
  shows "\<exists>buf. to_float d c falt fplus fspace precision = Some buf \<and> length buf \<le> nat (max 6 precision) + 8"
proof -
  define e where "e = uint (drop_bit 52 d AND 0x7FF)"
  define f where "f = push_bit 11 d AND 0x7FFFFFFFFFFFFFFF"
  show ?thesis
  proof (cases "e = 0x7FF")
    case True
    then show ?thesis by (simp add: to_float_def e_def)
  next
    case False
    let ?nz = "e \<noteq> 0 \<or> f \<noteq> 0"
    define e' f' where "e' = (if ?nz then e - (1023 - 1) else e)" "f' = (if ?nz then f OR 0x8000000000000000 else f)"
    define p where "p = (if precision < 0 then 6 else precision)"
    have "normal f' \<or> e' = 0" using normal_double [of d] by (auto simp: e'_f'_def f_def)
    then obtain f1 e1 d1 f2 e2 d2 where s: "float_up f' e' 0 = Some (f1, e1, d1)" "float_down f1 e1 d1 = Some (f2, e2, d2)"
      using float_scaling_returns [of f' e'] by (auto split: Option.bind_splits)
    obtain f3 d3 where r: "float_round c p (float_align f2 e2) d2 = (f3, d3)" by (metis surj_pair)
    define buf where "buf = (if ?nz \<and> bit d 63 then [0x2D] else if fplus then [0x2B] else if fspace then [0x20] else ([] :: bytes))"
    have c: "c \<noteq> 0x67" "c \<noteq> 0x47" using assms(1) by auto
    have x: "(if ?nz then (e - (1023 - 1), f OR 0x8000000000000000) else (e, f)) = (e', f')" by (simp add: e'_f'_def)
    have "to_float d c falt fplus fspace precision = float_print c falt False p buf f3 d3"
      unfolding to_float_def Let_def e_def [symmetric] f_def [symmetric] x p_def [symmetric]
      using False s r c by (simp add: buf_def)
    moreover have "nat p \<le> 240" "length buf \<le> 1" "nat p \<le> nat (max 6 precision)" using assms(2) by (auto simp: p_def buf_def)
    ultimately show ?thesis using float_print_exponent [OF assms(1), of p buf falt f3 d3] by (auto intro: le_trans)
  qed
qed

section \<open>The formatter\<close>

text \<open>The variable arguments, and the stores of \<open>%n\<close> by the address they go to.\<close>

datatype va = IntArg u32 | StrArg bytes | DblArg u64 | PtrArg u32

definition va_int :: "va list \<Rightarrow> (u32 \<times> va list) option" where
  "va_int va = (case va of IntArg v # va \<Rightarrow> Some (v, va) | _ \<Rightarrow> None)"

definition va_str :: "va list \<Rightarrow> (bytes \<times> va list) option" where
  "va_str va = (case va of StrArg v # va \<Rightarrow> Some (v, va) | _ \<Rightarrow> None)"

definition va_dbl :: "va list \<Rightarrow> (u64 \<times> va list) option" where
  "va_dbl va = (case va of DblArg v # va \<Rightarrow> Some (v, va) | _ \<Rightarrow> None)"

definition va_ptr :: "va list \<Rightarrow> (u32 \<times> va list) option" where
  "va_ptr va = (case va of PtrArg v # va \<Rightarrow> Some (v, va) | _ \<Rightarrow> None)"

definition next_char :: "bytes \<Rightarrow> (u8 \<times> bytes) option" where
  "next_char format = (case format of [] \<Rightarrow> None | c # format \<Rightarrow> Some (c, format))"

record prf_flags =
  pf_minus :: bool
  pf_plus :: bool
  pf_space :: bool
  pf_alt :: bool
  pf_pad :: u8

definition no_flags :: prf_flags where
  "no_flags = \<lparr>pf_minus = False, pf_plus = False, pf_space = False, pf_alt = False, pf_pad = 0x20\<rparr>"

text \<open>The flags: the character behind them, and the rest of the format.\<close>

fun prf_flags_loop :: "bytes \<Rightarrow> prf_flags \<Rightarrow> (u8 \<times> bytes \<times> prf_flags) option" where
  "prf_flags_loop [] fl = None"
| "prf_flags_loop (c # format) fl =
     (if c = 0x2D then prf_flags_loop format (fl\<lparr>pf_minus := True\<rparr>)
      else if c = 0x2B then prf_flags_loop format (fl\<lparr>pf_plus := True\<rparr>)
      else if c = 0x20 then prf_flags_loop format (fl\<lparr>pf_space := True\<rparr>)
      else if c = 0x23 then prf_flags_loop format (fl\<lparr>pf_alt := True\<rparr>)
      else if c = 0x30 then prf_flags_loop format (fl\<lparr>pf_pad := 0x30\<rparr>)
      else Some (c, format, fl))"

text \<open>\<open>_atoi\<close>: the number that starts one character before the pointer.\<close>

fun prf_atoi :: "u32 \<Rightarrow> bytes \<Rightarrow> u32 \<times> bytes" where
  "prf_atoi i [] = (i, [])"
| "prf_atoi i (c # p) = (if isdigit (promote c) then prf_atoi (10 * i + promote c - 0x30) p else (i, c # p))"

text \<open>The field width: also the flags, for a negative width left-justifies.\<close>

definition prf_width :: "u8 \<Rightarrow> bytes \<Rightarrow> prf_flags \<Rightarrow> va list \<Rightarrow> (nat \<times> u8 \<times> bytes \<times> prf_flags \<times> va list) option" where
  "prf_width c format fl va = do {
     (width, c, format, fl, va) \<leftarrow>
       (if c = 0x2A
        then do {
          (width, va) \<leftarrow> va_int va;
          (c, format) \<leftarrow> next_char format;
          Some (if sint width < 0 then (- width, c, format, fl\<lparr>pf_minus := True\<rparr>, va) else (width, c, format, fl, va)) }
        else if \<not> isdigit (promote c) then Some (0, c, format, fl, va)
        else do {
          let (width, format) = prf_atoi 0 (c # format);
          (c, format) \<leftarrow> next_char format;
          Some (width, c, format, fl, va) });
     Some (if width > word_of_nat MAXFLD then MAXFLD else unat width, c, format, fl, va) }"

definition prf_precision :: "u8 \<Rightarrow> bytes \<Rightarrow> va list \<Rightarrow> (int \<times> u8 \<times> bytes \<times> va list) option" where
  "prf_precision c format va =
     (if c = 0x2E
      then do {
        (c, format) \<leftarrow> next_char format;
        (precision, format, va) \<leftarrow>
          (if c = 0x2A then do { (p, va) \<leftarrow> va_int va; Some (sint p, format, va) }
           else let (p, format) = prf_atoi 0 (c # format) in Some (sint p, format, va));
        let precision = (if precision > int MAXFLD then - 1 else precision);
        (c, format) \<leftarrow> next_char format;
        Some (precision, c, format, va) }
      else Some (- 1, c, format, va))"

text \<open>The length modifiers; \<open>strchr\<close> also finds the terminating NUL of its string.\<close>

definition prf_modifier :: "u8 \<Rightarrow> bytes \<Rightarrow> (u8 \<times> bytes) option" where
  "prf_modifier c format = (if c \<in> {0x68, 0x6C, 0x4C, 0x7A, 0} then next_char format else Some (c, format))"

text \<open>One conversion: the text in the buffer with its prefix and padding, a store, a character sent
  as it is, nothing, or the end of the format.\<close>

datatype prf_conv = Field bytes nat u8 | Store u32 | Percent | Nothing | End

definition prf_convert :: "u8 \<Rightarrow> prf_flags \<Rightarrow> int \<Rightarrow> va list \<Rightarrow> (prf_conv \<times> va list) option" where
  "prf_convert c fl precision va =
     (let ipad = (if precision \<noteq> - 1 then 0x20 else pf_pad fl)
      in if c = 0x63 then do { (v, va) \<leftarrow> va_int va; Some (Field [ucast v] 0 (pf_pad fl), va) }
      else if c = 0x64 \<or> c = 0x69 then do {
        (v, va) \<leftarrow> va_int va;
        Some (Field (to_dec v (pf_plus fl) (pf_space fl) precision) (if pf_plus fl \<or> pf_space fl \<or> sint v < 0 then 1 else 0) ipad, va) }
      else if c \<in> {0x65, 0x45, 0x66, 0x67, 0x47} then do {
        (v, va) \<leftarrow> va_dbl va;
        buf \<leftarrow> to_float v c (pf_alt fl) (pf_plus fl) (pf_space fl) precision;
        Some (Field buf (if pf_plus fl \<or> pf_space fl \<or> peek buf = 0x2D then 1 else 0) (pf_pad fl), va) }
      else if c = 0x6E then do { (a, va) \<leftarrow> va_ptr va; Some (Store a, va) }
      else if c = 0x6F then do { (v, va) \<leftarrow> va_int va; Some (Field (to_octal v (pf_alt fl) precision) 0 ipad, va) }
      else if c = 0x70 then do { (v, va) \<leftarrow> va_int va; Some (Field (to_hex v True 8 0x78) 0 ipad, va) }
      else if c = 0x73 then do {
        (s, va) \<leftarrow> va_str va;
        let s = take MAXFLD s;
        let s = (if precision \<ge> 0 \<and> precision < int (length s) then take (nat precision) s else s);
        Some (if s \<noteq> [] then Field s 0 (pf_pad fl) else Nothing, va) }
      else if c = 0x75 then do { (v, va) \<leftarrow> va_int va; Some (Field (to_udec v precision) 0 ipad, va) }
      else if c = 0x78 \<or> c = 0x58 then do {
        (v, va) \<leftarrow> va_int va; Some (Field (to_hex v (pf_alt fl) precision c) (if pf_alt fl then 2 else 0) ipad, va) }
      else if c = 0x25 then Some (Percent, va)
      else if c = 0 then Some (End, va)
      else Some (Nothing, va))"

text \<open>Justification inside the buffer: the text is moved to the right, then the padding is written
  behind the prefix.\<close>

definition prf_justify :: "bytes \<Rightarrow> nat \<Rightarrow> u8 \<Rightarrow> bool \<Rightarrow> nat \<Rightarrow> bytes" where
  "prf_justify buf prefix pad fminus width =
     (if length buf < width
      then let k = width - length buf
           in if fminus then buf @ replicate k 0x20
              else let moved = take k (buf @ replicate k 0) @ buf;
                       prefix = (if pad = 0x20 then 0 else prefix)
                   in take prefix moved @ replicate k pad @ drop (prefix + k) moved
      else buf)"

text \<open>A whole directive behind its \<open>%\<close>: \<open>None\<close> in the second place for the end of the format.\<close>

definition prf_directive ::
    "bytes \<Rightarrow> va list \<Rightarrow> (prf_conv \<times> prf_flags \<times> nat \<times> bytes \<times> va list) option" where
  "prf_directive format va = do {
     (c, format, fl) \<leftarrow> prf_flags_loop format no_flags;
     if c = 0 then Some (End, fl, 0, format, va)
     else do {
       (width, c, format, fl, va) \<leftarrow> prf_width c format fl va;
       (precision, c, format, va) \<leftarrow> prf_precision c format va;
       (c, format) \<leftarrow> prf_modifier c format;
       (conv, va) \<leftarrow> prf_convert c fl precision va;
       Some (conv, fl, width, format, va) } }"

text \<open>The sink takes a character and returns \<open>EOF\<close> to stop; the number of characters it took.\<close>

fun prf_emit :: "(u8 \<Rightarrow> 'd \<Rightarrow> int \<times> 'd) \<Rightarrow> bytes \<Rightarrow> nat \<Rightarrow> 'd \<Rightarrow> bool \<times> nat \<times> 'd" where
  "prf_emit func [] count dest = (True, count, dest)"
| "prf_emit func (c # cs) count dest =
     (case func c dest of (r, dest) \<Rightarrow>
        if r = EOF_ret then (False, count, dest) else prf_emit func cs (count + 1) dest)"

text \<open>Every step of a directive moves on in the format.\<close>

lemma prf_flags_loop_shorter: "prf_flags_loop format fl = Some (c, format', fl') \<Longrightarrow> length format' < length format"
  by (induction format arbitrary: fl) (auto split: if_splits dest: less_SucI)

lemma next_char_shorter: "next_char format = Some (c, format') \<Longrightarrow> length format' < length format"
  by (auto simp: next_char_def split: list.splits)

lemma prf_atoi_shorter: "prf_atoi i format = (n, format') \<Longrightarrow> length format' \<le> length format"
  by (induction format arbitrary: i) (auto split: if_splits dest: le_SucI)

lemma prf_width_shorter:
  "prf_width c format fl va = Some (width, c', format', fl', va') \<Longrightarrow> length format' \<le> length format"
  by (auto simp: prf_width_def split: if_splits Option.bind_splits prod.splits
      dest!: next_char_shorter prf_atoi_shorter)

lemma prf_precision_shorter:
  "prf_precision c format va = Some (precision, c', format', va') \<Longrightarrow> length format' \<le> length format"
  by (auto simp: prf_precision_def Let_def split: if_splits Option.bind_splits prod.splits
      dest!: next_char_shorter prf_atoi_shorter)

lemma prf_modifier_shorter: "prf_modifier c format = Some (c', format') \<Longrightarrow> length format' \<le> length format"
  by (auto simp: prf_modifier_def split: if_splits dest: next_char_shorter)

lemma prf_directive_shorter:
  "prf_directive format va = Some (conv, fl, width, format', va') \<Longrightarrow> length format' < length format"
  unfolding prf_directive_def
  by (auto split: if_splits Option.bind_splits
      dest!: prf_flags_loop_shorter prf_width_shorter prf_precision_shorter prf_modifier_shorter)

function prf_run ::
    "(u8 \<Rightarrow> 'd \<Rightarrow> int \<times> 'd) \<Rightarrow> bytes \<Rightarrow> va list \<Rightarrow> nat \<Rightarrow> 'd \<Rightarrow> (u32 \<times> nat) list \<Rightarrow> (int \<times> 'd \<times> (u32 \<times> nat) list) option" where
  "prf_run func [] va count dest stores = None"
| "prf_run func (c # format) va count dest stores =
     (if c = 0 then Some (int count, dest, stores)
      else if c \<noteq> 0x25
      then case func c dest of (r, dest) \<Rightarrow>
        if r = EOF_ret then Some (EOF_ret, dest, stores) else prf_run func format va (count + 1) dest stores
      else do {
        (conv, fl, width, format, va) \<leftarrow> prf_directive format va;
        case conv of
          End \<Rightarrow> Some (int count, dest, stores)
        | Nothing \<Rightarrow> prf_run func format va count dest stores
        | Store a \<Rightarrow> prf_run func format va count dest (stores @ [(a, count)])
        | Percent \<Rightarrow> (case func 0x25 dest of (r, dest) \<Rightarrow>
            if r = EOF_ret then Some (EOF_ret, dest, stores) else prf_run func format va (count + 1) dest stores)
        | Field buf prefix pad \<Rightarrow>
            if length buf \<ge> MAXFLD + 1 then None
            else case prf_emit func (prf_justify buf prefix pad (pf_minus fl) width) count dest of (ok, count, dest) \<Rightarrow>
              if \<not> ok then Some (EOF_ret, dest, stores) else prf_run func format va count dest stores })"
  by pat_completeness auto
termination
  by (relation "measure (\<lambda>(_, format, _). length format)") (auto dest!: prf_directive_shorter)

section \<open>Printing to memory\<close>

text \<open>The sink of the \<open>sprintf\<close> family: the bytes written so far and the room that is left.\<close>

record emitter =
  em_out :: bytes
  em_len :: int

definition sprintf_out :: "u8 \<Rightarrow> emitter \<Rightarrow> int \<times> emitter" where
  "sprintf_out c p =
     (0, if em_len p > 1 then p\<lparr>em_out := em_out p @ [c], em_len := em_len p - 1\<rparr> else p)"

text \<open>The result, the bytes written to the buffer with the final NUL (for size 0 the NUL goes to a
  dummy), and the stores. The size is an unsigned 32-bit number; the emitter keeps it as a signed
  one, so a size of \<open>2^31\<close> or more leaves a negative room.\<close>

definition vsnprintf :: "u32 \<Rightarrow> bytes \<Rightarrow> va list \<Rightarrow> (int \<times> bytes \<times> (u32 \<times> nat) list) option" where
  "vsnprintf len format vargs = do {
     (r, p, stores) \<leftarrow> prf_run sprintf_out format vargs 0 \<lparr>em_out = [], em_len = sint len\<rparr> [];
     Some (r, if len = 0 then [] else em_out p @ [0], stores) }"

definition snprintf :: "u32 \<Rightarrow> bytes \<Rightarrow> va list \<Rightarrow> (int \<times> bytes \<times> (u32 \<times> nat) list) option" where
  "snprintf len format vargs = do {
     (r, p, stores) \<leftarrow> prf_run sprintf_out format vargs 0 \<lparr>em_out = [], em_len = sint len\<rparr> [];
     Some (r, if len = 0 then [] else em_out p @ [0], stores) }"

definition vsprintf :: "bytes \<Rightarrow> va list \<Rightarrow> (int \<times> bytes \<times> (u32 \<times> nat) list) option" where
  "vsprintf format vargs = do {
     (r, p, stores) \<leftarrow> prf_run sprintf_out format vargs 0 \<lparr>em_out = [], em_len = 0x7FFFFFFF\<rparr> [];
     Some (r, em_out p @ [0], stores) }"

definition sprintf :: "bytes \<Rightarrow> va list \<Rightarrow> (int \<times> bytes \<times> (u32 \<times> nat) list) option" where
  "sprintf format vargs = do {
     (r, p, stores) \<leftarrow> prf_run sprintf_out format vargs 0 \<lparr>em_out = [], em_len = 0x7FFFFFFF\<rparr> [];
     Some (r, em_out p @ [0], stores) }"

section \<open>The text does not depend on the sink\<close>

lemma prf_emit_map:
  assumes "\<And>c d. f2 c (h d) = (fst (f1 c d), h (snd (f1 c d)))"
  shows "prf_emit f2 cs n (h d) = (case prf_emit f1 cs n d of (ok, n, d) \<Rightarrow> (ok, n, h d))"
  by (induction cs arbitrary: n d) (auto simp: assms split: prod.split)

lemma prf_run_map:
  assumes h: "\<And>c d. f2 c (h d) = (fst (f1 c d), h (snd (f1 c d)))"
  shows "prf_run f2 format va n (h d) st = map_option (\<lambda>(r, d, st). (r, h d, st)) (prf_run f1 format va n d st)"
proof (induction "length format" arbitrary: format va n d st rule: less_induct)
  case less
  show ?case
  proof (cases format)
    case (Cons c fmt)
    then have IH: "length fmt' \<le> length fmt \<Longrightarrow>
        prf_run f2 fmt' va n (h d) st = map_option (\<lambda>(r, d, st). (r, h d, st)) (prf_run f1 fmt' va n d st)" for fmt' va n d st
      using less.hyps [of fmt'] by simp
    show ?thesis
    proof (cases "c = 0x25")
      case False
      then show ?thesis using Cons h by (auto simp: IH split: prod.split)
    next
      case True
      show ?thesis
      proof (cases "prf_directive fmt va")
        case None
        then show ?thesis using Cons True by simp
      next
        case (Some a)
        then obtain conv fl w fmt' va' where dir: "prf_directive fmt va = Some (conv, fl, w, fmt', va')" by (cases a) auto
        then have "length fmt' \<le> length fmt" using prf_directive_shorter by (metis less_imp_le)
        note I = IH [OF this]
        show ?thesis
          by (cases conv) (auto simp: Cons True dir I h prf_emit_map [of f2 h f1, OF h] split: prod.split)
      qed
    qed
  qed simp
qed

text \<open>The text of a format as a list.\<close>

definition collect :: "u8 \<Rightarrow> bytes \<Rightarrow> int \<times> bytes" where
  "collect c out = (0, out @ [c])"

definition prf_text :: "bytes \<Rightarrow> va list \<Rightarrow> (bytes \<times> (u32 \<times> nat) list) option" where
  "prf_text format va = map_option snd (prf_run collect format va 0 [] [])"

lemma prf_emit_collect: "prf_emit collect cs n out = (True, n + length cs, out @ cs)"
  by (induction cs arbitrary: n out) (simp_all add: collect_def EOF_ret_def)

lemma prf_run_collect:
  "prf_run collect format va n out st = Some (r, out', st') \<Longrightarrow> \<exists>k. r = int (n + k) \<and> length out' = length out + k"
proof (induction "length format" arbitrary: format va n out st rule: less_induct)
  case less
  have ne: "collect c out = (0, out @ [c])" "(0 :: int) \<noteq> EOF_ret" for c out by (simp_all add: collect_def EOF_ret_def)
  obtain c fmt where f: "format = c # fmt" using less.prems by (cases format) auto
  then have IH: "length fmt' \<le> length fmt \<Longrightarrow> prf_run collect fmt' va n out st = Some (r, out', st') \<Longrightarrow>
      \<exists>k. r = int (n + k) \<and> length out' = length out + k" for fmt' va n out st
    using less.hyps [of fmt'] by simp
  show ?case
  proof (cases "c = 0x25")
    case False
    show ?thesis
    proof (cases "c = 0")
      case True
      then show ?thesis using less.prems f by (intro exI [of _ 0]) simp
    next
      case nz: False
      have "prf_run collect fmt va (n + 1) (out @ [c]) st = Some (r, out', st')"
        using less.prems f nz False by (simp add: ne)
      from IH [OF _ this] obtain k where "r = int (n + 1 + k)" "length out' = length (out @ [c]) + k" by auto
      then show ?thesis by (intro exI [of _ "Suc k"]) simp
    qed
  next
    case True
    then obtain conv fl w fmt' va' where dir: "prf_directive fmt va = Some (conv, fl, w, fmt', va')"
      using less.prems f by (cases "prf_directive fmt va") auto
    then have le: "length fmt' \<le> length fmt" using prf_directive_shorter by (metis less_imp_le)
    show ?thesis
    proof (cases conv)
      case (Field buf prefix pd)
      let ?cs = "prf_justify buf prefix pd (pf_minus fl) w"
      have "prf_run collect fmt' va' (n + length ?cs) (out @ ?cs) st = Some (r, out', st')"
        using less.prems f True Field by (simp add: dir prf_emit_collect split: if_splits)
      from IH [OF le this] obtain k where "r = int (n + length ?cs + k)" "length out' = length (out @ ?cs) + k" by auto
      then show ?thesis by (intro exI [of _ "length ?cs + k"]) simp
    next
      case Percent
      have "prf_run collect fmt' va' (n + 1) (out @ [0x25]) st = Some (r, out', st')"
        using less.prems f True Percent by (simp add: dir ne)
      from IH [OF le this] obtain k where "r = int (n + 1 + k)" "length out' = length (out @ [0x25]) + k" by auto
      then show ?thesis by (intro exI [of _ "Suc k"]) simp
    next
      case End
      then show ?thesis using less.prems f True by (intro exI [of _ 0]) (simp add: dir)
    qed (use IH [OF le] less.prems f True in \<open>auto simp: dir\<close>)
  qed
qed

text \<open>The emitter with a room of \<open>len\<close> bytes after a text.\<close>

definition emitted :: "int \<Rightarrow> bytes \<Rightarrow> emitter" where
  "emitted len text = \<lparr>em_out = take (nat (len - 1)) text, em_len = len - int (min (length text) (nat (len - 1)))\<rparr>"

lemma sprintf_out_emitted: "sprintf_out c (emitted len text) = (fst (collect c text), emitted len (snd (collect c text)))"
proof (cases "length text < nat (len - 1)")
  case True
  then show ?thesis by (simp add: sprintf_out_def emitted_def collect_def)
next
  case False
  then show ?thesis by (auto simp: sprintf_out_def emitted_def collect_def min_def)
qed

lemma snprintf_text:
  "snprintf len format va =
     map_option (\<lambda>(text, stores). (int (length text), if len = 0 then [] else take (nat (sint len - 1)) text @ [0], stores)) (prf_text format va)"
proof -
  have "prf_run sprintf_out format va 0 (emitted (sint len) []) [] =
      map_option (\<lambda>(r, text, stores). (r, emitted (sint len) text, stores)) (prf_run collect format va 0 [] [])"
    by (rule prf_run_map) (rule sprintf_out_emitted)
  moreover have "emitted (sint len) [] = \<lparr>em_out = [], em_len = sint len\<rparr>" by (simp add: emitted_def)
  ultimately show ?thesis
    using prf_run_collect [of format va 0 "[]" "[]"]
    by (cases "prf_run collect format va 0 [] []") (auto simp: snprintf_def prf_text_def emitted_def)
qed

lemma sint_small: "n < 2 ^ 31 \<Longrightarrow> sint (word_of_nat n :: u32) = int n"
  by (simp add: sint_u32 unat_of_nat)

lemma vsnprintf_eq: "vsnprintf len format va = snprintf len format va"
  by (simp add: vsnprintf_def snprintf_def)

text \<open>The decimal format, as the property layer uses it.\<close>

lemma length_to_dec: "length (to_dec v False False (- 1)) \<le> 11"
proof -
  have "length (to_x n 10 (- 1)) \<le> 10" for n :: u32
    using length_num_digits [of 10 "unat n" 9] unat_u32_less [of n] by (simp add: to_x_eq del: unat_u32_less)
  then show ?thesis by (auto simp: to_dec_def to_udec_def intro: le_trans [of _ 10])
qed

lemma prf_text_decimal: "prf_text [0x25, 0x64, 0] [IntArg v] = Some (to_dec v False False (- 1), [])"
proof -
  have d: "\<not> isdigit (promote 0x64)" by code_simp
  have "prf_directive [0x64, 0] [IntArg v] =
      Some (Field (to_dec v False False (- 1)) (if sint v < 0 then 1 else 0) 0x20, no_flags, 0, [0], [])"
    by (simp add: prf_directive_def prf_width_def prf_precision_def prf_modifier_def prf_convert_def va_int_def no_flags_def d)
  then show ?thesis
    using length_to_dec [of v] by (simp add: prf_text_def prf_emit_collect prf_justify_def MAXFLD_def)
qed

lemma snprintf_decimal:
  assumes "12 \<le> sint len"
  shows "snprintf len [0x25, 0x64, 0] [IntArg v] =
    Some (int (length (to_dec v False False (- 1))), to_dec v False False (- 1) @ [0], [])"
  using length_to_dec [of v] assms by (auto simp: snprintf_text prf_text_decimal)

text \<open>Where the formatter departs from the language standard: zero padding by one place destroys the
  prefix of a hexadecimal number; an empty string is not padded; a precision of 255 overruns the
  buffer by one for a negative number; and a directive cut off behind its width is read past the
  end of the format.\<close>

lemma prf_hex_prefix_lost: "prf_text [0x25, 0x23, 0x30, 0x35, 0x78, 0] [IntArg 0x1F] = Some ([0x30, 0x30, 0x30, 0x31, 0x66], [])"
  by code_simp

lemma prf_empty_string_not_padded: "prf_text [0x25, 0x33, 0x73, 0] [StrArg []] = Some ([], [])"
  by code_simp

lemma prf_precision_overruns: "prf_text [0x25, 0x2E, 0x32, 0x35, 0x35, 0x64, 0] [IntArg (- 1)] = None"
  by code_simp

lemma prf_cut_off_directive: "prf_text [0x25, 0x35, 0] [] = None"
  by code_simp

section \<open>Properties\<close>

text \<open>(C40) The conversions \<open>%e\<close> and \<open>%E\<close> return for every double, infinities, NaNs, zeros and denormal
  numbers included: all scaling loops end, and for a precision of at most 240 the text fits the
  conversion buffer.\<close>

theorem float_conversion_returns:
  assumes "c = 0x65 \<or> c = 0x45" "precision \<le> 240"
  shows "\<exists>buf. to_float d c falt fplus fspace precision = Some buf \<and> length buf \<le> MAXFLD"
  using to_float_exponent_returns [OF assms, of d falt fplus fspace] assms(2) by (auto simp: MAXFLD_def)

theorem float_conversion_returns_witness:
  "\<exists>buf. to_float 0x3FF8000000000000 0x65 False False False 6 = Some buf \<and> length buf \<le> MAXFLD"
  using float_conversion_returns [of "0x65" 6 "0x3FF8000000000000" False False False] by simp

text \<open>(C39) \<open>snprintf\<close> and \<open>vsnprintf\<close> return the length of the whole text of the format. For a size
  between 1 and \<open>2^31 - 1\<close> they write the front of that text, cut to one byte less than the size, and a
  final NUL. For size 0 they write nothing, and for a size from \<open>2^31\<close> on, which is negative as an
  \<open>int\<close>, the NUL alone. They never write more than the size. Where the formatter itself is undefined,
  so are they, whatever the size.\<close>

theorem snprintf_writes_front:
  "snprintf len format va =
     map_option (\<lambda>(text, stores).
       (int (length text),
        if len = 0 then [] else if unat len < 2 ^ 31 then take (unat len - 1) text @ [0] else [0],
        stores)) (prf_text format va) \<and>
   pred_option (\<lambda>(r, out, stores). length out \<le> unat len) (snprintf len format va) \<and>
   vsnprintf len format va = snprintf len format va"
proof -
  have "take (nat (sint len - 1)) cs @ [0] = (if unat len < 2 ^ 31 then take (unat len - 1) cs @ [0] else [0])" for cs :: bytes
  proof (cases "unat len < 2 ^ 31")
    case True
    then have "sint len = int (unat len)" by (simp only: sint_u32 if_True)
    then have "nat (sint len - 1) = unat len - 1" by (simp only: nat_minus_as_int)
    then show ?thesis using True by simp
  next
    case False
    then have "nat (sint len - 1) = 0" using sint_u32_neg [of len] by auto
    then show ?thesis using False by simp
  qed
  moreover have "len = 0 \<or> 0 < unat len" by (simp add: unat_gt_0)
  ultimately show ?thesis
    by (cases "prf_text format va") (auto simp: snprintf_text vsnprintf_eq)
qed

end
