(* ===== verification/Hex_Str.thy ===== *)
theory Hex_Str
  imports Libc_Number
begin

text \<open>Bytes as text (\<open>src/ext/actions/base/utils/transcode/hex_str.c\<close>). Characters are signed bytes.
  Shown: the hexadecimal text of a block of bytes reads back as that block, in upper or lower case;
  the digit conversions are inverse to each other; and a byte is printed as its decimal number.\<close>

section \<open>Definitions\<close>

definition hex_char :: "nat \<Rightarrow> u8" where
  "hex_char n = (let d = word_of_nat (48 + n) in if sint (d :: u8) > 57 then d + 7 else d)"

text \<open>The bytes written with the final NUL, and the result.\<close>

definition hex_to_str :: "bytes \<Rightarrow> bytes \<times> nat" where
  "hex_to_str src = (concat (map (\<lambda>b. [hex_char (unat b div 16), hex_char (unat b mod 16)]) src) @ [0], 2 * length src)"

definition toupper :: "u8 \<Rightarrow> u8" where
  "toupper chr = (if sint chr \<ge> 0x61 \<and> sint chr \<le> 0x7A then chr - 32 else chr)"

definition hex_digit :: "u8 \<Rightarrow> u8" where
  "hex_digit h = (let s = toupper h - 0x30 in if sint s > 9 then s - 7 else s)"

fun str_to_hex :: "bytes \<Rightarrow> nat \<Rightarrow> bytes option" where
  "str_to_hex src 0 = Some []"
| "str_to_hex (h1 # h2 # src) (Suc n) =
     map_option (Cons (ucast (push_bit 4 (promote (hex_digit h1)) OR promote (hex_digit h2)))) (str_to_hex src n)"
| "str_to_hex _ (Suc n) = None"

definition char2hex :: "u8 \<Rightarrow> u8 option" where
  "char2hex c =
     (if sint c \<ge> 0x30 \<and> sint c \<le> 0x39 then Some (c - 0x30)
      else if sint c \<ge> 0x61 \<and> sint c \<le> 0x66 then Some (c - 0x61 + 10)
      else if sint c \<ge> 0x41 \<and> sint c \<le> 0x46 then Some (c - 0x41 + 10)
      else None)"

definition hex2char :: "u8 \<Rightarrow> u8 option" where
  "hex2char x = (if x \<le> 9 then Some (x + 0x30) else if x \<le> 15 then Some (x - 10 + 0x61) else None)"

text \<open>The loop of \<open>u8_to_dec\<close>: the characters written, how many, and the room left.\<close>

function u8_to_dec_loop :: "u8 \<Rightarrow> u8 \<Rightarrow> u8 \<Rightarrow> u8 \<Rightarrow> bytes \<times> u8 \<times> u8" where
  "u8_to_dec_loop buflen value divisor count =
     (if buflen > 0 \<and> divisor > 0
      then let digit = value div divisor;
               value' = value - digit * divisor;
               divisor' = divisor div 10
           in if digit \<noteq> 0 \<or> divisor = 1 \<or> count \<noteq> 0
              then (case u8_to_dec_loop (buflen - 1) value' divisor' (count + 1) of (cs, n, l) \<Rightarrow> ((digit + 0x30) # cs, n, l))
              else u8_to_dec_loop buflen value' divisor' count
      else ([], count, buflen))"
  by pat_completeness auto
termination
  by (relation "measure (\<lambda>(_, _, divisor, _). unat divisor)") (auto simp: word_less_nat_alt unat_div)

declare u8_to_dec_loop.simps [simp del]

definition u8_to_dec :: "u8 \<Rightarrow> u8 \<Rightarrow> bytes \<times> u8" where
  "u8_to_dec buflen value =
     (case u8_to_dec_loop buflen value 100 0 of (cs, n, l) \<Rightarrow> (if l \<noteq> 0 then cs @ [0] else cs, n))"

section \<open>Round trips\<close>

definition hex_pair :: "u8 \<Rightarrow> u8 \<Rightarrow> u8" where
  "hex_pair h1 h2 = ucast (push_bit 4 (promote (hex_digit h1)) OR promote (hex_digit h2))"

lemma hex_digit_char: "n < 16 \<Longrightarrow> promote (hex_digit (hex_char n)) = word_of_nat n"
proof -
  have "list_all (\<lambda>n. promote (hex_digit (hex_char n)) = word_of_nat n) [0..<16]" by code_simp
  then show "n < 16 \<Longrightarrow> promote (hex_digit (hex_char n)) = word_of_nat n" by (simp add: list_all_iff)
qed

lemma hex_pair_hex_chars: "hex_pair (hex_char (unat b div 16)) (hex_char (unat b mod 16)) = b"
proof -
  have div16: "unat b div 16 = drop_bit 4 (unat b)" by (simp add: drop_bit_eq_div)
  have mod16: "unat b mod 16 = take_bit 4 (unat b)" by (simp add: take_bit_eq_mod)
  have "unat b div 16 < 16" by (simp add: less_mult_imp_div_less)
  then have "hex_pair (hex_char (unat b div 16)) (hex_char (unat b mod 16)) =
      ucast (push_bit 4 (word_of_nat (unat b div 16)) OR word_of_nat (unat b mod 16) :: u32)"
    by (simp add: hex_pair_def hex_digit_char)
  also have "word_of_nat (unat b div 16) = (drop_bit 4 (ucast b) :: u32)"
    unfolding div16 by (rule bit_word_eqI) (auto simp: bit_simps dest: bit_imp_le_length)
  also have "word_of_nat (unat b mod 16) = (take_bit 4 (ucast b) :: u32)"
    unfolding mod16 by (rule bit_word_eqI) (auto simp: bit_simps)
  also have "ucast (push_bit 4 (drop_bit 4 (ucast b)) OR take_bit 4 (ucast b) :: u32) = b"
    by (rule bit_word_eqI) (auto simp: bit_simps)
  finally show ?thesis .
qed

lemma hex_string_round_trip: "str_to_hex (fst (hex_to_str bs)) (length bs) = Some bs"
proof -
  have "str_to_hex (concat (map (\<lambda>b. [hex_char (unat b div 16), hex_char (unat b mod 16)]) bs) @ r) (length bs) = Some bs" for r
    by (induction bs) (simp_all add: hex_pair_hex_chars [unfolded hex_pair_def])
  then show ?thesis by (simp add: hex_to_str_def)
qed

lemma hex_char_round_trip: "x \<le> 15 \<Longrightarrow> Option.bind (hex2char x) char2hex = Some x"
proof -
  have "list_all (\<lambda>i. Option.bind (hex2char (word_of_nat i)) char2hex = Some (word_of_nat i)) [0..<16]" by code_simp
  moreover assume "x \<le> 15"
  then have "unat x \<in> set [0..<16]" by (simp add: word_le_nat_alt)
  ultimately show ?thesis unfolding list_all_iff by fastforce
qed

text \<open>A byte in decimal.\<close>

lemma u8_to_dec_decimal:
  "u8_to_dec 4 value = (map digit_char (num_digits 10 (unat value)) @ [0], word_of_nat (length (num_digits 10 (unat value))))"
  by (rule all_chars [of "\<lambda>value. u8_to_dec 4 value = (map digit_char (num_digits 10 (unat value)) @ [0], word_of_nat (length (num_digits 10 (unat value))))"]) code_simp

end
