(* ===== verification/Property_Cache.thy ===== *)
theory Property_Cache
  imports Nvram
begin

text \<open>The property cache (\<open>src/ext/actions/base/property/property_cache.c\<close>): a table of 70 entries that
  holds values until they are flushed to the parameter store. Callers are serialised by
  \<open>nvram_cache_mutex\<close>. \<open>None\<close> stands for an access outside an object, or a call of the store that does
  not return.

  A data pointer of an entry is null, owns a block of the heap, or (for the Bluetooth keys) points into
  the memory of the caller. Whether an allocation succeeds is up to the memory manager: a parameter,
  asked with the number of the call and the size; the state counts the calls and the blocks in use.\<close>

section \<open>State\<close>

definition MAX_NVRAM_ITEM_CACHE_NUM :: nat where "MAX_NVRAM_ITEM_CACHE_NUM = 70"

datatype cdata = Null | Heap bytes | Global u32

record cache_item =
  ci_name :: "bytes option"
  ci_data :: cdata
  ci_len :: "10 word"
  ci_used :: bool
  ci_flush_req :: bool
  ci_global :: bool

record prop_env =
  pe_malloc :: "nat \<Rightarrow> nat \<Rightarrow> bool"
  pe_mem :: "u32 \<Rightarrow> u8"
  pe_send :: "nat \<Rightarrow> bool"

text \<open>A request to write to the store, as it waits in the queue of the main application.\<close>

record nvram_write_msg =
  wm_name :: bytes
  wm_data :: "bytes option"
  wm_len :: int

record 'd props =
  pr_items :: "cache_item list"
  pr_nv :: "'d nvram_config"
  pr_mallocs :: nat
  pr_blocks :: int
  pr_sent :: nat
  pr_queue :: "nvram_write_msg list"

definition free_item :: cache_item where
  "free_item = \<lparr>ci_name = None, ci_data = Null, ci_len = 0, ci_used = False, ci_flush_req = False, ci_global = False\<rparr>"

abbreviation item :: "'d props \<Rightarrow> nat \<Rightarrow> cache_item" where
  "item s i \<equiv> pr_items s ! i"

abbreviation set_item :: "nat \<Rightarrow> cache_item \<Rightarrow> 'd props \<Rightarrow> 'd props" where
  "set_item i it s \<equiv> s\<lparr>pr_items := (pr_items s)[i := it]\<rparr>"

text \<open>The memory manager, and the bytes behind a data pointer.\<close>

definition mem_malloc :: "prop_env \<Rightarrow> nat \<Rightarrow> 'd props \<Rightarrow> bool \<times> 'd props" where
  "mem_malloc env n s =
     (let ok = pe_malloc env (pr_mallocs s) n
      in (ok, s\<lparr>pr_mallocs := pr_mallocs s + 1, pr_blocks := pr_blocks s + (if ok then 1 else 0)\<rparr>))"

definition mem_free :: "'d props \<Rightarrow> 'd props" where
  "mem_free s = s\<lparr>pr_blocks := pr_blocks s - 1\<rparr>"

definition read_mem :: "prop_env \<Rightarrow> u32 \<Rightarrow> nat \<Rightarrow> bytes" where
  "read_mem env a n = map (\<lambda>i. pe_mem env (a + of_nat i)) [0..<n]"

definition read_data :: "prop_env \<Rightarrow> cdata \<Rightarrow> nat \<Rightarrow> bytes option" where
  "read_data env d n =
     (case d of Null \<Rightarrow> None
      | Heap bs \<Rightarrow> if n \<le> length bs then Some (take n bs) else None
      | Global a \<Rightarrow> Some (read_mem env a n))"

section \<open>The table\<close>

definition find_property_cache :: "bytes \<Rightarrow> 'd props \<Rightarrow> nat option" where
  "find_property_cache name s =
     find (\<lambda>i. ci_used (item s i) \<and> ci_name (item s i) = Some name) [0..<MAX_NVRAM_ITEM_CACHE_NUM]"

definition free_slot :: "'d props \<Rightarrow> nat option" where
  "free_slot s = find (\<lambda>i. \<not> ci_used (item s i)) [0..<MAX_NVRAM_ITEM_CACHE_NUM]"

text \<open>The index of a fresh entry; its name is still empty. After a failure the entry stays unused, whatever
  its pointers are.\<close>

definition get_property_cache :: "prop_env \<Rightarrow> bytes \<Rightarrow> nat \<Rightarrow> 'd props \<Rightarrow> nat option \<times> 'd props" where
  "get_property_cache env name len s =
     (case free_slot s of None \<Rightarrow> (None, s)
      | Some i \<Rightarrow>
          let (ok, s) = mem_malloc env (length name + 1) s
          in if \<not> ok then (None, set_item i ((item s i)\<lparr>ci_name := None\<rparr>) s)
             else let s = set_item i ((item s i)\<lparr>ci_name := Some []\<rparr>) s
                  in if len = 0 then (Some i, set_item i ((item s i)\<lparr>ci_data := Null\<rparr>) s)
                     else let (ok, s) = mem_malloc env len s
                          in if \<not> ok then (None, mem_free (set_item i ((item s i)\<lparr>ci_data := Null\<rparr>) s))
                             else (Some i, set_item i ((item s i)\<lparr>ci_data := Heap (replicate len 0)\<rparr>) s))"

definition get_property_cache2 :: "prop_env \<Rightarrow> bytes \<Rightarrow> nat \<Rightarrow> 'd props \<Rightarrow> nat option \<times> 'd props" where
  "get_property_cache2 env name len s =
     (case free_slot s of None \<Rightarrow> (None, s)
      | Some i \<Rightarrow>
          let (ok, s) = mem_malloc env (length name + 1) s
          in if \<not> ok then (None, set_item i ((item s i)\<lparr>ci_name := None, ci_global := True\<rparr>) s)
             else let s = set_item i ((item s i)\<lparr>ci_name := Some [], ci_global := True\<rparr>) s
                  in if len = 0 then (Some i, set_item i ((item s i)\<lparr>ci_data := Null\<rparr>) s) else (Some i, s))"

definition put_property_cache :: "nat \<Rightarrow> 'd props \<Rightarrow> 'd props" where
  "put_property_cache i s =
     (let it = item s i;
          s = (if ci_data it \<noteq> Null \<and> \<not> ci_global it then mem_free s else s);
          s = (if ci_name it \<noteq> None then mem_free s else s)
      in set_item i free_item s)"

section \<open>Getting and setting\<close>

text \<open>The result and the bytes copied to the caller.\<close>

definition property_cache_get ::
    "'d storage_ops \<Rightarrow> prop_env \<Rightarrow> bytes \<Rightarrow> nat \<Rightarrow> 'd props \<Rightarrow> (int \<times> bytes \<times> 'd props) option" where
  "property_cache_get stg env name len s =
     (case find_property_cache name s of
        Some i \<Rightarrow>
          let n = unat (ci_len (item s i)); read_len = (if n > len then len else n)
          in if ci_data (item s i) \<noteq> Null
             then map_option (\<lambda>bs. (int read_len, bs, s)) (read_data env (ci_data (item s i)) read_len)
             else Some (int read_len, [], s)
      | None \<Rightarrow> do {
          (ret, bs, c) \<leftarrow> nvram_config_get stg (Some name) True (int len) (pr_nv s);
          Some (ret, bs, s\<lparr>pr_nv := c\<rparr>) })"

text \<open>The caller's data: the address and the bytes from there on.\<close>

type_synonym buf = "(u32 \<times> bytes) option"

definition property_cache_set_global_data ::
    "prop_env \<Rightarrow> bytes \<Rightarrow> buf \<Rightarrow> nat \<Rightarrow> 'd props \<Rightarrow> int \<times> 'd props" where
  "property_cache_set_global_data env name data len s =
     (let ptr = (case data of None \<Rightarrow> Null | Some (a, _) \<Rightarrow> Global a)
      in case find_property_cache name s of
        Some i \<Rightarrow>
          (if data = None then (0, put_property_cache i s)
           else (0, set_item i ((item s i)\<lparr>ci_data := ptr, ci_len := word_of_nat len\<rparr>) s))
      | None \<Rightarrow>
          (case get_property_cache2 env name len s of
             (Some i, s) \<Rightarrow>
               (0, set_item i ((item s i)\<lparr>ci_name := Some name, ci_data := ptr, ci_len := word_of_nat len, ci_used := True\<rparr>) s)
           | (None, s) \<Rightarrow> (- ENOMEM, s)))"

text \<open>\<open>memcpy\<close> of the caller's data into the block of an entry.\<close>

definition write_data :: "nat \<Rightarrow> buf \<Rightarrow> nat \<Rightarrow> 'd props \<Rightarrow> 'd props option" where
  "write_data i data len s =
     (case (ci_data (item s i), data) of
        (Heap old, Some (_, bs)) \<Rightarrow>
          if len \<le> length bs \<and> len \<le> length old
          then Some (set_item i ((item s i)\<lparr>ci_data := Heap (blit old 0 (take len bs))\<rparr>) s) else None
      | _ \<Rightarrow> None)"

text \<open>The part that setting a plain value and setting a Bluetooth value have in common: a new value for
  an entry of the table, and a new entry.\<close>

definition replace_data :: "prop_env \<Rightarrow> nat \<Rightarrow> buf \<Rightarrow> nat \<Rightarrow> 'd props \<Rightarrow> (int \<times> 'd props) option" where
  "replace_data env i data len s =
     (if unat (ci_len (item s i)) = len
      then map_option (\<lambda>s. (0, s)) (write_data i data len s)
      else let old = ci_data (item s i); (ok, s) = mem_malloc env len s
           in if \<not> ok then Some (0, set_item i ((item s i)\<lparr>ci_data := Null\<rparr>) s)
              else do {
                s \<leftarrow> write_data i data len (set_item i ((item s i)\<lparr>ci_data := Heap (replicate len 0)\<rparr>) s);
                let s = set_item i ((item s i)\<lparr>ci_len := word_of_nat len\<rparr>) s;
                Some (0, if old \<noteq> Null then mem_free s else s) })"

definition new_data :: "prop_env \<Rightarrow> bytes \<Rightarrow> buf \<Rightarrow> nat \<Rightarrow> 'd props \<Rightarrow> (int \<times> 'd props) option" where
  "new_data env name data len s =
     (case get_property_cache env name len s of
        (None, s) \<Rightarrow> Some (- ENOMEM, s)
      | (Some i, s) \<Rightarrow> do {
          let s = set_item i ((item s i)\<lparr>ci_name := Some name\<rparr>) s;
          s \<leftarrow> (if ci_data (item s i) \<noteq> Null
               then write_data i data len s else Some s);
          Some (0, set_item i ((item s i)\<lparr>ci_len := word_of_nat len, ci_used := True\<rparr>) s) })"

definition property_cache_set_bt_keys ::
    "prop_env \<Rightarrow> bytes \<Rightarrow> buf \<Rightarrow> nat \<Rightarrow> 'd props \<Rightarrow> (int \<times> 'd props) option" where
  "property_cache_set_bt_keys env name data len s =
     (case find_property_cache name s of
        Some i \<Rightarrow>
          (case data of None \<Rightarrow> Some (0, put_property_cache i s)
           | Some _ \<Rightarrow> replace_data env i data len s)
      | None \<Rightarrow> new_data env name data len s)"

definition property_cache_set2 ::
    "prop_env \<Rightarrow> bytes \<Rightarrow> buf \<Rightarrow> nat \<Rightarrow> 'd props \<Rightarrow> (int \<times> 'd props) option" where
  "property_cache_set2 env name data len s =
     (case find_property_cache name s of
        Some i \<Rightarrow>
          (case data of
             None \<Rightarrow> Some (0, if ci_data (item s i) \<noteq> Null
                              then mem_free (set_item i ((item s i)\<lparr>ci_data := Null, ci_len := 0\<rparr>) s) else s)
           | Some _ \<Rightarrow> replace_data env i data len s)
      | None \<Rightarrow> new_data env name data len s)"

text \<open>The names that are treated apart; \<open>strncmp\<close> with a size up to the NUL compares for equality.\<close>

definition CFG_BT_KEYS :: bytes where "CFG_BT_KEYS = [0x42, 0x54, 0x5F, 0x4B, 0x45, 0x59, 0x53]"
definition CFG_BT_CCC :: bytes where "CFG_BT_CCC = [0x42, 0x54, 0x5F, 0x43, 0x43, 0x43]"
definition CFG_BT_CF :: bytes where "CFG_BT_CF = [0x42, 0x54, 0x5F, 0x43, 0x46]"
definition CFG_BT_SC :: bytes where "CFG_BT_SC = [0x42, 0x54, 0x5F, 0x53, 0x43]"

definition str_ncmp_eq :: "bytes \<Rightarrow> bytes \<Rightarrow> nat \<Rightarrow> bool" where
  "str_ncmp_eq s1 s2 n \<longleftrightarrow> take n (s1 @ [0]) = take n (s2 @ [0])"

datatype name_class = Keys | Bt | Plain

definition name_class :: "bytes \<Rightarrow> name_class" where
  "name_class name =
     (if take 2 name \<noteq> [0x42, 0x54] then Plain
      else if str_ncmp_eq name CFG_BT_KEYS 7 then Keys
      else if str_ncmp_eq name CFG_BT_CCC 6 \<or> str_ncmp_eq name CFG_BT_CF 6 \<or> str_ncmp_eq name CFG_BT_SC 6 then Bt
      else Plain)"

definition property_cache_set ::
    "prop_env \<Rightarrow> bytes option \<Rightarrow> buf \<Rightarrow> int \<Rightarrow> 'd props \<Rightarrow> (int \<times> 'd props) option" where
  "property_cache_set env name data len s =
     (case name of None \<Rightarrow> Some (- EINVAL, s)
      | Some name \<Rightarrow>
          if data \<noteq> None \<and> len \<le> 0 then Some (- EINVAL, s)
          else let len = (if data = None then 0 else nat len)
               in case name_class name of
                    Plain \<Rightarrow> property_cache_set2 env name data len s
                  | Keys \<Rightarrow> Some (property_cache_set_global_data env name data len s)
                  | Bt \<Rightarrow> property_cache_set_bt_keys env name data len s)"

section \<open>Flushing\<close>

text \<open>\<open>memcmp\<close> over the length of \<open>name\<close> stops at the NUL of a shorter name.\<close>

definition flush_match :: "bytes option \<Rightarrow> cache_item \<Rightarrow> bool" where
  "flush_match name it \<longleftrightarrow>
     (case name of None \<Rightarrow> True | Some n \<Rightarrow> take (length n) (the (ci_name it)) = n)"

text \<open>The call of the store for an entry.\<close>

definition store_item ::
    "'d storage_ops \<Rightarrow> prop_env \<Rightarrow> nat \<Rightarrow> 'd props \<Rightarrow> (int \<times> 'd props) option" where
  "store_item stg env i s = do {
     let it = item s i;
     data \<leftarrow> (if ci_data it = Null then Some None
             else map_option Some (read_data env (ci_data it) (unat (ci_len it))));
     (ret, c) \<leftarrow> nvram_config_set stg (ci_name it) data (int (unat (ci_len it))) (pr_nv s);
     Some (ret, s\<lparr>pr_nv := c\<rparr>) }"

fun flush_items ::
    "'d storage_ops \<Rightarrow> prop_env \<Rightarrow> bytes option \<Rightarrow> nat list \<Rightarrow> 'd props \<Rightarrow> 'd props option" where
  "flush_items stg env name [] s = Some s"
| "flush_items stg env name (i # is) s =
     (if ci_used (item s i) \<and> flush_match name (item s i)
      then do {
        (ret, s) \<leftarrow> store_item stg env i s;
        flush_items stg env name is (if ret = 0 then put_property_cache i s else s) }
      else flush_items stg env name is s)"

definition property_cache_flush ::
    "'d storage_ops \<Rightarrow> prop_env \<Rightarrow> bytes option \<Rightarrow> 'd props \<Rightarrow> 'd props option" where
  "property_cache_flush stg env name s = flush_items stg env name [0..<MAX_NVRAM_ITEM_CACHE_NUM] s"

definition property_cache_flush_req :: "bytes option \<Rightarrow> 'd props \<Rightarrow> 'd props" where
  "property_cache_flush_req name s = s\<lparr>pr_items :=
     map (\<lambda>it. if ci_used it \<and> flush_match name it then it\<lparr>ci_flush_req := True\<rparr> else it) (pr_items s)\<rparr>"

fun flush_req_items :: "'d storage_ops \<Rightarrow> prop_env \<Rightarrow> nat list \<Rightarrow> 'd props \<Rightarrow> 'd props option" where
  "flush_req_items stg env [] s = Some s"
| "flush_req_items stg env (i # is) s =
     (if ci_used (item s i) \<and> ci_flush_req (item s i)
      then do {
        (ret, s) \<leftarrow> store_item stg env i s;
        let s = (if ret = 0 then put_property_cache i s else s);
        flush_req_items stg env is (set_item i ((item s i)\<lparr>ci_flush_req := False\<rparr>) s) }
      else flush_req_items stg env is s)"

definition property_cache_flush_req_deal :: "'d storage_ops \<Rightarrow> prop_env \<Rightarrow> 'd props \<Rightarrow> 'd props option" where
  "property_cache_flush_req_deal stg env s = flush_req_items stg env [0..<MAX_NVRAM_ITEM_CACHE_NUM] s"

definition property_cache_init :: "'d props \<Rightarrow> 'd props" where
  "property_cache_init s = s\<lparr>pr_items := replicate MAX_NVRAM_ITEM_CACHE_NUM free_item\<rparr>"

section \<open>The shape of the table\<close>

text \<open>A used entry has a name. Its data pointer owns a block with room for its length, unless the name is one
  of the Bluetooth keys, whose data stays with the caller.\<close>

definition slot_ok :: "cache_item \<Rightarrow> bool" where
  "slot_ok it \<longleftrightarrow> (ci_used it \<longrightarrow>
     (case ci_name it of None \<Rightarrow> False
      | Some n \<Rightarrow>
          (name_class n = Keys \<longrightarrow> ci_global it) \<and>
          (case ci_data it of Null \<Rightarrow> True | Heap bs \<Rightarrow> name_class n \<noteq> Keys \<and> unat (ci_len it) \<le> length bs
           | Global a \<Rightarrow> name_class n = Keys)))"

definition names_distinct :: "cache_item list \<Rightarrow> bool" where
  "names_distinct items \<longleftrightarrow> (\<forall>i < length items. \<forall>j < length items.
     ci_used (items ! i) \<longrightarrow> ci_used (items ! j) \<longrightarrow> ci_name (items ! i) = ci_name (items ! j) \<longrightarrow> i = j)"

text \<open>The heap blocks that the entries and the waiting requests own.\<close>

definition slot_blocks :: "cache_item \<Rightarrow> int" where
  "slot_blocks it = (if ci_used it then case ci_data it of Heap _ \<Rightarrow> 2 | _ \<Rightarrow> 1 else 0)"

definition msg_blocks :: "nvram_write_msg \<Rightarrow> int" where
  "msg_blocks m = (if wm_data m = None then 2 else 3)"

definition owned :: "'d props \<Rightarrow> int" where
  "owned s = sum_list (map slot_blocks (pr_items s)) + sum_list (map msg_blocks (pr_queue s))"

definition props_ok :: "'d props \<Rightarrow> bool" where
  "props_ok s \<longleftrightarrow> length (pr_items s) = MAX_NVRAM_ITEM_CACHE_NUM \<and> (\<forall>i < MAX_NVRAM_ITEM_CACHE_NUM. slot_ok (item s i)) \<and>
     names_distinct (pr_items s) \<and> owned s \<le> pr_blocks s"

lemma find_upt_Some: "find P [0..<n] = Some i \<longleftrightarrow> i < n \<and> P i \<and> (\<forall>j < i. \<not> P j)"
  by (auto simp: find_Some_iff)

lemma find_upt_None: "find P [0..<n] = None \<longleftrightarrow> (\<forall>i < n. \<not> P i)"
  by (auto simp: find_None_iff)

lemma sum_list_map_update:
  "i < length xs \<Longrightarrow> sum_list (map f (xs[i := x])) = sum_list (map f xs) - f (xs ! i) + (f x :: int)"
  by (induction xs arbitrary: i) (auto split: nat.split)

lemma find_cache_Some:
  assumes "props_ok s"
  shows "find_property_cache name s = Some i \<longleftrightarrow>
    i < MAX_NVRAM_ITEM_CACHE_NUM \<and> ci_used (item s i) \<and> ci_name (item s i) = Some name"
proof -
  have "j = i" if "i < MAX_NVRAM_ITEM_CACHE_NUM" "j < MAX_NVRAM_ITEM_CACHE_NUM" "ci_used (item s i)" "ci_used (item s j)"
      "ci_name (item s i) = Some name" "ci_name (item s j) = Some name" for j
    using assms that by (simp add: props_ok_def names_distinct_def)
  then show ?thesis unfolding find_property_cache_def find_upt_Some by (metis less_trans nat_neq_iff)
qed

lemma find_cache_None:
  "find_property_cache name s = None \<longleftrightarrow>
    (\<forall>i < MAX_NVRAM_ITEM_CACHE_NUM. ci_used (item s i) \<longrightarrow> ci_name (item s i) \<noteq> Some name)"
  unfolding find_property_cache_def find_upt_None by auto

lemma free_slot_Some: "free_slot s = Some i \<Longrightarrow> i < MAX_NVRAM_ITEM_CACHE_NUM \<and> \<not> ci_used (item s i)"
  unfolding free_slot_def find_upt_Some by simp

text \<open>One entry changes.\<close>

lemma props_ok_update:
  assumes "props_ok s" "i < MAX_NVRAM_ITEM_CACHE_NUM" "pr_items s' = (pr_items s)[i := it]" "pr_queue s' = pr_queue s"
    and "slot_ok it" "pr_blocks s + slot_blocks it - slot_blocks (item s i) \<le> pr_blocks s'"
    and "ci_used it \<Longrightarrow> (ci_used (item s i) \<and> ci_name (item s i) = ci_name it) \<or>
      (\<exists>n. ci_name it = Some n \<and> find_property_cache n s = None)"
  shows "props_ok s'"
proof -
  have len: "length (pr_items s) = MAX_NVRAM_ITEM_CACHE_NUM" using assms(1) by (simp add: props_ok_def)
  have fresh: "j = i" if "j < MAX_NVRAM_ITEM_CACHE_NUM" "ci_used it" "ci_used (item s j)" "ci_name (item s j) = ci_name it" for j
    using assms(1,2,7) that len by (auto simp: props_ok_def names_distinct_def find_cache_None)
  have "names_distinct (pr_items s')"
    using assms(1,2,3) fresh len unfolding names_distinct_def props_ok_def by (auto simp: nth_list_update)
  moreover have "owned s' \<le> pr_blocks s'"
    using assms(1-4,6) len sum_list_map_update [of i "pr_items s" slot_blocks it] by (simp add: owned_def props_ok_def)
  ultimately show ?thesis using assms(1,2,3,5) len by (auto simp: props_ok_def nth_list_update)
qed

text \<open>An unused entry may have any contents.\<close>

lemma get_cache_cases:
  assumes "get_property_cache env name len s = (r, s')" "props_ok s"
  shows "pr_queue s' = pr_queue s \<and> pr_nv s' = pr_nv s \<and>
    (case r of None \<Rightarrow> props_ok s'
     | Some i \<Rightarrow> i < MAX_NVRAM_ITEM_CACHE_NUM \<and> \<not> ci_used (item s i) \<and>
         pr_items s' = (pr_items s)[i := (item s i)\<lparr>ci_name := Some [], ci_data := if len = 0 then Null else Heap (replicate len 0)\<rparr>] \<and>
         pr_blocks s' = pr_blocks s + (if len = 0 then 1 else 2))"
proof (cases "free_slot s")
  case None
  then show ?thesis using assms by (auto simp: get_property_cache_def)
next
  case (Some i)
  note i = free_slot_Some [OF Some]
  have len: "length (pr_items s) = MAX_NVRAM_ITEM_CACHE_NUM" using assms(2) by (simp add: props_ok_def)
  have ok: "props_ok t" if "pr_items t = (pr_items s)[i := it]" "pr_queue t = pr_queue s" "pr_blocks s \<le> pr_blocks t" "\<not> ci_used it" for t it
    by (rule props_ok_update [OF assms(2), of i t it]) (use i that in \<open>auto simp: slot_ok_def slot_blocks_def\<close>)
  show ?thesis
    using assms(1) i len unfolding get_property_cache_def Some
    by (auto simp: mem_malloc_def mem_free_def Let_def split: if_splits intro!: ok)
qed

lemma put_cache_ok:
  assumes "props_ok s" "i < MAX_NVRAM_ITEM_CACHE_NUM" "ci_used (item s i)"
  shows "props_ok (put_property_cache i s)"
proof (rule props_ok_update [OF assms(1,2)])
  have ok: "slot_ok (item s i)" using assms(1,2) by (simp add: props_ok_def)
  show "pr_blocks s + slot_blocks free_item - slot_blocks (item s i) \<le> pr_blocks (put_property_cache i s)"
    using ok assms(3)
    by (auto simp: put_property_cache_def mem_free_def slot_ok_def slot_blocks_def free_item_def Let_def split: option.splits cdata.splits)
qed (auto simp: put_property_cache_def mem_free_def slot_ok_def free_item_def Let_def)

lemma set_global_ok:
  assumes "props_ok s" "name_class name = Keys"
  shows "props_ok (snd (property_cache_set_global_data env name data len s))"
proof -
  have len: "length (pr_items s) = MAX_NVRAM_ITEM_CACHE_NUM" using assms(1) by (simp add: props_ok_def)
  consider i where "find_property_cache name s = Some i" | "find_property_cache name s = None" "free_slot s = None"
    | i where "find_property_cache name s = None" "free_slot s = Some i" by fastforce
  then show ?thesis
  proof cases
    case (1 i)
    note i = 1 [unfolded find_cache_Some [OF assms(1)]]
    have ok: "slot_ok (item s i)" using assms(1) i by (simp add: props_ok_def)
    show ?thesis
    proof (cases data)
      case None
      then show ?thesis using put_cache_ok [OF assms(1)] i 1 by (simp add: property_cache_set_global_data_def)
    next
      case (Some p)
      obtain a bs where p: "p = (a, bs)" by (cases p)
      show ?thesis
        by (rule props_ok_update [OF assms(1), of i])
          (use ok i 1 Some p assms(2) in \<open>auto simp: property_cache_set_global_data_def slot_ok_def slot_blocks_def split: cdata.splits\<close>)
    qed
  next
    case 2
    then show ?thesis using assms(1) by (simp add: property_cache_set_global_data_def get_property_cache2_def)
  next
    case (3 i)
    note i = free_slot_Some [OF 3(2)]
    let ?t = "snd (property_cache_set_global_data env name data len s)"
    have "pr_items ?t = (pr_items s)[i := item ?t i] \<and> slot_ok (item ?t i) \<and> pr_queue ?t = pr_queue s \<and>
        (ci_used (item ?t i) \<longrightarrow> ci_name (item ?t i) = Some name) \<and> pr_blocks s + slot_blocks (item ?t i) \<le> pr_blocks ?t"
      using 3 i len assms(2)
      by (auto simp: property_cache_set_global_data_def get_property_cache2_def mem_malloc_def Let_def slot_ok_def slot_blocks_def
          split: option.splits cdata.splits)
    then show ?thesis using i 3(1) by (intro props_ok_update [OF assms(1), of i]) (auto simp: slot_blocks_def)
  qed
qed

lemma replace_data_ok:
  assumes "props_ok s" "i < MAX_NVRAM_ITEM_CACHE_NUM" "ci_used (item s i)" "ci_name (item s i) = Some name" "name_class name \<noteq> Keys"
    and "replace_data env i data len s = Some (ret, s')"
  shows "props_ok s'"
proof -
  have ok: "slot_ok (item s i)" and len: "length (pr_items s) = MAX_NVRAM_ITEM_CACHE_NUM" using assms(1,2) by (simp_all add: props_ok_def)
  have "pr_items s' = (pr_items s)[i := item s' i] \<and> slot_ok (item s' i) \<and> pr_queue s' = pr_queue s \<and> ci_name (item s' i) = Some name \<and>
      pr_blocks s + slot_blocks (item s' i) - slot_blocks (item s i) \<le> pr_blocks s'"
    using assms(2-6) ok len
    by (auto simp: replace_data_def write_data_def mem_malloc_def mem_free_def Let_def slot_ok_def slot_blocks_def unat_of_nat
        split: if_splits option.splits cdata.splits prod.splits)
  then show ?thesis using assms(2-4) by (intro props_ok_update [OF assms(1,2)]) auto
qed

lemma new_data_ok:
  assumes "props_ok s" "find_property_cache name s = None" "name_class name \<noteq> Keys"
    and "new_data env name data len s = Some (ret, s')"
  shows "props_ok s'"
proof -
  obtain r t where g: "get_property_cache env name len s = (r, t)" by fastforce
  note c = get_cache_cases [OF g assms(1)]
  have len: "length (pr_items s) = MAX_NVRAM_ITEM_CACHE_NUM" using assms(1) by (simp add: props_ok_def)
  show ?thesis
  proof (cases r)
    case None
    then show ?thesis using assms(4) g c by (auto simp: new_data_def)
  next
    case (Some i)
    have "pr_items s' = (pr_items s)[i := item s' i] \<and> slot_ok (item s' i) \<and> pr_queue s' = pr_queue s \<and> ci_name (item s' i) = Some name \<and>
        pr_blocks s + slot_blocks (item s' i) \<le> pr_blocks s'"
      using assms(3,4) g c len Some
      by (auto simp: new_data_def write_data_def Let_def slot_ok_def slot_blocks_def unat_of_nat
        split: if_splits option.splits cdata.splits prod.splits)
    then show ?thesis using c Some assms(2) by (intro props_ok_update [OF assms(1), of i]) (auto simp: slot_blocks_def)
  qed
qed

lemma set_cases:
  assumes "props_ok s" "name_class name \<noteq> Keys" "f \<in> {property_cache_set2, property_cache_set_bt_keys}"
    and "f env name data len s = Some (ret, s')"
  shows "props_ok s'"
proof (cases "find_property_cache name s")
  case None
  then have "new_data env name data len s = Some (ret, s')"
    using assms(3,4) by (auto simp: property_cache_set2_def property_cache_set_bt_keys_def)
  then show ?thesis by (rule new_data_ok [OF assms(1) None assms(2)])
next
  case (Some i)
  note i = Some [unfolded find_cache_Some [OF assms(1)]]
  have ok: "slot_ok (item s i)" and len: "length (pr_items s) = MAX_NVRAM_ITEM_CACHE_NUM" using assms(1) i by (simp_all add: props_ok_def)
  show ?thesis
  proof (cases data)
    case None
    have del: "props_ok (mem_free (set_item i ((item s i)\<lparr>ci_data := Null, ci_len := 0\<rparr>) s))" if "ci_data (item s i) \<noteq> Null"
      by (rule props_ok_update [OF assms(1), of i])
        (use i ok that assms(2) in \<open>auto simp: mem_free_def slot_ok_def slot_blocks_def split: cdata.splits\<close>)
    show ?thesis
      using assms(1,3,4) None Some i put_cache_ok [OF assms(1), of i] del
      by (auto simp: property_cache_set2_def property_cache_set_bt_keys_def split: if_splits)
  next
    case (Some d)
    then have "replace_data env i data len s = Some (ret, s')"
      using assms(3,4) \<open>find_property_cache name s = Some i\<close> by (auto simp: property_cache_set2_def property_cache_set_bt_keys_def)
    then show ?thesis using replace_data_ok [OF assms(1) _ _ _ assms(2)] i by blast
  qed
qed

lemma set_ok:
  assumes "props_ok s" "property_cache_set env name data len s = Some (ret, s')"
  shows "props_ok s'"
proof (cases "name = None \<or> (data \<noteq> None \<and> len \<le> 0)")
  case True
  then show ?thesis using assms by (auto simp: property_cache_set_def split: option.splits)
next
  case False
  then obtain nm where nm: "name = Some nm" "\<not> (data \<noteq> None \<and> len \<le> 0)" by auto
  let ?n = "if data = None then 0 else nat len"
  note e = assms(2) [unfolded property_cache_set_def nm(1) option.case if_not_P [OF nm(2)] Let_def]
  show ?thesis
  proof (cases "name_class nm")
    case Keys
    then have "snd (property_cache_set_global_data env nm data ?n s) = s'" using e by simp
    then show ?thesis using set_global_ok [OF assms(1) Keys] by metis
  next
    case Bt
    then have "property_cache_set_bt_keys env nm data ?n s = Some (ret, s')" using e by simp
    then show ?thesis using set_cases [OF assms(1), of nm property_cache_set_bt_keys] Bt by simp
  next
    case Plain
    then have "property_cache_set2 env nm data ?n s = Some (ret, s')" using e by simp
    then show ?thesis using set_cases [OF assms(1), of nm property_cache_set2] Plain by simp
  qed
qed

lemma flush_req_slot [simp]:
  "slot_ok (it\<lparr>ci_flush_req := b\<rparr>) = slot_ok it" "slot_blocks (it\<lparr>ci_flush_req := b\<rparr>) = slot_blocks it"
  by (cases "ci_name it"; cases "ci_data it"; simp add: slot_ok_def) (simp add: slot_blocks_def)

lemma props_ok_map:
  assumes "props_ok s" "\<And>it. ci_used (f it) = ci_used it \<and> ci_name (f it) = ci_name it \<and> slot_ok (f it) = slot_ok it \<and> slot_blocks (f it) = slot_blocks it"
  shows "props_ok (s\<lparr>pr_items := map f (pr_items s)\<rparr>)"
  using assms unfolding props_ok_def names_distinct_def owned_def by (simp add: comp_def)

lemma flush_req_ok:
  assumes "props_ok s"
  shows "props_ok (property_cache_flush_req name s)"
  unfolding property_cache_flush_req_def
  by (rule props_ok_map [OF assms]) simp

lemma store_item_keeps:
  assumes "store_item stg env i s = Some (ret, s')"
  shows "pr_items s' = pr_items s \<and> pr_queue s' = pr_queue s \<and> pr_blocks s' = pr_blocks s"
  using assms by (auto simp: store_item_def Let_def split: Option.bind_splits)

lemma props_ok_cong:
  "pr_items s' = pr_items s \<Longrightarrow> pr_queue s' = pr_queue s \<Longrightarrow> pr_blocks s' = pr_blocks s \<Longrightarrow> props_ok s' \<longleftrightarrow> props_ok s"
  by (simp add: props_ok_def owned_def)

lemma store_put_ok:
  assumes "props_ok s" "i < MAX_NVRAM_ITEM_CACHE_NUM" "ci_used (item s i)" "store_item stg env i s = Some (ret, t)"
  shows "props_ok (if ret = 0 then put_property_cache i t else t)"
proof -
  have "props_ok t" "ci_used (item t i)" using store_item_keeps [OF assms(4)] assms(1,3) props_ok_cong [of t s] by simp_all
  then show ?thesis using put_cache_ok [of t i] assms(2) by simp
qed

lemma unflag_ok:
  assumes "props_ok s" "i < MAX_NVRAM_ITEM_CACHE_NUM"
  shows "props_ok (set_item i ((item s i)\<lparr>ci_flush_req := False\<rparr>) s)"
  by (rule props_ok_update [OF assms, where it = "(item s i)\<lparr>ci_flush_req := False\<rparr>"])
    (use assms in \<open>auto simp: props_ok_def\<close>)

lemma flush_items_ok:
  "props_ok s \<Longrightarrow> set is \<subseteq> {..<MAX_NVRAM_ITEM_CACHE_NUM} \<Longrightarrow> flush_items stg env name is s = Some s' \<Longrightarrow> props_ok s'"
proof (induction "is" arbitrary: s)
  case (Cons i "is")
  show ?case
  proof (cases "ci_used (item s i) \<and> flush_match name (item s i)")
    case True
    then obtain ret t where t: "store_item stg env i s = Some (ret, t)"
        "flush_items stg env name is (if ret = 0 then put_property_cache i t else t) = Some s'"
      using Cons.prems(3) [unfolded flush_items.simps if_P [OF True]] by (cases "store_item stg env i s") auto
    show ?thesis by (rule Cons.IH [OF store_put_ok [OF Cons.prems(1) _ _ t(1)] _ t(2)]) (use True Cons.prems(2) in simp_all)
  next
    case False
    then have "flush_items stg env name is s = Some s'" using Cons.prems(3) [unfolded flush_items.simps if_not_P [OF False]] by simp
    then show ?thesis using Cons.IH [OF Cons.prems(1)] Cons.prems(2) by simp
  qed
qed simp

lemma flush_req_items_ok:
  "props_ok s \<Longrightarrow> set is \<subseteq> {..<MAX_NVRAM_ITEM_CACHE_NUM} \<Longrightarrow> flush_req_items stg env is s = Some s' \<Longrightarrow> props_ok s'"
proof (induction "is" arbitrary: s)
  case (Cons i "is")
  have i: "i < MAX_NVRAM_ITEM_CACHE_NUM" "set is \<subseteq> {..<MAX_NVRAM_ITEM_CACHE_NUM}" using Cons.prems(2) by simp_all
  show ?case
  proof (cases "ci_used (item s i) \<and> ci_flush_req (item s i)")
    case True
    then obtain ret t t' where t: "store_item stg env i s = Some (ret, t)" "t' = (if ret = 0 then put_property_cache i t else t)"
        "flush_req_items stg env is (set_item i ((item t' i)\<lparr>ci_flush_req := False\<rparr>) t') = Some s'"
      using Cons.prems(3) [unfolded flush_req_items.simps if_P [OF True] Let_def] by (cases "store_item stg env i s") auto
    have "props_ok t'" unfolding t(2) by (rule store_put_ok [OF Cons.prems(1) i(1) _ t(1)]) (use True in simp)
    then show ?thesis by (rule Cons.IH [OF unflag_ok i(2) t(3)]) (rule i(1))
  next
    case False
    then have "flush_req_items stg env is s = Some s'" using Cons.prems(3) [unfolded flush_req_items.simps if_not_P [OF False]] by simp
    then show ?thesis using Cons.IH [OF Cons.prems(1) i(2)] by simp
  qed
qed simp

lemma init_ok:
  assumes "owned (property_cache_init s) \<le> pr_blocks s"
  shows "props_ok (property_cache_init s)"
proof -
  have "\<not> ci_used free_item" by (simp add: free_item_def)
  then show ?thesis using assms unfolding props_ok_def by (simp add: property_cache_init_def names_distinct_def slot_ok_def)
qed

text \<open>A store into the cache is undefined only in one case: an entry lost its block when a reallocation
  failed, and the new data has the length the entry still records.\<close>

lemma replace_data_undefined:
  assumes "slot_ok (item s i)" "ci_used (item s i)" "ci_name (item s i) = Some name" "name_class name \<noteq> Keys" "i < length (pr_items s)"
    and "len \<le> length bs"
  shows "replace_data env i (Some (a, bs)) len s = None \<longleftrightarrow> ci_data (item s i) = Null \<and> unat (ci_len (item s i)) = len"
proof (cases "unat (ci_len (item s i)) = len")
  case True
  then show ?thesis
    using assms by (cases "ci_data (item s i)") (simp_all add: replace_data_def write_data_def slot_ok_def)
next
  case False
  then show ?thesis using assms(5,6) by (simp add: replace_data_def write_data_def mem_malloc_def Let_def)
qed

lemma new_data_returns:
  assumes "props_ok s" "case data of None \<Rightarrow> len = 0 | Some (a, bs) \<Rightarrow> len \<le> length bs"
  shows "new_data env name data len s \<noteq> None"
proof -
  obtain r t where g: "get_property_cache env name len s = (r, t)" by fastforce
  have "length (pr_items s) = MAX_NVRAM_ITEM_CACHE_NUM" using assms(1) by (simp add: props_ok_def)
  then show ?thesis
    using g get_cache_cases [OF g assms(1)] assms(2)
    by (auto simp: new_data_def write_data_def Let_def split: option.splits)
qed

lemma set_undefined_iff:
  assumes "props_ok s" "case data of None \<Rightarrow> True | Some (a, bs) \<Rightarrow> len \<le> int (length bs)"
  shows "property_cache_set env name data len s = None \<longleftrightarrow>
    (\<exists>nm i. name = Some nm \<and> name_class nm \<noteq> Keys \<and> data \<noteq> None \<and> 0 < len \<and> find_property_cache nm s = Some i \<and>
       ci_data (item s i) = Null \<and> unat (ci_len (item s i)) = nat len)"
proof (cases "name = None \<or> (data \<noteq> None \<and> len \<le> 0)")
  case True
  then show ?thesis by (auto simp: property_cache_set_def split: option.splits)
next
  case False
  then obtain nm where nm: "name = Some nm" "\<not> (data \<noteq> None \<and> len \<le> 0)" by auto
  let ?n = "if data = None then 0 else nat len"
  note e = property_cache_set_def [of env name data len s, unfolded nm(1) option.case if_not_P [OF nm(2)] Let_def]
  have new: "new_data env nm data ?n s \<noteq> None"
    using assms by (intro new_data_returns) (auto split: option.splits)
  show ?thesis
  proof (cases "find_property_cache nm s")
    case None
    then show ?thesis
      using e new nm by (cases "name_class nm") (auto simp: property_cache_set2_def property_cache_set_bt_keys_def)
  next
    case (Some i)
    note i = Some [unfolded find_cache_Some [OF assms(1)]]
    have "slot_ok (item s i)" "i < length (pr_items s)" using assms(1) i by (simp_all add: props_ok_def)
    note r = replace_data_undefined [OF this(1) _ _ _ this(2)]
    show ?thesis
      using e Some i nm r [of nm ?n _ env] assms(2)
      by (cases "name_class nm"; cases data) (auto simp: property_cache_set2_def property_cache_set_bt_keys_def)
  qed
qed

lemma read_data_ok:
  assumes "slot_ok it" "ci_used it" "ci_data it \<noteq> Null" "n \<le> unat (ci_len it)"
  shows "\<exists>bs. read_data env (ci_data it) n = Some bs \<and> length bs = n"
  using assms by (cases "ci_name it"; cases "ci_data it") (simp_all add: read_data_def read_mem_def slot_ok_def)

text \<open>A value found in the cache is read without touching the store.\<close>

lemma get_cached:
  assumes "props_ok s" "find_property_cache name s = Some i"
  shows "\<exists>bs. property_cache_get stg env name len s = Some (int (min (unat (ci_len (item s i))) len), bs, s) \<and>
    length bs = (if ci_data (item s i) = Null then 0 else min (unat (ci_len (item s i))) len)"
proof -
  have "slot_ok (item s i)" "ci_used (item s i)" using assms find_cache_Some [OF assms(1)] by (simp_all add: props_ok_def)
  then show ?thesis
    using read_data_ok [of "item s i" "min (unat (ci_len (item s i))) len" env] assms(2)
    by (auto simp: property_cache_get_def Let_def min_def)
qed

end
