(* ===== verification/Property_Spec.thy ===== *)
theory Property_Spec
  imports Property_Cache
begin

text \<open>The property cache as a write-back cache of the parameter store: a volatile map of pending updates
  (a value, or a deletion) over the persistent user map. Every operation is matched by one on the two
  maps, as long as allocations succeed and the names are not those of the Bluetooth keys.\<close>

section \<open>What the cache holds\<close>

definition slot_value :: "cache_item \<Rightarrow> bytes option" where
  "slot_value it = (case ci_data it of Heap bs \<Rightarrow> Some (take (unat (ci_len it)) bs) | _ \<Rightarrow> None)"

definition pending :: "'d props \<Rightarrow> bytes \<Rightarrow> bytes option option" where
  "pending s n = map_option (\<lambda>i. slot_value (item s i)) (find_property_cache n s)"

definition requested :: "'d props \<Rightarrow> bytes set" where
  "requested s = {n. \<exists>i. find_property_cache n s = Some i \<and> ci_flush_req (item s i)}"

text \<open>An entry that no failed allocation has touched.\<close>

definition tidy :: "cache_item \<Rightarrow> bool" where
  "tidy it \<longleftrightarrow> \<not> ci_global it \<and>
     (if ci_used it
      then (\<exists>n. ci_name it = Some n \<and> name_class n \<noteq> Keys \<and> good_name n) \<and>
        (case ci_data it of Null \<Rightarrow> ci_len it = 0
         | Heap bs \<Rightarrow> unat (ci_len it) = length bs \<and> 0 < length bs \<and> length bs \<le> NVRAM_MAX_DATA_SIZE | Global a \<Rightarrow> False)
      else \<not> ci_flush_req it)"

definition cache_holds :: "'d props \<Rightarrow> (bytes \<Rightarrow> bytes option option) \<Rightarrow> bytes set \<Rightarrow> bool" where
  "cache_holds s P Q \<longleftrightarrow> props_ok s \<and> (\<forall>i < MAX_NVRAM_ITEM_CACHE_NUM. tidy (item s i)) \<and> pr_blocks s = owned s \<and>
     pending s = P \<and> requested s = Q"

lemma find_update:
  assumes "props_ok s" "props_ok s'" "pr_items s' = (pr_items s)[i := it]" "i < MAX_NVRAM_ITEM_CACHE_NUM"
  shows "find_property_cache n s' =
    (if ci_used it \<and> ci_name it = Some n then Some i else if find_property_cache n s = Some i then None else find_property_cache n s)"
proof -
  have len: "length (pr_items s) = MAX_NVRAM_ITEM_CACHE_NUM" using assms(1) by (simp add: props_ok_def)
  have new: "item s' j = (if j = i then it else item s j)" for j using assms(3,4) len by simp
  show ?thesis
  proof (cases "ci_used it \<and> ci_name it = Some n")
    case True
    then show ?thesis using assms(4) new find_cache_Some [OF assms(2), of n i] by simp
  next
    case False
    then have old: "find_property_cache n s' = Some j \<longleftrightarrow> j \<noteq> i \<and> find_property_cache n s = Some j" for j
      unfolding find_cache_Some [OF assms(1)] find_cache_Some [OF assms(2)] new by auto
    show ?thesis
    proof (cases "find_property_cache n s'")
      case None
      then show ?thesis using False old by (cases "find_property_cache n s") auto
    next
      case (Some j)
      then show ?thesis using False old [of j] by auto
    qed
  qed
qed

text \<open>The effect of changing one entry on what the table holds.\<close>

lemma cache_update:
  assumes h: "cache_holds s P Q" and i: "i < MAX_NVRAM_ITEM_CACHE_NUM"
    and s': "pr_items s' = (pr_items s)[i := it]" "pr_queue s' = pr_queue s" "slot_ok it" "tidy it"
      "pr_blocks s' = pr_blocks s + slot_blocks it - slot_blocks (item s i)"
    and n: "ci_used (item s i) \<Longrightarrow> ci_name (item s i) = Some n" "ci_used it \<Longrightarrow> ci_name it = Some n"
      "\<not> ci_used (item s i) \<Longrightarrow> find_property_cache n s = None" "ci_used (item s i) \<or> ci_used it"
  shows "cache_holds s' (P(n := if ci_used it then Some (slot_value it) else None))
    (if ci_used it \<and> ci_flush_req it then insert n Q else Q - {n})"
proof -
  have ok: "props_ok s" and td: "\<forall>i < MAX_NVRAM_ITEM_CACHE_NUM. tidy (item s i)" and own: "pr_blocks s = owned s"
    and P: "pending s = P" and Q: "requested s = Q" and len: "length (pr_items s) = MAX_NVRAM_ITEM_CACHE_NUM"
    using h by (simp_all add: cache_holds_def props_ok_def)
  have ok': "props_ok s'"
  proof (rule props_ok_update [OF ok i s'(1,2,3)])
    show "pr_blocks s + slot_blocks it - slot_blocks (item s i) \<le> pr_blocks s'" using s'(5) by simp
    show "ci_used (item s i) \<and> ci_name (item s i) = ci_name it \<or> (\<exists>n. ci_name it = Some n \<and> find_property_cache n s = None)" if "ci_used it"
      using n(1,3) n(2) [OF that] by (cases "ci_used (item s i)") simp_all
  qed
  have at: "find_property_cache m s = Some i \<longleftrightarrow> ci_used (item s i) \<and> m = n" for m
    using n(1) i by (auto simp: find_cache_Some [OF ok])
  have f: "find_property_cache m s' = (if m = n then if ci_used it then Some i else None else find_property_cache m s)" for m
  proof (cases "m = n")
    case True
    then show ?thesis using find_update [OF ok ok' s'(1) i, of m] at [of m] n(2,4) by (cases "ci_used it") simp_all
  next
    case False
    then have "\<not> (ci_used it \<and> ci_name it = Some m)" "find_property_cache m s \<noteq> Some i" using n(2) at [of m] by auto
    then show ?thesis using find_update [OF ok ok' s'(1) i, of m] False by (simp only: if_False)
  qed
  have same: "item s' j = item s j" if "m \<noteq> n" "find_property_cache m s = Some j" for m j
    using at [of m] that s'(1) by (cases "j = i") simp_all
  have "pending s' m = (P(n := if ci_used it then Some (slot_value it) else None)) m" for m
    using f [of m] s'(1) i len same [of m] unfolding P [symmetric] pending_def by (cases "find_property_cache m s") simp_all
  moreover have "m \<in> requested s' \<longleftrightarrow> m \<in> (if ci_used it \<and> ci_flush_req it then insert n Q else Q - {n})" for m
    using f [of m] s'(1) i len same [of m] unfolding Q [symmetric] requested_def by (cases "find_property_cache m s"; cases "m = n") simp_all
  moreover have "\<forall>i < MAX_NVRAM_ITEM_CACHE_NUM. tidy (item s' i)" using td s'(1,4) i len by (simp add: nth_list_update)
  moreover have "pr_blocks s' = owned s'"
    using own s'(1,2,5) i len sum_list_map_update [of i "pr_items s" slot_blocks it] by (simp add: owned_def)
  ultimately show ?thesis using ok' by (auto simp: cache_holds_def fun_eq_iff set_eq_iff)
qed

lemma cache_holds_facts:
  assumes "cache_holds s P Q"
  shows "props_ok s" "length (pr_items s) = MAX_NVRAM_ITEM_CACHE_NUM" "i < MAX_NVRAM_ITEM_CACHE_NUM \<Longrightarrow> tidy (item s i)"
    "i < MAX_NVRAM_ITEM_CACHE_NUM \<Longrightarrow> slot_ok (item s i)" "pr_blocks s = owned s"
  using assms by (simp_all add: cache_holds_def props_ok_def)

lemma cache_holds_cong:
  assumes "pr_items s' = pr_items s" "pr_queue s' = pr_queue s" "pr_blocks s' = pr_blocks s"
  shows "cache_holds s' P Q \<longleftrightarrow> cache_holds s P Q"
proof -
  have "find_property_cache n s' = find_property_cache n s" for n using assms(1) by (simp add: find_property_cache_def)
  then have "pending s' = pending s" "requested s' = requested s" using assms(1) by (simp_all add: fun_eq_iff pending_def requested_def)
  then show ?thesis using assms props_ok_cong [of s' s] by (simp add: cache_holds_def owned_def)
qed

lemma cache_found:
  assumes "cache_holds s P Q" "find_property_cache n s = Some i"
  shows "i < MAX_NVRAM_ITEM_CACHE_NUM" "ci_used (item s i)" "ci_name (item s i) = Some n" "P n = Some (slot_value (item s i))"
    "n \<in> Q \<longleftrightarrow> ci_flush_req (item s i)" "name_class n \<noteq> Keys" "good_name n"
proof -
  note h = cache_holds_facts [OF assms(1)]
  note i = assms(2) [unfolded find_cache_Some [OF h(1)]]
  show "i < MAX_NVRAM_ITEM_CACHE_NUM" "ci_used (item s i)" "ci_name (item s i) = Some n" using i by simp_all
  show "P n = Some (slot_value (item s i))" "n \<in> Q \<longleftrightarrow> ci_flush_req (item s i)"
    using assms by (auto simp: cache_holds_def pending_def requested_def)
  have "tidy (item s i)" using h(3) i by simp
  then show "name_class n \<noteq> Keys" "good_name n" using i by (simp_all add: tidy_def)
qed

lemma cache_missing:
  assumes "cache_holds s P Q" "find_property_cache n s = None"
  shows "P n = None" "n \<notin> Q"
  using assms by (auto simp: cache_holds_def pending_def requested_def)

lemma cache_dom: "cache_holds s P Q \<Longrightarrow> n \<in> dom P \<longleftrightarrow> (\<exists>i. find_property_cache n s = Some i)"
  by (cases "find_property_cache n s") (auto dest: cache_found(4) cache_missing(1))

lemma cache_requested: "cache_holds s P Q \<Longrightarrow> Q \<subseteq> dom P"
  by (auto simp: cache_holds_def requested_def pending_def)

text \<open>As long as fewer than 70 names are pending there is an unused entry.\<close>

lemma cache_finite:
  assumes "cache_holds s P Q"
  shows "finite (dom P)"
proof -
  have "dom P \<subseteq> (\<lambda>i. the (ci_name (item s i))) ` {..<MAX_NVRAM_ITEM_CACHE_NUM}"
  proof
    fix n assume "n \<in> dom P"
    then obtain i where "find_property_cache n s = Some i" using cache_dom [OF assms] by blast
    then have "i < MAX_NVRAM_ITEM_CACHE_NUM" "n = the (ci_name (item s i))" using cache_found(1,3) [OF assms] by simp_all
    then show "n \<in> (\<lambda>i. the (ci_name (item s i))) ` {..<MAX_NVRAM_ITEM_CACHE_NUM}" by blast
  qed
  then show ?thesis by (rule finite_subset) simp
qed

lemma cache_free_slot:
  assumes "cache_holds s P Q" "card (dom P) < MAX_NVRAM_ITEM_CACHE_NUM"
  shows "\<exists>i. free_slot s = Some i"
proof (rule ccontr)
  assume "\<not> ?thesis"
  then have "free_slot s = None" by simp
  then have u: "ci_used (item s i)" if "i < MAX_NVRAM_ITEM_CACHE_NUM" for i
    using that unfolding free_slot_def find_upt_None by simp
  let ?f = "\<lambda>i. the (ci_name (item s i))"
  note h = cache_holds_facts [OF assms(1)]
  have found: "find_property_cache (?f i) s = Some i" if i: "i < MAX_NVRAM_ITEM_CACHE_NUM" for i
  proof -
    obtain n where "ci_name (item s i) = Some n" using h(3) [OF i] u [OF i] by (auto simp: tidy_def)
    then show ?thesis using i u [OF i] by (simp add: find_cache_Some [OF h(1)])
  qed
  have inj: "inj_on ?f {..<MAX_NVRAM_ITEM_CACHE_NUM}"
  proof (rule inj_onI)
    fix i j assume a: "i \<in> {..<MAX_NVRAM_ITEM_CACHE_NUM}" "j \<in> {..<MAX_NVRAM_ITEM_CACHE_NUM}" and e: "?f i = ?f j"
    have "Some i = Some j" using found [of i] found [of j] a unfolding e by simp
    then show "i = j" by simp
  qed
  have sub: "?f ` {..<MAX_NVRAM_ITEM_CACHE_NUM} \<subseteq> dom P" using found cache_dom [OF assms(1)] by blast
  have "MAX_NVRAM_ITEM_CACHE_NUM \<le> card (dom P)"
    using card_inj_on_le [OF inj sub cache_finite [OF assms(1)]] by simp
  then show False using assms(2) by simp
qed

section \<open>Setting and deleting\<close>

abbreviation mallocs_succeed :: "prop_env \<Rightarrow> bool" where
  "mallocs_succeed env \<equiv> \<forall>k n. pe_malloc env k n"

lemma ci_data_name: "r\<lparr>ci_data := d, ci_name := n\<rparr> = r\<lparr>ci_name := n, ci_data := d\<rparr>"
  by simp

lemma cache_new:
  assumes h: "cache_holds s P Q" and env: "mallocs_succeed env" and n: "find_property_cache n s = None" "name_class n \<noteq> Keys" "good_name n"
    and room: "card (dom P) < MAX_NVRAM_ITEM_CACHE_NUM"
    and d: "case data of None \<Rightarrow> len = 0 | Some (a, bs) \<Rightarrow> len = length bs \<and> 0 < len \<and> len \<le> NVRAM_MAX_DATA_SIZE"
  shows "\<exists>s'. new_data env n data len s = Some (0, s') \<and> cache_holds s' (P(n \<mapsto> map_option snd data)) Q \<and> pr_nv s' = pr_nv s"
proof -
  obtain i where i: "free_slot s = Some i" using cache_free_slot [OF h room] by blast
  note i' = free_slot_Some [OF i] and f = cache_holds_facts [OF h]
  have t: "\<not> ci_global (item s i)" "\<not> ci_flush_req (item s i)" using f(3) i' by (simp_all add: tidy_def)
  define it where "it = (item s i)\<lparr>ci_name := Some n, ci_data := (case data of None \<Rightarrow> Null | Some (a, bs) \<Rightarrow> Heap bs), ci_len := word_of_nat len, ci_used := True\<rparr>"
  have len: "unat (word_of_nat len :: 10 word) = len" if "len \<le> NVRAM_MAX_DATA_SIZE" using that by (simp add: unat_of_nat NVRAM_MAX_DATA_SIZE_def)
  obtain s' where s': "new_data env n data len s = Some (0, s')" "pr_items s' = (pr_items s)[i := it]" "pr_queue s' = pr_queue s"
      "pr_blocks s' = pr_blocks s + (if data = None then 1 else 2)" "pr_nv s' = pr_nv s"
    using env i i' f(2) d
    by (auto simp: new_data_def get_property_cache_def mem_malloc_def write_data_def it_def Let_def blit_def ci_data_name split: option.splits)
  have it: "ci_used it" "ci_name it = Some n" "\<not> ci_flush_req it" "slot_ok it" "tidy it" "slot_value it = map_option snd data"
      "slot_blocks it = (if data = None then 1 else 2)"
    using n d t len by (auto simp: it_def slot_ok_def tidy_def slot_value_def slot_blocks_def split: option.splits)
  have "cache_holds s' (P(n := if ci_used it then Some (slot_value it) else None)) (if ci_used it \<and> ci_flush_req it then insert n Q else Q - {n})"
    by (rule cache_update [OF h _ s'(2,3) it(4,5)]) (use i' s'(4) it n(1) in \<open>auto simp: slot_blocks_def\<close>)
  then show ?thesis using s'(1,5) it cache_missing(2) [OF h n(1)] by auto
qed

lemma cache_replace:
  assumes h: "cache_holds s P Q" and env: "mallocs_succeed env" and n: "find_property_cache n s = Some i"
    and d: "0 < length bs" "length bs \<le> NVRAM_MAX_DATA_SIZE"
  shows "\<exists>s'. replace_data env i (Some (a, bs)) (length bs) s = Some (0, s') \<and> cache_holds s' (P(n \<mapsto> Some bs)) Q \<and> pr_nv s' = pr_nv s"
proof -
  note i = cache_found [OF h n] and f = cache_holds_facts [OF h]
  have t: "tidy (item s i)" using f(3) i(1) by simp
  define it where "it = (item s i)\<lparr>ci_data := Heap bs, ci_len := word_of_nat (length bs)\<rparr>"
  have len: "unat (word_of_nat (length bs) :: 10 word) = length bs" using d by (simp add: unat_of_nat NVRAM_MAX_DATA_SIZE_def)
  obtain s' where s': "replace_data env i (Some (a, bs)) (length bs) s = Some (0, s')" "pr_items s' = (pr_items s)[i := it]"
      "pr_queue s' = pr_queue s" "pr_blocks s' = pr_blocks s + 2 - slot_blocks (item s i)" "pr_nv s' = pr_nv s"
  proof (cases "unat (ci_len (item s i)) = length bs")
    case True
    have "ci_len (item s i) = word_of_nat (unat (ci_len (item s i)))" by simp
    then have l: "ci_len (item s i) = word_of_nat (length bs)" unfolding True .
    obtain old where old: "ci_data (item s i) = Heap old" "length old = length bs"
      using t i(2) d(1) True by (cases "ci_data (item s i)") (simp_all add: tidy_def)
    have e: "it = (item s i)\<lparr>ci_data := Heap bs\<rparr>" by (rule cache_item.equality) (simp_all add: it_def l)
    show ?thesis
      by (rule that [of "set_item i it s"])
        (use old True e f(2) i in \<open>simp_all add: replace_data_def write_data_def blit_def slot_blocks_def\<close>)
  next
    case False
    let ?s' = "s\<lparr>pr_items := (pr_items s)[i := it], pr_mallocs := pr_mallocs s + 1, pr_blocks := pr_blocks s + 2 - slot_blocks (item s i)\<rparr>"
    show ?thesis
      by (rule that [of ?s'])
        (use False env t f(2) i in \<open>auto simp: replace_data_def write_data_def mem_malloc_def mem_free_def it_def blit_def slot_blocks_def tidy_def Let_def split: cdata.splits\<close>)
  qed
  have it: "ci_used it" "ci_name it = Some n" "ci_flush_req it = ci_flush_req (item s i)" "slot_ok it" "tidy it" "slot_value it = Some bs" "slot_blocks it = 2"
    using t i d len by (simp_all add: it_def slot_ok_def tidy_def slot_value_def slot_blocks_def)
  have "cache_holds s' (P(n := if ci_used it then Some (slot_value it) else None)) (if ci_used it \<and> ci_flush_req it then insert n Q else Q - {n})"
    by (rule cache_update [OF h i(1) s'(2,3) it(4,5)]) (use s'(4) it i in auto)
  then show ?thesis using s'(1,5) it i(5) by (auto simp: insert_absorb)
qed

lemma cache_put:
  assumes h: "cache_holds s P Q" and n: "find_property_cache n s = Some i"
  shows "cache_holds (put_property_cache i s) (P(n := None)) (Q - {n}) \<and> pr_nv (put_property_cache i s) = pr_nv s"
proof -
  note i = cache_found [OF h n] and f = cache_holds_facts [OF h]
  have t: "tidy (item s i)" using f(3) i(1) by simp
  have s': "pr_items (put_property_cache i s) = (pr_items s)[i := free_item]" "pr_queue (put_property_cache i s) = pr_queue s"
      "pr_nv (put_property_cache i s) = pr_nv s"
      "pr_blocks (put_property_cache i s) = pr_blocks s + slot_blocks free_item - slot_blocks (item s i)"
    using t i by (auto simp: put_property_cache_def mem_free_def slot_blocks_def tidy_def free_item_def Let_def split: cdata.splits)
  have it: "\<not> ci_used free_item" "slot_ok free_item" "tidy free_item" by (simp_all add: free_item_def slot_ok_def tidy_def)
  have "cache_holds (put_property_cache i s) (P(n := if ci_used free_item then Some (slot_value free_item) else None))
      (if ci_used free_item \<and> ci_flush_req free_item then insert n Q else Q - {n})"
    by (rule cache_update [OF h i(1) s'(1,2) it(2,3) s'(4)]) (use it i in auto)
  then show ?thesis using it(1) s'(3) by simp
qed

lemma cache_clear:
  assumes h: "cache_holds s P Q" and n: "find_property_cache n s = Some i" and d: "ci_data (item s i) \<noteq> Null"
  shows "cache_holds (mem_free (set_item i ((item s i)\<lparr>ci_data := Null, ci_len := 0\<rparr>) s)) (P(n \<mapsto> None)) Q"
proof -
  note i = cache_found [OF h n] and f = cache_holds_facts [OF h]
  have t: "tidy (item s i)" using f(3) i(1) by simp
  let ?it = "(item s i)\<lparr>ci_data := Null, ci_len := 0\<rparr>"
  let ?s' = "mem_free (set_item i ?it s)"
  have s': "pr_items ?s' = (pr_items s)[i := ?it]" "pr_queue ?s' = pr_queue s" "pr_blocks ?s' = pr_blocks s + slot_blocks ?it - slot_blocks (item s i)"
    using t i(2) d by (auto simp: mem_free_def slot_blocks_def tidy_def split: cdata.splits)
  have it: "ci_used ?it" "slot_ok ?it" "tidy ?it" using t i by (simp_all add: slot_ok_def tidy_def)
  have "cache_holds ?s' (P(n := if ci_used ?it then Some (slot_value ?it) else None))
      (if ci_used ?it \<and> ci_flush_req ?it then insert n Q else Q - {n})"
    by (rule cache_update [OF h i(1) s'(1,2) it(2,3) s'(3)]) (use it i in auto)
  moreover have "slot_value ?it = None" "(if ci_used ?it \<and> ci_flush_req ?it then insert n Q else Q - {n}) = Q"
    using i(2,5) by (auto simp: slot_value_def)
  ultimately show ?thesis using it(1) by (simp only: if_True)
qed

text \<open>A new value is pending, and so is the deletion of a name; deleting a pending Bluetooth value makes the
  cache forget it instead.\<close>

definition pend_del :: "bytes \<Rightarrow> (bytes \<Rightarrow> bytes option option) \<Rightarrow> (bytes \<Rightarrow> bytes option option)" where
  "pend_del n P = (if name_class n = Bt \<and> n \<in> dom P then P(n := None) else P(n \<mapsto> None))"

lemma cache_set_value:
  assumes h: "cache_holds s P Q" and env: "mallocs_succeed env" and n: "name_class n \<noteq> Keys" "good_name n"
    and room: "n \<in> dom P \<or> card (dom P) < MAX_NVRAM_ITEM_CACHE_NUM"
    and d: "0 < length bs" "length bs \<le> NVRAM_MAX_DATA_SIZE"
  shows "\<exists>s'. property_cache_set env (Some n) (Some (a, bs)) (int (length bs)) s = Some (0, s') \<and>
    cache_holds s' (P(n \<mapsto> Some bs)) Q \<and> pr_nv s' = pr_nv s"
proof (cases "find_property_cache n s")
  case None
  then have c: "card (dom P) < MAX_NVRAM_ITEM_CACHE_NUM" using room cache_dom [OF h, of n] by simp
  obtain s' where "new_data env n (Some (a, bs)) (length bs) s = Some (0, s')" "cache_holds s' (P(n \<mapsto> Some bs)) Q" "pr_nv s' = pr_nv s"
    using cache_new [OF h env None n c, where data = "Some (a, bs)" and len = "length bs"] d by auto
  then show ?thesis
    using None n(1) d(1) by (cases "name_class n") (simp_all add: property_cache_set_def property_cache_set2_def property_cache_set_bt_keys_def)
next
  case (Some i)
  obtain s' where "replace_data env i (Some (a, bs)) (length bs) s = Some (0, s')" "cache_holds s' (P(n \<mapsto> Some bs)) Q" "pr_nv s' = pr_nv s"
    using cache_replace [OF h env Some d, of a] by blast
  then show ?thesis
    using Some n(1) d(1) by (cases "name_class n") (simp_all add: property_cache_set_def property_cache_set2_def property_cache_set_bt_keys_def)
qed

lemma cache_set_null:
  assumes h: "cache_holds s P Q" and env: "mallocs_succeed env" and n: "name_class n \<noteq> Keys" "good_name n"
    and room: "n \<in> dom P \<or> card (dom P) < MAX_NVRAM_ITEM_CACHE_NUM"
  shows "\<exists>s'. property_cache_set env (Some n) None len s = Some (0, s') \<and>
    cache_holds s' (pend_del n P) (Q \<inter> dom (pend_del n P)) \<and> pr_nv s' = pr_nv s"
proof (cases "find_property_cache n s")
  case None
  then have c: "card (dom P) < MAX_NVRAM_ITEM_CACHE_NUM" and nd: "n \<notin> dom P" using room cache_dom [OF h, of n] by simp_all
  obtain s' where s': "new_data env n None 0 s = Some (0, s')" "cache_holds s' (P(n \<mapsto> None)) Q" "pr_nv s' = pr_nv s"
    using cache_new [OF h env None n c, where data = None and len = 0] by auto
  have "Q \<inter> dom (pend_del n P) = Q" "pend_del n P = P(n \<mapsto> None)" using cache_requested [OF h] nd by (auto simp: pend_del_def)
  then show ?thesis
    using None n(1) s' by (cases "name_class n") (simp_all add: property_cache_set_def property_cache_set2_def property_cache_set_bt_keys_def)
next
  case (Some i)
  have nd: "n \<in> dom P" using Some cache_dom [OF h, of n] by simp
  show ?thesis
  proof (cases "name_class n")
    case Bt
    then have "pend_del n P = P(n := None)" "Q \<inter> dom (pend_del n P) = Q - {n}" using cache_requested [OF h] nd by (auto simp: pend_del_def)
    then show ?thesis using Bt Some cache_put [OF h Some] by (simp add: property_cache_set_def property_cache_set_bt_keys_def)
  next
    case Plain
    then have p: "pend_del n P = P(n \<mapsto> None)" "Q \<inter> dom (pend_del n P) = Q" using cache_requested [OF h] nd by (auto simp: pend_del_def)
    have "P(n \<mapsto> None) = P" if "ci_data (item s i) = Null"
      using cache_found(4) [OF h Some] that by (auto simp: slot_value_def fun_upd_idem)
    then show ?thesis
      using Plain Some p cache_clear [OF h Some] h by (auto simp: property_cache_set_def property_cache_set2_def mem_free_def)
  qed (use n in simp)
qed

section \<open>Flushing\<close>

text \<open>The values that wait to be written, and the user map after the updates of the names \<open>M\<close> are carried out.\<close>

definition pend_vals :: "(bytes \<Rightarrow> bytes option option) \<Rightarrow> (bytes \<rightharpoonup> bytes)" where
  "pend_vals P n = (case P n of None \<Rightarrow> None | Some v \<Rightarrow> v)"

definition commit :: "(bytes \<rightharpoonup> bytes) \<Rightarrow> (bytes \<Rightarrow> bytes option option) \<Rightarrow> bytes set \<Rightarrow> (bytes \<rightharpoonup> bytes)" where
  "commit U P M n = (if n \<in> M then case P n of None \<Rightarrow> U n | Some v \<Rightarrow> v else U n)"

text \<open>The names a call of flush selects.\<close>

abbreviation matches :: "bytes option \<Rightarrow> bytes \<Rightarrow> bool" where
  "matches name n \<equiv> (case name of None \<Rightarrow> True | Some p \<Rightarrow> take (length p) n = p)"

lemma flush_match_named: "ci_name it = Some n \<Longrightarrow> flush_match name it \<longleftrightarrow> matches name n"
  by (cases name) (simp_all add: flush_match_def)

lemma slot_value_flush_req [simp]: "slot_value (it\<lparr>ci_flush_req := b\<rparr>) = slot_value it"
  by (cases "ci_data it") (simp_all add: slot_value_def)

lemma tidy_flush_req: "ci_used it \<Longrightarrow> tidy (it\<lparr>ci_flush_req := b\<rparr>) \<longleftrightarrow> tidy it"
  by (cases "ci_data it") (simp_all add: tidy_def)

text \<open>The cache and the store together; there is room in the store for all that is pending.\<close>

definition props_hold ::
    "('d \<Rightarrow> bool) \<Rightarrow> ('d \<Rightarrow> nat \<Rightarrow> u8) \<Rightarrow> (bytes \<rightharpoonup> bytes) \<Rightarrow> (bytes \<rightharpoonup> bytes) \<Rightarrow> 'd props \<Rightarrow>
      (bytes \<rightharpoonup> bytes) \<Rightarrow> (bytes \<Rightarrow> bytes option option) \<Rightarrow> bytes set \<Rightarrow> bool" where
  "props_hold ok cells R F s U P Q \<longleftrightarrow> config_holds ok cells (pr_nv s) U R F \<and> cache_holds s P Q \<and>
     16 + used U + used (pend_vals P) \<le> 0x2000"

lemma config_finite: "config_holds ok cells c U R F \<Longrightarrow> finite (dom U)"
  by (auto simp: config_holds_def region_maps_def finite_lookup)

lemma pend_finite: "finite (dom P) \<Longrightarrow> finite (dom (pend_vals P))"
  by (rule finite_subset [of _ "dom P"]) (auto simp: pend_vals_def split: option.splits)

lemma pend_vals_empty [simp]: "pend_vals Map.empty = Map.empty"
  by (simp add: pend_vals_def fun_eq_iff)

lemma pend_vals_upd [simp]:
  "pend_vals (P(n := None)) = (pend_vals P)(n := None)" "pend_vals (P(n \<mapsto> v)) = (pend_vals P)(n := v)"
  by (auto simp: pend_vals_def fun_eq_iff)

text \<open>Writing one pending update to the store keeps the room.\<close>

lemma commit_fits:
  assumes "finite (dom U)" "finite (dom P)" "16 + used U + used (pend_vals P) \<le> 0x2000" "P n = Some v"
  shows "16 + used (U(n := v)) + used (pend_vals (P(n := None))) \<le> 0x2000"
    "v = Some d \<Longrightarrow> room 0x2000 U n d"
proof -
  note f = pend_finite [OF assms(2)]
  have p: "pend_vals P n = v" using assms(4) by (simp add: pend_vals_def)
  show "16 + used (U(n := v)) + used (pend_vals (P(n := None))) \<le> 0x2000"
  proof (cases v)
    case None
    then show ?thesis using used_remove_le [OF f, of n] used_remove_le [OF assms(1), of n] assms(3) by simp
  next
    case (Some d)
    then show ?thesis using used_remove [OF f, of n d] used_update_le [OF assms(1), of n d] assms(3) p by simp
  qed
  show "room 0x2000 U n d" if "v = Some d"
    using used_remove [OF f, of n d] p that assms(3) by (simp add: room_def)
qed

context nvram_store
begin

lemma store_pending:
  assumes h: "props_hold ok cells R F s U P Q" and n: "find_property_cache n s = Some i"
  shows "\<exists>t. store_item stg env i s = Some (0, t) \<and> pr_items t = pr_items s \<and>
    props_hold ok cells R F (put_property_cache i t) (U(n := the (P n))) (P(n := None)) (Q - {n})"
proof -
  have c: "config_holds ok cells (pr_nv s) U R F" and ch: "cache_holds s P Q" and r: "16 + used U + used (pend_vals P) \<le> 0x2000"
    using h by (simp_all add: props_hold_def)
  note i = cache_found [OF ch n] and f = cache_holds_facts [OF ch]
  note fits = commit_fits [OF config_finite [OF c] cache_finite [OF ch] r i(4)]
  let ?it = "item s i" and ?v = "slot_value (item s i)"
  have t: "tidy ?it" using f(3) i(1) by simp
  obtain data where data: "(if ci_data ?it = Null then Some None else map_option Some (read_data env (ci_data ?it) (unat (ci_len ?it)))) = Some data"
      "(data = None \<and> ?v = None \<and> unat (ci_len ?it) = 0) \<or>
       (\<exists>d. data = Some d \<and> ?v = Some d \<and> unat (ci_len ?it) = length d \<and> 0 < length d \<and> length d \<le> NVRAM_MAX_DATA_SIZE)"
    using t i(2) by (cases "ci_data ?it") (auto simp: tidy_def slot_value_def read_data_def)
  have "\<exists>c'. nvram_config_set stg (Some n) data (int (unat (ci_len ?it))) (pr_nv s) = Some (0, c') \<and> config_holds ok cells c' (U(n := ?v)) R F"
    using data(2)
  proof
    assume "data = None \<and> ?v = None \<and> unat (ci_len ?it) = 0"
    then show ?thesis using config_delete_eq [OF c i(7), of 0 None] by simp
  next
    assume "\<exists>d. data = Some d \<and> ?v = Some d \<and> unat (ci_len ?it) = length d \<and> 0 < length d \<and> length d \<le> NVRAM_MAX_DATA_SIZE"
    then obtain d where d: "data = Some d" "?v = Some d" "unat (ci_len ?it) = length d" "0 < length d" "length d \<le> NVRAM_MAX_DATA_SIZE" by blast
    show ?thesis using config_set_eq [OF c i(7) d(4,5) fits(2) [OF d(2)]] unfolding d(1-3) .
  qed
  then obtain c' where c': "nvram_config_set stg (Some n) data (int (unat (ci_len ?it))) (pr_nv s) = Some (0, c')"
      "config_holds ok cells c' (U(n := ?v)) R F" by blast
  let ?t = "s\<lparr>pr_nv := c'\<rparr>"
  have st: "store_item stg env i s = Some (0, ?t)" using data(1) c'(1) i(3) by (simp add: store_item_def Let_def)
  have "cache_holds ?t P Q" using ch cache_holds_cong [of ?t s] by simp
  moreover have "find_property_cache n ?t = Some i" using n by (simp add: find_property_cache_def)
  ultimately have "cache_holds (put_property_cache i ?t) (P(n := None)) (Q - {n})" "pr_nv (put_property_cache i ?t) = c'"
    using cache_put [of ?t P Q n i] by simp_all
  then show ?thesis using st c'(2) fits(1) i(4) by (auto simp: props_hold_def)
qed

text \<open>A loop over the table that writes and drops the selected entries.\<close>

lemma commit_loop:
  assumes nil: "\<And>s. f [] s = Some s"
    and cons: "\<And>i is s. f (i # is) s = (if ci_used (item s i) \<and> C (item s i)
      then Option.bind (store_item stg env i s) (\<lambda>(ret, t). f is (k i ret t)) else f is s)"
    and put: "\<And>i t. i < length (pr_items t) \<Longrightarrow> k i 0 t = put_property_cache i t"
  shows "props_hold ok cells R F s U P Q \<Longrightarrow> set is \<subseteq> {..<MAX_NVRAM_ITEM_CACHE_NUM} \<Longrightarrow>
    M = {n. \<exists>i \<in> set is. find_property_cache n s = Some i \<and> C (item s i)} \<Longrightarrow>
    \<exists>s'. f is s = Some s' \<and> props_hold ok cells R F s' (commit U P M) (P |` (- M)) (Q - M)"
proof (induction "is" arbitrary: s U P Q M)
  case Nil
  then have "commit U P M = U" "P |` (- M) = P" "Q - M = Q" by (auto simp: commit_def fun_eq_iff restrict_map_def)
  then show ?case using Nil nil by simp
next
  case (Cons i "is")
  note h = Cons.prems(1) and M = Cons.prems(3)
  have ch: "cache_holds s P Q" using h by (simp add: props_hold_def)
  have i: "i < MAX_NVRAM_ITEM_CACHE_NUM" and rest: "set is \<subseteq> {..<MAX_NVRAM_ITEM_CACHE_NUM}" using Cons.prems(2) by simp_all
  note ok = cache_holds_facts(1) [OF ch] and len = cache_holds_facts(2) [OF ch]
  show ?case
  proof (cases "ci_used (item s i) \<and> C (item s i)")
    case False
    then have "M = {n. \<exists>i \<in> set is. find_property_cache n s = Some i \<and> C (item s i)}"
      unfolding M by (auto simp: find_cache_Some [OF ok])
    then show ?thesis using Cons.IH [OF h rest] cons [of i "is" s] False by (simp only: if_False)
  next
    case True
    then obtain n where "ci_name (item s i) = Some n" using cache_holds_facts(3) [OF ch i] by (auto simp: tidy_def)
    then have n: "find_property_cache n s = Some i" using True i by (simp add: find_cache_Some [OF ok])
    obtain t where t: "store_item stg env i s = Some (0, t)" "pr_items t = pr_items s"
        "props_hold ok cells R F (put_property_cache i t) (U(n := the (P n))) (P(n := None)) (Q - {n})"
      using store_pending [OF h n, of env] by blast
    let ?t = "put_property_cache i t"
    have step: "f (i # is) s = f is ?t" using cons [of i "is" s] True t(1,2) put [of i t] i len by simp
    have okt: "props_ok ?t" using t(3) by (simp add: props_hold_def cache_holds_def)
    have new: "pr_items ?t = (pr_items s)[i := free_item]" using t(2) by (simp add: put_property_cache_def mem_free_def Let_def)
    have fnd: "find_property_cache m ?t = (if m = n then None else find_property_cache m s)" for m
      using find_update [OF ok okt new i, of m] n find_cache_Some [OF ok] by (auto simp: free_item_def)
    let ?M = "{m. \<exists>j \<in> set is. find_property_cache m ?t = Some j \<and> C (item ?t j)}"
    have at: "find_property_cache m s = Some i \<longleftrightarrow> m = n" for m using n find_cache_Some [OF ok] by auto
    have same: "item ?t j = item s j" if "j \<noteq> i" for j using new that by simp
    have nM: "n \<notin> ?M" by (simp add: fnd)
    have "m \<in> M \<longleftrightarrow> m \<in> insert n ?M" for m
    proof (cases "m = n")
      case False
      then have "find_property_cache m s = Some j \<Longrightarrow> j \<noteq> i" for j using at [of m] by auto
      then show ?thesis using False same unfolding M by (auto simp: fnd)
    qed (use True n M in auto)
    then have eqM: "M = insert n ?M" by blast
    obtain s' where s': "f is ?t = Some s'"
        "props_hold ok cells R F s' (commit (U(n := the (P n))) (P(n := None)) ?M) ((P(n := None)) |` (- ?M)) (Q - {n} - ?M)"
      using Cons.IH [OF t(3) rest refl] by blast
    have "commit (U(n := the (P n))) (P(n := None)) ?M = commit U P M"
      using nM cache_found(4) [OF ch n] unfolding eqM by (auto simp: commit_def fun_eq_iff split: option.split)
    moreover have "(P(n := None)) |` (- ?M) = P |` (- M)" "Q - {n} - ?M = Q - M" unfolding eqM by (auto simp: restrict_map_def fun_eq_iff)
    ultimately show ?thesis using s' step by simp
  qed
qed

lemma flush_refines:
  assumes h: "props_hold ok cells R F s U P Q" and M: "M = {n \<in> dom P. matches name n}"
  shows "\<exists>s'. property_cache_flush stg env name s = Some s' \<and> props_hold ok cells R F s' (commit U P M) (P |` (- M)) (Q - M)"
proof -
  have ch: "cache_holds s P Q" using h by (simp add: props_hold_def)
  have "n \<in> M \<longleftrightarrow> (\<exists>i \<in> set [0..<MAX_NVRAM_ITEM_CACHE_NUM]. find_property_cache n s = Some i \<and> flush_match name (item s i))" for n
    using cache_dom [OF ch, of n] cache_found(1,3) [OF ch, of n] unfolding M
    by (cases "find_property_cache n s") (auto simp: flush_match_named)
  then have "M = {n. \<exists>i \<in> set [0..<MAX_NVRAM_ITEM_CACHE_NUM]. find_property_cache n s = Some i \<and> flush_match name (item s i)}" by blast
  from commit_loop [where f = "flush_items stg env name" and C = "flush_match name" and env = env
      and k = "\<lambda>i ret t. if ret = 0 then put_property_cache i t else t", OF _ _ _ h _ this]
  show ?thesis by (simp add: property_cache_flush_def lessThan_atLeast0)
qed

lemma flush_req_deal_refines:
  assumes h: "props_hold ok cells R F s U P Q"
  shows "\<exists>s'. property_cache_flush_req_deal stg env s = Some s' \<and> props_hold ok cells R F s' (commit U P Q) (P |` (- Q)) {}"
proof -
  have ch: "cache_holds s P Q" using h by (simp add: props_hold_def)
  have Q: "Q = {n. \<exists>i \<in> set [0..<MAX_NVRAM_ITEM_CACHE_NUM]. find_property_cache n s = Some i \<and> ci_flush_req (item s i)}"
    using cache_found(1,5) [OF ch] cache_missing(2) [OF ch] by fastforce
  have put: "set_item i ((item (put_property_cache i t) i)\<lparr>ci_flush_req := False\<rparr>) (put_property_cache i t) = put_property_cache i t"
    if "i < length (pr_items t)" for i and t :: "'a props"
    using that by (simp add: put_property_cache_def mem_free_def free_item_def Let_def)
  from commit_loop [where f = "flush_req_items stg env" and C = ci_flush_req and env = env
      and k = "\<lambda>i ret t. let s = (if ret = 0 then put_property_cache i t else t) in set_item i ((item s i)\<lparr>ci_flush_req := False\<rparr>) s", OF _ _ _ h _ Q]
  show ?thesis using put by (simp add: property_cache_flush_req_deal_def lessThan_atLeast0 Let_def)
qed

lemma get_refines:
  assumes h: "props_hold ok cells R F s U P Q" and n: "good_name n" "0 < len"
  shows "\<exists>s'. property_cache_get stg env n len s = Some (case P n of
      Some None \<Rightarrow> (0, [], s')
    | Some (Some d) \<Rightarrow> (int (min len (length d)), take len d, s')
    | None \<Rightarrow> (case (F ++ R ++ U) n of None \<Rightarrow> (- ENOENT, [], s') | Some d \<Rightarrow> (int (min len (length d)), take len d, s'))) \<and>
    props_hold ok cells R F s' U P Q"
proof -
  have c: "config_holds ok cells (pr_nv s) U R F" and ch: "cache_holds s P Q" using h by (simp_all add: props_hold_def)
  show ?thesis
  proof (cases "find_property_cache n s")
    case None
    obtain c' where c': "nvram_config_get stg (Some n) True (int len) (pr_nv s) =
        Some (case (F ++ R ++ U) n of None \<Rightarrow> (- ENOENT, [], c') | Some d \<Rightarrow> (min (int len) (int (length d)), take (nat (int len)) d, c'))"
        "config_holds ok cells c' U R F"
      using config_get_eq [OF c n(1), of "int len"] n(2) by auto
    have "cache_holds (s\<lparr>pr_nv := c'\<rparr>) P Q" using ch cache_holds_cong [of "s\<lparr>pr_nv := c'\<rparr>" s] by simp
    then have "props_hold ok cells R F (s\<lparr>pr_nv := c'\<rparr>) U P Q" using h c'(2) by (simp add: props_hold_def)
    then show ?thesis
      using c'(1) None cache_missing(1) [OF ch None]
      by (intro exI [of _ "s\<lparr>pr_nv := c'\<rparr>"]) (auto simp: property_cache_get_def split: option.splits)
  next
    case (Some i)
    note i = cache_found [OF ch Some] and t = cache_holds_facts(3) [OF ch cache_found(1) [OF ch Some]]
    show ?thesis
      using t i Some h by (intro exI [of _ s])
        (cases "ci_data (item s i)"; auto simp: property_cache_get_def tidy_def slot_value_def read_data_def Let_def min_def)
  qed
qed

end

lemma flush_req_refines:
  assumes "cache_holds s P Q"
  shows "cache_holds (property_cache_flush_req name s) P (Q \<union> {n \<in> dom P. matches name n})"
proof -
  let ?s = "property_cache_flush_req name s"
  note f = cache_holds_facts [OF assms]
  have it: "item ?s i = (if ci_used (item s i) \<and> flush_match name (item s i) then (item s i)\<lparr>ci_flush_req := True\<rparr> else item s i)"
    if "i < MAX_NVRAM_ITEM_CACHE_NUM" for i
    using that f(2) by (simp add: property_cache_flush_req_def)
  have fnd: "find_property_cache n ?s = find_property_cache n s" for n
    unfolding find_property_cache_def by (rule find_cong) (auto simp: it)
  have "pending ?s n = P n" for n
    using assms fnd [of n] cache_found(1,4) [OF assms, of n] it unfolding pending_def
    by (cases "find_property_cache n s") (auto dest: cache_missing(1) [OF assms])
  moreover have "n \<in> requested ?s \<longleftrightarrow> n \<in> Q \<union> {n \<in> dom P. matches name n}" for n
    using fnd [of n] cache_found(1,2,3,4,5) [OF assms, of n] it cache_missing [OF assms, of n] unfolding requested_def
    by (cases "find_property_cache n s") (auto simp: flush_match_named)
  moreover have "\<forall>i < MAX_NVRAM_ITEM_CACHE_NUM. tidy (item ?s i)" using it f(3) by (simp add: tidy_flush_req)
  moreover have "pr_blocks ?s = owned ?s"
    using f(5) by (simp add: property_cache_flush_req_def owned_def comp_def if_distrib [of slot_blocks] cong: if_cong)
  ultimately show ?thesis using flush_req_ok [OF f(1), of name] by (auto simp: cache_holds_def fun_eq_iff set_eq_iff)
qed

lemma init_holds:
  assumes "pr_blocks s = 0" "pr_queue s = []"
  shows "cache_holds (property_cache_init s) Map.empty {}"
proof -
  let ?s = "property_cache_init s"
  have it: "item ?s i = free_item" if "i < MAX_NVRAM_ITEM_CACHE_NUM" for i using that by (simp add: property_cache_init_def)
  have own: "owned ?s = 0"
    using assms(2) by (simp add: owned_def property_cache_init_def slot_blocks_def free_item_def sum_list_replicate)
  have "find_property_cache n ?s = None" for n using it by (simp add: find_cache_None free_item_def)
  then have "pending ?s = Map.empty" "requested ?s = {}" by (simp_all add: pending_def requested_def fun_eq_iff)
  moreover have "props_ok ?s" using init_ok [of s] own assms(1) by simp
  moreover have "pr_blocks ?s = 0" using assms(1) by (simp add: property_cache_init_def)
  moreover have "tidy free_item" by (simp add: tidy_def free_item_def)
  ultimately show ?thesis using own it by (simp add: cache_holds_def)
qed

end
