(* ===== verification/Property_Manager.thy ===== *)
theory Property_Manager
  imports Property_Spec Libc_Printf Hex_Str
begin

text \<open>The property manager (\<open>src/ext/actions/base/property/property_manager.c\<close>), configured with the cache and
  without an external flash: text, numbers, booleans and arrays over the cache, and the queue of direct
  writes that it falls back to when the cache cannot take a value.

  Buffers on the stack are lists; a read or write beyond their end is \<open>None\<close>. Their address matters only
  to the names whose data stays with the caller, and is the parameter \<open>sp\<close>.\<close>

section \<open>Direct writes\<close>

definition submit_nvram_write_work ::
    "prop_env \<Rightarrow> bytes \<Rightarrow> buf \<Rightarrow> int \<Rightarrow> 'd props \<Rightarrow> (int \<times> 'd props) option" where
  "submit_nvram_write_work env name data len s =
     (let (ok, s) = mem_malloc env 12 s
      in if \<not> ok then Some (- ENOMEM, s)
         else let (ok, s) = mem_malloc env (length name + 1) s
              in if \<not> ok then Some (- ENOMEM, mem_free s)
                 else do {
                   (ok, block, s) \<leftarrow> (case data of
                       Some (_, bs) \<Rightarrow>
                         if len > 0
                         then let (ok, s) = mem_malloc env (nat len) s
                              in if ok \<and> nat len > length bs then None else Some (ok, Some (take (nat len) bs), s)
                         else Some (True, None, s)
                     | None \<Rightarrow> Some (True, None, s));
                   if \<not> ok then Some (- ENOMEM, mem_free (mem_free s))
                   else let msg = \<lparr>wm_name = name, wm_data = block, wm_len = len\<rparr>
                        in Some (0, s\<lparr>pr_sent := pr_sent s + 1,
                                      pr_queue := (if pe_send env (pr_sent s) then pr_queue s @ [msg] else pr_queue s)\<rparr>) })"

text \<open>The main application takes a request from its queue and calls back.\<close>

definition handle_nvram_write_request :: "'d storage_ops \<Rightarrow> nvram_write_msg \<Rightarrow> 'd props \<Rightarrow> 'd props option" where
  "handle_nvram_write_request stg msg s = do {
     (_, c) \<leftarrow> nvram_config_set stg (Some (wm_name msg)) (wm_data msg) (wm_len msg) (pr_nv s);
     Some (s\<lparr>pr_nv := c\<rparr>) }"

definition nvram_write_msg_cleanup :: "nvram_write_msg \<Rightarrow> 'd props \<Rightarrow> 'd props" where
  "nvram_write_msg_cleanup msg s =
     (let s = mem_free s; s = (if wm_data msg \<noteq> None then mem_free s else s) in mem_free s)"

definition nvram_write_msg_callback :: "'d storage_ops \<Rightarrow> 'd props \<Rightarrow> 'd props option" where
  "nvram_write_msg_callback stg s =
     (case pr_queue s of [] \<Rightarrow> Some s
      | msg # q \<Rightarrow> map_option (nvram_write_msg_cleanup msg) (handle_nvram_write_request stg msg (s\<lparr>pr_queue := q\<rparr>)))"

section \<open>Values\<close>

definition property_get ::
    "'d storage_ops \<Rightarrow> prop_env \<Rightarrow> bytes \<Rightarrow> nat \<Rightarrow> 'd props \<Rightarrow> (int \<times> bytes \<times> 'd props) option" where
  "property_get stg env key value_len s = property_cache_get stg env key value_len s"

definition property_set :: "prop_env \<Rightarrow> bytes \<Rightarrow> buf \<Rightarrow> int \<Rightarrow> 'd props \<Rightarrow> (int \<times> 'd props) option" where
  "property_set env key value value_len s = do {
     (ret, s) \<leftarrow> property_cache_set env (Some key) value value_len s;
     if ret = - ENOMEM then submit_nvram_write_work env key value value_len s else Some (ret, s) }"

definition property_set_factory ::
    "'d storage_ops \<Rightarrow> bytes \<Rightarrow> bytes option \<Rightarrow> int \<Rightarrow> 'd props \<Rightarrow> (int \<times> 'd props) option" where
  "property_set_factory stg key value value_len s = do {
     (ret, c) \<leftarrow> nvram_config_set_factory stg (Some key) value value_len (pr_nv s);
     Some (ret, s\<lparr>pr_nv := c\<rparr>) }"

text \<open>A 16-byte buffer that starts out zeroed and receives \<open>bs\<close>.\<close>

abbreviation temp_data :: "bytes \<Rightarrow> bytes" where
  "temp_data bs \<equiv> blit (replicate 16 0) 0 bs"

definition strlen_buf :: "bytes \<Rightarrow> nat" where
  "strlen_buf bs = length (takeWhile (\<lambda>c. c \<noteq> 0) bs)"

text \<open>Reading a number from a buffer: \<open>strtol\<close> stops at the first character behind the digits, which must lie
  in the buffer. The number counts if there are digits and nothing behind them.\<close>

definition number_end :: "bytes \<Rightarrow> bytes" where
  "number_end bs =
     (let s = dropWhile (\<lambda>c. isspace (promote c)) bs;
          s = (case s of c # s' \<Rightarrow> if c = 0x2D \<or> c = 0x2B then s' else s | [] \<Rightarrow> [])
      in dropWhile (\<lambda>c. isdigit (promote c)) s)"

definition parse_number :: "bytes \<Rightarrow> u32 option option" where
  "parse_number bs =
     (if number_end bs = [] then None
      else case strtol bs 10 of (v, endptr, _) \<Rightarrow>
        Some (if length endptr \<noteq> length bs \<and> peek endptr = 0 then Some v else None))"

definition property_get_int ::
    "'d storage_ops \<Rightarrow> prop_env \<Rightarrow> bytes \<Rightarrow> u32 \<Rightarrow> 'd props \<Rightarrow> (u32 \<times> 'd props) option" where
  "property_get_int stg env key default_value s = do {
     (ret, bs, s) \<leftarrow> property_get stg env key 16 s;
     if ret > 0 then do {
       n \<leftarrow> parse_number (temp_data bs);
       Some (case n of Some v \<Rightarrow> v | None \<Rightarrow> default_value, s) }
     else Some (default_value, s) }"

definition property_get_integer ::
    "'d storage_ops \<Rightarrow> prop_env \<Rightarrow> bytes \<Rightarrow> u32 \<Rightarrow> 'd props \<Rightarrow> (int \<times> u32 \<times> 'd props) option" where
  "property_get_integer stg env key default_value s = do {
     (ret, bs, s) \<leftarrow> property_get stg env key 15 s;
     if ret > 0 then do {
       n \<leftarrow> parse_number (temp_data bs);
       Some (case n of Some v \<Rightarrow> (ret, v, s) | None \<Rightarrow> (- EINVAL, default_value, s)) }
     else Some (- EACCES, default_value, s) }"

text \<open>Printing into the buffer at an offset. An offset behind the end gives a size that is negative
  as an \<open>int\<close>; the terminating NUL is then written outside the buffer.\<close>

definition print_at :: "bytes \<Rightarrow> nat \<Rightarrow> bytes \<Rightarrow> va list \<Rightarrow> (nat \<times> bytes) option" where
  "print_at temp off format va =
     (if off > length temp then None
      else map_option (\<lambda>(n, out, _). (off + nat n, blit temp off out)) (snprintf (word_of_nat (length temp - off)) format va))"

definition set_text :: "prop_env \<Rightarrow> u32 \<Rightarrow> bytes \<Rightarrow> bytes \<Rightarrow> nat \<Rightarrow> 'd props \<Rightarrow> (int \<times> 'd props) option" where
  "set_text env sp key temp n s = do {
     (ret, s) \<leftarrow> property_set env key (Some (sp, temp)) (int n) s;
     Some (if ret \<noteq> 0 then - EACCES else 0, s) }"

definition property_set_int :: "prop_env \<Rightarrow> u32 \<Rightarrow> bytes \<Rightarrow> u32 \<Rightarrow> 'd props \<Rightarrow> (int \<times> 'd props) option" where
  "property_set_int env sp key value s = do {
     (_, temp) \<leftarrow> print_at (replicate 16 0) 0 [0x25, 0x64, 0] [IntArg value];
     set_text env sp key temp (strlen_buf temp) s }"

text \<open>The caller's buffer is given and returned; its length is that passed by the caller.\<close>

definition property_get_string ::
    "'d storage_ops \<Rightarrow> prop_env \<Rightarrow> bytes \<Rightarrow> bytes \<Rightarrow> bytes option \<Rightarrow> 'd props \<Rightarrow> (int \<times> bytes \<times> 'd props) option" where
  "property_get_string stg env key value def_value s = do {
     (ret, bs, s) \<leftarrow> property_cache_get stg env key (length value) s;
     if ret \<le> 0
     then Some (- EACCES, case def_value of None \<Rightarrow> blit value 0 bs
                          | Some d \<Rightarrow> blit (replicate (length value) 0) 0 (take (length value) d), s)
     else Some (ret, blit value 0 bs, s) }"

definition property_get_hexstring ::
    "'d storage_ops \<Rightarrow> prop_env \<Rightarrow> bytes \<Rightarrow> bytes \<Rightarrow> 'd props \<Rightarrow> (int \<times> bytes \<times> 'd props) option" where
  "property_get_hexstring stg env key value s = do {
     (ret, bs, s) \<leftarrow> property_cache_get stg env key (length value) s;
     let value' = blit value 0 bs;
     Some (if ret \<le> 0 then - ENOENT
           else if ret > int (length value) then - EINVAL
           else if \<exists>c \<in> set (take (nat ret) value'). \<not> isxdigit (promote c) then - EACCES else ret, value', s) }"

abbreviation true_text :: bytes where "true_text \<equiv> [0x74, 0x72, 0x75, 0x65, 0]"
abbreviation false_text :: bytes where "false_text \<equiv> [0x66, 0x61, 0x6C, 0x73, 0x65, 0]"

definition property_get_bool ::
    "'d storage_ops \<Rightarrow> prop_env \<Rightarrow> bytes \<Rightarrow> bool \<Rightarrow> 'd props \<Rightarrow> (int \<times> bool \<times> 'd props) option" where
  "property_get_bool stg env key def_value s = do {
     (ret, bs, s) \<leftarrow> property_cache_get stg env key 16 s;
     Some (if ret \<le> 0 then (- EACCES, def_value, s) else (ret, take 5 (temp_data bs) = true_text, s)) }"

definition property_set_bool :: "prop_env \<Rightarrow> u32 \<Rightarrow> bytes \<Rightarrow> bool \<Rightarrow> 'd props \<Rightarrow> (int \<times> 'd props) option" where
  "property_set_bool env sp key value s = do {
     (_, temp) \<leftarrow> print_at (replicate 16 0) 0 (if value then true_text else false_text) [];
     set_text env sp key temp (strlen_buf temp) s }"

definition property_get_byte_array ::
    "'d storage_ops \<Rightarrow> prop_env \<Rightarrow> bytes \<Rightarrow> bytes \<Rightarrow> bytes \<Rightarrow> 'd props \<Rightarrow> (int \<times> bytes \<times> 'd props) option" where
  "property_get_byte_array stg env key value default_value s = do {
     (len, bs, s) \<leftarrow> property_get stg env key 16 s;
     if len > 0 then do {
       let value_len = (if int (length value) > len div 2 then nat (len div 2) else length value);
       out \<leftarrow> str_to_hex (temp_data bs) value_len;
       Some (0, blit value 0 out, s) }
     else if length default_value < length value then None
     else Some (0, take (length value) default_value, s) }"

text \<open>The numbers are printed one behind the other; the comma is printed only while the text is empty.\<close>

fun print_array :: "u32 list \<Rightarrow> nat \<Rightarrow> bytes \<Rightarrow> bytes option" where
  "print_array [] off temp = Some temp"
| "print_array (v # vs) off temp = do {
     (off, temp) \<leftarrow> (if off = 0 then print_at temp off [0x2C, 0] [] else Some (off, temp));
     (off, temp) \<leftarrow> print_at temp off [0x25, 0x64, 0] [IntArg v];
     print_array vs off temp }"

definition property_set_byte_array :: "prop_env \<Rightarrow> u32 \<Rightarrow> bytes \<Rightarrow> bytes \<Rightarrow> 'd props \<Rightarrow> (int \<times> 'd props) option" where
  "property_set_byte_array env sp key value s = do {
     temp \<leftarrow> print_array (map promote value) 0 (replicate 16 0);
     set_text env sp key temp 16 s }"

text \<open>With a value present, the loop over its text is never entered, since its condition is that the pointer
  to the text is null; otherwise \<open>value_len\<close> bytes of the default are copied.\<close>

definition property_get_int_array ::
    "'d storage_ops \<Rightarrow> prop_env \<Rightarrow> bytes \<Rightarrow> bytes \<Rightarrow> nat \<Rightarrow> bytes \<Rightarrow> 'd props \<Rightarrow> (int \<times> bytes \<times> 'd props) option" where
  "property_get_int_array stg env key value value_len default_value s = do {
     (ret, _, s) \<leftarrow> property_get stg env key 16 s;
     if ret > 0 then Some (0, value, s)
     else if length default_value < value_len \<or> length value < value_len then None
     else Some (0, blit value 0 (take value_len default_value), s) }"

definition property_set_int_array :: "prop_env \<Rightarrow> u32 \<Rightarrow> bytes \<Rightarrow> u32 list \<Rightarrow> 'd props \<Rightarrow> (int \<times> 'd props) option" where
  "property_set_int_array env sp key value s = do {
     temp \<leftarrow> print_array value 0 (replicate 16 0);
     set_text env sp key temp 16 s }"

section \<open>Flushing and start-up\<close>

definition property_flush :: "'d storage_ops \<Rightarrow> prop_env \<Rightarrow> bytes option \<Rightarrow> 'd props \<Rightarrow> 'd props option" where
  "property_flush stg env key s = property_cache_flush stg env key s"

definition property_flush_req :: "bytes option \<Rightarrow> 'd props \<Rightarrow> 'd props" where
  "property_flush_req key s = property_cache_flush_req key s"

definition property_flush_req_deal :: "'d storage_ops \<Rightarrow> prop_env \<Rightarrow> 'd props \<Rightarrow> 'd props option" where
  "property_flush_req_deal stg env s = property_cache_flush_req_deal stg env s"

definition property_clear_user_info :: "'d storage_ops \<Rightarrow> prop_env \<Rightarrow> 'd props \<Rightarrow> 'd props option" where
  "property_clear_user_info stg env s = do {
     s \<leftarrow> property_flush stg env None s;
     c \<leftarrow> nvram_config_clear_all stg (pr_nv s);
     Some (s\<lparr>pr_nv := c\<rparr>) }"

definition property_manager_init :: "'d props \<Rightarrow> 'd props" where
  "property_manager_init s = property_cache_init s"

text \<open>Power comes back: memory is lost, the store scans the flash, and the manager is initialised.\<close>

definition power_on :: "'d storage_ops \<Rightarrow> 'd nvram \<Rightarrow> 'd props option" where
  "power_on stg nv = do {
     (_, c) \<leftarrow> nvram_config_init stg True nv;
     Some (property_manager_init \<lparr>pr_items = [], pr_nv = c, pr_mallocs = 0, pr_blocks = 0, pr_sent = 0, pr_queue = []\<rparr>) }"

section \<open>Every reachable state is well typed\<close>

text \<open>The states after power-on and any sequence of calls and callbacks, with any outcome of the allocations
  and of the message queue, and any contents of the callers' memory. The typed setters store their text
  through \<open>property_set\<close>.\<close>

inductive prop_reach :: "'d storage_ops \<Rightarrow> 'd props \<Rightarrow> bool" for stg where
  Power_On: "power_on stg nv = Some s \<Longrightarrow> prop_reach stg s"
| Set: "prop_reach stg s \<Longrightarrow> property_set env key value len s = Some (ret, s') \<Longrightarrow> prop_reach stg s'"
| Get: "prop_reach stg s \<Longrightarrow> property_get stg env key n s = Some (ret, bs, s') \<Longrightarrow> prop_reach stg s'"
| Set_Factory: "prop_reach stg s \<Longrightarrow> property_set_factory stg key val len s = Some (ret, s') \<Longrightarrow> prop_reach stg s'"
| Flush: "prop_reach stg s \<Longrightarrow> property_flush stg env k s = Some s' \<Longrightarrow> prop_reach stg s'"
| Flush_Req: "prop_reach stg s \<Longrightarrow> prop_reach stg (property_flush_req k s)"
| Flush_Deal: "prop_reach stg s \<Longrightarrow> property_flush_req_deal stg env s = Some s' \<Longrightarrow> prop_reach stg s'"
| Callback: "prop_reach stg s \<Longrightarrow> nvram_write_msg_callback stg s = Some s' \<Longrightarrow> prop_reach stg s'"
| Clear: "prop_reach stg s \<Longrightarrow> property_clear_user_info stg env s = Some s' \<Longrightarrow> prop_reach stg s'"

lemma submit_ok:
  assumes "props_ok s" "submit_nvram_write_work env name data len s = Some (ret, s')"
  shows "props_ok s'"
proof -
  have "pr_items s' = pr_items s \<and> owned s' - owned s \<le> pr_blocks s' - pr_blocks s"
    using assms(2)
    by (auto simp: submit_nvram_write_work_def mem_malloc_def mem_free_def owned_def msg_blocks_def Let_def
        split: option.splits if_splits Option.bind_splits)
  then show ?thesis using assms(1) by (simp add: props_ok_def)
qed

lemma property_set_ok:
  assumes "props_ok s" "property_set env key value len s = Some (ret, s')"
  shows "props_ok s'"
proof -
  obtain r t where t: "property_cache_set env (Some key) value len s = Some (r, t)"
      "(if r = - ENOMEM then submit_nvram_write_work env key value len t else Some (r, t)) = Some (ret, s')"
    using assms(2) unfolding property_set_def by (cases "property_cache_set env (Some key) value len s") auto
  have "props_ok t" by (rule set_ok [OF assms(1) t(1)])
  then show ?thesis using t(2) submit_ok [of t] by (cases "r = - ENOMEM") auto
qed

lemma property_get_ok:
  assumes "props_ok s" "property_get stg env key n s = Some (ret, bs, s')"
  shows "props_ok s'"
proof -
  have "\<exists>c. s' = s\<lparr>pr_nv := c\<rparr> \<or> s' = s"
    using assms(2) by (auto simp: property_get_def property_cache_get_def Let_def split: option.splits if_splits Option.bind_splits)
  then show ?thesis using assms(1) props_ok_cong [of s' s] by auto
qed

lemma callback_ok:
  assumes "props_ok s" "nvram_write_msg_callback stg s = Some s'"
  shows "props_ok s'"
proof (cases "pr_queue s")
  case Nil
  then show ?thesis using assms by (simp add: nvram_write_msg_callback_def)
next
  case (Cons msg q)
  then obtain c where "s' = nvram_write_msg_cleanup msg (s\<lparr>pr_queue := q, pr_nv := c\<rparr>)"
    using assms(2) by (auto simp: nvram_write_msg_callback_def handle_nvram_write_request_def split: Option.bind_splits)
  then have "pr_items s' = pr_items s" "pr_queue s' = q" "pr_blocks s' = pr_blocks s - msg_blocks msg"
    by (simp_all add: nvram_write_msg_cleanup_def mem_free_def msg_blocks_def Let_def)
  then show ?thesis using assms(1) Cons by (simp add: props_ok_def owned_def)
qed

lemma flush_ok: "props_ok s \<Longrightarrow> property_flush stg env k s = Some s' \<Longrightarrow> props_ok s'"
  unfolding property_flush_def property_cache_flush_def by (rule flush_items_ok) auto

lemma flush_deal_ok: "props_ok s \<Longrightarrow> property_flush_req_deal stg env s = Some s' \<Longrightarrow> props_ok s'"
  unfolding property_flush_req_deal_def property_cache_flush_req_deal_def by (rule flush_req_items_ok) auto

lemma clear_ok:
  assumes "props_ok s" "property_clear_user_info stg env s = Some s'"
  shows "props_ok s'"
proof -
  obtain t c where t: "property_flush stg env None s = Some t" "s' = t\<lparr>pr_nv := c\<rparr>"
    using assms(2) by (auto simp: property_clear_user_info_def split: Option.bind_splits)
  show ?thesis using flush_ok [OF assms(1) t(1)] props_ok_cong [of s' t] t(2) by simp
qed

lemma power_on_ok: "power_on stg nv = Some s \<Longrightarrow> props_ok s"
proof -
  assume "power_on stg nv = Some s"
  then obtain c where "s = property_cache_init \<lparr>pr_items = [], pr_nv = c, pr_mallocs = 0, pr_blocks = 0, pr_sent = 0, pr_queue = []\<rparr>"
    by (auto simp: power_on_def property_manager_init_def split: Option.bind_splits)
  then show ?thesis
    using cache_holds_facts(1) [OF init_holds [of "\<lparr>pr_items = [], pr_nv = c, pr_mallocs = 0, pr_blocks = 0, pr_sent = 0, pr_queue = []\<rparr>"]] by simp
qed

lemma prop_reach_ok: "prop_reach stg s \<Longrightarrow> props_ok s"
proof (induction rule: prop_reach.induct)
  case (Set_Factory s key val len ret s')
  then have "\<exists>c. s' = s\<lparr>pr_nv := c\<rparr>" by (auto simp: property_set_factory_def split: Option.bind_splits)
  then show ?case using Set_Factory.IH props_ok_cong [of s' s] by auto
next
  case (Flush_Req s k)
  then show ?case by (simp add: property_flush_req_def flush_req_ok)
qed (blast intro: power_on_ok property_set_ok property_get_ok flush_ok flush_deal_ok callback_ok clear_ok)+

section \<open>Numbers as text\<close>

text \<open>Only the front of the caller's buffer matters.\<close>

lemma write_data_take: "n \<le> length bs \<Longrightarrow> write_data i (Some (a, take n bs)) n s = write_data i (Some (a, bs)) n s"
  by (simp add: write_data_def split: cdata.split)

lemma replace_data_take: "n \<le> length bs \<Longrightarrow> replace_data env i (Some (a, take n bs)) n s = replace_data env i (Some (a, bs)) n s"
  unfolding replace_data_def by (simp only: write_data_take)

lemma new_data_take: "n \<le> length bs \<Longrightarrow> new_data env key (Some (a, take n bs)) n s = new_data env key (Some (a, bs)) n s"
  unfolding new_data_def by (simp only: write_data_take)

lemma submit_take:
  "n \<le> length bs \<Longrightarrow> submit_nvram_write_work env key (Some (a, take n bs)) (int n) s = submit_nvram_write_work env key (Some (a, bs)) (int n) s"
  by (simp add: submit_nvram_write_work_def mem_malloc_def Let_def)

lemma property_set_take:
  assumes "n \<le> length bs"
  shows "property_set env key (Some (a, bs)) (int n) s = property_set env key (Some (a, take n bs)) (int n) s"
proof -
  have "property_cache_set env (Some key) (Some (a, take n bs)) (int n) s = property_cache_set env (Some key) (Some (a, bs)) (int n) s"
    by (cases "name_class key"; cases "find_property_cache key s")
      (simp_all add: property_cache_set_def property_cache_set2_def property_cache_set_bt_keys_def property_cache_set_global_data_def
        replace_data_take [OF assms] new_data_take [OF assms])
  then show ?thesis unfolding property_set_def by (simp only: submit_take [OF assms])
qed

lemma number_end_terminated: "0 \<in> set bs \<Longrightarrow> number_end bs \<noteq> []"
proof -
  have keep: "0 \<in> set (dropWhile p xs)" if "0 \<in> set xs" "\<not> p 0" for p and xs :: bytes
    using that by (induction xs) auto
  assume "0 \<in> set bs"
  then have 1: "0 \<in> set (dropWhile (\<lambda>c. isspace (promote c)) bs)" by (rule keep) (simp add: isspace_def promote_def)
  obtain c xs where cx: "dropWhile (\<lambda>c. isspace (promote c)) bs = c # xs" using 1 by (cases "dropWhile (\<lambda>c. isspace (promote c)) bs") auto
  define y where "y = (if c = 0x2D \<or> c = 0x2B then xs else c # xs)"
  have "0 \<in> set y" using 1 cx by (auto simp: y_def)
  then have "0 \<in> set (dropWhile (\<lambda>c. isdigit (promote c)) y)" by (rule keep) (simp add: isdigit_def promote_def)
  moreover have "number_end bs = dropWhile (\<lambda>c. isdigit (promote c)) y" by (simp add: number_end_def cx y_def Let_def)
  ultimately have "0 \<in> set (number_end bs)" by simp
  then show ?thesis by (cases "number_end bs") simp_all
qed

lemma to_dec_text: "0 \<notin> set (to_dec v False False (- 1))" "to_dec v False False (- 1) \<noteq> []"
proof -
  have c: "\<forall>d \<in> set [0..<10]. digit_char d \<noteq> 0" by code_simp
  have "0 \<notin> set (to_x n 10 (- 1)) \<and> to_x n 10 (- 1) \<noteq> []" for n :: u32
    using to_x_decimal [of n "- 1"] c by fastforce
  then show "0 \<notin> set (to_dec v False False (- 1))" "to_dec v False False (- 1) \<noteq> []"
    by (simp_all add: to_dec_def to_udec_def)
qed

lemma print_number:
  fixes v :: u32
  defines "t \<equiv> to_dec v False False (- 1)"
  shows "print_at (replicate 16 0) 0 [0x25, 0x64, 0] [IntArg v] = Some (length t, temp_data t)"
    "strlen_buf (temp_data t) = length t" "length t \<le> 11" "take (length t) (temp_data t) = t" "length (temp_data t) = 16"
    "parse_number (temp_data t) = Some (Some v)"
proof -
  show len: "length t \<le> 11" unfolding t_def by (rule length_to_dec)
  have td: "temp_data t = t @ replicate (16 - length t) 0" by (simp add: blit_def)
  obtain k where k: "16 - length t = Suc k" using len by (cases "16 - length t") auto
  show "print_at (replicate 16 0) 0 [0x25, 0x64, 0] [IntArg v] = Some (length t, temp_data t)"
    using len k snprintf_decimal [of 16 v] sint_small [of 16] by (simp add: print_at_def blit_def t_def [symmetric])
  show "strlen_buf (temp_data t) = length t"
    using to_dec_text(1) [of v] unfolding td k t_def [symmetric] strlen_buf_def
    by (subst takeWhile_append2) (auto simp: t_def)
  show "take (length t) (temp_data t) = t" "length (temp_data t) = 16" using len by (simp_all add: td)
  have "strtol (t @ replicate (Suc k) 0) 10 = (v, replicate (Suc k) 0, False)"
    unfolding t_def by (rule strtol_to_dec) (simp add: peek_def isdigit_def promote_def)
  moreover have "number_end (temp_data t) \<noteq> []" by (rule number_end_terminated) (simp add: td k)
  moreover have "t \<noteq> []" unfolding t_def by (rule to_dec_text(2))
  moreover have "peek (replicate (Suc k) 0) = 0" by (simp add: peek_def)
  ultimately show "parse_number (temp_data t) = Some (Some v)" using len by (simp add: parse_number_def td k del: replicate_Suc)
qed

end
