(* ===== verification/Property_System.thy ===== *)
theory Property_System
  imports Property_Manager
begin

text \<open>The property layer as a whole: sequences of calls, flushes and power cycles against the maps they denote,
  the typing of every reachable state, and numbers that survive a power cycle.\<close>

section \<open>Sequences of operations\<close>

datatype prop_cmd = Set_Prop bytes bytes | Del_Prop bytes | Flush_Prop "bytes option" | Flush_Req_Prop "bytes option" | Flush_Deal_Prop | Power_Cycle_Prop

text \<open>The abstract state: the persistent user map, the pending updates, and the names to be flushed.\<close>

type_synonym prop_spec_state = "(bytes \<rightharpoonup> bytes) \<times> (bytes \<Rightarrow> bytes option option) \<times> bytes set"

fun prop_spec :: "prop_cmd \<Rightarrow> prop_spec_state \<Rightarrow> prop_spec_state" where
  "prop_spec (Set_Prop n d) (U, P, Q) = (U, P(n \<mapsto> Some d), Q)"
| "prop_spec (Del_Prop n) (U, P, Q) = (U, pend_del n P, Q \<inter> dom (pend_del n P))"
| "prop_spec (Flush_Prop k) (U, P, Q) =
     (let M = {n \<in> dom P. matches k n} in (commit U P M, P |` (- M), Q - M))"
| "prop_spec (Flush_Req_Prop k) (U, P, Q) = (U, P, Q \<union> {n \<in> dom P. matches k n})"
| "prop_spec Flush_Deal_Prop (U, P, Q) = (commit U P Q, P |` (- Q), {})"
| "prop_spec Power_Cycle_Prop (U, P, Q) = (U, Map.empty, {})"

text \<open>An update is admissible if the name is not one of the Bluetooth keys, the table has a place for it, and the
  store will have room for all that is pending.\<close>

definition name_fits :: "bytes \<Rightarrow> (bytes \<Rightarrow> bytes option option) \<Rightarrow> bool" where
  "name_fits n P \<longleftrightarrow> good_name n \<and> name_class n \<noteq> Keys \<and> (n \<in> dom P \<or> card (dom P) < MAX_NVRAM_ITEM_CACHE_NUM)"

fun prop_fits :: "prop_spec_state \<Rightarrow> prop_cmd \<Rightarrow> bool" where
  "prop_fits (U, P, Q) (Set_Prop n d) \<longleftrightarrow> name_fits n P \<and> 0 < length d \<and> length d \<le> NVRAM_MAX_DATA_SIZE \<and>
     16 + used U + used (pend_vals (P(n \<mapsto> Some d))) \<le> 0x2000"
| "prop_fits (U, P, Q) (Del_Prop n) \<longleftrightarrow> name_fits n P"
| "prop_fits _ _ \<longleftrightarrow> True"

text \<open>A call that reports success.\<close>

fun prop_step :: "'d storage_ops \<Rightarrow> prop_env \<Rightarrow> u32 \<Rightarrow> prop_cmd \<Rightarrow> 'd props \<Rightarrow> 'd props option" where
  "prop_step stg env sp (Set_Prop n d) s = do {
     (ret, s) \<leftarrow> property_set env n (Some (sp, d)) (int (length d)) s; if ret = 0 then Some s else None }"
| "prop_step stg env sp (Del_Prop n) s = do {
     (ret, s) \<leftarrow> property_set env n None 0 s; if ret = 0 then Some s else None }"
| "prop_step stg env sp (Flush_Prop k) s = property_flush stg env k s"
| "prop_step stg env sp (Flush_Req_Prop k) s = Some (property_flush_req k s)"
| "prop_step stg env sp Flush_Deal_Prop s = property_flush_req_deal stg env s"
| "prop_step stg env sp Power_Cycle_Prop s = power_on stg (nc_nv (pr_nv s))"

abbreviation spec_holds ::
    "('d \<Rightarrow> bool) \<Rightarrow> ('d \<Rightarrow> nat \<Rightarrow> u8) \<Rightarrow> (bytes \<rightharpoonup> bytes) \<Rightarrow> (bytes \<rightharpoonup> bytes) \<Rightarrow> 'd props \<Rightarrow> prop_spec_state \<Rightarrow> bool" where
  "spec_holds ok cells R F s M \<equiv> props_hold ok cells R F s (fst M) (fst (snd M)) (snd (snd M))"

text \<open>What a reader sees: a pending value or deletion, else what is stored.\<close>

definition visible :: "(bytes \<rightharpoonup> bytes) \<Rightarrow> (bytes \<rightharpoonup> bytes) \<Rightarrow> prop_spec_state \<Rightarrow> bytes \<Rightarrow> nat \<Rightarrow> int \<times> bytes" where
  "visible R F M n len = (case fst (snd M) n of
      Some None \<Rightarrow> (0, [])
    | Some (Some d) \<Rightarrow> (int (min len (length d)), take len d)
    | None \<Rightarrow> (case (F ++ R ++ fst M) n of None \<Rightarrow> (- ENOENT, []) | Some d \<Rightarrow> (int (min len (length d)), take len d)))"

lemma pend_del_used: "finite (dom P) \<Longrightarrow> used (pend_vals (pend_del n P)) \<le> used (pend_vals P)"
  using used_remove_le [OF pend_finite, of P n] by (simp add: pend_del_def)

context nvram_store
begin

lemma set_step:
  assumes h: "props_hold ok cells R F s U P Q" "mallocs_succeed env" and f: "prop_fits (U, P, Q) (Set_Prop n d)"
  shows "\<exists>s'. property_set env n (Some (sp, d)) (int (length d)) s = Some (0, s') \<and> props_hold ok cells R F s' U (P(n \<mapsto> Some d)) Q"
proof -
  have "cache_holds s P Q" using h(1) by (simp add: props_hold_def)
  then obtain s' where "property_cache_set env (Some n) (Some (sp, d)) (int (length d)) s = Some (0, s')"
      "cache_holds s' (P(n \<mapsto> Some d)) Q" "pr_nv s' = pr_nv s"
    using cache_set_value [of s P Q env n d sp] h(2) f by (auto simp: name_fits_def)
  then show ?thesis using h(1) f by (simp add: property_set_def props_hold_def)
qed

lemma del_step:
  assumes h: "props_hold ok cells R F s U P Q" "mallocs_succeed env" and f: "prop_fits (U, P, Q) (Del_Prop n)"
  shows "\<exists>s'. property_set env n None 0 s = Some (0, s') \<and> props_hold ok cells R F s' U (pend_del n P) (Q \<inter> dom (pend_del n P))"
proof -
  have c: "cache_holds s P Q" and r: "16 + used U + used (pend_vals P) \<le> 0x2000" using h(1) by (simp_all add: props_hold_def)
  obtain s' where "property_cache_set env (Some n) None 0 s = Some (0, s')"
      "cache_holds s' (pend_del n P) (Q \<inter> dom (pend_del n P))" "pr_nv s' = pr_nv s"
    using cache_set_null [OF c h(2), of n 0] f by (auto simp: name_fits_def)
  then show ?thesis using h(1) r pend_del_used [OF cache_finite [OF c], of n] by (simp add: property_set_def props_hold_def)
qed

lemma power_step:
  assumes h: "props_hold ok cells R F s U P Q" and nv: "nv_dev nv = nv_dev (nc_nv (pr_nv s))"
  shows "\<exists>s'. power_on stg nv = Some s' \<and> props_hold ok cells R F s' U Map.empty {}"
proof -
  have c: "config_holds ok cells (pr_nv s) U R F" and r: "16 + used U \<le> 0x2000" using h by (simp_all add: props_hold_def)
  obtain c' where c': "nvram_config_init stg True nv = Some (0, c')" "config_holds ok cells c' U R F"
    using config_reboot_eq [OF c nv] by blast
  let ?s = "\<lparr>pr_items = [], pr_nv = c', pr_mallocs = 0, pr_blocks = 0, pr_sent = 0, pr_queue = []\<rparr>"
  have "cache_holds (property_cache_init ?s) Map.empty {}" by (rule init_holds) simp_all
  moreover have "pr_nv (property_cache_init ?s) = c'" by (simp add: property_cache_init_def)
  ultimately show ?thesis using c' r by (simp add: power_on_def property_manager_init_def props_hold_def)
qed

end

sublocale nvram_store \<subseteq> properties: step_refinement "prop_step stg env sp" prop_spec prop_fits
    "\<lambda>s M. mallocs_succeed env \<and> spec_holds ok cells R F s M" for env sp R F
proof
  fix s M cmd
  assume "mallocs_succeed env \<and> spec_holds ok cells R F s M" and f: "prop_fits M cmd"
  then have env: "mallocs_succeed env" and h0: "spec_holds ok cells R F s M" by simp_all
  obtain U P Q where M: "M = (U, P, Q)" by (cases M) auto
  have h: "props_hold ok cells R F s U P Q" using h0 M by simp
  show "\<exists>s'. prop_step stg env sp cmd s = Some s' \<and> mallocs_succeed env \<and> spec_holds ok cells R F s' (prop_spec cmd M)"
  proof (cases cmd)
    case (Set_Prop n d)
    then show ?thesis using set_step [OF h env, of n d sp] f env M by auto
  next
    case (Del_Prop n)
    then show ?thesis using del_step [OF h env, of n] f env M by auto
  next
    case (Flush_Prop k)
    then show ?thesis using flush_refines [OF h refl, of env k] env M by (auto simp: property_flush_def Let_def)
  next
    case (Flush_Req_Prop k)
    have "props_hold ok cells R F (property_flush_req k s) U P (Q \<union> {n \<in> dom P. matches k n})"
      using h flush_req_refines [of s P Q k] by (simp add: props_hold_def property_flush_req_def property_cache_flush_req_def)
    then show ?thesis using env M Flush_Req_Prop by simp
  next
    case Flush_Deal_Prop
    then show ?thesis using flush_req_deal_refines [OF h, of env] env M by (auto simp: property_flush_req_deal_def)
  next
    case Power_Cycle_Prop
    then show ?thesis using power_step [OF h refl] env M by auto
  qed
qed

context nvram_store
begin

lemma props_refine:
  assumes "mallocs_succeed env" "spec_holds ok cells R F s M" "all_fit prop_spec prop_fits M cmds"
  shows "\<exists>s'. run_steps (prop_step stg env sp) cmds s = Some s' \<and> spec_holds ok cells R F s' (fold prop_spec cmds M)"
  using properties.run_refines [of env R F s M cmds sp] assms by blast

lemma get_visible:
  assumes "spec_holds ok cells R F s M" "good_name n" "0 < len"
  shows "\<exists>s'. property_get stg env n len s = Some (fst (visible R F M n len), snd (visible R F M n len), s') \<and> spec_holds ok cells R F s' M"
  using get_refines [OF assms, of env] by (auto simp: property_get_def visible_def split: option.splits)

lemma get_int_visible:
  assumes h: "spec_holds ok cells R F s M" and n: "good_name n"
    and v: "visible R F M n 16 = (int (length t), t)" and t: "t = to_dec v False False (- 1)"
  shows "\<exists>s'. property_get_int stg env n dflt s = Some (v, s')"
proof -
  obtain s' where "property_get stg env n 16 s = Some (int (length t), t, s')"
    using get_visible [OF h n, of 16 env] v by auto
  moreover have "0 < length t" using to_dec_text(2) [of v] t by simp
  ultimately show ?thesis using print_number(6) [of v] t by (simp add: property_get_int_def)
qed

lemma int_survives:
  assumes h: "props_hold ok cells R F s U P Q" "mallocs_succeed env"
    and f: "prop_fits (U, P, Q) (Set_Prop key (to_dec v False False (- 1)))"
  shows "\<exists>s1 s1' s2 s3 s4. property_set_int env sp key v s = Some (0, s1) \<and> property_get_int stg env key dflt s1 = Some (v, s1') \<and>
    property_flush stg env None s1 = Some s2 \<and> power_on stg (nc_nv (pr_nv s2)) = Some s3 \<and> property_get_int stg env key dflt s3 = Some (v, s4)"
proof -
  define t where "t = to_dec v False False (- 1)"
  note pn = print_number [of v, folded t_def]
  have key: "good_name key" using f by (simp add: name_fits_def)
  let ?P = "P(key \<mapsto> Some t)"
  obtain s1 where s1: "property_set env key (Some (sp, t)) (int (length t)) s = Some (0, s1)" "props_hold ok cells R F s1 U ?P Q"
    using set_step [OF h f, of sp] unfolding t_def by blast
  have set: "property_set_int env sp key v s = Some (0, s1)"
    using property_set_take [of "length t" "temp_data t" env key sp s] s1(1) pn by (simp add: property_set_int_def set_text_def)
  have cut: "min 16 (length t) = length t" "take 16 t = t" using pn(3) by simp_all
  have "visible R F (U, ?P, Q) key 16 = (int (length t), t)" by (simp add: visible_def cut)
  then obtain s1' where g1: "property_get_int stg env key dflt s1 = Some (v, s1')"
    using get_int_visible [of R F s1 "(U, ?P, Q)" key t v env dflt] s1(2) key t_def by auto
  let ?M = "{n \<in> dom ?P. matches None n}"
  obtain s2 where s2: "property_flush stg env None s1 = Some s2" "props_hold ok cells R F s2 (commit U ?P ?M) (?P |` (- ?M)) (Q - ?M)"
    using flush_refines [OF s1(2) refl, of env None] by (auto simp: property_flush_def)
  obtain s3 where s3: "power_on stg (nc_nv (pr_nv s2)) = Some s3" "props_hold ok cells R F s3 (commit U ?P ?M) Map.empty {}"
    using power_step [OF s2(2) refl] by blast
  have "visible R F (commit U ?P ?M, Map.empty, {}) key 16 = (int (length t), t)" by (simp add: visible_def commit_def map_add_def cut)
  then obtain s4 where "property_get_int stg env key dflt s3 = Some (v, s4)"
    using get_int_visible [of R F s3 "(commit U ?P ?M, Map.empty, {})" key t v env dflt] s3(2) key t_def by auto
  then show ?thesis using set g1 s2(1) s3(1) by blast
qed

end

section \<open>Properties\<close>

text \<open>(C16) The cache and the store together implement a write-back cache: over any NOR flash, a sequence of
  settings, deletions, flushes of all or of selected names, flush requests and power cycles, in which
  each update fits, runs to its end with every call reporting success, and ends in the state these
  operations denote: the flushed values are in the store, the others pending, and only those are lost
  with the power. No heap block is lost, and a reader gets the pending value or deletion of a name, else
  what is stored.\<close>

theorem property_run_refines:
  assumes "nor_flash api cells n" "0x400000 \<le> n" "\<forall>k m. pe_malloc env k m"
    and "props_hold (\<lambda>d. True) cells R F s U P Q" "all_fit prop_spec prop_fits (U, P, Q) cmds"
  shows "\<exists>s' U' P' Q'. run_steps (prop_step (flash_storage api) env sp) cmds s = Some s' \<and>
    fold prop_spec cmds (U, P, Q) = (U', P', Q') \<and> props_hold (\<lambda>d. True) cells R F s' U' P' Q' \<and> pr_blocks s' = owned s' \<and>
    (\<forall>key len. good_name key \<and> 0 < len \<longrightarrow>
      (\<exists>s''. property_get (flash_storage api) env key len s' = Some (fst (visible R F (U', P', Q') key len), snd (visible R F (U', P', Q') key len), s'')))"
proof -
  note st = nor_flash_store [OF assms(1,2)]
  obtain U' P' Q' where f: "fold prop_spec cmds (U, P, Q) = (U', P', Q')" by (cases "fold prop_spec cmds (U, P, Q)") auto
  obtain s' where s': "run_steps (prop_step (flash_storage api) env sp) cmds s = Some s'" "props_hold (\<lambda>d. True) cells R F s' U' P' Q'"
    using nvram_store.props_refine [OF st assms(3), of R F s "(U, P, Q)" cmds sp] assms(4,5) f by auto
  have "pr_blocks s' = owned s'" using s'(2) by (simp add: props_hold_def cache_holds_def)
  moreover have "\<exists>s''. property_get (flash_storage api) env key len s' =
      Some (fst (visible R F (U', P', Q') key len), snd (visible R F (U', P', Q') key len), s'')" if "good_name key" "0 < len" for key len
    using nvram_store.get_visible [OF st, of R F s' "(U', P', Q')" key len env] s'(2) that by auto
  ultimately show ?thesis using s' f by blast
qed

text \<open>(C17) In every state that calls, callbacks and power-on can lead to, whatever allocations fail and whatever
  the callers' memory and the message queue do, the table is well typed: every used entry has a name of
  its own, owns a block of at least its length unless it is a Bluetooth key, and more blocks are
  allocated than entries and requests own, so nothing is freed twice. Reading a cached value stays inside
  its block and the caller's buffer. Setting one is undefined in one case only: an entry whose
  reallocation failed has kept its length without a block, and the new value has that length.\<close>

theorem property_table_typed:
  assumes "prop_reach stg s"
  shows "props_ok s \<and>
    (find_property_cache key s = Some i \<longrightarrow>
      (\<exists>bs. property_get stg env key n s = Some (int (min (unat (ci_len (item s i))) n), bs, s) \<and> length bs \<le> min (unat (ci_len (item s i))) n)) \<and>
    ((case data of None \<Rightarrow> True | Some (a, bs) \<Rightarrow> len \<le> int (length bs)) \<longrightarrow>
      (property_cache_set env (Some key) data len s = None \<longleftrightarrow>
        (\<exists>i. name_class key \<noteq> Keys \<and> data \<noteq> None \<and> 0 < len \<and> find_property_cache key s = Some i \<and>
          ci_data (item s i) = Null \<and> unat (ci_len (item s i)) = nat len)))"
proof (intro conjI impI)
  show ok: "props_ok s" by (rule prop_reach_ok [OF assms])
  show "\<exists>bs. property_get stg env key n s = Some (int (min (unat (ci_len (item s i))) n), bs, s) \<and> length bs \<le> min (unat (ci_len (item s i))) n"
    if "find_property_cache key s = Some i"
    using get_cached [OF ok that, of stg env n] by (auto simp: property_get_def)
  show "property_cache_set env (Some key) data len s = None \<longleftrightarrow>
      (\<exists>i. name_class key \<noteq> Keys \<and> data \<noteq> None \<and> 0 < len \<and> find_property_cache key s = Some i \<and>
         ci_data (item s i) = Null \<and> unat (ci_len (item s i)) = nat len)"
    if "case data of None \<Rightarrow> True | Some (a, bs) \<Rightarrow> len \<le> int (length bs)"
    using set_undefined_iff [OF ok that, of env "Some key"] by simp
qed

text \<open>(C18) A number that was set is read back, from the cache at once, and from the flash after a flush and a
  power cycle: printing, caching, storing, the start-up scan and parsing are inverse to each other for
  every 32-bit number.\<close>

theorem property_int_survives:
  assumes "nor_flash api cells n" "0x400000 \<le> n" "\<forall>k m. pe_malloc env k m"
    and "props_hold (\<lambda>d. True) cells R F s U P Q" "prop_fits (U, P, Q) (Set_Prop key (to_dec v False False (- 1)))"
  shows "\<exists>s1 s1' s2 s3 s4. property_set_int env sp key v s = Some (0, s1) \<and>
    property_get_int (flash_storage api) env key dflt s1 = Some (v, s1') \<and>
    property_flush (flash_storage api) env None s1 = Some s2 \<and>
    power_on (flash_storage api) (nc_nv (pr_nv s2)) = Some s3 \<and>
    property_get_int (flash_storage api) env key dflt s3 = Some (v, s4)"
  by (rule nvram_store.int_survives [OF nor_flash_store [OF assms(1,2)] assms(4,3,5)])

section \<open>Witnesses\<close>

definition ample_env :: prop_env where
  "ample_env = \<lparr>pe_malloc = \<lambda>_ _. True, pe_mem = \<lambda>_. 0, pe_send = \<lambda>_. True\<rparr>"

lemmas fit_defs = name_fits_def name_class_def MAX_NVRAM_ITEM_CACHE_NUM_def size_defs

lemma erased_power_on:
  "\<exists>s. power_on (flash_storage nor_sim) erased_nvram = Some s \<and> props_hold (\<lambda>d. True) (\<lambda>d. d) Map.empty Map.empty s Map.empty Map.empty {}"
proof -
  obtain c where c: "nvram_config_init (flash_storage nor_sim) True erased_nvram = Some (0, c)" "store_holds (\<lambda>d. d) c Map.empty Map.empty Map.empty"
    using erased_init by blast
  let ?s = "\<lparr>pr_items = [], pr_nv = c, pr_mallocs = 0, pr_blocks = 0, pr_sent = 0, pr_queue = []\<rparr>"
  have "cache_holds (property_cache_init ?s) Map.empty {}" by (rule init_holds) simp_all
  moreover have "pr_nv (property_cache_init ?s) = c" by (simp add: property_cache_init_def)
  ultimately show ?thesis using c by (simp add: power_on_def property_manager_init_def props_hold_def)
qed

theorem property_run_refines_witness:
  "\<exists>s s' s''. power_on (flash_storage nor_sim) erased_nvram = Some s \<and>
    run_steps (prop_step (flash_storage nor_sim) ample_env 0) [Set_Prop [65] [1, 2], Flush_Prop None, Set_Prop [65] [3], Power_Cycle_Prop] s = Some s' \<and>
    property_get (flash_storage nor_sim) ample_env [65] 8 s' = Some (2, [1, 2], s'')"
proof -
  obtain s where s: "power_on (flash_storage nor_sim) erased_nvram = Some s"
      "props_hold (\<lambda>d. True) (\<lambda>d. d) Map.empty Map.empty s Map.empty Map.empty {}"
    using erased_power_on by blast
  let ?cmds = "[Set_Prop [65] [1, 2], Flush_Prop None, Set_Prop [65] [3], Power_Cycle_Prop]"
  have com: "commit Map.empty [[65] \<mapsto> Some [1, 2]] {[65]} = [[65] \<mapsto> [1, 2]]" by (auto simp: commit_def fun_eq_iff)
  have res: "[[65] \<mapsto> Some [1, 2]] |` (- {[65]}) = Map.empty" for d by (auto simp: restrict_map_def fun_eq_iff)
  have fit: "all_fit prop_spec prop_fits (Map.empty, Map.empty, {}) ?cmds"
    by (simp add: com res fit_defs)
  have fold: "fold prop_spec ?cmds (Map.empty, Map.empty, {}) = ([[65] \<mapsto> [1, 2]], Map.empty, {})" by (simp add: com res)
  have "\<forall>k m. pe_malloc ample_env k m" "good_name [65]" by (simp_all add: ample_env_def size_defs)
  moreover have "visible Map.empty Map.empty ([[65] \<mapsto> [1, 2]], Map.empty, {}) [65] 8 = (2, [1, 2])" by (simp add: visible_def)
  ultimately show ?thesis
    using property_run_refines [OF nor.nor_flash_axioms order_refl _ s(2) fit, of ample_env 0, unfolded fold] s(1)
    by (metis fst_conv snd_conv prod.inject zero_less_numeral)
qed

theorem property_table_typed_witness:
  "\<exists>s s' bs. power_on (flash_storage nor_sim) erased_nvram = Some s \<and>
    property_set ample_env [65] (Some (0, [1, 2])) 2 s = Some (0, s') \<and> props_ok s' \<and>
    (\<exists>i. find_property_cache [65] s' = Some i \<and>
      property_get (flash_storage nor_sim) ample_env [65] 1 s' = Some (int (min (unat (ci_len (item s' i))) 1), bs, s') \<and> length bs \<le> 1)"
proof -
  obtain s where s: "power_on (flash_storage nor_sim) erased_nvram = Some s"
      "props_hold (\<lambda>d. True) (\<lambda>d. d) Map.empty Map.empty s Map.empty Map.empty {}"
    using erased_power_on by blast
  have env: "\<forall>k m. pe_malloc ample_env k m" by (simp add: ample_env_def)
  have "prop_fits (Map.empty, Map.empty, {}) (Set_Prop [65] [1, 2])" by (simp add: fit_defs)
  then obtain s' where s': "property_set ample_env [65] (Some (0, [1, 2])) 2 s = Some (0, s')"
      "props_hold (\<lambda>d. True) (\<lambda>d. d) Map.empty Map.empty s' Map.empty [[65] \<mapsto> Some [1, 2]] {}"
    using nor_store.set_step [OF s(2) env, of "[65]" "[1, 2]" 0] by auto
  have reach: "prop_reach (flash_storage nor_sim) s'" by (rule prop_reach.Set [OF prop_reach.Power_On [OF s(1)] s'(1)])
  obtain i where i: "find_property_cache [65] s' = Some i"
    using cache_dom [of s' "[[65] \<mapsto> Some [1, 2]]" "{}" "[65]"] s'(2) by (auto simp: props_hold_def)
  show ?thesis
    using property_table_typed [OF reach, where key = "[65]" and i = i and env = ample_env and n = 1 and data = None and len = 0] i s(1) s'(1) by auto
qed

theorem property_int_survives_witness:
  "\<exists>s s1 s1' s2 s3 s4. power_on (flash_storage nor_sim) erased_nvram = Some s \<and> property_set_int ample_env 0 [65] (- 5) s = Some (0, s1) \<and>
    property_get_int (flash_storage nor_sim) ample_env [65] 0 s1 = Some (- 5, s1') \<and>
    property_flush (flash_storage nor_sim) ample_env None s1 = Some s2 \<and>
    power_on (flash_storage nor_sim) (nc_nv (pr_nv s2)) = Some s3 \<and>
    property_get_int (flash_storage nor_sim) ample_env [65] 0 s3 = Some (- 5, s4)"
proof -
  obtain s where s: "power_on (flash_storage nor_sim) erased_nvram = Some s"
      "props_hold (\<lambda>d. True) (\<lambda>d. d) Map.empty Map.empty s Map.empty Map.empty {}"
    using erased_power_on by blast
  have t: "to_dec (- 5) False False (- 1) = [0x2D, 0x35]" by code_simp
  have env: "\<forall>k m. pe_malloc ample_env k m" by (simp add: ample_env_def)
  have "prop_fits (Map.empty, Map.empty, {}) (Set_Prop [65] (to_dec (- 5) False False (- 1)))"
    unfolding t by (simp add: fit_defs)
  from property_int_survives [OF nor.nor_flash_axioms order_refl env s(2) this, of 0 0] show ?thesis using s(1) by blast
qed

end
