(* ===== verification/Audio_Settings.thy ===== *)
theory Audio_Settings
  imports Audio_Volume Property_System
begin

text \<open>The volumes of the audio system in the property store (\<open>src/ext/actions/audio/audio_system.c\<close>): how a
  volume is saved when it is set, loaded when the system starts, and cleared. The log of
  \<open>Audio_Volume\<close> says which volumes are saved; here they are.\<close>

section \<open>Saving and loading\<close>

definition DEFAULT_VOLUME :: int where "DEFAULT_VOLUME = 5"

definition MAX_AUDIO_TRACK_NUM :: nat where "MAX_AUDIO_TRACK_NUM = 2"

text \<open>The name of a property as the bytes of its C string.\<close>

definition c_name :: "string \<Rightarrow> bytes" where
  "c_name = map of_char"

text \<open>The volume is printed into five bytes and stored with its terminator. The bytes behind the terminator
  are not initialised and not copied. Whether the policy asks for saving has been decided when the call
  is logged.\<close>

definition audio_system_save_volume ::
    "prop_env \<Rightarrow> u32 \<Rightarrow> string \<Rightarrow> u8 \<Rightarrow> 'd props \<Rightarrow> (int \<times> 'd props) option" where
  "audio_system_save_volume env sp name volume s = do {
     (_, temp) \<leftarrow> print_at (replicate 5 0) 0 [0x25, 0x64, 0] [IntArg (ucast volume)];
     property_set env (c_name name) (Some (sp, temp)) (int (strlen_buf temp + 1)) s }"

fun save_calls :: "prop_env \<Rightarrow> u32 \<Rightarrow> audio_call list \<Rightarrow> 'd props \<Rightarrow> 'd props option" where
  "save_calls env sp [] s = Some s"
| "save_calls env sp (PropertySet name volume # cs) s = do {
     (_, s) \<leftarrow> audio_system_save_volume env sp name volume s;
     save_calls env sp cs s }"
| "save_calls env sp (_ # cs) s = save_calls env sp cs s"

definition audio_system_get_volume_config ::
    "'d storage_ops \<Rightarrow> prop_env \<Rightarrow> audio_state \<Rightarrow> string \<Rightarrow> 'd props \<Rightarrow> (u8 \<times> 'd props) option" where
  "audio_system_get_volume_config stg env st name s = do {
     (value, s) \<leftarrow> property_get_int stg env (c_name name) (word_of_int DEFAULT_VOLUME) s;
     Some (word_of_int (if sint value \<le> 0 \<or> sint value > audio_policy_get_volume_level st then DEFAULT_VOLUME else sint value), s) }"

text \<open>The volumes in the order in which start-up loads them; the first is also the master volume.\<close>

definition volume_configs :: "(string \<times> (u8 \<Rightarrow> audio_system_t \<Rightarrow> audio_system_t)) list" where
  "volume_configs =
    [(''BTPLAY_VOLUME'', \<lambda>v a. a\<lparr>music_volume := v, master_volume := v\<rparr>),
     (''TONE_VOLUME'', \<lambda>v a. a\<lparr>tts_volume := v\<rparr>),
     (''BTCALL_VOLUME'', \<lambda>v a. a\<lparr>voice_volume := v\<rparr>),
     (''LINEIN_VOLUME'', \<lambda>v a. a\<lparr>linein_volume := v\<rparr>),
     (''USOUND_VOLUME'', \<lambda>v a. a\<lparr>usound_volume := v\<rparr>),
     (''LEA_VOLUME'', \<lambda>v a. a\<lparr>lea_volume := v\<rparr>),
     (''LE_VOLUME'', \<lambda>v a. a\<lparr>bmr_volume := v\<rparr>),
     (''LOCALPLAY_VOLUME'', \<lambda>v a. a\<lparr>lcmusic_volume := v\<rparr>),
     (''FM_VOLUME'', \<lambda>v a. a\<lparr>fm_volume := v\<rparr>),
     (''I2SRX_IN_VOLUME'', \<lambda>v a. a\<lparr>i2srx_in_volume := v\<rparr>),
     (''SPDIF_IN_VOLUME'', \<lambda>v a. a\<lparr>spidf_in_volume := v\<rparr>),
     (''TTS_MIN_VOLUME'', \<lambda>v a. a\<lparr>min_volume := v\<rparr>),
     (''TTS_MAX_VOLUME'', \<lambda>v a. a\<lparr>max_volume := v\<rparr>)]"

fun load_volumes ::
    "'d storage_ops \<Rightarrow> prop_env \<Rightarrow> audio_state \<Rightarrow> (string \<times> (u8 \<Rightarrow> audio_system_t \<Rightarrow> audio_system_t)) list \<Rightarrow>
      audio_system_t \<Rightarrow> 'd props \<Rightarrow> (audio_system_t \<times> 'd props) option" where
  "load_volumes stg env st [] a s = Some (a, s)"
| "load_volumes stg env st ((name, upd) # cfg) a s = do {
     (v, s) \<leftarrow> audio_system_get_volume_config stg env st name s;
     load_volumes stg env st cfg (upd v a) s }"

definition zero_audio_system :: audio_system_t where
  "zero_audio_system = \<lparr>audio_track_pool = replicate MAX_AUDIO_TRACK_NUM None, master_volume = 0, tts_volume = 0, music_volume = 0,
     voice_volume = 0, linein_volume = 0, fm_volume = 0, i2srx_in_volume = 0, mic_in_volume = 0, spidf_in_volume = 0,
     usound_volume = 0, lcmusic_volume = 0, max_volume = 0, min_volume = 0, lea_volume = 0, bmr_volume = 0\<rparr>"

text \<open>Start-up of the audio system. Initialising the mutex and the audio hardware touches neither the
  volumes nor the store.\<close>

definition aduio_system_init ::
    "'d storage_ops \<Rightarrow> prop_env \<Rightarrow> audio_state \<Rightarrow> 'd props \<Rightarrow> (int \<times> audio_state \<times> 'd props) option" where
  "aduio_system_init stg env st s = do {
     (a, s) \<leftarrow> load_volumes stg env st volume_configs zero_audio_system s;
     Some (0, st\<lparr>audio_system := Some a\<rparr>, s) }"

text \<open>The names that clearing the volumes deletes, in order.\<close>

definition cleared_names :: "string list" where
  "cleared_names = [''BTPLAY_VOLUME'', ''TONE_VOLUME'', ''BTCALL_VOLUME'', ''LINEIN_VOLUME'', ''USOUND_VOLUME'', ''LEA_VOLUME'',
     ''LE_VOLUME'', ''LOCALPLAY_VOLUME'', ''FM_VOLUME'', ''I2SRX_IN_VOLUME'', ''SPDIF_IN_VOLUME'', ''TTS_MIN_VOLUME'', ''TTS_MAX_VOLUME'']"

fun delete_all :: "prop_env \<Rightarrow> string list \<Rightarrow> 'd props \<Rightarrow> 'd props option" where
  "delete_all env [] s = Some s"
| "delete_all env (name # names) s = do {
     (_, s) \<leftarrow> property_set env (c_name name) None 0 s;
     delete_all env names s }"

definition audio_system_clear_volume :: "prop_env \<Rightarrow> 'd props \<Rightarrow> 'd props option" where
  "audio_system_clear_volume env s = delete_all env cleared_names s"

section \<open>Saved volumes as properties\<close>

definition volume_text :: "u8 \<Rightarrow> bytes" where
  "volume_text v = to_dec (ucast v) False False (- 1) @ [0]"

definition save_cmds :: "audio_call list \<Rightarrow> prop_cmd list" where
  "save_cmds cs = concat (map (\<lambda>c. case c of PropertySet name v \<Rightarrow> [Set_Prop (c_name name) (volume_text v)] | _ \<Rightarrow> []) cs)"

lemma sint_volume: "sint (ucast (v :: u8) :: u32) = uint v" "unat (ucast v :: u32) = unat v"
proof -
  have v: "unat v < 256" by simp
  then show u: "unat (ucast v :: u32) = unat v" by (simp add: unsigned_ucast_eq take_bit_nat_eq_self_iff del: unat_u8_less)
  show "sint (ucast v :: u32) = uint v" using v by (simp add: sint_u32 u del: unat_u8_less)
qed

lemma volume_digits: "length (to_dec (ucast (v :: u8)) False False (- 1)) \<le> 3"
proof -
  have "unat v < 10 ^ Suc 2" using unat_u8_less [of v] by (simp del: unat_u8_less)
  then have "length (to_x (ucast v) 10 (- 1)) \<le> 3"
    using length_num_digits [of 10 "unat v" 2] by (simp add: to_x_eq sint_volume)
  then show ?thesis by (simp add: to_dec_def to_udec_def sint_volume)
qed

lemma print_volume:
  fixes v :: u8
  defines "t \<equiv> to_dec (ucast v) False False (- 1)"
  shows "\<exists>temp. print_at (replicate 5 0) 0 [0x25, 0x64, 0] [IntArg (ucast v)] = Some (length t, temp) \<and> length temp = 5 \<and>
    strlen_buf temp = length t \<and> take (length t + 1) temp = volume_text v"
proof -
  have len: "length t \<le> 3" unfolding t_def by (rule volume_digits)
  let ?temp = "t @ replicate (5 - length t) 0"
  obtain k where k: "5 - length t = Suc k" using len by (cases "5 - length t") auto
  have "snprintf 5 [0x25, 0x64, 0] [IntArg (ucast v)] = Some (int (length t), t @ [0], [])"
    using len sint_small [of 5] by (simp add: snprintf_text prf_text_decimal t_def)
  then have "print_at (replicate 5 0) 0 [0x25, 0x64, 0] [IntArg (ucast v)] = Some (length t, ?temp)"
    using len k by (simp add: print_at_def blit_def)
  moreover have "strlen_buf ?temp = length t"
    using to_dec_text(1) [of "ucast v"] unfolding k strlen_buf_def by (subst takeWhile_append2) (auto simp: t_def)
  moreover have "take (length t + 1) ?temp = volume_text v" using k by (simp add: volume_text_def t_def)
  ultimately show ?thesis using len by auto
qed

lemma save_volume_eq:
  "audio_system_save_volume env sp name v s = property_set env (c_name name) (Some (sp, volume_text v)) (int (length (volume_text v))) s"
proof -
  obtain temp where t: "print_at (replicate 5 0) 0 [0x25, 0x64, 0] [IntArg (ucast v)] = Some (length (to_dec (ucast v) False False (- 1)), temp)"
      "length temp = 5" "strlen_buf temp = length (to_dec (ucast v) False False (- 1))"
      "take (length (to_dec (ucast v) False False (- 1)) + 1) temp = volume_text v"
    using print_volume [of v] by blast
  have n: "length (volume_text v) = length (to_dec (ucast v) False False (- 1)) + 1" by (simp add: volume_text_def)
  then have "length (volume_text v) \<le> length temp" using volume_digits [of v] t(2) by simp
  then show ?thesis
    using t property_set_take [of "length (volume_text v)" temp env "c_name name" sp s] by (simp add: audio_system_save_volume_def n)
qed

lemma read_volume:
  "parse_number (temp_data (volume_text v)) = Some (Some (ucast v))" "length (volume_text v) < 16" "0 < length (volume_text v)"
proof -
  show n: "length (volume_text v) < 16" "0 < length (volume_text v)" using volume_digits [of v] by (simp_all add: volume_text_def)
  have "temp_data (volume_text v) = temp_data (to_dec (ucast v) False False (- 1))"
    using volume_digits [of v] by (simp add: blit_def volume_text_def flip: replicate_Suc)
  then show "parse_number (temp_data (volume_text v)) = Some (Some (ucast v))" using print_number(6) [of "ucast v"] by simp
qed

text \<open>The value that start-up loads for a name, in terms of what a reader of the property gets.\<close>

definition config_value :: "audio_state \<Rightarrow> bytes option \<Rightarrow> u8" where
  "config_value st d = word_of_int
     (let v = (case d of None \<Rightarrow> DEFAULT_VOLUME
               | Some bs \<Rightarrow> (case parse_number (temp_data bs) of Some (Some v) \<Rightarrow> sint v | _ \<Rightarrow> DEFAULT_VOLUME))
      in if v \<le> 0 \<or> v > audio_policy_get_volume_level st then DEFAULT_VOLUME else v)"

lemma config_value_text:
  assumes "uint v \<le> audio_policy_get_volume_level st"
  shows "config_value st (Some (volume_text v)) = (if v = 0 then 5 else v)"
proof (cases "v = 0")
  case True
  then show ?thesis by (simp add: config_value_def read_volume(1) sint_volume DEFAULT_VOLUME_def)
next
  case False
  then have "\<not> uint v \<le> 0" by (simp add: unsigned_eq_0_iff order_le_less)
  then show ?thesis using assms False by (simp add: config_value_def read_volume(1) sint_volume)
qed

text \<open>Texts that the loading of volumes can deal with: none is empty or fills the whole buffer.\<close>

definition short_values :: "(bytes \<rightharpoonup> bytes) \<Rightarrow> bool" where
  "short_values M \<longleftrightarrow> (\<forall>(name, _) \<in> set volume_configs. case M (c_name name) of None \<Rightarrow> True | Some d \<Rightarrow> 0 < length d \<and> length d < 16)"

lemma short_values_upd: "short_values M \<Longrightarrow> short_values (M(n \<mapsto> volume_text v))"
  using read_volume(2,3) [of v] by (auto simp: short_values_def split: option.splits)

lemma volume_names_good: "list_all (\<lambda>(name, _). good_name (c_name name)) volume_configs"
  by (simp add: volume_configs_def c_name_def good_name_def nvram_consts)

text \<open>What the store holds once everything pending is written.\<close>

definition flushed :: "(bytes \<rightharpoonup> bytes) \<Rightarrow> (bytes \<Rightarrow> bytes option option) \<Rightarrow> (bytes \<rightharpoonup> bytes)" where
  "flushed U P n = (case P n of None \<Rightarrow> U n | Some v \<Rightarrow> v)"

lemma commit_all: "commit U P (dom P) = flushed U P"
  by (auto simp: commit_def flushed_def fun_eq_iff split: option.split)

lemma flushed_set: "flushed U (P(n \<mapsto> Some d)) = (flushed U P)(n \<mapsto> d)"
  by (simp add: flushed_def fun_eq_iff)

lemma save_calls_run: "run_steps (prop_step stg env sp) (save_cmds cs) s = Some s' \<Longrightarrow> save_calls env sp cs s = Some s'"
proof (induction cs arbitrary: s)
  case (Cons c cs)
  show ?case
  proof (cases c)
    case (PropertySet name v)
    then obtain t where t: "property_set env (c_name name) (Some (sp, volume_text v)) (int (length (volume_text v))) s = Some (0, t)"
        "run_steps (prop_step stg env sp) (save_cmds cs) t = Some s'"
      using Cons.prems by (auto simp: save_cmds_def split: Option.bind_splits if_splits)
    then show ?thesis using Cons.IH [OF t(2)] PropertySet by (simp add: save_volume_eq)
  qed (use Cons in \<open>simp_all add: save_cmds_def\<close>)
qed (simp add: save_cmds_def)

section \<open>Which volumes are saved\<close>

fun stream_property :: "audio_stream \<Rightarrow> string" where
  "stream_property AUDIO_STREAM_LE_AUDIO = ''LEA_VOLUME''"
| "stream_property AUDIO_STREAM_BMR = ''LE_VOLUME''"
| "stream_property AUDIO_STREAM_VOICE = ''BTCALL_VOLUME''"
| "stream_property AUDIO_STREAM_LINEIN = ''LINEIN_VOLUME''"
| "stream_property AUDIO_STREAM_USOUND = ''USOUND_VOLUME''"
| "stream_property AUDIO_STREAM_LOCAL_MUSIC = ''LOCALPLAY_VOLUME''"
| "stream_property AUDIO_STREAM_FM = ''FM_VOLUME''"
| "stream_property AUDIO_STREAM_I2SRX_IN = ''I2SRX_IN_VOLUME''"
| "stream_property AUDIO_STREAM_SPDIF_IN = ''SPDIF_IN_VOLUME''"
| "stream_property _ = ''BTPLAY_VOLUME''"

lemma store_fields_log:
  assumes "s \<in> set separate_streams" "audio_policy_check_save_volume_to_nvram st"
  shows "snd (store_stream_fields stream_fields s v a st) = log_call (PropertySet (stream_property s) v) st"
  by (insert assms, cases s) (simp_all add: separate_streams_def stream_fields_def save_volume_def)

lemma set_stream_volume_log:
  assumes "audio_system st = Some a" "s \<in> set separate_streams" "audio_policy_check_save_volume_to_nvram st"
  shows "\<exists>tts. calls (snd (audio_system_set_stream_volume s v st)) =
    calls st @ PropertySet (stream_property s) (word_of_int (max 0 (min (stream_limit st s) v))) # map (PropertySet ''TONE_VOLUME'') tts"
proof -
  obtain vol ret where c: "clamp_stream_volume (audio_policy_get_volume_level st) s v = (vol, ret)"
    by fastforce
  have vol: "vol = max 0 (min (stream_limit st s) v)"
    using clamp_stream_volume_fst [of "audio_policy_get_volume_level st" s v] c by (simp add: stream_limit_def)
  obtain a' st' where f: "store_stream_fields stream_fields s (word_of_int vol) (audio_system_set_tracks st s vol a) st = (a', st')"
    by fastforce
  have st': "st' = log_call (PropertySet (stream_property s) (word_of_int vol)) st"
    using store_fields_log [OF assms(2,3), of "word_of_int vol" "audio_system_set_tracks st s vol a"] f by simp
  have save: "\<exists>tts. calls (save_volume ''TONE_VOLUME'' w st') = calls st' @ map (PropertySet ''TONE_VOLUME'') tts" for w
    by (cases "audio_policy_check_save_volume_to_nvram st'") (auto simp: save_volume_def log_call_def intro: exI [of _ "[w]"] exI [of _ "[]"])
  have "\<exists>tts. calls (snd (audio_system_set_stream_volume s v st)) = calls st' @ map (PropertySet ''TONE_VOLUME'') tts"
    unfolding audio_system_set_stream_volume_def assms(1)
    using save by (auto simp: c f Let_def intro: exI [of _ "[]"])
  then show ?thesis by (simp add: st' log_call_def vol)
qed

text \<open>Saving the tone volume afterwards does not touch the volume of the stream.\<close>

lemma saved_state:
  assumes "s \<in> set separate_streams" "short_values (F ++ R ++ flushed U P)"
    and "fold prop_spec (save_cmds (PropertySet (stream_property s) w # map (PropertySet ''TONE_VOLUME'') tts)) (U, P, Q) = (U', P', Q')"
  shows "U' = U \<and> short_values (F ++ R ++ flushed U P') \<and> flushed U P' (c_name (stream_property s)) = Some (volume_text w)"
proof -
  have ne: "c_name (stream_property s) \<noteq> c_name ''TONE_VOLUME''"
    by (insert assms(1), cases s) (simp_all add: separate_streams_def c_name_def)
  have tone: "U' = U \<and> short_values (F ++ R ++ flushed U P') \<and> flushed U P' n = flushed U P n"
    if "fold prop_spec (save_cmds (map (PropertySet ''TONE_VOLUME'') tts)) (U, P, Q) = (U', P', Q')"
      "short_values (F ++ R ++ flushed U P)" "n \<noteq> c_name ''TONE_VOLUME''" for n P Q
    using that
  proof (induction tts arbitrary: P Q)
    case (Cons t tts)
    have "fold prop_spec (save_cmds (map (PropertySet ''TONE_VOLUME'') tts)) (U, P(c_name ''TONE_VOLUME'' \<mapsto> Some (volume_text t)), Q) = (U', P', Q')"
      using Cons.prems(1) by (simp add: save_cmds_def)
    moreover have "short_values (F ++ R ++ flushed U (P(c_name ''TONE_VOLUME'' \<mapsto> Some (volume_text t))))"
      unfolding flushed_set using short_values_upd [OF Cons.prems(2)] by simp
    moreover have "flushed U (P(c_name ''TONE_VOLUME'' \<mapsto> Some (volume_text t))) n = flushed U P n"
      unfolding flushed_set using Cons.prems(3) by simp
    ultimately show ?case using Cons.IH [OF _ _ Cons.prems(3)] by metis
  qed (simp add: save_cmds_def)
  have "fold prop_spec (save_cmds (map (PropertySet ''TONE_VOLUME'') tts)) (U, P(c_name (stream_property s) \<mapsto> Some (volume_text w)), Q) = (U', P', Q')"
    using assms(3) by (simp add: save_cmds_def)
  moreover have "short_values (F ++ R ++ flushed U (P(c_name (stream_property s) \<mapsto> Some (volume_text w))))"
    unfolding flushed_set using short_values_upd [OF assms(2)] by simp
  moreover have "flushed U (P(c_name (stream_property s) \<mapsto> Some (volume_text w))) (c_name (stream_property s)) = Some (volume_text w)"
    unfolding flushed_set by simp
  ultimately show ?thesis using tone [OF _ _ ne] by metis
qed

text \<open>Reading a stream volume after all volumes are loaded.\<close>

lemma loaded_stream_volume:
  assumes "s \<in> set separate_streams"
  shows "audio_system_get_stream_volume s (st\<lparr>audio_system := Some (fold (\<lambda>(name, upd). upd (val name)) volume_configs a)\<rparr>) =
    uint (val (stream_property s))"
  by (insert assms, cases s) (simp_all add: separate_streams_def volume_configs_def audio_system_get_stream_volume_def)

lemma delete_all_run: "run_steps (prop_step stg env sp) (map (\<lambda>n. Del_Prop (c_name n)) names) s = Some s' \<Longrightarrow> delete_all env names s = Some s'"
proof (induction names arbitrary: s)
  case (Cons n names)
  then obtain t where t: "property_set env (c_name n) None 0 s = Some (0, t)"
      "run_steps (prop_step stg env sp) (map (\<lambda>n. Del_Prop (c_name n)) names) t = Some s'"
    by (auto split: Option.bind_splits if_splits)
  then show ?case using Cons.IH [OF t(2)] by simp
qed simp

lemma flushed_del: "name_class n = Plain \<Longrightarrow> flushed U (pend_del n P) = (flushed U P)(n := None)"
  by (simp add: flushed_def pend_del_def fun_eq_iff)

lemma deleted_state:
  assumes "fold prop_spec (map (\<lambda>n. Del_Prop (c_name n)) names) (U, P, Q) = (U', P', Q')" "list_all (\<lambda>n. name_class (c_name n) = Plain) names"
  shows "U' = U \<and> flushed U P' = (\<lambda>n. if n \<in> c_name ` set names then None else flushed U P n)"
  using assms
proof (induction names arbitrary: P Q)
  case (Cons n names)
  then have "U' = U \<and> flushed U P' = (\<lambda>m. if m \<in> c_name ` set names then None else flushed U (pend_del (c_name n) P) m)" by simp
  then show ?case using flushed_del [of "c_name n" U P] Cons.prems(2) by (auto simp: fun_eq_iff)
qed simp

lemma cleared_names_plain: "list_all (\<lambda>n. name_class (c_name n) = Plain) cleared_names"
  by code_simp

lemma cleared_are_loaded: "set cleared_names = fst ` set volume_configs"
  by (simp add: cleared_names_def volume_configs_def)

lemma short_values_none: "\<forall>name \<in> set cleared_names. M (c_name name) = None \<Longrightarrow> short_values M"
  unfolding short_values_def cleared_are_loaded by auto

text \<open>The contents of the store after a flush, a power cycle and the start of the audio system.\<close>

abbreviation loaded :: "audio_state \<Rightarrow> (bytes \<rightharpoonup> bytes) \<Rightarrow> audio_state" where
  "loaded st M \<equiv> st\<lparr>audio_system := Some (fold (\<lambda>(name, upd). upd (config_value st (M (c_name name)))) volume_configs zero_audio_system)\<rparr>"

context nvram_store
begin

lemma load_config:
  assumes h: "props_hold ok cells R F s U Map.empty {}" and n: "good_name (c_name name)"
    and d: "case (F ++ R ++ U) (c_name name) of None \<Rightarrow> True | Some d \<Rightarrow> 0 < length d \<and> length d < 16"
  shows "\<exists>s'. audio_system_get_volume_config stg env st name s = Some (config_value st ((F ++ R ++ U) (c_name name)), s') \<and>
    props_hold ok cells R F s' U Map.empty {}"
proof -
  let ?M = "(U, Map.empty, {}) :: prop_spec_state" and ?n = "c_name name"
  define D where "D = (F ++ R ++ U) ?n"
  have d': "case D of None \<Rightarrow> True | Some d \<Rightarrow> 0 < length d \<and> length d < 16" using d by (simp add: D_def)
  have vis: "visible R F ?M ?n 16 = (case D of None \<Rightarrow> (- ENOENT, []) | Some d \<Rightarrow> (int (length d), d))"
    using d' unfolding visible_def fst_conv snd_conv D_def [symmetric] by (auto split: option.splits)
  obtain s' where s': "property_get stg env ?n 16 s = Some (fst (visible R F ?M ?n 16), snd (visible R F ?M ?n 16), s')"
      "props_hold ok cells R F s' U Map.empty {}"
    using get_visible [of R F s ?M ?n 16 env] h n by auto
  have "\<exists>s'. audio_system_get_volume_config stg env st name s = Some (config_value st D, s') \<and> props_hold ok cells R F s' U Map.empty {}"
  proof (cases D)
    case None
    then show ?thesis
      using s' vis sint_volume(1) [of 5] by (simp add: audio_system_get_volume_config_def property_get_int_def config_value_def DEFAULT_VOLUME_def)
  next
    case (Some t)
    then have t: "0 < length t" "length t < 16" using d' by simp_all
    then have "0 \<in> set (temp_data t)" by (auto simp: blit_def)
    then have "\<exists>n. parse_number (temp_data t) = Some n" using number_end_terminated by (auto simp: parse_number_def split: prod.split)
    then show ?thesis
      using s' vis Some t sint_volume(1) [of 5]
      by (auto simp: audio_system_get_volume_config_def property_get_int_def config_value_def DEFAULT_VOLUME_def Let_def split: option.splits)
  qed
  then show ?thesis by (simp add: D_def)
qed

lemma load_volumes_eq:
  assumes "list_all (\<lambda>(name, _). good_name (c_name name)) cfg"
    and "\<forall>(name, _) \<in> set cfg. case (F ++ R ++ U) (c_name name) of None \<Rightarrow> True | Some d \<Rightarrow> 0 < length d \<and> length d < 16"
    and "props_hold ok cells R F s U Map.empty {}"
  shows "\<exists>s'. load_volumes stg env st cfg a s = Some (fold (\<lambda>(name, upd). upd (config_value st ((F ++ R ++ U) (c_name name)))) cfg a, s') \<and>
    props_hold ok cells R F s' U Map.empty {}"
  using assms
proof (induction cfg arbitrary: a s)
  case (Cons c cfg)
  obtain name upd where c: "c = (name, upd)" by (cases c)
  obtain t where t: "audio_system_get_volume_config stg env st name s = Some (config_value st ((F ++ R ++ U) (c_name name)), t)"
      "props_hold ok cells R F t U Map.empty {}"
    using load_config [OF Cons.prems(3), of name env st] Cons.prems(1,2) c by auto
  then show ?case using Cons.IH [OF _ _ t(2)] Cons.prems(1,2) c by simp
qed simp

lemma restart_loads:
  assumes h: "props_hold ok cells R F s U P Q" and sh: "short_values (F ++ R ++ flushed U P)"
  shows "\<exists>s2 s3 s4. property_flush stg env None s = Some s2 \<and> power_on stg (nc_nv (pr_nv s2)) = Some s3 \<and>
    aduio_system_init stg env st s3 = Some (0, loaded st (F ++ R ++ flushed U P), s4)"
proof -
  have "{n \<in> dom P. matches None n} = dom P" by simp
  then obtain s2 Q2 P2 where s2: "property_flush stg env None s = Some s2" "props_hold ok cells R F s2 (flushed U P) P2 Q2"
    using flush_refines [OF h, of "dom P" None env] by (auto simp: property_flush_def commit_all)
  obtain s3 where s3: "power_on stg (nc_nv (pr_nv s2)) = Some s3" "props_hold ok cells R F s3 (flushed U P) Map.empty {}"
    using power_step [OF s2(2) refl] by blast
  let ?M = "F ++ R ++ flushed U P"
  have sh': "\<forall>(name, _) \<in> set volume_configs. case ?M (c_name name) of None \<Rightarrow> True | Some d \<Rightarrow> 0 < length d \<and> length d < 16"
    using sh unfolding short_values_def by simp
  obtain s4 where "load_volumes stg env st volume_configs zero_audio_system s3 =
      Some (fold (\<lambda>(name, upd). upd (config_value st (?M (c_name name)))) volume_configs zero_audio_system, s4)"
    using load_volumes_eq [OF volume_names_good sh' s3(2), of env st zero_audio_system] by blast
  then show ?thesis using s2(1) s3(1) by (simp add: aduio_system_init_def)
qed

lemma volume_survives:
  assumes h: "props_hold ok cells R F s U P Q" "mallocs_succeed env" and a: "audio_system st = Some a"
    and stream: "stream \<in> set separate_streams" "audio_policy_check_save_volume_to_nvram st"
    and short: "short_values (F ++ R ++ flushed U P)"
    and new: "audio_system_set_stream_volume stream v st = (ret, st')" "calls st' = calls st @ new"
    and fit: "all_fit prop_spec prop_fits (U, P, Q) (save_cmds new)" and pol: "user_policy st2 = user_policy st"
    and w: "w = system_volume_get stream st'"
  shows "\<exists>s1 s2 s3 s4 st3. save_calls env sp new s = Some s1 \<and> property_flush stg env None s1 = Some s2 \<and>
    power_on stg (nc_nv (pr_nv s2)) = Some s3 \<and> aduio_system_init stg env st2 s3 = Some (0, st3, s4) \<and>
    system_volume_get stream st3 = (if w = 0 then DEFAULT_VOLUME else w)"
proof -
  let ?v = "max 0 (min (stream_limit st stream) v)" and ?n = "c_name (stream_property stream)"
  have st': "st' = snd (audio_system_set_stream_volume stream v st)" using new(1) by simp
  obtain tts where log: "new = PropertySet (stream_property stream) (word_of_int ?v) # map (PropertySet ''TONE_VOLUME'') tts"
    using set_stream_volume_log [OF a stream, of v] new(2) st' by auto
  obtain U' P' Q' where f: "fold prop_spec (save_cmds new) (U, P, Q) = (U', P', Q')" by (cases "fold prop_spec (save_cmds new) (U, P, Q)") auto
  note sv = saved_state [OF stream(1) short f [unfolded log]]
  obtain s1 where s1: "run_steps (prop_step stg env sp) (save_cmds new) s = Some s1" "props_hold ok cells R F s1 U P' Q'"
    using props_refine [OF h(2), of R F s "(U, P, Q)" "save_cmds new" sp] h(1) fit f sv by auto
  let ?M = "F ++ R ++ flushed U P'"
  obtain s2 s3 s4 where s2: "property_flush stg env None s1 = Some s2" "power_on stg (nc_nv (pr_nv s2)) = Some s3"
      "aduio_system_init stg env st2 s3 = Some (0, loaded st2 ?M, s4)"
    using restart_loads [OF s1(2), of env st2] sv by blast
  have lv: "0 \<le> ?v" "?v \<le> audio_policy_get_volume_level st" "?v < 256" using volume_level_range [of st] by (auto simp: stream_limit_def)
  have u: "uint (word_of_int ?v :: u8) = ?v" using lv by (intro uint_word_of_int_clamp) auto
  have "audio_policy_get_volume_level st2 = audio_policy_get_volume_level st" using pol by (simp add: audio_policy_get_volume_level_def)
  then have "config_value st2 (?M ?n) = (if word_of_int ?v = (0 :: u8) then 5 else word_of_int ?v)"
    using config_value_text [of "word_of_int ?v" st2] sv u lv(2) by (simp add: map_add_def)
  moreover have "word_of_int ?v = (0 :: u8) \<longleftrightarrow> ?v = 0" using u unsigned_eq_0_iff [of "word_of_int ?v :: u8", where 'a = int] by simp
  ultimately have "uint (config_value st2 (?M ?n)) = (if ?v = 0 then DEFAULT_VOLUME else ?v)" using u by (simp add: DEFAULT_VOLUME_def)
  moreover have "w = ?v" using get_after_set [OF a, of stream v] stream(1) unfolding w st' by (auto simp: system_volume_get_def separate_streams_def)
  ultimately have "system_volume_get stream (loaded st2 ?M) = (if w = 0 then DEFAULT_VOLUME else w)"
    using loaded_stream_volume [OF stream(1), where st = st2 and val = "\<lambda>name. config_value st2 (?M (c_name name))" and a = zero_audio_system]
    by (simp only: system_volume_get_def)
  then show ?thesis using save_calls_run [OF s1(1)] s2 by blast
qed

text \<open>Clearing the volumes brings back the default volume of every stream.\<close>

lemma clear_restores_default:
  assumes h: "props_hold ok cells R F s U P Q" "mallocs_succeed env"
    and fac: "\<forall>name \<in> set cleared_names. (F ++ R) (c_name name) = None"
    and fit: "all_fit prop_spec prop_fits (U, P, Q) (map (\<lambda>n. Del_Prop (c_name n)) cleared_names)"
  shows "\<exists>s1 s2 s3 s4 st3. audio_system_clear_volume env s = Some s1 \<and> property_flush stg env None s1 = Some s2 \<and>
    power_on stg (nc_nv (pr_nv s2)) = Some s3 \<and> aduio_system_init stg env st s3 = Some (0, st3, s4) \<and>
    (\<forall>stream \<in> set separate_streams. system_volume_get stream st3 = DEFAULT_VOLUME)"
proof -
  let ?cmds = "map (\<lambda>n. Del_Prop (c_name n)) cleared_names"
  obtain U' P' Q' where f: "fold prop_spec ?cmds (U, P, Q) = (U', P', Q')" by (cases "fold prop_spec ?cmds (U, P, Q)") auto
  note d = deleted_state [OF f cleared_names_plain]
  obtain s1 where s1: "run_steps (prop_step stg env 0) ?cmds s = Some s1" "props_hold ok cells R F s1 U P' Q'"
    using props_refine [OF h(2), of R F s "(U, P, Q)" ?cmds 0] h(1) fit f d by auto
  let ?M = "F ++ R ++ flushed U P'"
  have none: "?M (c_name name) = None" if "name \<in> set cleared_names" for name
    using d fac that by (auto simp: map_add_def)
  have "short_values ?M" by (rule short_values_none) (use none in blast)
  then obtain s2 s3 s4 where s2: "property_flush stg env None s1 = Some s2" "power_on stg (nc_nv (pr_nv s2)) = Some s3"
      "aduio_system_init stg env st s3 = Some (0, loaded st ?M, s4)"
    using restart_loads [OF s1(2), of env st] by blast
  have "system_volume_get stream (loaded st ?M) = DEFAULT_VOLUME" if "stream \<in> set separate_streams" for stream
  proof -
    have mem: "stream_property stream \<in> set cleared_names"
      by (insert that, cases stream) (simp_all add: separate_streams_def cleared_names_def)
    have "config_value st (?M (c_name (stream_property stream))) = 5"
      unfolding none [OF mem] by (simp add: config_value_def DEFAULT_VOLUME_def)
    then show ?thesis
      using loaded_stream_volume [OF that, where st = st and val = "\<lambda>name. config_value st (?M (c_name name))" and a = zero_audio_system]
      by (simp add: system_volume_get_def DEFAULT_VOLUME_def)
  qed
  then show ?thesis using delete_all_run [OF s1(1)] s2 unfolding audio_system_clear_volume_def by blast
qed

end

end
