(* ===== verification/Transcode.thy ===== *)
theory Transcode
  imports Prelude "HOL-Library.Monad_Syntax"
begin

text \<open>Text in UTF-8 and in 16-bit units (\<open>src/ext/actions/base/utils/transcode/transcode.c\<close>): the decoder, the
  encoder, and the loop over a text. The functions for GBK, which convert by the tables of the file system, are not
  modelled.\<close>

unbundle bit_operations_syntax

section \<open>From UTF-8\<close>

text \<open>The loop of \<open>utf8_to_unicode\<close> over the remaining bytes: the units written, and whether it came to the end of
  the text. It never reads beyond the length it is given.\<close>

fun utf8_units :: "bytes \<Rightarrow> u16 list \<times> bool" where
  "utf8_units [] = ([], True)"
| "utf8_units (c0 # r) =
     (if c0 < 0x80 then (let (us, ok) = utf8_units r in (ucast c0 # us, ok))
      else if c0 AND 0xc0 = 0x80 then ([], False)
      else (case r of [] \<Rightarrow> ([], False)
        | c1 # r1 \<Rightarrow>
            if c1 AND 0xc0 \<noteq> 0x80 then ([], False)
            else let scalar = push_bit 6 (ucast c0 :: u32) OR (ucast c1 AND 0x3f) in
              if c0 AND 0x20 = 0
              then (if scalar \<noteq> 0 \<and> scalar < 0x80 then ([], False)
                    else let (us, ok) = utf8_units r1 in ((ucast scalar AND 0x7ff) # us, ok))
              else (case r1 of [] \<Rightarrow> ([], False)
                | c2 # r2 \<Rightarrow>
                    if c2 AND 0xc0 \<noteq> 0x80 then ([], False)
                    else let scalar = push_bit 6 scalar OR (ucast c2 AND 0x3f) in
                      if c0 AND 0x10 = 0
                      then (if scalar < 0x800 then ([], False)
                            else if 0xd800 \<le> scalar \<and> scalar < 0xe000 then ([], False)
                            else let (us, ok) = utf8_units r2 in (ucast (scalar AND 0xffff) # us, ok))
                      else ([], False))))"

text \<open>The result, the units written and the length that is reported in bytes, which stays as it is after an error. A
  null pointer is \<open>None\<close> or \<open>False\<close>.\<close>

definition utf8_to_unicode :: "bytes option \<Rightarrow> bool \<Rightarrow> int option \<Rightarrow> int \<times> u16 list \<times> int option" where
  "utf8_to_unicode utf8 unicode punicode_len =
     (if \<not> unicode \<or> utf8 = None \<or> punicode_len = None then (- 1, [], punicode_len)
      else let (us, ok) = utf8_units (the utf8)
           in if ok then (0, us, Some (2 * int (length us))) else (- 1, us, punicode_len))"

section \<open>To UTF-8\<close>

definition encode_utf8 :: "u16 \<Rightarrow> bytes" where
  "encode_utf8 w =
     (if w AND 0xF800 > 0
      then [ucast (0xE0 OR drop_bit 12 w), ucast (0x80 OR (drop_bit 6 w AND 0x3F)), ucast (0x80 OR (w AND 0x3F))]
      else if w AND 0xFF80 > 0 then [ucast (0xC0 OR drop_bit 6 w), ucast (0x80 OR (w AND 0x3F))]
      else [ucast w])"

text \<open>Bytes stored at an offset of an object; outside of it, \<open>None\<close>.\<close>

definition store_at :: "nat \<Rightarrow> bytes \<Rightarrow> bytes \<Rightarrow> bytes option" where
  "store_at off bs buf = (if off + length bs \<le> length buf then Some (take off buf @ bs @ drop (off + length bs) buf) else None)"

text \<open>The loop of \<open>unicode_to_utf8\<close>: the encoding of a unit is stored before the size is compared. The length of the
  text is counted down by two and compared with zero.\<close>

fun utf8_loop :: "u16 list \<Rightarrow> int \<Rightarrow> int \<Rightarrow> nat \<Rightarrow> bytes \<Rightarrow> (bool \<times> nat \<times> bytes) option" where
  "utf8_loop unicode unicode_len buffersize utf8Total buf =
     (if unicode_len = 0 then Some (True, utf8Total, buf)
      else case unicode of [] \<Rightarrow> None
        | u # us \<Rightarrow>
            if u = 0 then Some (True, utf8Total, buf)
            else do {
              let bs = encode_utf8 u;
              buf \<leftarrow> store_at utf8Total bs buf;
              if int (utf8Total + length bs) > buffersize then Some (False, utf8Total, buf)
              else utf8_loop us (unicode_len - 2) buffersize (utf8Total + length bs) buf })"

declare utf8_loop.simps [simp del]

definition unicode_to_utf8 ::
    "u16 list option \<Rightarrow> int \<Rightarrow> bytes option \<Rightarrow> int option \<Rightarrow> (int \<times> bytes option \<times> int option) option" where
  "unicode_to_utf8 unicode unicode_len utf8 putf8_len =
     (if unicode = None \<or> utf8 = None \<or> putf8_len = None then Some (- 1, utf8, putf8_len)
      else do {
        (ok, total, buf) \<leftarrow> utf8_loop (the unicode) unicode_len (the putf8_len) 0 (the utf8);
        if \<not> ok then Some (- 1, Some buf, putf8_len)
        else do {
          buf \<leftarrow> store_at total [0] buf;
          Some (1, Some buf, Some (int total)) } })"

section \<open>One unit\<close>

text \<open>Bytes and units bit by bit. The decoder tells the kinds of bytes apart by their upper bits.\<close>

lemma bit_le_word:
  assumes "bit x n"
  shows "2 ^ n \<le> unat (x :: 'a :: len word)"
proof (rule ccontr)
  assume "\<not> 2 ^ n \<le> unat x"
  then have "unat x div 2 ^ n = 0" by simp
  then have "\<not> bit (unat x) n" by (simp add: bit_iff_odd)
  then show False using assms by (simp add: bit_unsigned_iff)
qed

lemma byte_kinds:
  "c < 0x80 \<longleftrightarrow> \<not> bit c 7" "c AND 0xc0 = 0x80 \<longleftrightarrow> bit c 7 \<and> \<not> bit c 6" "c AND 0x20 = 0 \<longleftrightarrow> \<not> bit c 5"
  "c AND 0x10 = 0 \<longleftrightarrow> \<not> bit (c :: u8) 4"
proof -
  show "c < 0x80 \<longleftrightarrow> \<not> bit c 7"
  proof
    assume "\<not> bit c 7"
    then have "take_bit 7 c = c" by (simp add: u8_bits bit_simps)
    then have "unat c = take_bit 7 (unat c)" by (metis unsigned_take_bit_eq)
    then have "unat c < 128" using take_bit_nat_less_exp [of 7 "unat c"] by simp
    then show "c < 0x80" by (simp add: word_less_nat_alt)
  qed (use bit_le_word [of c 7] in \<open>auto simp: word_less_nat_alt\<close>)
qed (auto simp: u8_bits bit_simps)

lemma unit_kinds:
  "w AND 0xF800 > (0 :: u16) \<longleftrightarrow> bit w 11 \<or> bit w 12 \<or> bit w 13 \<or> bit w 14 \<or> bit w 15"
  "w AND 0xFF80 > (0 :: u16) \<longleftrightarrow> bit w 7 \<or> bit w 8 \<or> bit w 9 \<or> bit w 10 \<or> bit w 11 \<or> bit w 12 \<or> bit w 13 \<or> bit w 14 \<or> bit w 15"
  by (auto simp: word_gt_0 u16_bits bit_simps)

text \<open>The checks for a code that is longer than necessary and for surrogates never refuse anything, since the
  upper bits of the first byte are still part of the number compared.\<close>

lemma scalar_checks:
  assumes "bit c0 7"
  shows "\<not> push_bit 6 (ucast (c0 :: u8) :: u32) OR x < 0x80" "\<not> push_bit 6 (push_bit 6 (ucast c0 :: u32) OR x) OR y < 0xe000"
proof -
  have "bit (push_bit 6 (ucast c0 :: u32) OR x) 13" "bit (push_bit 6 (push_bit 6 (ucast c0 :: u32) OR x) OR y) 19"
    using assms by (simp_all add: bit_simps)
  from this [THEN bit_le_word] show "\<not> push_bit 6 (ucast c0 :: u32) OR x < 0x80" "\<not> push_bit 6 (push_bit 6 (ucast c0 :: u32) OR x) OR y < 0xe000"
    by (simp_all add: word_less_nat_alt)
qed

lemma decode_two:
  assumes "bit c0 7" "bit c0 6" "\<not> bit c0 5" "bit c1 7" "\<not> bit c1 6"
  shows "utf8_units (c0 # c1 # r) =
    ((ucast (push_bit 6 (ucast c0 :: u32) OR (ucast c1 AND 0x3f)) AND 0x7ff) # fst (utf8_units r), snd (utf8_units r))"
  using assms scalar_checks(1) [OF assms(1)] by (simp add: byte_kinds Let_def split: prod.split)

lemma decode_three:
  assumes "bit c0 7" "bit c0 6" "bit c0 5" "\<not> bit c0 4" "bit c1 7" "\<not> bit c1 6" "bit c2 7" "\<not> bit c2 6"
  shows "utf8_units (c0 # c1 # c2 # r) =
    (ucast ((push_bit 6 (push_bit 6 (ucast c0 :: u32) OR (ucast c1 AND 0x3f)) OR (ucast c2 AND 0x3f)) AND 0xffff) # fst (utf8_units r),
     snd (utf8_units r))"
proof -
  let ?s = "push_bit 6 (push_bit 6 (ucast c0 :: u32) OR (ucast c1 AND 0x3f)) OR (ucast c2 AND 0x3f)"
  have "\<not> ?s < 0xe000" by (rule scalar_checks(2) [OF assms(1)])
  moreover from this have "\<not> ?s < 0x800" by (simp add: word_less_nat_alt)
  ultimately show ?thesis using assms by (simp add: byte_kinds Let_def split: prod.split)
qed

section \<open>Texts as sequences of characters\<close>

text \<open>A character of the encoding in one, two or three bytes, and the number it stands for.\<close>

fun utf8_char :: "bytes \<Rightarrow> bool" where
  "utf8_char [a] \<longleftrightarrow> unat a < 128"
| "utf8_char [a, b] \<longleftrightarrow> unat a div 32 = 6 \<and> unat b div 64 = 2"
| "utf8_char [a, b, c] \<longleftrightarrow> unat a div 16 = 14 \<and> unat b div 64 = 2 \<and> unat c div 64 = 2"
| "utf8_char _ \<longleftrightarrow> False"

fun char_unit :: "bytes \<Rightarrow> nat" where
  "char_unit [a] = unat a"
| "char_unit [a, b] = (unat a mod 32) * 64 + unat b mod 64"
| "char_unit [a, b, c] = (unat a mod 16) * 4096 + (unat b mod 64) * 64 + unat c mod 64"
| "char_unit _ = 0"

lemma bits_div:
  "unat (c :: u8) < 128 \<longleftrightarrow> \<not> bit c 7" "unat c div 64 = 2 \<longleftrightarrow> bit c 7 \<and> \<not> bit c 6"
  "unat c div 32 = 6 \<longleftrightarrow> bit c 7 \<and> bit c 6 \<and> \<not> bit c 5" "unat c div 16 = 14 \<longleftrightarrow> bit c 7 \<and> bit c 6 \<and> bit c 5 \<and> \<not> bit c 4"
proof -
  show "unat c < 128 \<longleftrightarrow> \<not> bit c 7" using byte_kinds(1) [of c] by (simp add: word_less_nat_alt)
  have d: "unat (drop_bit n c) = unat c div 2 ^ n" for n
    unfolding unsigned_drop_bit_eq using unsigned_less [of c, where 'a = nat] by (simp add: drop_bit_eq_div take_bit_nat_eq_self)
  have "unat c div 64 = 2 \<longleftrightarrow> drop_bit 6 c = 2" using d [of 6] by (simp add: word_unat_eq_iff)
  also have "\<dots> \<longleftrightarrow> bit c 7 \<and> \<not> bit c 6" by (auto simp: u8_bits bit_simps dest: bit_imp_le_length)
  finally show "unat c div 64 = 2 \<longleftrightarrow> bit c 7 \<and> \<not> bit c 6" .
  have "unat c div 32 = 6 \<longleftrightarrow> drop_bit 5 c = 6" using d [of 5] by (simp add: word_unat_eq_iff)
  also have "\<dots> \<longleftrightarrow> bit c 7 \<and> bit c 6 \<and> \<not> bit c 5" by (auto simp: u8_bits bit_simps dest: bit_imp_le_length)
  finally show "unat c div 32 = 6 \<longleftrightarrow> bit c 7 \<and> bit c 6 \<and> \<not> bit c 5" .
  have "unat c div 16 = 14 \<longleftrightarrow> drop_bit 4 c = 14" using d [of 4] by (simp add: word_unat_eq_iff)
  also have "\<dots> \<longleftrightarrow> bit c 7 \<and> bit c 6 \<and> bit c 5 \<and> \<not> bit c 4" by (auto simp: u8_bits bit_simps dest: bit_imp_le_length)
  finally show "unat c div 16 = 14 \<longleftrightarrow> bit c 7 \<and> bit c 6 \<and> bit c 5 \<and> \<not> bit c 4" .
qed

lemma shift_add: "(a :: nat) * 2 ^ n + b mod 2 ^ n = push_bit n a OR take_bit n b"
  unfolding push_bit_eq_mult [symmetric] take_bit_eq_mod [symmetric]
  by (rule disjunctive_add_eq_or) (auto simp: bit_eq_iff bit_simps)

lemma unit_two: "(word_of_nat (char_unit [a, b]) :: u16) = ucast (push_bit 6 (ucast a :: u32) OR (ucast b AND 0x3f)) AND 0x7ff"
proof -
  have "char_unit [a, b] = push_bit 6 (take_bit 5 (unat a)) OR take_bit 6 (unat b)"
    using shift_add [of "unat a mod 32" 6 "unat b"] by (simp add: take_bit_eq_mod)
  then show ?thesis by (simp only:) (simp add: u16_bits bit_simps)
qed

lemma unit_three: "(word_of_nat (char_unit [a, b, c]) :: u16) =
    ucast ((push_bit 6 (push_bit 6 (ucast a :: u32) OR (ucast b AND 0x3f)) OR (ucast c AND 0x3f)) AND 0xffff)"
proof -
  have "char_unit [a, b, c] = push_bit 6 (push_bit 6 (take_bit 4 (unat a)) OR take_bit 6 (unat b)) OR take_bit 6 (unat c)"
    using shift_add [of "unat a mod 16" 6 "unat b"] shift_add [of "unat a mod 16 * 64 + unat b mod 64" 6 "unat c"] by (simp add: take_bit_eq_mod)
  then show ?thesis by (simp only:) (simp add: u16_bits bit_simps)
qed

lemma decode_char:
  assumes "utf8_char c"
  shows "utf8_units (c @ r) = (word_of_nat (char_unit c) # fst (utf8_units r), snd (utf8_units r))"
proof -
  consider a where "c = [a]" | a b where "c = [a, b]" | a b d where "c = [a, b, d]"
    using assms by (cases c rule: utf8_char.cases) auto
  then show ?thesis
  proof cases
    case (1 a)
    then show ?thesis using assms by (simp add: bits_div byte_kinds split: prod.split)
  next
    case (2 a b)
    then have "bit a 7" "bit a 6" "\<not> bit a 5" "bit b 7" "\<not> bit b 6" using assms by (simp_all add: bits_div)
    then show ?thesis using decode_two [of a b r] unit_two [of a b] 2 by (simp del: char_unit.simps utf8_units.simps)
  next
    case (3 a b d)
    then have "bit a 7" "bit a 6" "bit a 5" "\<not> bit a 4" "bit b 7" "\<not> bit b 6" "bit d 7" "\<not> bit d 6" using assms by (simp_all add: bits_div)
    then show ?thesis using decode_three [of a b d r] unit_three [of a b d] 3 by (simp del: char_unit.simps utf8_units.simps)
  qed
qed

lemma decode_chars: "list_all utf8_char cs \<Longrightarrow> utf8_units (concat cs) = (map (word_of_nat \<circ> char_unit) cs, True)"
  by (induction cs) (simp_all add: decode_char del: utf8_units.simps(2))

text \<open>Conversely, whatever the decoder reads to its end is a sequence of characters.\<close>

lemma decoded_front:
  assumes "snd (utf8_units bs)" "bs \<noteq> []"
  shows "\<exists>c r. bs = c @ r \<and> utf8_char c \<and> c \<noteq> [] \<and> snd (utf8_units r)"
proof -
  obtain a r where bs: "bs = a # r" using assms(2) by (cases bs) auto
  show ?thesis
  proof (cases "bit a 7")
    case False
    then show ?thesis using assms(1) bs by (intro exI [of _ "[a]"] exI [of _ r]) (simp add: byte_kinds bits_div split: prod.splits)
  next
    case a7: True
    then obtain b r1 where r: "r = b # r1" "bit a 6" "bit b 7" "\<not> bit b 6"
      using assms(1) bs by (cases r) (auto simp: byte_kinds split: if_splits)
    show ?thesis
    proof (cases "bit a 5")
      case False
      then have "utf8_char [a, b]" "snd (utf8_units r1)" using decode_two [of a b r1] a7 r assms(1) bs by (simp_all add: bits_div del: utf8_units.simps)
      then show ?thesis using bs r by (intro exI [of _ "[a, b]"] exI [of _ r1]) simp
    next
      case a5: True
      then obtain d r2 where r1: "r1 = d # r2" "\<not> bit a 4" "bit d 7" "\<not> bit d 6"
        using assms(1) a7 r bs by (cases r1) (auto simp: byte_kinds Let_def split: if_splits)
      then have "utf8_char [a, b, d]" "snd (utf8_units r2)"
        using decode_three [of a b d r2] a5 a7 r assms(1) bs by (simp_all add: bits_div del: utf8_units.simps)
      then show ?thesis using bs r r1 by (intro exI [of _ "[a, b, d]"] exI [of _ r2]) simp
    qed
  qed
qed

lemma decoded_chars: "snd (utf8_units bs) \<Longrightarrow> \<exists>cs. bs = concat cs \<and> list_all utf8_char cs"
proof (induction bs rule: length_induct)
  case (1 bs)
  show ?case
  proof (cases "bs = []")
    case True
    then show ?thesis by (intro exI [of _ "[]"]) simp
  next
    case False
    then obtain c r where c: "bs = c @ r" "utf8_char c" "c \<noteq> []" "snd (utf8_units r)" using decoded_front 1(2) by blast
    then obtain cs where "r = concat cs" "list_all utf8_char cs" using 1(1) by (metis length_append length_greater_0_conv less_add_same_cancel2)
    then show ?thesis using c by (intro exI [of _ "c # cs"]) simp
  qed
qed

lemma encode_char: "utf8_char (encode_utf8 w)" "word_of_nat (char_unit (encode_utf8 w)) = w"
proof -
  consider (3) "w AND 0xF800 > 0" | (2) "\<not> w AND 0xF800 > 0" "w AND 0xFF80 > 0" | (1) "\<not> w AND 0xF800 > 0" "\<not> w AND 0xFF80 > 0" by blast
  then show "utf8_char (encode_utf8 w)"
    by cases (auto simp: encode_utf8_def bits_div unit_kinds bit_simps dest: bit_imp_le_length)
  show "word_of_nat (char_unit (encode_utf8 w)) = w"
  proof (cases "w AND 0xF800 > 0")
    case True
    then show ?thesis by (simp add: encode_utf8_def unit_three del: char_unit.simps) (simp add: u16_bits bit_simps)
  next
    case False
    then show ?thesis
      by (cases "w AND 0xFF80 > 0") (simp_all add: encode_utf8_def unit_two del: char_unit.simps(2), simp_all add: unit_kinds u16_bits bit_simps)
  qed
qed

lemma decode_encoded: "utf8_units (concat (map encode_utf8 us)) = (us, True)"
  using decode_chars [of "map encode_utf8 us"] by (simp add: encode_char comp_def list_all_length)

section \<open>The loop of the encoder\<close>

abbreviation utf8_text :: "u16 list \<Rightarrow> bytes" where
  "utf8_text us \<equiv> concat (map encode_utf8 us)"

lemma store_at_front:
  assumes "off = length p" "length bs \<le> length q"
  shows "store_at off bs (p @ q) = Some (p @ bs @ drop (length bs) q)"
  using assms by (simp add: store_at_def)

lemma utf8_loop_fits:
  assumes "0 \<notin> set us" "int (length p + length (utf8_text us)) \<le> bs" "length (utf8_text us) \<le> length q"
  shows "utf8_loop (us @ rest) (2 * int (length us)) bs (length p) (p @ q) =
    Some (True, length p + length (utf8_text us), p @ utf8_text us @ drop (length (utf8_text us)) q)"
  using assms
proof (induction us arbitrary: p q)
  case Nil
  then show ?case by (simp add: utf8_loop.simps)
next
  case (Cons u us)
  let ?e = "encode_utf8 u"
  have st: "store_at (length p) ?e (p @ q) = Some ((p @ ?e) @ drop (length ?e) q)" using Cons.prems(3) by (simp add: store_at_front)
  have "utf8_loop ((u # us) @ rest) (2 * int (length (u # us))) bs (length p) (p @ q) =
      utf8_loop (us @ rest) (2 * int (length us)) bs (length (p @ ?e)) ((p @ ?e) @ drop (length ?e) q)"
    using Cons.prems st by (subst utf8_loop.simps) (simp add: Let_def)
  also have "\<dots> = Some (True, length (p @ ?e) + length (utf8_text us), (p @ ?e) @ utf8_text us @ drop (length (utf8_text us)) (drop (length ?e) q))"
    using Cons.prems by (intro Cons.IH) auto
  finally show ?case by (simp add: add.commute)
qed

section \<open>Properties\<close>

text \<open>(C30) A text without NULs goes to UTF-8 and back unchanged. If the size given is that of the encoding at least, and the
  buffer has a place for a NUL behind it, the encoder succeeds and stores the encoding, a NUL and nothing else, with its
  length; and the decoder gives back the same units.\<close>

theorem utf8_round_trip:
  assumes "0 \<notin> set us" "int (length (utf8_text us)) \<le> sz" "length (utf8_text us) < length buf"
  shows "unicode_to_utf8 (Some (us @ rest)) (2 * int (length us)) (Some buf) (Some sz) =
      Some (1, Some (utf8_text us @ 0 # drop (length (utf8_text us) + 1) buf), Some (int (length (utf8_text us)))) \<and>
    utf8_to_unicode (Some (utf8_text us)) True (Some n) = (0, us, Some (2 * int (length us)))"
proof -
  let ?t = "utf8_text us"
  have "store_at (length ?t) [0] (?t @ drop (length ?t) buf) = Some (?t @ 0 # drop (length ?t + 1) buf)"
    using assms(3) by (simp add: store_at_front Suc_le_eq add.commute)
  then show ?thesis
    using utf8_loop_fits [of us "[]" sz buf rest] assms by (simp add: unicode_to_utf8_def utf8_to_unicode_def decode_encoded)
qed

theorem utf8_round_trip_witness:
  "unicode_to_utf8 (Some ([0x41, 0xE9, 0x4F60] @ [])) 6 (Some (replicate 8 0xFF)) (Some 7) =
     Some (1, Some [0x41, 0xC3, 0xA9, 0xE4, 0xBD, 0xA0, 0, 0xFF], Some 6) \<and>
   utf8_to_unicode (Some [0x41, 0xC3, 0xA9, 0xE4, 0xBD, 0xA0]) True (Some 0) = (0, [0x41, 0xE9, 0x4F60], Some 6)"
proof -
  have t: "utf8_text [0x41, 0xE9, 0x4F60] = [0x41, 0xC3, 0xA9, 0xE4, 0xBD, 0xA0]" by code_simp
  have b: "[0x41, 0xC3, 0xA9, 0xE4, 0xBD, 0xA0] @ 0 # drop 7 (replicate 8 0xFF) = ([0x41, 0xC3, 0xA9, 0xE4, 0xBD, 0xA0, 0, 0xFF] :: bytes)"
    by code_simp
  show ?thesis using utf8_round_trip [of "[0x41, 0xE9, 0x4F60]" 7 "replicate 8 0xFF" "[]" 0] unfolding t by (simp add: b)
qed

text \<open>(C31) The decoder succeeds exactly for sequences of well-formed one-, two- and three-byte characters, and gives their
  numbers; otherwise it fails and leaves the length alone. Codes that are longer than necessary and the codes of surrogates
  are among the characters it accepts, although it has checks that are meant to refuse them.\<close>

theorem utf8_to_unicode_accepts:
  "(case utf8_to_unicode (Some bs) True (Some n) of (ret, us, len) \<Rightarrow>
      (ret = 0 \<and> len = Some (2 * int (length us)) \<and>
        (\<exists>cs. bs = concat cs \<and> list_all utf8_char cs \<and> us = map (word_of_nat \<circ> char_unit) cs)) \<or>
      (ret = - 1 \<and> len = Some n \<and> (\<nexists>cs. bs = concat cs \<and> list_all utf8_char cs))) \<and>
   utf8_to_unicode (Some [0xC1, 0x81]) True (Some n) = (0, [0x41], Some 2) \<and>
   utf8_to_unicode (Some [0xED, 0xA0, 0x80]) True (Some n) = (0, [0xD800], Some 2)"
proof -
  obtain us ok where d: "utf8_units bs = (us, ok)" by (cases "utf8_units bs")
  have "utf8_units [0xC1, 0x81] = ([0x41], True)" "utf8_units [0xED, 0xA0, 0x80] = ([0xD800], True)" by code_simp+
  moreover have "ok \<Longrightarrow> \<exists>cs. bs = concat cs \<and> list_all utf8_char cs \<and> us = map (word_of_nat \<circ> char_unit) cs"
    using decoded_chars [of bs] d decode_chars by fastforce
  moreover have "\<nexists>cs. bs = concat cs \<and> list_all utf8_char cs" if "\<not> ok" using decode_chars d that by fastforce
  ultimately show ?thesis using d by (cases ok) (simp_all add: utf8_to_unicode_def del: utf8_units.simps)
qed

text \<open>The NUL goes behind the size that was given if the encoding fills it, and so does a character that does not fit.\<close>

lemma unicode_to_utf8_overruns:
  "unicode_to_utf8 (Some [0x41, 0x42]) 4 (Some [0, 0]) (Some 2) = None" "unicode_to_utf8 (Some [0x4F60]) 2 (Some [0]) (Some 1) = None"
  by code_simp+

end
