(* ===== verification/Ws2812.thy ===== *)
theory Ws2812
  imports Prelude
begin

text \<open>The driver of the ambient light (\<open>src/samples/bt_speaker/src/btmusic/btmusic_ws2812.c\<close>), configured with the first strip
  as ambient light and without the second: a strip of WS2812 lamps on one pin, which read each bit from the length of a
  pulse. Accesses to the pin, delays and interrupt locks are a log of events in the order in which they happen.\<close>

unbundle bit_operations_syntax

section \<open>State\<close>

text \<open>A delay of \<open>NOP\<close> instructions is an event with their number.\<close>

datatype led_event =
    Pin_High u32 | Pin_Low u32 | Pin_Ctl u32 u32 | Nops u32 | Irq_Lock | Irq_Unlock | Busy_Wait u32 | Timer_Init | Timer_Start nat nat

record ws2812_timing =
  tm_t0h :: u32
  tm_t0l :: u32
  tm_t1h :: u32
  tm_t1l :: u32

text \<open>The globals of the file, the log, and the numbers of readings of the cycle counter and of the control register.\<close>

record ws2812 =
  ws2812_inited :: bool
  ws2812_show_cnt :: u32
  ws2812_nop_per_cycle :: u32
  ws2812_nops :: ws2812_timing
  ws2812_grb :: bytes
  ambient_mode :: nat
  led_log :: "led_event list"
  cycle_reads :: nat
  ctl_reads :: nat

text \<open>What the hardware answers: the n-th reading of the cycle counter and of the control register of the pin.\<close>

record led_env =
  k_cycle_get_32 :: "nat \<Rightarrow> u32"
  gpio_ctl :: "nat \<Rightarrow> u32"

definition WS2812_LED_COUNT :: nat where "WS2812_LED_COUNT = 25"
definition WS2812_GPIO_PIN :: u32 where "WS2812_GPIO_PIN = 8"
definition WS2812_RESET_US :: u32 where "WS2812_RESET_US = 500"
definition WS2812_GRB_SIZE :: nat where "WS2812_GRB_SIZE = WS2812_LED_COUNT * 3 + 3"

definition emit :: "led_event \<Rightarrow> ws2812 \<Rightarrow> ws2812" where
  "emit e st = st\<lparr>led_log := led_log st @ [e]\<rparr>"

section \<open>Timing\<close>

definition WS2812_NS_TO_CYCLES :: "u64 \<Rightarrow> u32" where
  "WS2812_NS_TO_CYCLES ns = ucast (24000000 * ns div 1000000000)"

definition ws2812_measure_nops :: "led_env \<Rightarrow> u32 \<Rightarrow> ws2812 \<Rightarrow> u32 \<times> ws2812" where
  "ws2812_measure_nops env n st =
     (k_cycle_get_32 env (cycle_reads st + 1) - k_cycle_get_32 env (cycle_reads st),
      emit (Nops n) (st\<lparr>cycle_reads := cycle_reads st + 2\<rparr>))"

definition ws2812_cycles_to_nops :: "u32 \<Rightarrow> u32 \<Rightarrow> u32" where
  "ws2812_cycles_to_nops nop_per_cycle cycles =
     (if cycles = 0 \<or> nop_per_cycle = 0 then 0
      else let n = (cycles + nop_per_cycle - 1) div nop_per_cycle in if n \<noteq> 0 then n else 1)"

definition nops_for :: "u32 \<Rightarrow> ws2812_timing" where
  "nops_for p =
     (let t0h = ws2812_cycles_to_nops p (WS2812_NS_TO_CYCLES 300);
          t1h = ws2812_cycles_to_nops p (WS2812_NS_TO_CYCLES 900);
          t0l = ws2812_cycles_to_nops p (WS2812_NS_TO_CYCLES 900);
          t1l = ws2812_cycles_to_nops p (WS2812_NS_TO_CYCLES 300);
          t0h = (if t0h > 1 then t0h - 1 else t0h);
          t1h = (if t1h > 2 then t1h - 2 else t1h);
          t0l = (if t0l < t0h then t0h else t0l);
          t1l = (if t1l < t1h then t1h else t1l)
      in \<lparr>tm_t0h = t0h, tm_t0l = t0l, tm_t1h = t1h, tm_t1l = t1l\<rparr>)"

text \<open>The cycles of the counter per \<open>NOP\<close>, from the measured times of 100 and of 200 of them; at least one.\<close>

definition nop_cycles :: "u32 \<Rightarrow> u32 \<Rightarrow> u32" where
  "nop_cycles c100 c200 = (let p = (if c200 > c100 then (c200 - c100) div 100 else 1) in if p = 0 then 1 else p)"

definition ws2812_refresh_timing :: "led_env \<Rightarrow> ws2812 \<Rightarrow> ws2812" where
  "ws2812_refresh_timing env st =
     (let (c100, st) = ws2812_measure_nops env 100 st;
          (c200, st) = ws2812_measure_nops env 200 st;
          p = nop_cycles c100 c200
      in st\<lparr>ws2812_nop_per_cycle := p, ws2812_nops := nops_for p\<rparr>)"

definition ws2812_calibrate :: "led_env \<Rightarrow> ws2812 \<Rightarrow> ws2812" where
  "ws2812_calibrate env st = ws2812_refresh_timing env (emit (Busy_Wait 2000) st)"

section \<open>Sending\<close>

definition ws2812_gpio_set_pin :: "u32 \<Rightarrow> bool \<Rightarrow> ws2812 \<Rightarrow> ws2812" where
  "ws2812_gpio_set_pin pin high st = emit (if high then Pin_High pin else Pin_Low pin) st"

text \<open>The control word of the board: GPIO function, output, Schmitt trigger, drive level 4.\<close>

definition BOARD_285L2_WS2812_PIN_CTL :: u32 where
  "BOARD_285L2_WS2812_PIN_CTL = 0 OR push_bit 6 1 OR push_bit 5 1 OR push_bit 12 4"

definition ws2812_gpio_init_pin :: "u32 \<Rightarrow> ws2812 \<Rightarrow> ws2812" where
  "ws2812_gpio_init_pin pin st = ws2812_gpio_set_pin pin False (emit (Pin_Ctl pin BOARD_285L2_WS2812_PIN_CTL) st)"

definition ws2812_gpio_ensure_pin :: "led_env \<Rightarrow> u32 \<Rightarrow> ws2812 \<Rightarrow> ws2812" where
  "ws2812_gpio_ensure_pin env pin st =
     (let ctl = gpio_ctl env (ctl_reads st); st = st\<lparr>ctl_reads := ctl_reads st + 1\<rparr>
      in if ctl AND 0xf \<noteq> 0 then ws2812_gpio_init_pin pin st else st)"

text \<open>The bits below \<open>n\<close> of a byte, highest first.\<close>

primrec flush_bits :: "u32 \<Rightarrow> ws2812_timing \<Rightarrow> u8 \<Rightarrow> nat \<Rightarrow> led_event list" where
  "flush_bits pin tm val 0 = []"
| "flush_bits pin tm val (Suc b) =
     (if val AND push_bit b 1 \<noteq> 0
      then [Pin_High pin, Nops (tm_t1h tm), Pin_Low pin, Nops (tm_t1l tm)]
      else [Pin_High pin, Nops (tm_t0h tm), Pin_Low pin, Nops (tm_t0l tm)]) @ flush_bits pin tm val b"

definition ws2812_flush_buf :: "u32 \<Rightarrow> bytes \<Rightarrow> ws2812_timing \<Rightarrow> ws2812 \<Rightarrow> ws2812" where
  "ws2812_flush_buf pin grb tm st = st\<lparr>led_log := led_log st @ concat (map (\<lambda>val. flush_bits pin tm val 8) grb) @ [Pin_Low pin]\<rparr>"

definition ws2812_flush_pin :: "led_env \<Rightarrow> u32 \<Rightarrow> bytes \<Rightarrow> u32 \<Rightarrow> ws2812_timing option \<Rightarrow> ws2812 \<Rightarrow> ws2812" where
  "ws2812_flush_pin env pin grb reset_us tm st =
     (let st = ws2812_refresh_timing env st;
          tm = (case tm of None \<Rightarrow> ws2812_nops st | Some tm \<Rightarrow> tm);
          st = ws2812_gpio_ensure_pin env pin st;
          st = emit Irq_Lock st;
          st = ws2812_flush_buf pin grb tm st;
          st = emit Irq_Unlock st;
          st = ws2812_gpio_set_pin pin False st;
          st = emit (Busy_Wait reset_us) st
      in st\<lparr>ws2812_show_cnt := ws2812_show_cnt st + 1\<rparr>)"

definition ws2812_flush :: "led_env \<Rightarrow> ws2812 \<Rightarrow> ws2812" where
  "ws2812_flush env st = ws2812_flush_pin env WS2812_GPIO_PIN (ws2812_grb st) WS2812_RESET_US None st"

section \<open>Operations\<close>

text \<open>One colour in all lamps. The bytes behind the last lamp are left as they are.\<close>

primrec fill_leds :: "nat \<Rightarrow> u8 \<Rightarrow> u8 \<Rightarrow> u8 \<Rightarrow> bytes \<Rightarrow> bytes" where
  "fill_leds 0 r g b grb = grb"
| "fill_leds (Suc i) r g b grb = (fill_leds i r g b grb)[i * 3 := g, i * 3 + 1 := r, i * 3 + 2 := b]"

definition show_colour :: "led_env \<Rightarrow> u8 \<Rightarrow> u8 \<Rightarrow> u8 \<Rightarrow> ws2812 \<Rightarrow> ws2812" where
  "show_colour env r g b st = ws2812_flush env (st\<lparr>ws2812_grb := fill_leds WS2812_LED_COUNT r g b (ws2812_grb st)\<rparr>)"

definition clear_leds :: "led_env \<Rightarrow> ws2812 \<Rightarrow> ws2812" where
  "clear_leds env st = ws2812_flush env (st\<lparr>ws2812_grb := replicate WS2812_GRB_SIZE 0\<rparr>)"

definition ambient_cycle_start :: "ws2812 \<Rightarrow> ws2812" where
  "ambient_cycle_start st = emit (Timer_Start 10000 10000) (emit Timer_Init st)"

text \<open>The call of \<open>btmusic_ws2812_ambient_set\<close> at the end finds the driver initialised.\<close>

definition btmusic_ws2812_init :: "led_env \<Rightarrow> ws2812 \<Rightarrow> ws2812" where
  "btmusic_ws2812_init env st =
     (if ws2812_inited st then st
      else let st = ws2812_gpio_init_pin WS2812_GPIO_PIN st;
               st = emit (Busy_Wait 500) st;
               st = ws2812_calibrate env st;
               st = clear_leds env st;
               st = st\<lparr>ws2812_inited := True, ws2812_show_cnt := 0\<rparr>;
               st = show_colour env 32 12 0 st
           in ambient_cycle_start st)"

definition btmusic_ws2812_ambient_set :: "led_env \<Rightarrow> u8 \<Rightarrow> u8 \<Rightarrow> u8 \<Rightarrow> ws2812 \<Rightarrow> ws2812" where
  "btmusic_ws2812_ambient_set env r g b st = show_colour env r g b (btmusic_ws2812_init env st)"

definition btmusic_ws2812_ambient_off :: "led_env \<Rightarrow> ws2812 \<Rightarrow> ws2812" where
  "btmusic_ws2812_ambient_off env st = btmusic_ws2812_ambient_set env 0 0 0 st"

definition ambient_modes :: "(u8 \<times> u8 \<times> u8) list" where
  "ambient_modes = [(80, 0, 0), (0, 80, 0), (0, 0, 80), (80, 60, 0), (80, 0, 80), (0, 80, 80), (40, 20, 0), (32, 12, 0)]"

text \<open>The callback reads the table at the current mode; outside of the table, \<open>None\<close>.\<close>

definition ambient_cycle_cb :: "led_env \<Rightarrow> ws2812 \<Rightarrow> ws2812 option" where
  "ambient_cycle_cb env st =
     (if ambient_mode st < length ambient_modes
      then let (r, g, b) = ambient_modes ! ambient_mode st;
               st = btmusic_ws2812_ambient_set env r g b st
           in Some (st\<lparr>ambient_mode := (ambient_mode st + 1) mod length ambient_modes\<rparr>)
      else None)"

definition btmusic_ws2812_deinit :: "led_env \<Rightarrow> ws2812 \<Rightarrow> ws2812" where
  "btmusic_ws2812_deinit env st = (if \<not> ws2812_inited st then st else (clear_leds env st)\<lparr>ws2812_inited := False\<rparr>)"

definition btmusic_ws2812_show_rgb :: "led_env \<Rightarrow> u8 \<Rightarrow> u8 \<Rightarrow> u8 \<Rightarrow> ws2812 \<Rightarrow> ws2812" where
  "btmusic_ws2812_show_rgb env r g b st =
     (let st = show_colour env r g b (btmusic_ws2812_init env st) in st\<lparr>ws2812_show_cnt := ws2812_show_cnt st + 1\<rparr>)"

definition btmusic_ws2812_show_grb :: "led_env \<Rightarrow> bytes option \<Rightarrow> ws2812 \<Rightarrow> ws2812" where
  "btmusic_ws2812_show_grb env grb st =
     (case grb of None \<Rightarrow> st
      | Some grb \<Rightarrow>
          if grb = [] then st
          else let st = btmusic_ws2812_init env st;
                   len = min (length grb) WS2812_GRB_SIZE;
                   st = ws2812_flush env (st\<lparr>ws2812_grb := take len grb @ replicate (WS2812_GRB_SIZE - len) 0\<rparr>)
               in st\<lparr>ws2812_show_cnt := ws2812_show_cnt st + 1\<rparr>)"

section \<open>What the lamps see\<close>

text \<open>The lengths of the pulses on the pin, and the bytes that a lamp reads from them when it takes a pulse longer than a
  threshold for a one. Bytes come with the highest bit first.\<close>

fun pulses :: "led_event list \<Rightarrow> u32 list" where
  "pulses (Pin_High p # Nops n # Pin_Low q # es) = n # pulses es"
| "pulses (e # es) = pulses es"
| "pulses [] = []"

fun bytes_of_bits :: "bool list \<Rightarrow> bytes" where
  "bytes_of_bits (a # b # c # d # e # f # g # h # bs) = horner_sum of_bool 2 [h, g, f, e, d, c, b, a] # bytes_of_bits bs"
| "bytes_of_bits _ = []"

definition seen :: "u32 \<Rightarrow> led_event list \<Rightarrow> bytes" where
  "seen thr es = bytes_of_bits (map (\<lambda>n. thr < n) (pulses es))"

lemma pulses_bits: "pulses (flush_bits pin tm val n @ es) = map (\<lambda>k. if bit val k then tm_t1h tm else tm_t0h tm) (rev [0..<n]) @ pulses es"
proof (induction n)
  case (Suc n)
  have "val AND push_bit n 1 \<noteq> 0 \<longleftrightarrow> bit val n" by (simp add: and_exp_eq_0_iff_not_bit push_bit_of_1)
  then show ?case using Suc by simp
qed simp

lemma byte_of_bits:
  "bytes_of_bits (map (bit val) (rev [0..<8]) @ bs) = (val :: u8) # bytes_of_bits bs"
proof -
  have "map (bit val) (rev [0..<8]) = [bit val 7, bit val 6, bit val 5, bit val 4, bit val 3, bit val 2, bit val 1, bit val 0]"
    by (simp add: upt_rec eval_nat_numeral)
  then show ?thesis by (simp add: u8_bits bit_simps bit_horner_sum_bit_word_iff del: horner_sum_simps)
qed

lemma seen_buf:
  assumes "tm_t0h tm \<le> thr" "thr < tm_t1h tm" "pulses es = []"
  shows "seen thr (concat (map (\<lambda>val. flush_bits pin tm val 8) grb) @ es) = grb"
proof (induction grb)
  case (Cons val grb)
  have "(\<lambda>n. thr < n) \<circ> (\<lambda>k. if bit val k then tm_t1h tm else tm_t0h tm) = bit val" using assms by (auto simp: fun_eq_iff)
  then show ?case using Cons by (simp add: seen_def pulses_bits byte_of_bits)
qed (simp add: seen_def assms)

text \<open>Pulses are told apart as long as a \<open>NOP\<close> takes fewer than seven cycles of the counter.\<close>

lemma nops_distinct:
  assumes "p \<noteq> 0" "p < 7"
  shows "tm_t0h (nops_for p) < tm_t1h (nops_for p)"
proof -
  have "0 < unat p" "unat p < 7" using assms by (simp_all add: word_less_nat_alt unat_gt_0)
  then have "unat p = 1 \<or> unat p = 2 \<or> unat p = 3 \<or> unat p = 4 \<or> unat p = 5 \<or> unat p = 6" by arith
  then have "p \<in> {1, 2, 3, 4, 5, 6}" by (simp add: word_unat_eq_iff)
  then show ?thesis by (elim insertE emptyE) (simp, code_simp)+
qed

section \<open>Frames and locks\<close>

text \<open>Interrupts are locked and unlocked in turns, and the pin goes high only while they are locked.\<close>

fun lock_state :: "bool \<Rightarrow> led_event list \<Rightarrow> bool option" where
  "lock_state l [] = Some l"
| "lock_state l (Irq_Lock # es) = (if l then None else lock_state True es)"
| "lock_state l (Irq_Unlock # es) = (if l then lock_state False es else None)"
| "lock_state l (Pin_High p # es) = (if l then lock_state l es else None)"
| "lock_state l (e # es) = lock_state l es"

fun pin_level :: "bool \<Rightarrow> led_event list \<Rightarrow> bool" where
  "pin_level v [] = v"
| "pin_level v (Pin_High p # es) = pin_level True es"
| "pin_level v (Pin_Low p # es) = pin_level False es"
| "pin_level v (e # es) = pin_level v es"

lemma lock_state_append: "lock_state l (es @ fs) = (case lock_state l es of None \<Rightarrow> None | Some l \<Rightarrow> lock_state l fs)"
  by (induction l es rule: lock_state.induct) auto

lemma pin_level_append: "pin_level v (es @ fs) = pin_level (pin_level v es) fs"
  by (induction v es rule: pin_level.induct) auto

lemma bits_locked: "lock_state True (flush_bits pin tm val n) = Some True"
  by (induction n) simp_all

lemma buf_locked: "lock_state True (concat (map (\<lambda>val. flush_bits pin tm val 8) grb)) = Some True"
  by (induction grb) (simp_all add: lock_state_append bits_locked)

definition frame :: "ws2812_timing \<Rightarrow> bytes \<Rightarrow> led_event list" where
  "frame tm grb = Irq_Lock # concat (map (\<lambda>val. flush_bits WS2812_GPIO_PIN tm val 8) grb) @
     [Pin_Low WS2812_GPIO_PIN, Irq_Unlock, Pin_Low WS2812_GPIO_PIN, Busy_Wait WS2812_RESET_US]"

lemma frame_locked: "lock_state False (frame tm grb) = Some False" "\<not> pin_level v (frame tm grb)"
  by (simp_all add: frame_def lock_state_append buf_locked pin_level_append)

lemma seen_frame:
  "\<exists>fr. frame tm grb = fr @ [Pin_Low WS2812_GPIO_PIN, Busy_Wait WS2812_RESET_US] \<and>
     (\<forall>thr. tm_t0h tm \<le> thr \<and> thr < tm_t1h tm \<longrightarrow> seen thr fr = grb)"
proof (intro exI conjI allI impI)
  let ?fr = "Irq_Lock # concat (map (\<lambda>val. flush_bits WS2812_GPIO_PIN tm val 8) grb) @ [Pin_Low WS2812_GPIO_PIN, Irq_Unlock]"
  show "frame tm grb = ?fr @ [Pin_Low WS2812_GPIO_PIN, Busy_Wait WS2812_RESET_US]" by (simp add: frame_def)
  show "seen thr ?fr = grb" if "tm_t0h tm \<le> thr \<and> thr < tm_t1h tm" for thr
    using seen_buf [of tm thr "[Pin_Low WS2812_GPIO_PIN, Irq_Unlock]" WS2812_GPIO_PIN grb] that by (simp add: seen_def)
qed

text \<open>Events that neither send a pulse nor touch the locks.\<close>

fun quiet_event :: "led_event \<Rightarrow> bool" where
  "quiet_event (Pin_High p) = False"
| "quiet_event Irq_Lock = False"
| "quiet_event Irq_Unlock = False"
| "quiet_event _ = True"

lemma quiet_events:
  assumes "list_all quiet_event es"
  shows "lock_state l es = Some l" "pulses (es @ fs) = pulses fs"
proof -
  show "lock_state l es = Some l" using assms by (induction l es rule: lock_state.induct) auto
  show "pulses (es @ fs) = pulses fs" using assms
  proof (induction es)
    case (Cons e es)
    then show ?case by (cases e) auto
  qed simp
qed

lemma quiet_low: "list_all quiet_event es \<Longrightarrow> \<not> v \<Longrightarrow> \<not> pin_level v es"
  by (induction v es rule: pin_level.induct) auto

section \<open>Operations on the log\<close>

lemma refresh_timing_eq:
  "\<exists>p \<noteq> 0. \<exists>pre n. list_all quiet_event pre \<and>
     ws2812_refresh_timing env st = st\<lparr>ws2812_nop_per_cycle := p, ws2812_nops := nops_for p, led_log := led_log st @ pre, cycle_reads := n\<rparr>"
proof -
  define p where "p = nop_cycles (k_cycle_get_32 env (cycle_reads st + 1) - k_cycle_get_32 env (cycle_reads st))
    (k_cycle_get_32 env (cycle_reads st + 3) - k_cycle_get_32 env (cycle_reads st + 2))"
  have "p \<noteq> 0" by (simp add: p_def nop_cycles_def Let_def)
  moreover have "ws2812_refresh_timing env st =
      st\<lparr>ws2812_nop_per_cycle := p, ws2812_nops := nops_for p, led_log := led_log st @ [Nops 100, Nops 200], cycle_reads := cycle_reads st + 4\<rparr>"
    by (simp add: ws2812_refresh_timing_def ws2812_measure_nops_def emit_def p_def eval_nat_numeral Let_def)
  ultimately show ?thesis by (intro exI [of _ p] conjI exI [of _ "[Nops 100, Nops 200]"] exI [of _ "cycle_reads st + 4"]) auto
qed

lemma ensure_pin_eq:
  "\<exists>pre n. list_all quiet_event pre \<and> ws2812_gpio_ensure_pin env pin st = st\<lparr>led_log := led_log st @ pre, ctl_reads := n\<rparr>"
proof (cases "gpio_ctl env (ctl_reads st) AND 0xf = 0")
  case True
  then show ?thesis by (intro exI [of _ "[]"] exI [of _ "ctl_reads st + 1"]) (simp add: ws2812_gpio_ensure_pin_def)
next
  case False
  then show ?thesis
    by (intro exI [of _ "[Pin_Ctl pin BOARD_285L2_WS2812_PIN_CTL, Pin_Low pin]"] exI [of _ "ctl_reads st + 1"])
      (simp add: ws2812_gpio_ensure_pin_def ws2812_gpio_init_pin_def ws2812_gpio_set_pin_def emit_def)
qed

text \<open>Sending the buffer adds a frame to the log and leaves buffer and mode alone.\<close>

lemma flush_eq:
  "\<exists>p \<noteq> 0. \<exists>pre m n. list_all quiet_event pre \<and> ws2812_flush env st =
     st\<lparr>ws2812_nop_per_cycle := p, ws2812_nops := nops_for p, ws2812_show_cnt := ws2812_show_cnt st + 1,
        led_log := led_log st @ pre @ frame (nops_for p) (ws2812_grb st), cycle_reads := m, ctl_reads := n\<rparr>"
proof -
  obtain p pre m where p: "p \<noteq> 0" "list_all quiet_event pre" "ws2812_refresh_timing env st =
      st\<lparr>ws2812_nop_per_cycle := p, ws2812_nops := nops_for p, led_log := led_log st @ pre, cycle_reads := m\<rparr>"
    using refresh_timing_eq by blast
  let ?st = "st\<lparr>ws2812_nop_per_cycle := p, ws2812_nops := nops_for p, led_log := led_log st @ pre, cycle_reads := m\<rparr>"
  obtain pre' n where e: "list_all quiet_event pre'" "ws2812_gpio_ensure_pin env WS2812_GPIO_PIN ?st = ?st\<lparr>led_log := led_log ?st @ pre', ctl_reads := n\<rparr>"
    using ensure_pin_eq by blast
  have "ws2812_flush env st = st\<lparr>ws2812_nop_per_cycle := p, ws2812_nops := nops_for p, ws2812_show_cnt := ws2812_show_cnt st + 1,
        led_log := led_log st @ (pre @ pre') @ frame (nops_for p) (ws2812_grb st), cycle_reads := m, ctl_reads := n\<rparr>"
    unfolding ws2812_flush_def ws2812_flush_pin_def p(3)
    by (simp add: e(2) Let_def ws2812_flush_buf_def ws2812_gpio_set_pin_def emit_def frame_def)
  moreover have "list_all quiet_event (pre @ pre')" using p e by simp
  ultimately show ?thesis using p(1) by blast
qed

text \<open>The same colour in the first lamps, and the rest as before.\<close>

lemma fill_leds_eq: "n * 3 \<le> length grb \<Longrightarrow> fill_leds n r g b grb = concat (replicate n [g, r, b]) @ drop (n * 3) grb"
proof (induction n)
  case (Suc n)
  have k: "n * 3 < length grb" "n * 3 + 1 < length grb" "n * 3 + 2 < length grb" using Suc.prems by simp_all
  have d: "drop (n * 3) grb = grb ! (n * 3) # grb ! (n * 3 + 1) # grb ! (n * 3 + 2) # drop (Suc n * 3) grb"
    using Cons_nth_drop_Suc [OF k(1)] Cons_nth_drop_Suc [OF k(2)] Cons_nth_drop_Suc [OF k(3)] by (simp add: eval_nat_numeral)
  have l: "length (concat (replicate m [g, r, b])) = m * 3" "concat (replicate (Suc m) [g, r, b]) = concat (replicate m [g, r, b]) @ [g, r, b]" for m
    by (induction m) simp_all
  show ?case unfolding fill_leds.simps l(2) using Suc d l(1) [of n] by (simp add: list_update_append del: replicate_Suc)
qed simp

lemma padding_kept:
  assumes "length grb = WS2812_GRB_SIZE"
  shows "fill_leds WS2812_LED_COUNT r g b grb = concat (replicate WS2812_LED_COUNT [g, r, b]) @ drop 75 grb"
    "drop 75 (fill_leds WS2812_LED_COUNT r g b grb) = drop 75 grb"
proof -
  show f: "fill_leds WS2812_LED_COUNT r g b grb = concat (replicate WS2812_LED_COUNT [g, r, b]) @ drop 75 grb"
    using assms fill_leds_eq [of WS2812_LED_COUNT grb] by (simp add: WS2812_GRB_SIZE_def WS2812_LED_COUNT_def)
  have "length (concat (replicate WS2812_LED_COUNT [g, r, b])) = 75" by (simp add: length_concat sum_list_replicate WS2812_LED_COUNT_def)
  then show "drop 75 (fill_leds WS2812_LED_COUNT r g b grb) = drop 75 grb" unfolding f by simp
qed

lemma show_colour_eq:
  "\<exists>p \<noteq> 0. \<exists>pre m n. list_all quiet_event pre \<and> show_colour env r g b st =
     st\<lparr>ws2812_grb := fill_leds WS2812_LED_COUNT r g b (ws2812_grb st),
        ws2812_nop_per_cycle := p, ws2812_nops := nops_for p, ws2812_show_cnt := ws2812_show_cnt st + 1,
        led_log := led_log st @ pre @ frame (nops_for p) (fill_leds WS2812_LED_COUNT r g b (ws2812_grb st)), cycle_reads := m, ctl_reads := n\<rparr>"
  using flush_eq [of env "st\<lparr>ws2812_grb := fill_leds WS2812_LED_COUNT r g b (ws2812_grb st)\<rparr>"] unfolding show_colour_def by simp

lemma init_eq:
  assumes "\<not> ws2812_inited st"
  shows "(\<exists>pre. led_log (btmusic_ws2812_init env st) = led_log st @ pre) \<and>
    ws2812_grb (btmusic_ws2812_init env st) = fill_leds WS2812_LED_COUNT 32 12 0 (replicate WS2812_GRB_SIZE 0)"
proof -
  let ?a = "emit (Busy_Wait 2000) (emit (Busy_Wait 500) (ws2812_gpio_init_pin WS2812_GPIO_PIN st))"
  obtain x where x: "led_log (ws2812_refresh_timing env ?a) = led_log ?a @ x" using refresh_timing_eq [of env ?a] by fastforce
  let ?b = "ws2812_refresh_timing env ?a"
  obtain y where y: "led_log (clear_leds env ?b) = led_log ?b @ y" "ws2812_grb (clear_leds env ?b) = replicate WS2812_GRB_SIZE 0"
    using flush_eq [of env "?b\<lparr>ws2812_grb := replicate WS2812_GRB_SIZE 0\<rparr>"] unfolding clear_leds_def by fastforce
  let ?c = "(clear_leds env ?b)\<lparr>ws2812_inited := True, ws2812_show_cnt := 0\<rparr>"
  obtain z where z: "led_log (show_colour env 32 12 0 ?c) = led_log ?c @ z"
      "ws2812_grb (show_colour env 32 12 0 ?c) = fill_leds WS2812_LED_COUNT 32 12 0 (ws2812_grb ?c)"
    using show_colour_eq [of env 32 12 0 ?c] by fastforce
  have "btmusic_ws2812_init env st = ambient_cycle_start (show_colour env 32 12 0 ?c)"
    using assms by (simp add: btmusic_ws2812_init_def ws2812_calibrate_def Let_def)
  then show ?thesis using x y z
    by (simp add: ambient_cycle_start_def ws2812_gpio_init_pin_def ws2812_gpio_set_pin_def emit_def)
qed

section \<open>Safety\<close>

text \<open>The buffer has its size, the mode is an index of the table, interrupts are unlocked and the pin is low.\<close>

definition led_ok :: "ws2812 \<Rightarrow> bool" where
  "led_ok st \<longleftrightarrow> length (ws2812_grb st) = WS2812_GRB_SIZE \<and> ambient_mode st < length ambient_modes \<and>
     lock_state False (led_log st) = Some False \<and> \<not> pin_level False (led_log st)"

lemma fill_leds_length [simp]: "length (fill_leds n r g b grb) = length grb"
  by (induction n) simp_all

lemma led_ok_emit: "led_ok st \<Longrightarrow> quiet_event e \<Longrightarrow> led_ok (emit e st)"
  using quiet_events(1) [of "[e]" False] quiet_low [of "[e]" False] by (simp add: led_ok_def emit_def lock_state_append pin_level_append)

lemma led_ok_update:
  assumes "led_ok st"
  shows "led_ok (st\<lparr>ws2812_inited := i\<rparr>)" "led_ok (st\<lparr>ws2812_show_cnt := c\<rparr>)" "length g = WS2812_GRB_SIZE \<Longrightarrow> led_ok (st\<lparr>ws2812_grb := g\<rparr>)"
    "m < length ambient_modes \<Longrightarrow> led_ok (st\<lparr>ambient_mode := m\<rparr>)"
  using assms by (simp_all add: led_ok_def)

lemma led_ok_flush:
  assumes "led_ok st"
  shows "led_ok (ws2812_flush env st)"
proof -
  obtain p pre m n where "list_all quiet_event pre" "ws2812_flush env st =
     st\<lparr>ws2812_nop_per_cycle := p, ws2812_nops := nops_for p, ws2812_show_cnt := ws2812_show_cnt st + 1,
        led_log := led_log st @ pre @ frame (nops_for p) (ws2812_grb st), cycle_reads := m, ctl_reads := n\<rparr>"
    using flush_eq by blast
  then show ?thesis using assms quiet_events(1) [of pre False] by (simp add: led_ok_def lock_state_append pin_level_append frame_locked)
qed

lemma led_ok_calibrate: "led_ok st \<Longrightarrow> led_ok (ws2812_calibrate env st)"
proof -
  assume "led_ok st"
  then have ok: "led_ok (emit (Busy_Wait 2000) st)" by (simp add: led_ok_emit)
  obtain p pre n where "list_all quiet_event pre" "ws2812_refresh_timing env (emit (Busy_Wait 2000) st) =
      (emit (Busy_Wait 2000) st)\<lparr>ws2812_nop_per_cycle := p, ws2812_nops := nops_for p, led_log := led_log (emit (Busy_Wait 2000) st) @ pre, cycle_reads := n\<rparr>"
    using refresh_timing_eq by blast
  then show ?thesis using ok quiet_events(1) [of pre False] quiet_low [of pre False]
    by (simp add: ws2812_calibrate_def led_ok_def lock_state_append pin_level_append)
qed

lemma led_ok_show: "led_ok st \<Longrightarrow> led_ok (show_colour env r g b st)" "led_ok st \<Longrightarrow> led_ok (clear_leds env st)"
  unfolding show_colour_def clear_leds_def
  by (rule led_ok_flush, rule led_ok_update(3), assumption, simp add: led_ok_def)+

lemma led_ok_init:
  assumes "led_ok st"
  shows "led_ok (btmusic_ws2812_init env st)"
proof -
  let ?a = "ws2812_calibrate env (emit (Busy_Wait 500) (ws2812_gpio_init_pin WS2812_GPIO_PIN st))"
  have "led_ok ?a" using assms by (simp add: ws2812_gpio_init_pin_def ws2812_gpio_set_pin_def led_ok_calibrate led_ok_emit)
  then have "led_ok (show_colour env 32 12 0 ((clear_leds env ?a)\<lparr>ws2812_inited := True, ws2812_show_cnt := 0\<rparr>))"
    by (intro led_ok_show led_ok_update(1,2))
  then show ?thesis using assms by (simp add: btmusic_ws2812_init_def Let_def ambient_cycle_start_def led_ok_emit)
qed

lemma inited_init [simp]: "ws2812_inited (btmusic_ws2812_init env st)"
proof -
  have "ws2812_inited (ws2812_flush env s) = ws2812_inited s" for s using flush_eq [of env s] by auto
  then show ?thesis by (simp add: btmusic_ws2812_init_def Let_def ambient_cycle_start_def emit_def show_colour_def)
qed

text \<open>The operations in any order, each with any behaviour of the hardware.\<close>

inductive led_step :: "ws2812 \<Rightarrow> ws2812 \<Rightarrow> bool" where
  init: "led_step st (btmusic_ws2812_init env st)"
| deinit: "led_step st (btmusic_ws2812_deinit env st)"
| ambient_set: "led_step st (btmusic_ws2812_ambient_set env r g b st)"
| ambient_off: "led_step st (btmusic_ws2812_ambient_off env st)"
| tick: "ambient_cycle_cb env st = Some st' \<Longrightarrow> led_step st st'"
| show_rgb: "led_step st (btmusic_ws2812_show_rgb env r g b st)"
| show_grb: "led_step st (btmusic_ws2812_show_grb env grb st)"

definition led_boot :: ws2812 where
  "led_boot = \<lparr>ws2812_inited = False, ws2812_show_cnt = 0, ws2812_nop_per_cycle = 0,
     ws2812_nops = \<lparr>tm_t0h = 0, tm_t0l = 0, tm_t1h = 0, tm_t1l = 0\<rparr>, ws2812_grb = replicate WS2812_GRB_SIZE 0, ambient_mode = 0,
     led_log = [], cycle_reads = 0, ctl_reads = 0\<rparr>"

lemma led_ok_tick: "led_ok st \<Longrightarrow> ambient_cycle_cb env st = Some st' \<Longrightarrow> led_ok st'"
  by (auto simp: ambient_cycle_cb_def btmusic_ws2812_ambient_set_def Let_def ambient_modes_def
      intro!: led_ok_update(4) led_ok_show led_ok_init split: if_splits prod.splits)

lemma led_ok_step: "led_step st st' \<Longrightarrow> led_ok st \<Longrightarrow> led_ok st'"
proof (induction rule: led_step.induct)
  case (show_grb st env grb)
  then show ?case
    by (auto simp: btmusic_ws2812_show_grb_def Let_def intro!: led_ok_update(2,3) led_ok_flush led_ok_init split: option.splits)
qed (auto simp: btmusic_ws2812_deinit_def btmusic_ws2812_ambient_set_def btmusic_ws2812_ambient_off_def btmusic_ws2812_show_rgb_def Let_def
      intro: led_ok_tick led_ok_init intro!: led_ok_update(1,2) led_ok_show)

lemma led_ok_boot: "led_ok led_boot"
  by (simp add: led_ok_def led_boot_def ambient_modes_def)

section \<open>Properties\<close>

text \<open>(C28) What the ambient light shows. Setting a colour ends with one frame on the pin, from whose pulses every lamp reads green,
  red and blue of that colour: for every threshold between the two pulse lengths, which differ as long as a NOP takes fewer than
  seven cycles of the counter. Behind the lamps the frame has the last three bytes of the buffer, whatever they are. The frame
  ends with the reset pause, and if the driver was initialised nothing else is sent.\<close>

theorem ambient_light_shown:
  assumes "length (ws2812_grb st) = WS2812_GRB_SIZE" "ws2812_nop_per_cycle (btmusic_ws2812_ambient_set env r g b st) < 7"
  shows "let st' = btmusic_ws2812_ambient_set env r g b st; tm = ws2812_nops st'
    in \<exists>pre fr. led_log st' = led_log st @ pre @ fr @ [Pin_Low WS2812_GPIO_PIN, Busy_Wait WS2812_RESET_US] \<and>
      (ws2812_inited st \<longrightarrow> pulses pre = []) \<and> tm_t0h tm < tm_t1h tm \<and>
      (\<forall>thr. tm_t0h tm \<le> thr \<and> thr < tm_t1h tm \<longrightarrow>
        seen thr fr = concat (replicate WS2812_LED_COUNT [g, r, b]) @ (if ws2812_inited st then drop 75 (ws2812_grb st) else [0, 0, 0]))"
proof -
  let ?i = "btmusic_ws2812_init env st"
  let ?grb = "fill_leds WS2812_LED_COUNT r g b (ws2812_grb ?i)"
  obtain x where x: "led_log ?i = led_log st @ x" "ws2812_inited st \<longrightarrow> x = []"
    using init_eq [of st env] by (cases "ws2812_inited st") (auto simp: btmusic_ws2812_init_def)
  obtain p pre where p: "p \<noteq> 0" "list_all quiet_event pre" "ws2812_nop_per_cycle (show_colour env r g b ?i) = p"
      "ws2812_nops (show_colour env r g b ?i) = nops_for p" "led_log (show_colour env r g b ?i) = led_log ?i @ pre @ frame (nops_for p) ?grb"
    using show_colour_eq [of env r g b ?i] by fastforce
  obtain fr where fr: "frame (nops_for p) ?grb = fr @ [Pin_Low WS2812_GPIO_PIN, Busy_Wait WS2812_RESET_US]"
      "\<forall>thr. tm_t0h (nops_for p) \<le> thr \<and> thr < tm_t1h (nops_for p) \<longrightarrow> seen thr fr = ?grb"
    using seen_frame by blast
  have z: "drop 75 (replicate WS2812_GRB_SIZE (0 :: u8)) = [0, 0, 0]" by (simp add: WS2812_GRB_SIZE_def WS2812_LED_COUNT_def numeral_3_eq_3)
  have "length (ws2812_grb ?i) = WS2812_GRB_SIZE \<and> drop 75 (ws2812_grb ?i) = (if ws2812_inited st then drop 75 (ws2812_grb st) else [0, 0, 0])"
    using assms(1) init_eq [of st env] z
    by (cases "ws2812_inited st") (simp_all add: padding_kept(2) btmusic_ws2812_init_def [of env st] del: drop_replicate)
  then have "?grb = concat (replicate WS2812_LED_COUNT [g, r, b]) @ (if ws2812_inited st then drop 75 (ws2812_grb st) else [0, 0, 0])"
    using padding_kept(1) [of "ws2812_grb ?i"] by simp
  moreover have "tm_t0h (nops_for p) < tm_t1h (nops_for p)" using nops_distinct [OF p(1)] assms(2) p(3) by (simp add: btmusic_ws2812_ambient_set_def)
  moreover have "ws2812_inited st \<longrightarrow> pulses (x @ pre) = []" using x(2) quiet_events(2) [OF p(2), of "[]"] by simp
  ultimately show ?thesis unfolding btmusic_ws2812_ambient_set_def Let_def p(4)
    using p(5) x(1) fr by (intro exI [of _ "x @ pre"] exI [of _ fr]) simp
qed

definition steady_env :: led_env where
  "steady_env = \<lparr>k_cycle_get_32 = (\<lambda>n. if n mod 4 = 1 then 100 else if n mod 4 = 3 then 200 else 0), gpio_ctl = (\<lambda>_. 0)\<rparr>"

lemma steady_timing:
  assumes "ws2812_inited st" "cycle_reads st = 0"
  shows "ws2812_nop_per_cycle (btmusic_ws2812_ambient_set steady_env r g b st) = 1"
    "ws2812_nops (btmusic_ws2812_ambient_set steady_env r g b st) = \<lparr>tm_t0h = 6, tm_t0l = 21, tm_t1h = 19, tm_t1l = 19\<rparr>"
proof -
  have c: "nop_cycles 100 200 = 1" "nops_for 1 = \<lparr>tm_t0h = 6, tm_t0l = 21, tm_t1h = 19, tm_t1l = 19\<rparr>" by code_simp+
  show "ws2812_nop_per_cycle (btmusic_ws2812_ambient_set steady_env r g b st) = 1"
      "ws2812_nops (btmusic_ws2812_ambient_set steady_env r g b st) = \<lparr>tm_t0h = 6, tm_t0l = 21, tm_t1h = 19, tm_t1l = 19\<rparr>"
    using assms c
    by (simp_all add: btmusic_ws2812_ambient_set_def btmusic_ws2812_init_def show_colour_def ws2812_flush_def ws2812_flush_pin_def
        ws2812_refresh_timing_def ws2812_measure_nops_def ws2812_gpio_ensure_pin_def ws2812_flush_buf_def ws2812_gpio_set_pin_def emit_def
        steady_env_def Let_def)
qed

theorem ambient_light_shown_witness:
  "\<exists>pre fr. led_log (btmusic_ws2812_ambient_set steady_env 1 2 3 (led_boot\<lparr>ws2812_inited := True\<rparr>)) = pre @ fr @ [Pin_Low 8, Busy_Wait 500] \<and>
     pulses pre = [] \<and> seen 10 fr = concat (replicate 25 [2, 1, 3]) @ [0, 0, 0]"
proof -
  let ?st = "led_boot\<lparr>ws2812_inited := True\<rparr>"
  have b: "length (ws2812_grb ?st) = WS2812_GRB_SIZE" "led_log ?st = []" "ws2812_inited ?st" "cycle_reads ?st = 0" by (simp_all add: led_boot_def)
  have z: "drop 75 (ws2812_grb ?st) = [0, 0, 0]" by (simp add: led_boot_def WS2812_GRB_SIZE_def WS2812_LED_COUNT_def numeral_3_eq_3)
  note t = steady_timing [OF b(3,4), of 1 2 3]
  have "ws2812_nop_per_cycle (btmusic_ws2812_ambient_set steady_env 1 2 3 ?st) < 7" by (simp add: t(1) word_less_nat_alt)
  from ambient_light_shown [OF b(1) this] obtain pre fr where
      "led_log (btmusic_ws2812_ambient_set steady_env 1 2 3 ?st) = pre @ fr @ [Pin_Low 8, Busy_Wait 500]" "pulses pre = []"
      "\<forall>thr. (6 :: u32) \<le> thr \<and> thr < 19 \<longrightarrow> seen thr fr = concat (replicate 25 [2, 1, 3]) @ [0, 0, 0]"
    unfolding Let_def t(2) using b(2,3) z by (auto simp: WS2812_LED_COUNT_def WS2812_GPIO_PIN_def WS2812_RESET_US_def)
  then show ?thesis by (intro exI [of _ pre] exI [of _ fr]) (simp add: word_le_nat_alt word_less_nat_alt)
qed

text \<open>(C29) In every state that the operations reach, in any order and with any behaviour of the hardware, the buffer has its size, the
  mode is an index of the colour table, the pin has gone high only with interrupts locked, locks were never nested, and now
  interrupts are unlocked and the pin is low. The timer callback never reads outside the table, and it leaves the driver
  initialised, even if it was shut down before: shutting down does not stop the timer.\<close>

theorem led_driver_safe:
  assumes "led_step\<^sup>*\<^sup>* led_boot st"
  shows "led_ok st \<and> (\<exists>st'. ambient_cycle_cb env st = Some st' \<and> ws2812_inited st')"
proof -
  have ok: "led_ok st" using assms by (induction rule: rtranclp_induct) (use led_ok_boot led_ok_step in blast)+
  have "ws2812_inited (btmusic_ws2812_ambient_set env r g b st)" for r g b
    using show_colour_eq [of env r g b "btmusic_ws2812_init env st"] inited_init [of env st] unfolding btmusic_ws2812_ambient_set_def by fastforce
  then show ?thesis using ok by (auto simp: ambient_cycle_cb_def led_ok_def Let_def split: prod.split)
qed

theorem led_driver_safe_witness:
  "led_ok (btmusic_ws2812_deinit steady_env (btmusic_ws2812_init steady_env led_boot)) \<and>
   (\<exists>st'. ambient_cycle_cb steady_env (btmusic_ws2812_deinit steady_env (btmusic_ws2812_init steady_env led_boot)) = Some st' \<and> ws2812_inited st')"
proof -
  have "led_step\<^sup>*\<^sup>* led_boot (btmusic_ws2812_deinit steady_env (btmusic_ws2812_init steady_env led_boot))"
    by (rule rtranclp.rtrancl_into_rtrancl, rule r_into_rtranclp, rule led_step.init, rule led_step.deinit)
  then show ?thesis using led_driver_safe by blast
qed

text \<open>The measurement is rounded down to whole cycles: whenever a NOP takes less than two, the pulse lengths are the same.\<close>

lemma fast_nops_same_timing:
  assumes "c200 - c100 < 200"
  shows "nops_for (nop_cycles c100 c200) = \<lparr>tm_t0h = 6, tm_t0l = 21, tm_t1h = 19, tm_t1l = 19\<rparr>"
proof -
  have "(c200 - c100) div 100 = 0 \<or> (c200 - c100) div 100 = 1"
  proof -
    have "unat (c200 - c100) div 100 < 2" using assms by (simp add: word_less_nat_alt less_mult_imp_div_less)
    then have "unat ((c200 - c100) div 100) = 0 \<or> unat ((c200 - c100) div 100) = 1" by (auto simp: unat_div)
    then show ?thesis by (auto simp: word_unat_eq_iff)
  qed
  then have "nop_cycles c100 c200 = 1" by (auto simp: nop_cycles_def Let_def)
  moreover have "nops_for 1 = \<lparr>tm_t0h = 6, tm_t0l = 21, tm_t1h = 19, tm_t1l = 19\<rparr>" by code_simp
  ultimately show ?thesis by simp
qed

end
