(* ===== verification/Spec2Isabelle.thy ===== *)
theory Spec2Isabelle
  imports Prelude Crc Byte_Fifo Acts_Ringbuf Nvram Audio_Volume Py32_Ring Py32_Volume Py32_Uart Py32_Protocol Py32_System
    Libc_Memory Libc_Number Libc_Printf Hex_Str Property_System Audio_Settings Transcode Ws2812
begin

text \<open>
  Verification of the firmware of a Bluetooth speaker: a Zephyr-based system on the Bluetooth chip, driven over a
  serial line by a PY32 microcontroller (the host), which has the keys and the volume wheel. Paths below are
  relative to \<^verbatim>\<open>src/\<close>.

  \<^bold>\<open>The parts and how they interact.\<close> A frame from the host arrives by DMA in a receive ring; the protocol thread
  empties the ring, parses and checks the frame, and sets volume, tone and vibration. A volume goes through the
  volume manager to the audio system, which clamps it to the policy and saves it as a property. The property
  layer caches properties and writes them to the parameter store (NVRAM), a log-structured store on the flash.
  After a power cycle the store is scanned, and the audio system reads the volumes back. All of this uses the
  checksums, the ring buffers and the C library of the firmware.

  \<^bold>\<open>Theories and sources.\<close>
  \<^item> \<open>Prelude\<close>: word types, error numbers, copying into a buffer; runs of steps and the locale
    \<open>step_refinement\<close>, by which a step that refines its specification gives the refinement of every run.
  \<^item> \<open>Crc\<close>: the CRC-16 of the host link, the CRC-8 and name hash of the store, the CRC-32 of the utilities. The locale
    \<open>reflected_crc\<close> is interpreted on all three; table-driven code equals the bit-serial definition.
  \<^item> \<open>Byte_Fifo\<close>: the contract of a bounded byte queue; interpreted on both ring buffers.
  \<^item> \<open>Acts_Ringbuf\<close>: \<^verbatim>\<open>ext/actions/base/utils/acts_ringbuf\<close>, with free-running 64-bit counters.
  \<^item> \<open>Py32_Ring\<close>, \<open>Py32_Volume\<close>, \<open>Py32_Uart\<close>, \<open>Py32_Protocol\<close>, \<open>Py32_System\<close>:
    \<^verbatim>\<open>samples/bt_speaker/src/system_app/system_app_py32_uart.c\<close>. In this order: the ring and the interrupt handlers;
    the wheel mapping; the parser and the handlers; what the protocol guarantees; and initialisation, the
    thread, and the step relation \<open>py32_step\<close> that interleaves thread, interrupts, timer and other callers.
  \<^item> \<open>Audio_Volume\<close>: the stream volumes of \<^verbatim>\<open>ext/actions/audio\<close> (\<^verbatim>\<open>audio_system.c\<close>, \<^verbatim>\<open>audio_policy.c\<close>,
    \<^verbatim>\<open>audio_track.c\<close>, \<^verbatim>\<open>volume_manager.c\<close>). Calls out of these files are a log in the state.
  \<^item> \<open>Nvram_Storage\<close>: \<^verbatim>\<open>drivers/nvram/nvram_storage.c\<close> over a flash driver, which is a parameter; its documented
    behaviour is the locale \<open>nor_flash\<close>. The storage contract \<open>nvram_storage\<close> is also met by the simulated memory.
  \<^item> \<open>Nvram_Bits\<close>, \<open>Nvram_Region\<close>: all operations of \<^verbatim>\<open>drivers/nvram/nvram_config.c\<close>. Their proofs climb
    from cells to maps: \<open>Nvram_Access\<close> (blocks), \<open>Nvram_Layout\<close> (entries), \<open>Nvram_Items\<close> (a segment),
    \<open>Nvram_Purge\<close> (moving to a new segment), \<open>Nvram_Store\<close> (a region as a map), \<open>Nvram_Scan\<close> and \<open>Nvram_Boot\<close>
    (start-up), \<open>Nvram_Config\<close> (three regions as one store) and \<open>Nvram\<close> (the properties).
  \<^item> \<open>Property_Cache\<close>, \<open>Property_Manager\<close>: \<^verbatim>\<open>property_cache.c\<close> and \<^verbatim>\<open>property_manager.c\<close> of
    \<^verbatim>\<open>ext/actions/base/property\<close>. \<open>Property_Spec\<close> is their specification as a write-back cache over a map, and
    \<open>Property_System\<close> holds runs of calls and power cycles.
  \<^item> \<open>Audio_Settings\<close>: saving, loading and clearing volumes, and the start-up of the audio system (\<^verbatim>\<open>audio_system.c\<close>).
  \<^item> \<open>Libc_Memory\<close>, \<open>Libc_Number\<close>, \<open>Libc_Printf\<close>: \<^verbatim>\<open>lib/libc/minimal\<close>. \<open>Hex_Str\<close>:
    \<^verbatim>\<open>ext/actions/base/utils/transcode/hex_str.c\<close>. \<open>Transcode\<close>: the UTF-8 functions of \<^verbatim>\<open>transcode.c\<close> beside it.
  \<^item> \<open>Ws2812\<close>: the driver of the ambient light, \<^verbatim>\<open>samples/bt_speaker/src/btmusic/btmusic_ws2812.c\<close>; the pin, delays and locks
    are a log of events.

  \<^bold>\<open>State and operations.\<close> A struct is a record and an enum a datatype with the names of the source; a function is a
  function on the state it reads and writes, under the name of the source. A result \<open>None\<close> is an access outside
  an object or a loop that does not end, never an error of the source; errors are the negative numbers the source
  returns. What the surroundings decide (allocations, sending a message, the cycle counter, a stream) is an
  argument.

  \<^bold>\<open>What is shown.\<close>
  \<^item> Host link: a valid frame is carried out and answered once; damage and bad requests are refused with the right
    code; the ring is a FIFO under every interleaving; buffers are never overrun in a reachable state; a turn of the
    thread ends; a silent host is switched off. Also two surprises: a parameter of value 1 is never applied, and a
    repeated frame gets no answer.
  \<^item> Volumes: what is set is read back, clamped, and other streams keep theirs; wheel and levels agree.
  \<^item> Parameter store: over any NOR flash, updates, deletions and power cycles refine a map. Interrupted updates and
    interrupted moves lose nothing. A second failure in a repeated move, and items that outgrow a segment, do harm.
  \<^item> Property layer: refines a write-back cache over the store; its table is well typed in every reachable
    state, also when allocations fail; every 32-bit number survives a power cycle.
  \<^item> Utilities: both ring buffers, checksums, memory functions, number parsing and printing meet their
    specifications, with the wrap-around of addresses and counters.
  \<^item> Text and light: UTF-8 goes forth and back, and the decoder accepts exactly the well-formed characters (overlong ones
    included); lamps read the colour that was set from the pulses on the pin, which are sent with interrupts locked.
  \<^item> All together (this theory): a volume survives the way through audio system, properties, store and flash, a power
    cycle and the start-up.

  \<^bold>\<open>Bounds.\<close> There is no fuel. A loop that ends by a decreasing count is recursion with a termination proof; a loop
  whose end depends on its data is a partial function into \<open>option\<close>, and the properties show the results \<open>Some\<close>. The
  flash is at least 4 MiB, so that it contains the three regions at their configured offsets. Updates of the store must
  leave the live items within one segment of 8 KiB, which \<open>step_fits\<close> and \<open>prop_fits\<close> state; without
  that the store overflows, as shown. The cache has 70 places. The precision bound of 240 for floating-point output
  keeps the text within the conversion buffer.

  \<^bold>\<open>Not modelled.\<close>
  \<^item> Console output, and code that is compiled out of the speaker's configuration.
  \<^item> Mutexes and semaphores as objects: the functions they guard are atomic here.
  \<^item> Device drivers, codec, amplifier and the start-up of the audio hardware: register access without a
    specification in the sources. The Bluetooth stack, media player, decoders and effects: large or prebuilt
    libraries that the modelled parts only call; the calls are logged.
  \<^item> The kernel, memory manager and message queues: represented by the arguments above.
  \<^item> The applications (event glue between Bluetooth manager, player and user interface), the bridge between Bluetooth
    serial port and UART, and the firmware upgrade: their effects are mostly calls into the parts just named.
  \<^item> The rhythm light of the second strip, which the speaker's configuration leaves out, and the conversions from and
    to GBK, which are look-ups in the tables of the file system.
  \<^item> Utilities that no modelled part uses: playlist iterators, streams, the AT command parser, JSON.
  \<^item> In the audio system: the life cycle of tracks and records, sample rates and muting, which act on the hardware;
    in the property manager: the variant with an external flash.
\<close>

section \<open>From the volume keys to the flash and back\<close>

text \<open>The audio system after a reset, without a policy.\<close>

definition quiet_state :: audio_state where
  "quiet_state = \<lparr>audio_system = Some zero_audio_system, user_policy = None, volume_timestampe = 0, calls = []\<rparr>"

text \<open>(C19) A volume that is set survives a power cycle. Setting the volume of a stream that has a volume of its
  own makes calls that save it as a property; when these are made, the cached properties are flushed, the
  power is cycled and the audio system starts again, the stream has the volume it had before, except that
  a volume of zero comes back as the default volume. The flash is any NOR flash, allocations succeed, the
  policy saves volumes, and the updates fit the cache and the store.\<close>

theorem volume_survives_power_cycle:
  assumes "nor_flash api cells n" "0x400000 \<le> n" "\<forall>k m. pe_malloc env k m" "props_hold (\<lambda>d. True) cells R F s U P Q"
    and "short_values (F ++ R ++ flushed U P)"
    and "audio_system st = Some a" "audio_policy_check_save_volume_to_nvram st" "stream \<in> set separate_streams"
    and "audio_system_set_stream_volume stream v st = (ret, st')" "calls st' = calls st @ new"
    and "all_fit prop_spec prop_fits (U, P, Q) (save_cmds new)" "user_policy st2 = user_policy st"
  shows "\<exists>s1 s2 s3 s4 st3. save_calls env sp new s = Some s1 \<and> property_flush (flash_storage api) env None s1 = Some s2 \<and>
    power_on (flash_storage api) (nc_nv (pr_nv s2)) = Some s3 \<and> aduio_system_init (flash_storage api) env st2 s3 = Some (0, st3, s4) \<and>
    system_volume_get stream st3 = (if system_volume_get stream st' = 0 then DEFAULT_VOLUME else system_volume_get stream st')"
  by (rule nvram_store.volume_survives [OF nor_flash_store [OF assms(1,2)] assms(4,3,6,8,7,5,9,10,11,12) refl])

theorem volume_survives_power_cycle_witness:
  "\<exists>s s1 s2 s3 s4 st3. power_on (flash_storage nor_sim) erased_nvram = Some s \<and>
    save_calls ample_env 0 (calls (snd (audio_system_set_stream_volume AUDIO_STREAM_MUSIC 9 quiet_state))) s = Some s1 \<and>
    property_flush (flash_storage nor_sim) ample_env None s1 = Some s2 \<and>
    power_on (flash_storage nor_sim) (nc_nv (pr_nv s2)) = Some s3 \<and>
    aduio_system_init (flash_storage nor_sim) ample_env quiet_state s3 = Some (0, st3, s4) \<and> system_volume_get AUDIO_STREAM_MUSIC st3 = 9"
proof -
  obtain s where s: "power_on (flash_storage nor_sim) erased_nvram = Some s"
      "props_hold (\<lambda>d. True) (\<lambda>d. d) Map.empty Map.empty s Map.empty Map.empty {}"
    using erased_power_on by blast
  let ?r = "audio_system_set_stream_volume AUDIO_STREAM_MUSIC 9 quiet_state"
  have new: "calls (snd ?r) = [PropertySet ''BTPLAY_VOLUME'' 9]" "system_volume_get AUDIO_STREAM_MUSIC (snd ?r) = 9"
      "audio_policy_check_save_volume_to_nvram quiet_state"
    by code_simp+
  have "volume_text 9 = [0x39, 0]" by code_simp
  then have "save_cmds [PropertySet ''BTPLAY_VOLUME'' 9] = [Set_Prop (c_name ''BTPLAY_VOLUME'') [0x39, 0]]" by (simp add: save_cmds_def)
  then have fit: "all_fit prop_spec prop_fits (Map.empty, Map.empty, {}) (save_cmds (calls (snd ?r)))"
    unfolding new by (simp add: fit_defs c_name_def str_ncmp_eq_def CFG_BT_KEYS_def)
  have short: "short_values (Map.empty ++ Map.empty ++ flushed Map.empty Map.empty)" by (rule short_values_none) (simp add: flushed_def)
  have st: "audio_system quiet_state = Some zero_audio_system" "calls (snd ?r) = calls quiet_state @ calls (snd ?r)" by (simp_all add: quiet_state_def)
  have "\<forall>k m. pe_malloc ample_env k m" "AUDIO_STREAM_MUSIC \<in> set separate_streams" by (simp_all add: ample_env_def separate_streams_def)
  from volume_survives_power_cycle [OF nor.nor_flash_axioms order_refl this(1) s(2) short st(1) new(3) this(2) prod.collapse [symmetric] st(2) fit refl, of 0]
  show ?thesis using s(1) new(2) by auto
qed

end
